(* ===== verification/Prelude.thy ===== *)
theory Prelude imports
  Main
  "HOL-Library.Word"
  "HOL-Library.While_Combinator"
begin

text \<open>
  Shared vocabulary of the development: the machine types of the code base, the
  hint collections the component theories fill, and the generic lemmas on lists, words and
  natural numbers that several components use.
\<close>

unbundle bit_operations_syntax

text \<open>
  \<open>codepoint_t\<close> is an \<open>unsigned\<close> and \<open>length_t\<close> a \<open>uint16_t\<close> in the
  code. Both are modelled by \<^typ>\<open>nat\<close>: code points never exceed \<open>0x10FFFF\<close> and the
  lengths of the runs of a set add up to 34816, so that neither type can wrap around. A
  subtraction on them always stands under a guard of the code that makes it exact.
\<close>

type_synonym codepoint = nat
type_synonym interval = "codepoint \<times> codepoint"
type_synonym bitquad = "32 word"

named_theorems uset_simps "characteristic equations of the Unicode set operations"
named_theorems uset_intros "invariant preservation of the Unicode set operations"

section \<open>Lists\<close>

lemma take_min_length: "take (min n (length xs)) xs = take n xs"
  by (simp add: min_def)

lemma replicate_add_snoc: "replicate n x @ [x] = x # replicate n x"
  by (induction n) auto

lemma map2_replicate: "map2 f (replicate n x) (replicate n y) = replicate n (f x y)"
  by (induction n) auto

lemma map2_replicate_left:
  "length ys = n \<Longrightarrow> map2 f (replicate n x) ys = map (f x) ys"
  by (induction ys arbitrary: n) auto

lemma map2_replicate_right:
  "length xs = n \<Longrightarrow> map2 f xs (replicate n y) = map (\<lambda>x. f x y) xs"
  by (induction xs arbitrary: n) auto

lemma map2_take_drop:
  "map2 f xs ys = map2 f (take n xs) (take n ys) @ map2 f (drop n xs) (drop n ys)"
proof (induction xs arbitrary: n ys)
  case Nil
  then show ?case by simp
next
  case (Cons x xs)
  show ?case
  proof (cases "n = 0 \<or> ys = []")
    case True
    then show ?thesis by auto
  next
    case False
    then obtain m y ys' where "n = Suc m" "ys = y # ys'"
      by (cases n; cases ys) auto
    with Cons.IH[of ys' m] show ?thesis by simp
  qed
qed

section \<open>Words\<close>

lemma and_push_bit_one_eq_0:
  "(q AND push_bit n 1 = 0) = (\<not> bit q n)" for q :: "'a::len word"
  by (simp flip: exp_eq_0_imp_not_bit add: push_bit_of_1 and_exp_eq_0_iff_not_bit)

end
