(* ===== verification/USet_Core.thy ===== *)
theory USet_Core imports Prelude begin

text \<open>
  The sparse bitset of \<open>lib/ucd/core/unicode_set.cpp\<close>: run-length encoded runs of
  Empty, Mixed and Full quads, with the Mixed quads listed explicitly. This theory holds the
  data, the two append operations every constructor goes through, the sanity check
  \<open>verify\<close>, and the abstraction of a set to the dense list of its quads, over which
  the other theories state what each operation computes.
\<close>

section \<open>Constants and data\<close>

definition UNICODE_MAX :: codepoint where
  "UNICODE_MAX = 0x10FFFF"

definition QUAD_BITS :: nat where
  "QUAD_BITS = 32"

definition QUAD_LIMIT :: nat where
  "QUAD_LIMIT = QUAD_BITS - 1"

definition UNICODE_QUAD_COUNT :: nat where
  "UNICODE_QUAD_COUNT = (UNICODE_MAX + 1) div QUAD_BITS"

definition FULL_QUAD_MASK :: bitquad where
  "FULL_QUAD_MASK = NOT 0"

datatype run_type = Empty | Mixed | Full

type_synonym run = "run_type \<times> nat"

definition typeOf :: "run \<Rightarrow> run_type" where
  "typeOf r = fst r"

definition lengthOf :: "run \<Rightarrow> nat" where
  "lengthOf r = snd r"

text \<open>
  The arrays \<open>mRuns\<close> and \<open>mQuads\<close> with their lengths are lists. The capacities
  are kept: a capacity of 0 marks an array the set does not own (a predefined constant), and
  the mutating operations branch on it.
\<close>

record unicode_set =
  mRuns :: "run list"
  mQuads :: "bitquad list"
  mRunCapacity :: nat
  mQuadCapacity :: nat

lemma quad_constants [simp]:
  "QUAD_BITS = 32" "QUAD_LIMIT = 31" "UNICODE_MAX = 1114111" "UNICODE_QUAD_COUNT = 34816"
  by (simp_all add: QUAD_BITS_def QUAD_LIMIT_def UNICODE_MAX_def UNICODE_QUAD_COUNT_def)

lemma bit_FULL_QUAD_MASK [simp]: "bit FULL_QUAD_MASK n \<longleftrightarrow> n < 32"
  by (simp add: FULL_QUAD_MASK_def bit_simps)

lemma FULL_QUAD_MASK_neq_0 [simp]: "FULL_QUAD_MASK \<noteq> 0" "0 \<noteq> FULL_QUAD_MASK"
  by (simp_all add: FULL_QUAD_MASK_def)

lemma NOT_FULL_QUAD_MASK [simp]: "NOT FULL_QUAD_MASK = 0"
  by (simp add: FULL_QUAD_MASK_def)

lemma quad_algebra [simp]:
  "x AND FULL_QUAD_MASK = x" "FULL_QUAD_MASK AND x = x"
  "x OR FULL_QUAD_MASK = FULL_QUAD_MASK" "FULL_QUAD_MASK OR x = FULL_QUAD_MASK"
  "x XOR FULL_QUAD_MASK = NOT x" "FULL_QUAD_MASK XOR x = NOT x"
  by (simp_all add: FULL_QUAD_MASK_def)

lemma and_QUAD_LIMIT [simp]: "cp AND 31 = cp mod 32" for cp :: nat
  using and_nat_numerals(1) take_bit_eq_mask [of 5 cp] by (simp add: mask_eq_exp_minus_1 take_bit_eq_mod)

section \<open>Appending runs and quads\<close>

definition append_run :: "run_type \<Rightarrow> nat \<Rightarrow> run list \<Rightarrow> run list" where
  "append_run type len runs =
     (if len = 0 then runs
      else if runs \<noteq> [] \<and> typeOf (last runs) = type
        then butlast runs @ [(type, lengthOf (last runs) + len)]
      else runs @ [(type, len)])"

text \<open>The two output vectors of the code travel as a pair \<open>(runs, quads)\<close>.\<close>

type_synonym run_quads = "run list \<times> bitquad list"

fun append_quad :: "bitquad \<Rightarrow> run_quads \<Rightarrow> run_quads" where
  "append_quad quad (runs, quads) =
     (if quad = 0 then (append_run Empty 1 runs, quads)
      else if quad = FULL_QUAD_MASK then (append_run Full 1 runs, quads)
      else (append_run Mixed 1 runs, quads @ [quad]))"

fun append_run_to :: "run_type \<Rightarrow> nat \<Rightarrow> run_quads \<Rightarrow> run_quads" where
  "append_run_to type n (runs, quads) = (append_run type n runs, quads)"

section \<open>The sanity check\<close>

datatype verify_error = ZeroLengthRun | WrongQuadCount nat | WrongMixedCount nat | IllegalMixedQuad

fun verify_runs :: "run list \<Rightarrow> nat \<Rightarrow> nat \<Rightarrow> verify_error + nat \<times> nat" where
  "verify_runs [] qsum mixedQuads = Inr (qsum, mixedQuads)"
| "verify_runs (r # rs) qsum mixedQuads =
     (if lengthOf r = 0 then Inl ZeroLengthRun
      else verify_runs rs (qsum + lengthOf r)
             (if typeOf r = Mixed then mixedQuads + lengthOf r else mixedQuads))"

definition verify :: "run list \<Rightarrow> bitquad list \<Rightarrow> verify_error + unit" where
  "verify runs quads =
     (case verify_runs runs 0 0 of
        Inl e \<Rightarrow> Inl e
      | Inr (qsum, mixedQuads) \<Rightarrow>
          if qsum \<noteq> UNICODE_QUAD_COUNT then Inl (WrongQuadCount qsum)
          else if mixedQuads \<noteq> length quads then Inl (WrongMixedCount mixedQuads)
          else if \<exists>q \<in> set quads. q = 0 \<or> q = FULL_QUAD_MASK then Inl IllegalMixedQuad
          else Inr ())"

section \<open>The dense list of quads\<close>

fun quads_of :: "run list \<Rightarrow> bitquad list \<Rightarrow> bitquad list" where
  "quads_of [] qs = []"
| "quads_of ((Empty, n) # rs) qs = replicate n 0 @ quads_of rs qs"
| "quads_of ((Full, n) # rs) qs = replicate n FULL_QUAD_MASK @ quads_of rs qs"
| "quads_of ((Mixed, n) # rs) qs = take n qs @ quads_of rs (drop n qs)"

fun mixed_count :: "run list \<Rightarrow> nat" where
  "mixed_count [] = 0"
| "mixed_count ((t, n) # rs) = (if t = Mixed then n else 0) + mixed_count rs"

definition run_total :: "run list \<Rightarrow> nat" where
  "run_total rs = sum_list (map snd rs)"

definition runs_ok :: "run_quads \<Rightarrow> bool" where
  "runs_ok = (\<lambda>(rs, qs). (\<forall>r \<in> set rs. 0 < snd r) \<and> mixed_count rs = length qs
     \<and> (\<forall>q \<in> set qs. q \<noteq> 0 \<and> q \<noteq> FULL_QUAD_MASK))"

definition canonical_runs :: "run list \<Rightarrow> bool" where
  "canonical_runs rs \<longleftrightarrow> distinct_adj (map fst rs)"

definition dense :: "unicode_set \<Rightarrow> bitquad list" where
  "dense s = quads_of (mRuns s) (mQuads s)"

definition uset_ok :: "unicode_set \<Rightarrow> bool" where
  "uset_ok s \<longleftrightarrow> verify (mRuns s) (mQuads s) = Inr ()"

definition canonical :: "unicode_set \<Rightarrow> bool" where
  "canonical s \<longleftrightarrow> uset_ok s \<and> canonical_runs (mRuns s)"

definition quads_mem :: "bitquad list \<Rightarrow> codepoint \<Rightarrow> bool" where
  "quads_mem qs cp \<longleftrightarrow> cp div 32 < length qs \<and> bit (qs ! (cp div 32)) (cp mod 32)"

definition codepoints :: "unicode_set \<Rightarrow> codepoint set" where
  "codepoints s = {cp. quads_mem (dense s) cp}"

section \<open>Lemmas on the encoding\<close>

lemma run_total_simps [simp]:
  "run_total [] = 0" "run_total (r # rs) = snd r + run_total rs"
  "run_total (rs @ rs') = run_total rs + run_total rs'"
  by (simp_all add: run_total_def)

lemma mixed_count_append [simp]: "mixed_count (rs @ rs') = mixed_count rs + mixed_count rs'"
  by (induction rs rule: mixed_count.induct) auto

lemma length_quads_of:
  "mixed_count rs \<le> length qs \<Longrightarrow> length (quads_of rs qs) = run_total rs"
  by (induction rs qs rule: quads_of.induct) auto

lemma quads_of_append:
  "mixed_count rs = length qs \<Longrightarrow>
   quads_of (rs @ rs') (qs @ qs') = quads_of rs qs @ quads_of rs' qs'"
proof (induction rs qs rule: quads_of.induct)
  case (4 n rs qs)
  then have "n \<le> length qs" by simp
  with 4 show ?case by simp
qed auto

lemma quads_of_append_run:
  assumes "mixed_count rs = length qs"
  shows "quads_of (append_run Empty n rs) qs = quads_of rs qs @ replicate n 0"
    and "quads_of (append_run Full n rs) qs = quads_of rs qs @ replicate n FULL_QUAD_MASK"
    and "length qs' = n \<Longrightarrow> quads_of (append_run Mixed n rs) (qs @ qs') = quads_of rs qs @ qs'"
proof -
  consider (empty) "rs = []" | (snoc) rs' t m where "rs = rs' @ [(t, m)]"
    by (metis rev_exhaust surj_pair)
  then have *: "quads_of (append_run t n rs) (qs @ qs') = quads_of rs qs @ quads_of [(t, n)] qs'"
    if "(if t = Mixed then n else 0) = length qs'" for t qs'
  proof cases
    case empty
    with assms show ?thesis by (cases t) (auto simp: append_run_def)
  next
    case (snoc rs' t' m)
    obtain qa qb where qs: "qs = qa @ qb" "mixed_count rs' = length qa"
      using assms snoc append_take_drop_id[of "mixed_count rs'" qs] by (metis length_take
          mixed_count_append le_add1 min_absorb2)
    have qb: "(if t' = Mixed then m else 0) = length qb"
      using assms snoc qs by simp
    have "quads_of (append_run t n rs) (qa @ qb @ qs') =
          quads_of rs' qa @ quads_of [(t', m)] qb @ quads_of [(t, n)] qs'"
      using snoc that qb
      by (cases t; cases t')
         (auto simp: append_run_def typeOf_def lengthOf_def quads_of_append[OF qs(2)]
            quads_of_append[OF qs(2), of _ "[]", simplified]
            replicate_add split: if_splits)
    moreover have "quads_of rs qs = quads_of rs' qa @ quads_of [(t', m)] qb"
      using snoc qs by (simp add: quads_of_append)
    ultimately show ?thesis using qs by simp
  qed
  show "quads_of (append_run Empty n rs) qs = quads_of rs qs @ replicate n 0"
    using *[of Empty "[]"] by simp
  show "quads_of (append_run Full n rs) qs = quads_of rs qs @ replicate n FULL_QUAD_MASK"
    using *[of Full "[]"] by simp
  show "length qs' = n \<Longrightarrow> quads_of (append_run Mixed n rs) (qs @ qs') = quads_of rs qs @ qs'"
    using *[of Mixed qs'] by simp
qed

lemma mixed_count_append_run [simp]:
  "mixed_count (append_run t n rs) = mixed_count rs + (if t = Mixed then n else 0)"
  by (cases rs rule: rev_cases) (auto simp: append_run_def typeOf_def lengthOf_def)

lemma run_total_append_run [simp]: "run_total (append_run t n rs) = run_total rs + n"
  by (cases rs rule: rev_cases) (auto simp: append_run_def typeOf_def lengthOf_def)

lemma append_run_pos:
  "\<forall>r \<in> set rs. 0 < snd r \<Longrightarrow> \<forall>r \<in> set (append_run t n rs). 0 < snd r"
  by (cases rs rule: rev_cases) (auto simp: append_run_def typeOf_def lengthOf_def)

lemma canonical_append_run:
  "canonical_runs rs \<Longrightarrow> canonical_runs (append_run t n rs)"
  by (cases rs rule: rev_cases)
     (auto simp: append_run_def canonical_runs_def typeOf_def lengthOf_def distinct_adj_append_iff)

lemma append_run_add:
  "0 < m \<Longrightarrow> append_run t n (append_run t m rs) = append_run t (m + n) rs"
  by (auto simp: append_run_def typeOf_def lengthOf_def)

lemma append_run_0 [simp]: "append_run t 0 rs = rs"
  by (simp add: append_run_def)

section \<open>Building a set quad by quad\<close>

definition compress_from :: "run_quads \<Rightarrow> bitquad list \<Rightarrow> run_quads" where
  "compress_from acc qs = fold append_quad qs acc"

definition compress :: "bitquad list \<Rightarrow> run_quads" where
  "compress qs = compress_from ([], []) qs"

lemma compress_from_simps [simp]:
  "compress_from acc [] = acc"
  "compress_from acc (q # qs) = compress_from (append_quad q acc) qs"
  "compress_from acc (qs @ qs') = compress_from (compress_from acc qs) qs'"
  by (simp_all add: compress_from_def)

lemma append_run_to_eq_compress:
  "append_run_to Empty n acc = compress_from acc (replicate n 0)"
  "append_run_to Full n acc = compress_from acc (replicate n FULL_QUAD_MASK)"
proof (induction n)
  case 0
  show "append_run_to Empty 0 acc = compress_from acc (replicate 0 0)"
    and "append_run_to Full 0 acc = compress_from acc (replicate 0 FULL_QUAD_MASK)"
    by (cases acc; simp)+
next
  case (Suc n)
  obtain rs qs where acc: "acc = (rs, qs)" by (cases acc) auto
  have step: "append_run t (Suc n) rs = append_run t 1 (append_run t n rs)" for t
    by (cases n) (simp_all add: append_run_def typeOf_def lengthOf_def)
  have snoc: "compress_from acc (replicate (Suc n) q) = append_quad q (compress_from acc (replicate n q))" for q
    by (simp only: replicate_Suc replicate_append_same [symmetric] compress_from_simps)
  show "append_run_to Empty (Suc n) acc = compress_from acc (replicate (Suc n) 0)"
    using step[of Empty] unfolding snoc Suc.IH(1) [symmetric] by (simp add: acc)
  show "append_run_to Full (Suc n) acc = compress_from acc (replicate (Suc n) FULL_QUAD_MASK)"
    using step[of Full] unfolding snoc Suc.IH(2) [symmetric] by (simp add: acc)
qed

lemma append_quad_ok:
  assumes "runs_ok acc"
  shows "runs_ok (append_quad q acc)"
    and "case_prod quads_of (append_quad q acc) = case_prod quads_of acc @ [q]"
proof -
  obtain rs qs where acc: "acc = (rs, qs)" by (cases acc) auto
  then have ok: "\<forall>r \<in> set rs. 0 < snd r" "mixed_count rs = length qs"
    "\<forall>q \<in> set qs. q \<noteq> 0 \<and> q \<noteq> FULL_QUAD_MASK"
    using assms by (auto simp: runs_ok_def)
  show "runs_ok (append_quad q acc)"
    using ok append_run_pos[OF ok(1), of _ 1] by (auto simp: acc runs_ok_def)
  show "case_prod quads_of (append_quad q acc) = case_prod quads_of acc @ [q]"
    using quads_of_append_run(1,2)[OF ok(2), of 1] quads_of_append_run(3)[OF ok(2), of "[q]" 1]
    by (auto simp: acc)
qed

lemma compress_from_ok:
  assumes "runs_ok acc"
  shows "runs_ok (compress_from acc qs)"
    and "case_prod quads_of (compress_from acc qs) = case_prod quads_of acc @ qs"
  using assms by (induction qs arbitrary: acc) (simp_all add: append_quad_ok)

lemma canonical_append_quad:
  "canonical_runs (fst acc) \<Longrightarrow> canonical_runs (fst (append_quad q acc))"
  by (cases acc) (simp add: canonical_append_run)

lemma canonical_compress_from:
  "canonical_runs (fst acc) \<Longrightarrow> canonical_runs (fst (compress_from acc qs))"
  by (induction qs arbitrary: acc) (simp_all add: canonical_append_quad)

lemma runs_ok_Nil [simp]: "runs_ok ([], [])"
  by (simp add: runs_ok_def)

lemma compress_ok:
  "runs_ok (compress qs)" "case_prod quads_of (compress qs) = qs"
  "canonical_runs (fst (compress qs))"
  unfolding compress_def
  using compress_from_ok[OF runs_ok_Nil, of qs] canonical_compress_from[of "([], [])" qs]
  by (simp_all add: canonical_runs_def)

section \<open>What the sanity check establishes\<close>

lemma verify_runs_eq:
  "verify_runs rs a b = (if \<forall>r \<in> set rs. 0 < snd r then Inr (a + run_total rs, b + mixed_count rs)
     else Inl ZeroLengthRun)"
  by (induction rs a b rule: verify_runs.induct) (auto simp: lengthOf_def typeOf_def)

lemma verify_iff:
  "verify rs qs = Inr () \<longleftrightarrow> runs_ok (rs, qs) \<and> run_total rs = UNICODE_QUAD_COUNT"
  by (auto simp: verify_def verify_runs_eq runs_ok_def)

lemma uset_okD:
  assumes "uset_ok s"
  shows "runs_ok (mRuns s, mQuads s)" "run_total (mRuns s) = 34816" "length (dense s) = 34816"
  using assms length_quads_of[of "mRuns s" "mQuads s"]
  by (auto simp: uset_ok_def verify_iff runs_ok_def dense_def)

lemma uset_okI:
  "runs_ok (mRuns s, mQuads s) \<Longrightarrow> length (dense s) = 34816 \<Longrightarrow> uset_ok s"
  using length_quads_of[of "mRuns s" "mQuads s"]
  by (auto simp: uset_ok_def verify_iff runs_ok_def dense_def)

lemma codepoints_le_max: "uset_ok s \<Longrightarrow> cp \<in> codepoints s \<Longrightarrow> cp \<le> UNICODE_MAX"
  by (auto simp: codepoints_def quads_mem_def dest: uset_okD(3))

end
