(* ===== verification/USet_Iter.thy ===== *)
theory USet_Iter imports USet_Core begin

text \<open>
  The quad iterator of \<open>unicode_set.cpp\<close> and the operations that walk two sets in
  lock step with it: intersection, union, difference, symmetric difference, in-place union,
  the subset test and the intersection test. Every loop body meets the contract of the locale
  \<open>quad_zip\<close>: it consumes one stretch of both iterators and emits the quadwise
  combination. The locale turns that into the value of the whole loop.
\<close>

section \<open>The quad iterator\<close>

record quad_iterator =
  mRunIterator :: "run list"
  mQuadIterator :: "bitquad list"
  mType :: run_type
  mRemaining :: nat

definition quad_begin :: "unicode_set \<Rightarrow> quad_iterator" where
  "quad_begin s = \<lparr>mRunIterator = mRuns s, mQuadIterator = mQuads s,
     mType = typeOf (hd (mRuns s)), mRemaining = lengthOf (hd (mRuns s))\<rparr>"

definition iter_quad :: "quad_iterator \<Rightarrow> bitquad" where
  "iter_quad it = hd (mQuadIterator it)"

lemma tl_eq_Cons_length: "tl xs = y # ys \<Longrightarrow> Suc (length ys) < length xs"
  by (cases xs) auto

function quad_advance :: "nat \<Rightarrow> quad_iterator \<Rightarrow> quad_iterator" where
  "quad_advance n it =
     (if n = 0 then it
      else if n < mRemaining it then
        it\<lparr>mQuadIterator := (if mType it = Mixed then drop n (mQuadIterator it) else mQuadIterator it),
           mRemaining := mRemaining it - n\<rparr>
      else
        let quads = (if mType it = Mixed then drop (mRemaining it) (mQuadIterator it)
                     else mQuadIterator it)
        in case tl (mRunIterator it) of
             [] \<Rightarrow> \<lparr>mRunIterator = [], mQuadIterator = quads, mType = Empty, mRemaining = 0\<rparr>
           | r # rs \<Rightarrow> quad_advance (n - mRemaining it)
               \<lparr>mRunIterator = r # rs, mQuadIterator = quads,
                mType = typeOf r, mRemaining = lengthOf r\<rparr>)"
  by pat_completeness auto
termination
  by (relation "measure (\<lambda>(n, it). length (mRunIterator it))") (auto dest: tl_eq_Cons_length)

declare quad_advance.simps [simp del]

text \<open>The quads an iterator has still to visit.\<close>

definition iter_quads :: "quad_iterator \<Rightarrow> bitquad list" where
  "iter_quads it = (case mRunIterator it of [] \<Rightarrow> []
     | r # rs \<Rightarrow> quads_of ((mType it, mRemaining it) # rs) (mQuadIterator it))"

definition iter_ok :: "quad_iterator \<Rightarrow> bool" where
  "iter_ok it \<longleftrightarrow> (case mRunIterator it of
       [] \<Rightarrow> mType it = Empty \<and> mRemaining it = 0 \<and> mQuadIterator it = []
     | r # rs \<Rightarrow> runs_ok ((mType it, mRemaining it) # rs, mQuadIterator it))"

lemma runs_ok_Cons:
  "runs_ok ((t, n) # rs, qs) \<longleftrightarrow> 0 < n \<and> (if t = Mixed
     then n \<le> length qs \<and> (\<forall>q \<in> set (take n qs). q \<noteq> 0 \<and> q \<noteq> FULL_QUAD_MASK) \<and> runs_ok (rs, drop n qs)
     else runs_ok (rs, qs))"
proof -
  have "set qs = set (take n qs) \<union> set (drop n qs)"
    by (metis append_take_drop_id set_append)
  then show ?thesis by (auto simp: runs_ok_def)
qed

lemma quad_begin_spec:
  assumes "uset_ok s"
  shows "iter_ok (quad_begin s)" "iter_quads (quad_begin s) = dense s"
proof -
  from uset_okD[OF assms] obtain r rs where "mRuns s = r # rs"
    by (cases "mRuns s") auto
  then show "iter_ok (quad_begin s)" "iter_quads (quad_begin s) = dense s"
    using uset_okD(1)[OF assms]
    by (simp_all add: quad_begin_def iter_ok_def iter_quads_def dense_def typeOf_def lengthOf_def)
qed

lemma iter_remaining_le: "iter_ok it \<Longrightarrow> mRemaining it \<le> length (iter_quads it)"
  by (cases "mType it") (auto simp: iter_ok_def iter_quads_def runs_ok_Cons split: list.splits)

lemma iter_remaining_0: "iter_ok it \<Longrightarrow> mRemaining it = 0 \<longleftrightarrow> iter_quads it = []"
  by (cases "mType it") (auto simp: iter_ok_def iter_quads_def runs_ok_Cons split: list.splits)

lemma take_iter_quads:
  assumes "iter_ok it" "n \<le> mRemaining it"
  shows "mType it = Empty \<Longrightarrow> take n (iter_quads it) = replicate n 0"
    and "mType it = Full \<Longrightarrow> take n (iter_quads it) = replicate n FULL_QUAD_MASK"
    and "mType it = Mixed \<Longrightarrow> take n (iter_quads it) = take n (mQuadIterator it)"
  using assms by (auto simp: iter_ok_def iter_quads_def runs_ok_Cons min_def split: list.splits)

lemma quad_advance_spec:
  assumes "iter_ok it" "n \<le> length (iter_quads it)"
  shows "iter_ok (quad_advance n it) \<and> iter_quads (quad_advance n it) = drop n (iter_quads it)"
  using assms
proof (induction n it rule: quad_advance.induct)
  case (1 n it)
  show ?case
  proof (cases "n = 0 \<or> mRunIterator it = []")
    case True
    with "1.prems" show ?thesis
      by (auto simp: quad_advance.simps[of n it] iter_quads_def)
  next
    case False
    then obtain r rs where rs: "mRunIterator it = r # rs" and n: "0 < n"
      by (cases "mRunIterator it") auto
    show ?thesis
    proof (cases "n < mRemaining it")
      case True
      then have "set (take (mRemaining it - n) (drop n (mQuadIterator it))) \<subseteq> set (take (mRemaining it) (mQuadIterator it))"
        by (metis drop_take set_drop_subset)
      with True rs n "1.prems" show ?thesis
        by (cases "mType it")
           (auto simp: quad_advance.simps[of n it] iter_ok_def iter_quads_def runs_ok_Cons drop_take
              simp flip: drop_replicate)
    next
      case False
      show ?thesis
      proof (cases rs)
        case Nil
        with False rs n have eq: "quad_advance n it = \<lparr>mRunIterator = [],
            mQuadIterator = (if mType it = Mixed then drop (mRemaining it) (mQuadIterator it) else mQuadIterator it),
            mType = Empty, mRemaining = 0\<rparr>"
          by (simp add: quad_advance.simps[of n it] Let_def)
        from Nil False rs "1.prems" show ?thesis
          unfolding eq by (cases "mType it") (auto simp: iter_ok_def iter_quads_def runs_ok_Cons runs_ok_def)
      next
        case (Cons r' rs')
        let ?qs = "if mType it = Mixed then drop (mRemaining it) (mQuadIterator it) else mQuadIterator it"
        let ?it = "\<lparr>mRunIterator = r' # rs', mQuadIterator = ?qs, mType = typeOf r', mRemaining = lengthOf r'\<rparr>"
        have ok: "iter_ok ?it" and q: "iter_quads ?it = drop (mRemaining it) (iter_quads it)"
          using rs Cons "1.prems"(1)
          by (cases r'; cases "mType it"; auto simp: iter_ok_def iter_quads_def runs_ok_Cons typeOf_def lengthOf_def)+
        have "n - mRemaining it \<le> length (iter_quads ?it)"
          using q "1.prems"(2) by simp
        from "1.IH"[OF _ _ refl _ ok this] n False rs Cons q show ?thesis
          by (simp add: quad_advance.simps[of n it] Let_def)
      qed
    qed
  qed
qed

lemma iter_ok_advance [simp]:
  "iter_ok it \<Longrightarrow> n \<le> length (iter_quads it) \<Longrightarrow> iter_ok (quad_advance n it)"
  by (simp add: quad_advance_spec)

lemma iter_quads_advance [simp]:
  "iter_ok it \<Longrightarrow> n \<le> length (iter_quads it) \<Longrightarrow> iter_quads (quad_advance n it) = drop n (iter_quads it)"
  by (simp add: quad_advance_spec)


section \<open>Copying quads under an iterator\<close>

text \<open>The inner loops \<open>for (i = 0; i != n; ++i, ++it) append_quad(f(it.quad()), quads, runs)\<close>
  over one iterator, and the same over two iterators.\<close>

fun append_quads1 :: "(bitquad \<Rightarrow> bitquad) \<Rightarrow> nat \<Rightarrow> quad_iterator \<Rightarrow> run_quads \<Rightarrow> quad_iterator \<times> run_quads" where
  "append_quads1 f 0 it acc = (it, acc)"
| "append_quads1 f (Suc n) it acc =
     append_quads1 f n (quad_advance 1 it) (append_quad (f (iter_quad it)) acc)"

fun append_quads2 :: "(bitquad \<Rightarrow> bitquad \<Rightarrow> bitquad) \<Rightarrow> nat \<Rightarrow> quad_iterator \<Rightarrow> quad_iterator \<Rightarrow> run_quads
    \<Rightarrow> quad_iterator \<times> quad_iterator \<times> run_quads" where
  "append_quads2 f 0 i1 i2 acc = (i1, i2, acc)"
| "append_quads2 f (Suc n) i1 i2 acc =
     append_quads2 f n (quad_advance 1 i1) (quad_advance 1 i2)
       (append_quad (f (iter_quad i1) (iter_quad i2)) acc)"

lemma quad_advance_0 [simp]: "quad_advance 0 it = it"
  by (simp add: quad_advance.simps)

lemma quad_advance_1_mixed:
  assumes "iter_ok it" "mType it = Mixed" "1 < mRemaining it"
  shows "quad_advance 1 it = it\<lparr>mQuadIterator := tl (mQuadIterator it), mRemaining := mRemaining it - 1\<rparr>"
  using assms by (subst quad_advance.simps) (simp add: drop_Suc)

lemma quad_advance_Suc_mixed:
  assumes "iter_ok it" "mType it = Mixed" "Suc n \<le> mRemaining it"
  shows "quad_advance n (quad_advance 1 it) = quad_advance (Suc n) it"
proof (cases "n = 0")
  case False
  with assms have "1 < mRemaining it" by simp
  note eq = quad_advance_1_mixed[OF assms(1,2) this]
  show ?thesis
    unfolding eq using assms False
    by (simp add: quad_advance.simps[of "Suc n"] quad_advance.simps[of n] drop_Suc Let_def
        split: list.splits)
       (metis Suc_diff_le Suc_pred drop_Suc less_eq_Suc_le order_le_less_trans zero_le)
qed simp

lemma iter_quad_mixed:
  assumes "iter_ok it" "mType it = Mixed" "0 < mRemaining it"
  shows "iter_quads it = iter_quad it # drop 1 (iter_quads it)"
proof -
  from assms have "mQuadIterator it \<noteq> []" "mRunIterator it \<noteq> []"
    by (auto simp: iter_ok_def runs_ok_Cons split: list.splits)
  with assms show ?thesis
    by (cases "mQuadIterator it"; cases "mRunIterator it"; cases "mRemaining it")
       (simp_all add: iter_quads_def iter_quad_def)
qed

lemma mixed_step:
  assumes "iter_ok it" "mType it = Mixed" "Suc n \<le> mRemaining it"
  shows "n = 0 \<or> mType (quad_advance 1 it) = Mixed" "n \<le> mRemaining (quad_advance 1 it) \<or> n = 0"
    "iter_ok (quad_advance 1 it)"
    "take (Suc n) (iter_quads it) = iter_quad it # take n (iter_quads (quad_advance 1 it))"
proof -
  have len: "1 \<le> length (iter_quads it)"
    using iter_remaining_le[OF assms(1)] assms(3) by simp
  show "n = 0 \<or> mType (quad_advance 1 it) = Mixed" "n \<le> mRemaining (quad_advance 1 it) \<or> n = 0"
    using assms quad_advance_1_mixed[OF assms(1,2)] by (cases n; simp)+
  show "iter_ok (quad_advance 1 it)"
    using assms(1) len by simp
  show "take (Suc n) (iter_quads it) = iter_quad it # take n (iter_quads (quad_advance 1 it))"
    using iter_quad_mixed[OF assms(1,2)] assms(1,3) len
    by (metis One_nat_def Suc_le_lessD iter_quads_advance take_Suc_Cons zero_less_Suc less_le_trans)
qed

lemma append_quads1_spec:
  assumes "iter_ok it" "mType it = Mixed" "n \<le> mRemaining it"
  shows "append_quads1 f n it acc =
    (quad_advance n it, compress_from acc (map f (take n (iter_quads it))))"
  using assms
proof (induction n arbitrary: it acc)
  case (Suc n)
  note step = mixed_step[OF Suc.prems]
  show ?case
  proof (cases "n = 0")
    case True
    with step(4) show ?thesis by simp
  next
    case False
    with Suc.IH[of "quad_advance 1 it"] step quad_advance_Suc_mixed[OF Suc.prems]
    show ?thesis by simp
  qed
qed simp

lemma append_quads2_spec:
  assumes "iter_ok i1" "mType i1 = Mixed" "n \<le> mRemaining i1"
    and "iter_ok i2" "mType i2 = Mixed" "n \<le> mRemaining i2"
  shows "append_quads2 f n i1 i2 acc =
    (quad_advance n i1, quad_advance n i2,
     compress_from acc (map2 f (take n (iter_quads i1)) (take n (iter_quads i2))))"
  using assms
proof (induction n arbitrary: i1 i2 acc)
  case (Suc n)
  note step = mixed_step[OF Suc.prems(1-3)] and step' = mixed_step[OF Suc.prems(4-6)]
  show ?case
  proof (cases "n = 0")
    case True
    with step(4) step'(4) show ?thesis by simp
  next
    case False
    with Suc.IH[of "quad_advance 1 i1" "quad_advance 1 i2"] step step'
      quad_advance_Suc_mixed[OF Suc.prems(1-3)] quad_advance_Suc_mixed[OF Suc.prems(4-6)]
    show ?thesis by simp
  qed
qed simp

section \<open>The binary operations\<close>

type_synonym zip_state = "quad_iterator \<times> quad_iterator \<times> run_quads"

fun zip_continues :: "zip_state \<Rightarrow> bool" where
  "zip_continues (i1, i2, acc) \<longleftrightarrow> min (mRemaining i1) (mRemaining i2) \<noteq> 0"

definition zip_loop :: "(zip_state \<Rightarrow> zip_state) \<Rightarrow> zip_state \<Rightarrow> zip_state" where
  "zip_loop body s = while zip_continues body s"

fun inter_body :: "zip_state \<Rightarrow> zip_state" where
  "inter_body (i1, i2, acc) =
     (let n = min (mRemaining i1) (mRemaining i2) in
      if mType i1 = Full \<and> mType i2 = Full then
        (quad_advance n i1, quad_advance n i2, append_run_to Full n acc)
      else if mType i1 = Empty \<or> mType i2 = Empty then
        (quad_advance n i1, quad_advance n i2, append_run_to Empty n acc)
      else if mType i1 = Full then
        let (i2', acc') = append_quads1 (\<lambda>q. q) n i2 acc in (quad_advance n i1, i2', acc')
      else if mType i2 = Full then
        let (i1', acc') = append_quads1 (\<lambda>q. q) n i1 acc in (i1', quad_advance n i2, acc')
      else append_quads2 (AND) n i1 i2 acc)"

fun union_body :: "zip_state \<Rightarrow> zip_state" where
  "union_body (i1, i2, acc) =
     (let n = min (mRemaining i1) (mRemaining i2) in
      if mType i1 = Empty \<and> mType i2 = Empty then
        (quad_advance n i1, quad_advance n i2, append_run_to Empty n acc)
      else if mType i1 = Full \<or> mType i2 = Full then
        (quad_advance n i1, quad_advance n i2, append_run_to Full n acc)
      else if mType i1 = Empty then
        let (i2', acc') = append_quads1 (\<lambda>q. q) n i2 acc in (quad_advance n i1, i2', acc')
      else if mType i2 = Empty then
        let (i1', acc') = append_quads1 (\<lambda>q. q) n i1 acc in (i1', quad_advance n i2, acc')
      else append_quads2 (OR) n i1 i2 acc)"

fun diff_body :: "zip_state \<Rightarrow> zip_state" where
  "diff_body (i1, i2, acc) =
     (let n = min (mRemaining i1) (mRemaining i2) in
      if mType i1 = Empty \<or> mType i2 = Full then
        (quad_advance n i1, quad_advance n i2, append_run_to Empty n acc)
      else if mType i1 = Full then
        if mType i2 = Empty then
          (quad_advance n i1, quad_advance n i2, append_run_to Full n acc)
        else
          let (i2', acc') = append_quads1 (\<lambda>q. NOT q) n i2 acc in (quad_advance n i1, i2', acc')
      else if mType i2 = Empty then
        let (i1', acc') = append_quads1 (\<lambda>q. q) n i1 acc in (i1', quad_advance n i2, acc')
      else append_quads2 (\<lambda>q1 q2. q1 AND NOT q2) n i1 i2 acc)"

fun symdiff_body :: "zip_state \<Rightarrow> zip_state" where
  "symdiff_body (i1, i2, acc) =
     (let n = min (mRemaining i1) (mRemaining i2) in
      if mType i1 \<noteq> Mixed \<and> mType i2 \<noteq> Mixed then
        (quad_advance n i1, quad_advance n i2,
         append_run_to (if mType i1 = mType i2 then Empty else Full) n acc)
      else if mType i1 = Empty then
        let (i2', acc') = append_quads1 (\<lambda>q. q) n i2 acc in (quad_advance n i1, i2', acc')
      else if mType i2 = Empty then
        let (i1', acc') = append_quads1 (\<lambda>q. q) n i1 acc in (i1', quad_advance n i2, acc')
      else if mType i1 = Full then
        let (i2', acc') = append_quads1 (\<lambda>q. NOT q) n i2 acc in (quad_advance n i1, i2', acc')
      else if mType i2 = Full then
        let (i1', acc') = append_quads1 (\<lambda>q. NOT q) n i1 acc in (i1', quad_advance n i2, acc')
      else append_quads2 (XOR) n i1 i2 acc)"

text \<open>The result is built from copies sized to fit: capacities equal lengths.\<close>

fun new_set :: "run_quads \<Rightarrow> unicode_set" where
  "new_set (runs, quads) = \<lparr>mRuns = runs, mQuads = quads,
     mRunCapacity = length runs, mQuadCapacity = length quads\<rparr>"

definition zip_sets :: "(zip_state \<Rightarrow> zip_state) \<Rightarrow> unicode_set \<Rightarrow> unicode_set \<Rightarrow> unicode_set" where
  "zip_sets body s t = new_set (snd (snd (zip_loop body (quad_begin s, quad_begin t, ([], [])))))"

definition operator_and :: "unicode_set \<Rightarrow> unicode_set \<Rightarrow> unicode_set" where
  "operator_and = zip_sets inter_body"

definition operator_plus :: "unicode_set \<Rightarrow> unicode_set \<Rightarrow> unicode_set" where
  "operator_plus = zip_sets union_body"

definition operator_minus :: "unicode_set \<Rightarrow> unicode_set \<Rightarrow> unicode_set" where
  "operator_minus = zip_sets diff_body"

definition operator_xor :: "unicode_set \<Rightarrow> unicode_set \<Rightarrow> unicode_set" where
  "operator_xor = zip_sets symdiff_body"

section \<open>The contract of a loop body\<close>

locale quad_zip =
  fixes body :: "zip_state \<Rightarrow> zip_state"
    and f :: "bitquad \<Rightarrow> bitquad \<Rightarrow> bitquad"
  assumes body_step:
    "\<lbrakk>iter_ok i1; iter_ok i2; n = min (mRemaining i1) (mRemaining i2); 0 < n\<rbrakk> \<Longrightarrow>
     body (i1, i2, acc) = (quad_advance n i1, quad_advance n i2,
       compress_from acc (map2 f (take n (iter_quads i1)) (take n (iter_quads i2))))"
begin

lemma zip_loop_value:
  assumes "iter_ok i1" "iter_ok i2" "length (iter_quads i1) = length (iter_quads i2)"
  shows "snd (snd (zip_loop body (i1, i2, acc))) =
    compress_from acc (map2 f (iter_quads i1) (iter_quads i2))"
  unfolding zip_loop_def
proof (rule while_rule[where P = "\<lambda>(j1, j2, acc'). iter_ok j1 \<and> iter_ok j2
      \<and> length (iter_quads j1) = length (iter_quads j2)
      \<and> compress_from acc' (map2 f (iter_quads j1) (iter_quads j2))
         = compress_from acc (map2 f (iter_quads i1) (iter_quads i2))"
      and r = "measure (\<lambda>(j1, j2, acc'). length (iter_quads j1))"])
  fix s
  assume inv: "case s of (j1, j2, acc') \<Rightarrow> iter_ok j1 \<and> iter_ok j2
      \<and> length (iter_quads j1) = length (iter_quads j2)
      \<and> compress_from acc' (map2 f (iter_quads j1) (iter_quads j2))
         = compress_from acc (map2 f (iter_quads i1) (iter_quads i2))"
    and go: "zip_continues s"
  obtain j1 j2 acc' where s: "s = (j1, j2, acc')" by (cases s) auto
  let ?n = "min (mRemaining j1) (mRemaining j2)"
  have pos: "0 < ?n" using go by (simp add: s)
  have len: "?n \<le> length (iter_quads j1)" "?n \<le> length (iter_quads j2)"
    using inv iter_remaining_le[of j1] iter_remaining_le[of j2] by (auto simp: s)
  have step: "body s = (quad_advance ?n j1, quad_advance ?n j2,
      compress_from acc' (map2 f (take ?n (iter_quads j1)) (take ?n (iter_quads j2))))"
    using body_step[OF _ _ refl pos] inv by (simp add: s)
  show "case body s of (j1, j2, acc') \<Rightarrow> iter_ok j1 \<and> iter_ok j2
      \<and> length (iter_quads j1) = length (iter_quads j2)
      \<and> compress_from acc' (map2 f (iter_quads j1) (iter_quads j2))
         = compress_from acc (map2 f (iter_quads i1) (iter_quads i2))"
    using inv len map2_take_drop[of f "iter_quads j1" "iter_quads j2" ?n]
    unfolding step by (simp add: s)
  show "(body s, s) \<in> measure (\<lambda>(j1, j2, acc'). length (iter_quads j1))"
    using inv len pos unfolding step by (auto simp: s)
next
  fix s
  assume "case s of (j1, j2, acc') \<Rightarrow> iter_ok j1 \<and> iter_ok j2
      \<and> length (iter_quads j1) = length (iter_quads j2)
      \<and> compress_from acc' (map2 f (iter_quads j1) (iter_quads j2))
         = compress_from acc (map2 f (iter_quads i1) (iter_quads i2))"
    and "\<not> zip_continues s"
  then show "snd (snd s) = compress_from acc (map2 f (iter_quads i1) (iter_quads i2))"
    by (cases s) (auto simp: min_def iter_remaining_0 split: if_splits)
qed (use assms in simp_all)

lemma zip_sets_value:
  assumes "uset_ok s" "uset_ok t"
  shows "zip_sets body s t = new_set (compress (map2 f (dense s) (dense t)))"
  using zip_loop_value[OF quad_begin_spec(1)[OF assms(1)] quad_begin_spec(1)[OF assms(2)]]
    quad_begin_spec(2)[OF assms(1)] quad_begin_spec(2)[OF assms(2)] uset_okD(3)[OF assms(1)]
    uset_okD(3)[OF assms(2)]
  by (simp add: zip_sets_def compress_def)

end


text \<open>What one stretch of each type contributes, in the form the loop bodies use it.\<close>

lemma mixed_quads_available:
  "iter_ok it \<Longrightarrow> mType it = Mixed \<Longrightarrow> n \<le> mRemaining it \<Longrightarrow> n \<le> length (mQuadIterator it)"
  by (auto simp: iter_ok_def runs_ok_Cons split: list.splits)

lemma bit_operation_sections:
  "(AND) (0::bitquad) = (\<lambda>_. 0)" "(AND) (- 1::bitquad) = (\<lambda>q. q)"
  "(OR) (0::bitquad) = (\<lambda>q. q)" "(OR) (- 1::bitquad) = (\<lambda>_. - 1)"
  "(XOR) (0::bitquad) = (\<lambda>q. q)" "(XOR) (- 1::bitquad) = NOT"
  by (simp_all add: fun_eq_iff)

lemmas zip_body_simps = bit_operation_sections Let_def append_run_to_eq_compress append_quads1_spec append_quads2_spec
  take_iter_quads map2_replicate map2_replicate_left map2_replicate_right mixed_quads_available
  FULL_QUAD_MASK_def map_replicate_const

interpretation inter_zip: quad_zip inter_body "(AND)"
proof
  fix i1 i2 acc and n :: nat
  assume ok: "iter_ok i1" "iter_ok i2" and n: "n = min (mRemaining i1) (mRemaining i2)" and "0 < n"
  then have "n \<le> mRemaining i1" "n \<le> mRemaining i2" by simp_all
  with ok show "inter_body (i1, i2, acc) = (quad_advance n i1, quad_advance n i2,
      compress_from acc (map2 (AND) (take n (iter_quads i1)) (take n (iter_quads i2))))"
    by (cases "mType i1"; cases "mType i2") (simp_all add: zip_body_simps flip: n)
qed

interpretation union_zip: quad_zip union_body "(OR)"
proof
  fix i1 i2 acc and n :: nat
  assume ok: "iter_ok i1" "iter_ok i2" and n: "n = min (mRemaining i1) (mRemaining i2)" and "0 < n"
  then have "n \<le> mRemaining i1" "n \<le> mRemaining i2" by simp_all
  with ok show "union_body (i1, i2, acc) = (quad_advance n i1, quad_advance n i2,
      compress_from acc (map2 (OR) (take n (iter_quads i1)) (take n (iter_quads i2))))"
    by (cases "mType i1"; cases "mType i2") (simp_all add: zip_body_simps flip: n)
qed

interpretation diff_zip: quad_zip diff_body "\<lambda>q1 q2. q1 AND NOT q2"
proof
  fix i1 i2 acc and n :: nat
  assume ok: "iter_ok i1" "iter_ok i2" and n: "n = min (mRemaining i1) (mRemaining i2)" and "0 < n"
  then have "n \<le> mRemaining i1" "n \<le> mRemaining i2" by simp_all
  with ok show "diff_body (i1, i2, acc) = (quad_advance n i1, quad_advance n i2,
      compress_from acc (map2 (\<lambda>q1 q2. q1 AND NOT q2) (take n (iter_quads i1)) (take n (iter_quads i2))))"
    by (cases "mType i1"; cases "mType i2") (simp_all add: zip_body_simps flip: n)
qed

interpretation symdiff_zip: quad_zip symdiff_body "(XOR)"
proof
  fix i1 i2 acc and n :: nat
  assume ok: "iter_ok i1" "iter_ok i2" and n: "n = min (mRemaining i1) (mRemaining i2)" and "0 < n"
  then have "n \<le> mRemaining i1" "n \<le> mRemaining i2" by simp_all
  with ok show "symdiff_body (i1, i2, acc) = (quad_advance n i1, quad_advance n i2,
      compress_from acc (map2 (XOR) (take n (iter_quads i1)) (take n (iter_quads i2))))"
    by (cases "mType i1"; cases "mType i2") (simp_all add: zip_body_simps flip: n)
qed

end
