(* ===== verification/USet_Ops.thy ===== *)
theory USet_Ops imports USet_Iter begin

text \<open>
  What the operations of \<open>unicode_set.cpp\<close> on whole sets compute: the results of the
  binary operations as sets of code points, uniqueness of the canonical representation (on which
  the structural \<open>operator==\<close> relies), the early-exit loops \<open>intersects\<close> and
  \<open>subset\<close>, and the in-place union with its change flag.
\<close>

section \<open>Sets built from a dense list\<close>

lemma new_set_simps [simp]:
  "mRuns (new_set p) = fst p" "mQuads (new_set p) = snd p"
  "mRunCapacity (new_set p) = length (fst p)" "mQuadCapacity (new_set p) = length (snd p)"
  by (cases p; simp)+

lemma dense_new_set [simp]: "dense (new_set (compress qs)) = qs"
  using compress_ok(2)[of qs] by (simp add: dense_def case_prod_beta)

lemma new_set_compress:
  "length qs = 34816 \<Longrightarrow> canonical (new_set (compress qs))"
  using compress_ok[of qs] by (auto simp: canonical_def intro: uset_okI)

lemma canonical_uset_ok: "canonical s \<Longrightarrow> uset_ok s"
  by (simp add: canonical_def)

lemma length_dense: "uset_ok s \<Longrightarrow> length (dense s) = 34816"
  by (rule uset_okD(3))

lemma mem_codepoints: "cp \<in> codepoints s \<longleftrightarrow> quads_mem (dense s) cp"
  by (simp add: codepoints_def)

lemma mem_codepoints_ok:
  "uset_ok s \<Longrightarrow> cp \<in> codepoints s \<longleftrightarrow> cp \<le> 1114111 \<and> bit (dense s ! (cp div 32)) (cp mod 32)"
  by (auto simp: mem_codepoints quads_mem_def length_dense)

lemma quads_mem_map2:
  "length xs = length ys \<Longrightarrow> quads_mem (map2 f xs ys) cp \<longleftrightarrow>
     cp div 32 < length xs \<and> bit (f (xs ! (cp div 32)) (ys ! (cp div 32))) (cp mod 32)"
  by (auto simp: quads_mem_def)

lemma quads_mem_map:
  "quads_mem (map f xs) cp \<longleftrightarrow> cp div 32 < length xs \<and> bit (f (xs ! (cp div 32))) (cp mod 32)"
  by (auto simp: quads_mem_def)

lemma quads_eqI:
  assumes "length xs = length ys" "\<And>cp. quads_mem xs cp = quads_mem ys cp"
  shows "xs = ys"
proof (rule nth_equalityI)
  fix i assume i: "i < length xs"
  show "xs ! i = ys ! i"
  proof (rule bit_eqI)
    fix n assume "possible_bit TYPE(bitquad) n"
    then have "n < 32" by simp
    then show "bit (xs ! i) n = bit (ys ! i) n"
      using assms(2)[of "i * 32 + n"] assms(1) i by (simp add: quads_mem_def)
  qed
qed (rule assms(1))

lemma dense_eq_iff:
  assumes "uset_ok s" "uset_ok t"
  shows "dense s = dense t \<longleftrightarrow> codepoints s = codepoints t"
  using quads_eqI[of "dense s" "dense t"] assms by (auto simp: codepoints_def length_dense)

section \<open>The representation is unique\<close>

text \<open>Two lists of runs without equal neighbours that denote the same quads are equal, so a
  canonical set is what \<open>compress\<close> makes of its quads.\<close>

lemma runs_ok_append:
  "runs_ok (rs @ rs', qs) \<longleftrightarrow>
     runs_ok (rs, take (mixed_count rs) qs) \<and> runs_ok (rs', drop (mixed_count rs) qs)"
proof -
  have "set qs = set (take (mixed_count rs) qs) \<union> set (drop (mixed_count rs) qs)"
    by (metis append_take_drop_id set_append)
  then show ?thesis by (auto simp: runs_ok_def)
qed

lemma compress_from_mixed:
  assumes "\<forall>q \<in> set qb. q \<noteq> 0 \<and> q \<noteq> FULL_QUAD_MASK"
  shows "compress_from (rs, qa) qb = (append_run Mixed (length qb) rs, qa @ qb)"
  using assms
proof (induction qb arbitrary: rs qa)
  case (Cons q qb)
  have "append_run Mixed (length qb) (append_run Mixed 1 rs) = append_run Mixed (1 + length qb) rs"
    by (rule append_run_add) simp
  with Cons show ?case by simp
qed simp

lemma append_run_fresh:
  "canonical_runs (rs @ [(t, n)]) \<Longrightarrow> 0 < n \<Longrightarrow> append_run t n rs = rs @ [(t, n)]"
  by (cases rs rule: rev_cases)
     (auto simp: append_run_def canonical_runs_def typeOf_def distinct_adj_append_iff)

lemma compress_from_run:
  assumes "runs_ok ([(t, n)], qb)"
  shows "compress_from (rs, qa) (quads_of [(t, n)] qb) = (append_run t n rs, qa @ qb)"
  using assms compress_from_mixed[of qb rs qa] append_run_to_eq_compress[of n "(rs, qa)"]
  by (cases t) (auto simp: runs_ok_def)

lemma compress_quads_of:
  "runs_ok (rs, qs) \<Longrightarrow> canonical_runs rs \<Longrightarrow> compress (quads_of rs qs) = (rs, qs)"
proof (induction rs arbitrary: qs rule: rev_induct)
  case Nil
  then show ?case by (simp add: compress_def runs_ok_def)
next
  case (snoc r rs)
  obtain t n where r: "r = (t, n)" by (cases r)
  let ?qa = "take (mixed_count rs) qs" and ?qb = "drop (mixed_count rs) qs"
  have ok: "runs_ok (rs, ?qa)" "runs_ok ([(t, n)], ?qb)"
    using snoc.prems(1) by (simp_all add: r runs_ok_append)
  have can: "canonical_runs rs"
    using snoc.prems(2) by (simp add: canonical_runs_def distinct_adj_append_iff)
  have fresh: "append_run t n rs = rs @ [(t, n)]"
    using snoc.prems(2) ok(2) by (intro append_run_fresh) (auto simp: r runs_ok_def)
  have "quads_of (rs @ [r]) qs = quads_of rs ?qa @ quads_of [(t, n)] ?qb"
    using quads_of_append[of rs ?qa "[r]" ?qb] ok(1) by (simp add: r runs_ok_def)
  with snoc.IH[OF ok(1) can] compress_from_run[OF ok(2)] fresh show ?case
    by (simp add: compress_def r)
qed

lemma canonical_compress:
  "canonical s \<Longrightarrow> compress (dense s) = (mRuns s, mQuads s)"
  by (simp add: dense_def canonical_def compress_quads_of uset_okD(1))

lemma canonical_unique:
  assumes "canonical s" "canonical t" "codepoints s = codepoints t"
  shows "mRuns s = mRuns t \<and> mQuads s = mQuads t"
  using canonical_compress[OF assms(1)] canonical_compress[OF assms(2)] assms
    dense_eq_iff[of s t] by (auto simp: canonical_uset_ok)

section \<open>The binary operations as set operations\<close>

context quad_zip
begin

lemma zip_sets_canonical:
  "uset_ok s \<Longrightarrow> uset_ok t \<Longrightarrow> canonical (zip_sets body s t)"
  by (simp add: zip_sets_value new_set_compress length_dense)

lemma mem_zip_sets:
  assumes "uset_ok s" "uset_ok t"
  shows "cp \<in> codepoints (zip_sets body s t) \<longleftrightarrow>
    cp \<le> 1114111 \<and> bit (f (dense s ! (cp div 32)) (dense t ! (cp div 32))) (cp mod 32)"
  using assms by (auto simp: zip_sets_value mem_codepoints quads_mem_map2 length_dense)

end

lemma codepoints_and [uset_simps]:
  "uset_ok s \<Longrightarrow> uset_ok t \<Longrightarrow> codepoints (operator_and s t) = codepoints s \<inter> codepoints t"
  by (auto simp: operator_and_def inter_zip.mem_zip_sets mem_codepoints_ok bit_simps)

lemma codepoints_plus [uset_simps]:
  "uset_ok s \<Longrightarrow> uset_ok t \<Longrightarrow> codepoints (operator_plus s t) = codepoints s \<union> codepoints t"
  by (auto simp: operator_plus_def union_zip.mem_zip_sets mem_codepoints_ok bit_simps)

lemma codepoints_minus [uset_simps]:
  "uset_ok s \<Longrightarrow> uset_ok t \<Longrightarrow> codepoints (operator_minus s t) = codepoints s - codepoints t"
  by (auto simp: operator_minus_def diff_zip.mem_zip_sets mem_codepoints_ok bit_simps)

lemma codepoints_xor [uset_simps]:
  "uset_ok s \<Longrightarrow> uset_ok t \<Longrightarrow> codepoints (operator_xor s t) =
     (codepoints s - codepoints t) \<union> (codepoints t - codepoints s)"
  by (auto simp: operator_xor_def symdiff_zip.mem_zip_sets mem_codepoints_ok bit_simps)

lemma canonical_binary [uset_intros]:
  assumes "uset_ok s" "uset_ok t"
  shows "canonical (operator_and s t)" "canonical (operator_plus s t)"
    "canonical (operator_minus s t)" "canonical (operator_xor s t)"
  using assms by (simp_all add: operator_and_def operator_plus_def operator_minus_def operator_xor_def
      inter_zip.zip_sets_canonical union_zip.zip_sets_canonical diff_zip.zip_sets_canonical
      symdiff_zip.zip_sets_canonical)

section \<open>Complement\<close>

definition complement_type :: "run_type \<Rightarrow> run_type" where
  "complement_type type = (if type = Empty then Full else if type = Full then Empty else Mixed)"

definition operator_not :: "unicode_set \<Rightarrow> unicode_set" where
  "operator_not s = \<lparr>mRuns = map (\<lambda>run. (complement_type (typeOf run), lengthOf run)) (mRuns s),
     mQuads = map (\<lambda>q. NOT q) (mQuads s),
     mRunCapacity = length (mRuns s), mQuadCapacity = length (mQuads s)\<rparr>"

text \<open>\<open>invert\<close> works in place when the set owns its arrays and on fresh copies when it
  does not; the branches on the capacities are the code's.\<close>

definition invert :: "unicode_set \<Rightarrow> unicode_set" where
  "invert s =
     (let s1 = (if mRunCapacity s = 0
                then s\<lparr>mRuns := map (\<lambda>run. if typeOf run = Empty then (Full, lengthOf run)
                         else if typeOf run = Full then (Empty, lengthOf run)
                         else (Mixed, lengthOf run)) (mRuns s),
                       mRunCapacity := length (mRuns s)\<rparr>
                else s\<lparr>mRuns := map (\<lambda>run. if typeOf run = Empty then (Full, lengthOf run)
                         else if typeOf run = Full then (Empty, lengthOf run)
                         else run) (mRuns s)\<rparr>)
      in if length (mQuads s1) \<noteq> 0
         then if mQuadCapacity s1 = 0
              then s1\<lparr>mQuads := map (\<lambda>q. NOT q) (mQuads s1), mQuadCapacity := length (mQuads s1)\<rparr>
              else s1\<lparr>mQuads := map (\<lambda>q. NOT q) (mQuads s1)\<rparr>
         else s1)"

abbreviation complement_run :: "run \<Rightarrow> run" where
  "complement_run run \<equiv> (complement_type (typeOf run), lengthOf run)"

lemma complement_type_simps [simp]:
  "complement_type Empty = Full" "complement_type Full = Empty" "complement_type Mixed = Mixed"
  "complement_type t = Mixed \<longleftrightarrow> t = Mixed"
  by (cases t; simp add: complement_type_def)+

lemma NOT_quad_neq [simp]:
  "NOT q = FULL_QUAD_MASK \<longleftrightarrow> q = 0" "NOT q = 0 \<longleftrightarrow> q = FULL_QUAD_MASK" for q :: bitquad
  by (metis NOT_FULL_QUAD_MASK bit.double_compl)+

lemma quads_of_complement:
  "mixed_count rs \<le> length qs \<Longrightarrow>
   quads_of (map complement_run rs) (map (\<lambda>q. NOT q) qs) = map (\<lambda>q. NOT q) (quads_of rs qs)"
  by (induction rs qs rule: quads_of.induct)
     (simp_all add: typeOf_def lengthOf_def take_map drop_map FULL_QUAD_MASK_def)

lemma complement_runs_ok:
  "runs_ok (rs, qs) \<Longrightarrow> runs_ok (map complement_run rs, map (\<lambda>q. NOT q) qs)"
proof -
  have "mixed_count (map complement_run rs) = mixed_count rs"
    by (induction rs) (auto simp: typeOf_def lengthOf_def)
  then show "runs_ok (rs, qs) \<Longrightarrow> ?thesis"
    by (auto simp: runs_ok_def lengthOf_def)
qed

lemma invert_eq_not:
  "mRuns (invert s) = mRuns (operator_not s)" "mQuads (invert s) = mQuads (operator_not s)"
proof -
  have "map (\<lambda>run. if typeOf run = Empty then (Full, lengthOf run)
          else if typeOf run = Full then (Empty, lengthOf run) else run) (mRuns s) = map complement_run (mRuns s)"
    "map (\<lambda>run. if typeOf run = Empty then (Full, lengthOf run)
          else if typeOf run = Full then (Empty, lengthOf run) else (Mixed, lengthOf run)) (mRuns s)
       = map complement_run (mRuns s)"
    by (auto simp: typeOf_def lengthOf_def complement_type_def) (metis run_type.exhaust)
  then show "mRuns (invert s) = mRuns (operator_not s)" "mQuads (invert s) = mQuads (operator_not s)"
    by (simp_all add: invert_def operator_not_def Let_def)
qed

lemma dense_not:
  assumes "uset_ok s"
  shows "dense (operator_not s) = map (\<lambda>q. NOT q) (dense s)"
  using quads_of_complement[of "mRuns s" "mQuads s"] uset_okD(1)[OF assms]
  by (simp add: operator_not_def dense_def runs_ok_def)

lemma uset_ok_not [uset_intros]: "uset_ok s \<Longrightarrow> uset_ok (operator_not s)"
proof (rule uset_okI)
  assume ok: "uset_ok s"
  show "runs_ok (mRuns (operator_not s), mQuads (operator_not s))"
    using complement_runs_ok[OF uset_okD(1)[OF ok]] by (simp add: operator_not_def)
  show "length (dense (operator_not s)) = 34816"
    using ok by (simp add: dense_not length_dense)
qed

lemma canonical_not [uset_intros]: "canonical s \<Longrightarrow> canonical (operator_not s)"
proof -
  assume can: "canonical s"
  have "inj complement_type"
    by (rule injI) (simp add: complement_type_def split: if_splits; metis run_type.exhaust)
  moreover have "map fst (mRuns (operator_not s)) = map complement_type (map fst (mRuns s))"
    by (simp add: operator_not_def typeOf_def)
  ultimately show "canonical (operator_not s)"
    using can uset_ok_not[of s]
    by (simp add: canonical_def canonical_runs_def distinct_adj_map_iff inj_on_subset del: map_map)
qed

lemma codepoints_not [uset_simps]:
  "uset_ok s \<Longrightarrow> codepoints (operator_not s) = {..UNICODE_MAX} - codepoints s"
  using uset_ok_not[of s] by (auto simp: mem_codepoints_ok dense_not length_dense bit_simps)

lemma invert_same:
  "codepoints (invert s) = codepoints (operator_not s)" "uset_ok (invert s) = uset_ok (operator_not s)"
  "canonical (invert s) = canonical (operator_not s)"
  by (simp_all add: codepoints_def dense_def uset_ok_def canonical_def invert_eq_not)

end
