(* ===== verification/USet_Compare.thy ===== *)
theory USet_Compare imports USet_Ops begin

text \<open>
  The comparisons of \<open>unicode_set.cpp\<close>: the early-exit loops \<open>intersects\<close> and
  \<open>subset\<close>, structural equality, the order \<open>operator<\<close> that the containers of
  sets use, and the in-place union \<open>insert(other)\<close>, which compares as it merges.
\<close>

section \<open>Early-exit loops over two sets\<close>

text \<open>The inner loop \<open>for (; n; --n, ++i1, ++i2) if (p(i1.quad(), i2.quad())) return ...\<close>:
  the flag says that the loop returned from the function.\<close>

fun scan_quads :: "(bitquad \<Rightarrow> bitquad \<Rightarrow> bool) \<Rightarrow> nat \<Rightarrow> quad_iterator \<Rightarrow> quad_iterator
    \<Rightarrow> bool \<times> quad_iterator \<times> quad_iterator" where
  "scan_quads p 0 i1 i2 = (False, i1, i2)"
| "scan_quads p (Suc n) i1 i2 =
     (if p (iter_quad i1) (iter_quad i2) then (True, i1, i2)
      else scan_quads p n (quad_advance 1 i1) (quad_advance 1 i2))"

text \<open>The state of such a function: the value it has returned, if it has, and the iterators.\<close>

type_synonym test_state = "bool option \<times> quad_iterator \<times> quad_iterator"

fun test_continues :: "test_state \<Rightarrow> bool" where
  "test_continues (ret, i1, i2) \<longleftrightarrow> ret = None"

definition test_loop :: "(test_state \<Rightarrow> test_state) \<Rightarrow> unicode_set \<Rightarrow> unicode_set \<Rightarrow> bool" where
  "test_loop body s t =
     (fst (while test_continues body (None, quad_begin s, quad_begin t)) = Some True)"

fun intersects_body :: "test_state \<Rightarrow> test_state" where
  "intersects_body (ret, i1, i2) =
     (let n = min (mRemaining i1) (mRemaining i2) in
      if n = 0 then (Some False, i1, i2)
      else if mType i1 = Empty \<or> mType i2 = Empty then
        (None, quad_advance n i1, quad_advance n i2)
      else if mType i1 = Full \<or> mType i2 = Full then (Some True, i1, i2)
      else let (found, i1', i2') = scan_quads (\<lambda>q1 q2. q1 AND q2 \<noteq> 0) n i1 i2
           in (if found then Some True else None, i1', i2'))"

fun subset_body :: "test_state \<Rightarrow> test_state" where
  "subset_body (ret, i1, i2) =
     (let n = min (mRemaining i1) (mRemaining i2) in
      if n = 0 then (Some True, i1, i2)
      else if mType i1 = Empty \<or> mType i2 = Full then
        (None, quad_advance n i1, quad_advance n i2)
      else if mType i1 = Full \<or> mType i2 = Empty then (Some False, i1, i2)
      else let (found, i1', i2') = scan_quads (\<lambda>q1 q2. q1 AND NOT q2 \<noteq> 0) n i1 i2
           in (if found then Some False else None, i1', i2'))"

definition intersects :: "unicode_set \<Rightarrow> unicode_set \<Rightarrow> bool" where
  "intersects = test_loop intersects_body"

definition subset :: "unicode_set \<Rightarrow> unicode_set \<Rightarrow> bool" where
  "subset = test_loop subset_body"

lemma scan_quads_spec:
  assumes "iter_ok i1" "mType i1 = Mixed" "n \<le> mRemaining i1"
    and "iter_ok i2" "mType i2 = Mixed" "n \<le> mRemaining i2"
  shows "case scan_quads p n i1 i2 of (found, j1, j2) \<Rightarrow>
    (found \<longleftrightarrow> list_ex (\<lambda>(x, y). p x y) (zip (take n (iter_quads i1)) (take n (iter_quads i2))))
    \<and> (\<not> found \<longrightarrow> j1 = quad_advance n i1 \<and> j2 = quad_advance n i2)"
  using assms
proof (induction n arbitrary: i1 i2)
  case (Suc n)
  note step = mixed_step[OF Suc.prems(1-3)] and step' = mixed_step[OF Suc.prems(4-6)]
  show ?case
  proof (cases "n = 0")
    case True
    with step(4) step'(4) show ?thesis by simp
  next
    case False
    with Suc.IH[of "quad_advance 1 i1" "quad_advance 1 i2"] step step'
      quad_advance_Suc_mixed[OF Suc.prems(1-3)] quad_advance_Suc_mixed[OF Suc.prems(4-6)]
    show ?thesis by (auto split: prod.splits)
  qed
qed simp

text \<open>The contract of a test: \<open>p\<close> on two quads makes the function return \<open>\<not> r\<close>,
  and a walk that never meets \<open>p\<close> returns \<open>r\<close>.\<close>

locale quad_test =
  fixes body :: "test_state \<Rightarrow> test_state"
    and p :: "bitquad \<Rightarrow> bitquad \<Rightarrow> bool"
    and r :: bool
  assumes body_end:
    "min (mRemaining i1) (mRemaining i2) = 0 \<Longrightarrow> fst (body (None, i1, i2)) = Some r"
  assumes body_stop:
    "\<lbrakk>iter_ok i1; iter_ok i2; n = min (mRemaining i1) (mRemaining i2); 0 < n;
      list_ex (\<lambda>(x, y). p x y) (zip (take n (iter_quads i1)) (take n (iter_quads i2)))\<rbrakk> \<Longrightarrow>
     fst (body (None, i1, i2)) = Some (\<not> r)"
  assumes body_go:
    "\<lbrakk>iter_ok i1; iter_ok i2; n = min (mRemaining i1) (mRemaining i2); 0 < n;
      \<not> list_ex (\<lambda>(x, y). p x y) (zip (take n (iter_quads i1)) (take n (iter_quads i2)))\<rbrakk> \<Longrightarrow>
     body (None, i1, i2) = (None, quad_advance n i1, quad_advance n i2)"
begin

definition found :: "quad_iterator \<Rightarrow> quad_iterator \<Rightarrow> bool" where
  "found i1 i2 \<longleftrightarrow> list_ex (\<lambda>(x, y). p x y) (zip (iter_quads i1) (iter_quads i2))"

definition good :: "quad_iterator \<Rightarrow> quad_iterator \<Rightarrow> test_state \<Rightarrow> bool" where
  "good i1 i2 = (\<lambda>(ret, j1, j2). case ret of
      Some b \<Rightarrow> b = (if found i1 i2 then \<not> r else r)
    | None \<Rightarrow> iter_ok j1 \<and> iter_ok j2 \<and> length (iter_quads j1) = length (iter_quads j2)
        \<and> found j1 j2 = found i1 i2)"

lemma found_split:
  "found i1 i2 \<longleftrightarrow>
     list_ex (\<lambda>(x, y). p x y) (zip (take n (iter_quads i1)) (take n (iter_quads i2)))
   \<or> list_ex (\<lambda>(x, y). p x y) (zip (drop n (iter_quads i1)) (drop n (iter_quads i2)))"
  by (metis append_take_drop_id drop_zip found_def list_ex_append take_zip)

lemma good_step:
  assumes "good i1 i2 st" "test_continues st"
  shows "good i1 i2 (body st)"
    and "(body st, st) \<in> measure (\<lambda>(ret, j1, j2). if ret = None then Suc (length (iter_quads j1)) else 0)"
proof -
  obtain j1 j2 where st: "st = (None, j1, j2)" using assms(2) by (cases st) auto
  let ?n = "min (mRemaining j1) (mRemaining j2)"
  let ?ex = "list_ex (\<lambda>(x, y). p x y) (zip (take ?n (iter_quads j1)) (take ?n (iter_quads j2)))"
  have inv: "iter_ok j1" "iter_ok j2" "length (iter_quads j1) = length (iter_quads j2)"
    "found j1 j2 = found i1 i2"
    using assms(1) by (simp_all add: st good_def)
  have len: "?n \<le> length (iter_quads j1)" "?n \<le> length (iter_quads j2)"
    using inv iter_remaining_le[of j1] iter_remaining_le[of j2] by auto
  have *: "good i1 i2 (body st) \<and>
    (body st, st) \<in> measure (\<lambda>(ret, j1, j2). if ret = None then Suc (length (iter_quads j1)) else 0)"
  proof (cases "?n = 0")
    case True
    then have "iter_quads j1 = [] \<or> iter_quads j2 = []"
      using iter_remaining_0[OF inv(1)] iter_remaining_0[OF inv(2)] by linarith
    then have "\<not> found i1 i2" using inv by (auto simp: found_def)
    with body_end[OF True] show ?thesis by (cases "body st") (auto simp: st good_def)
  next
    case False
    show ?thesis
    proof (cases ?ex)
      case True
      then have "found i1 i2" using found_split[of j1 j2 ?n] inv by simp
      with body_stop[OF inv(1,2) refl _ True] False show ?thesis
        by (cases "body st") (auto simp: st good_def)
    next
      case no: False
      have "found (quad_advance ?n j1) (quad_advance ?n j2) = found i1 i2"
        using found_split[of j1 j2 ?n] no inv len by (simp add: found_def)
      moreover have "length (iter_quads j1) - ?n < length (iter_quads j1)"
        using False len by linarith
      ultimately show ?thesis
        using body_go[OF inv(1,2) refl _ no] False inv len by (simp add: st good_def)
    qed
  qed
  from * show "good i1 i2 (body st)" by simp
  from * show "(body st, st) \<in> measure (\<lambda>(ret, j1, j2). if ret = None then Suc (length (iter_quads j1)) else 0)"
    by simp
qed

lemma test_loop_value:
  assumes "uset_ok s" "uset_ok t"
  shows "test_loop body s t \<longleftrightarrow> (list_ex (\<lambda>(x, y). p x y) (zip (dense s) (dense t)) \<noteq> r)"
proof -
  let ?i1 = "quad_begin s" and ?i2 = "quad_begin t"
  have "fst (while test_continues body (None, ?i1, ?i2)) = Some (if found ?i1 ?i2 then \<not> r else r)"
  proof (rule while_rule[where P = "good ?i1 ?i2"
        and r = "measure (\<lambda>(ret, j1, j2). if ret = None then Suc (length (iter_quads j1)) else 0)"])
    show "good ?i1 ?i2 (None, ?i1, ?i2)"
      using assms by (simp add: good_def quad_begin_spec length_dense)
    fix st assume "good ?i1 ?i2 st" "\<not> test_continues st"
    then show "fst st = Some (if found ?i1 ?i2 then \<not> r else r)"
      by (cases st) (auto simp: good_def)
  qed (use good_step in auto)
  then show ?thesis
    using assms by (auto simp: test_loop_def found_def quad_begin_spec)
qed

end

lemma iter_mixed_quads:
  assumes "iter_ok it" "mType it = Mixed" "n \<le> mRemaining it" "q \<in> set (take n (iter_quads it))"
  shows "q \<noteq> 0 \<and> q \<noteq> FULL_QUAD_MASK"
proof -
  have "q \<in> set (take (mRemaining it) (mQuadIterator it))"
    using assms take_iter_quads(3)[OF assms(1,3,2)]
      set_take_subset_set_take[OF assms(3), of "mQuadIterator it"] by auto
  with assms(1,2) show ?thesis by (auto simp: iter_ok_def runs_ok_Cons split: list.splits)
qed

lemma list_ex_zip_iff:
  "length xs = length ys \<Longrightarrow> list_ex (\<lambda>(x, y). p x y) (zip xs ys) \<longleftrightarrow> (\<exists>i<length xs. p (xs ! i) (ys ! i))"
  by (auto simp: list_ex_iff in_set_zip Bex_def)

text \<open>Two stretches seen through the quads they stand for; the four cases the tests branch on.\<close>

lemma stretch_nth:
  assumes "iter_ok it" "n \<le> mRemaining it" "i < n"
  shows "mType it = Empty \<Longrightarrow> take n (iter_quads it) ! i = 0"
    "mType it = Full \<Longrightarrow> take n (iter_quads it) ! i = FULL_QUAD_MASK"
    "mType it = Mixed \<Longrightarrow> take n (iter_quads it) ! i \<noteq> 0 \<and> take n (iter_quads it) ! i \<noteq> FULL_QUAD_MASK"
proof -
  show "mType it = Empty \<Longrightarrow> take n (iter_quads it) ! i = 0"
    using assms take_iter_quads(1)[of it n] by simp
  show "mType it = Full \<Longrightarrow> take n (iter_quads it) ! i = FULL_QUAD_MASK"
    using assms take_iter_quads(2)[of it n] by simp
  assume "mType it = Mixed"
  moreover have "take n (iter_quads it) ! i \<in> set (take n (iter_quads it))"
    using assms iter_remaining_le[of it] by (intro nth_mem) simp
  ultimately show "take n (iter_quads it) ! i \<noteq> 0 \<and> take n (iter_quads it) ! i \<noteq> FULL_QUAD_MASK"
    using iter_mixed_quads assms by blast
qed

lemma length_stretch:
  "iter_ok it \<Longrightarrow> n \<le> mRemaining it \<Longrightarrow> length (take n (iter_quads it)) = n"
  using iter_remaining_le[of it] by simp

lemma test_stretch:
  assumes "iter_ok i1" "iter_ok i2" "n = min (mRemaining i1) (mRemaining i2)"
  shows "list_ex (\<lambda>(x, y). p x y) (zip (take n (iter_quads i1)) (take n (iter_quads i2)))
    \<longleftrightarrow> (\<exists>i<n. p (take n (iter_quads i1) ! i) (take n (iter_quads i2) ! i))"
  using assms by (subst list_ex_zip_iff) (simp_all add: length_stretch del: length_take)

interpretation intersects_test: quad_test intersects_body "\<lambda>q1 q2. q1 AND q2 \<noteq> 0" False
proof
  fix i1 i2 and n :: nat
  let ?xs = "take n (iter_quads i1)" and ?ys = "take n (iter_quads i2)"
  let ?ex = "list_ex (\<lambda>(q1, q2). q1 AND q2 \<noteq> 0) (zip ?xs ?ys)"
  show "min (mRemaining i1) (mRemaining i2) = 0 \<Longrightarrow> fst (intersects_body (None, i1, i2)) = Some False"
    by simp
  assume ok: "iter_ok i1" "iter_ok i2" and n: "n = min (mRemaining i1) (mRemaining i2)" and pos: "0 < n"
  note ex = test_stretch[OF ok n, of "\<lambda>q1 q2. q1 AND q2 \<noteq> 0"]
  have le: "n \<le> mRemaining i1" "n \<le> mRemaining i2" using n by simp_all
  note nth = stretch_nth[OF ok(1) le(1)] stretch_nth[OF ok(2) le(2)]
  have "mType i1 = Empty \<or> mType i2 = Empty \<Longrightarrow> \<not> ?ex"
    unfolding ex using nth(1,4) by auto
  moreover have "mType i1 \<noteq> Empty \<Longrightarrow> mType i2 \<noteq> Empty \<Longrightarrow> mType i1 = Full \<or> mType i2 = Full \<Longrightarrow> ?ex"
    unfolding ex using nth[OF pos] pos
    by (cases "mType i1"; cases "mType i2") (auto intro!: exI[of _ 0])
  ultimately show "?ex \<Longrightarrow> fst (intersects_body (None, i1, i2)) = Some (\<not> False)"
    and "\<not> ?ex \<Longrightarrow> intersects_body (None, i1, i2) = (None, quad_advance n i1, quad_advance n i2)"
    using scan_quads_spec[OF ok(1) _ le(1) ok(2) _ le(2), of "\<lambda>q1 q2. q1 AND q2 \<noteq> 0"] pos
    by (cases "mType i1"; cases "mType i2"; auto simp: Let_def simp flip: n split: prod.splits)+
qed

interpretation subset_test: quad_test subset_body "\<lambda>q1 q2. q1 AND NOT q2 \<noteq> 0" True
proof
  fix i1 i2 and n :: nat
  let ?xs = "take n (iter_quads i1)" and ?ys = "take n (iter_quads i2)"
  let ?ex = "list_ex (\<lambda>(q1, q2). q1 AND NOT q2 \<noteq> 0) (zip ?xs ?ys)"
  show "min (mRemaining i1) (mRemaining i2) = 0 \<Longrightarrow> fst (subset_body (None, i1, i2)) = Some True"
    by simp
  assume ok: "iter_ok i1" "iter_ok i2" and n: "n = min (mRemaining i1) (mRemaining i2)" and pos: "0 < n"
  note ex = test_stretch[OF ok n, of "\<lambda>q1 q2. q1 AND NOT q2 \<noteq> 0"]
  have le: "n \<le> mRemaining i1" "n \<le> mRemaining i2" using n by simp_all
  note nth = stretch_nth[OF ok(1) le(1)] stretch_nth[OF ok(2) le(2)]
  have "mType i1 = Empty \<or> mType i2 = Full \<Longrightarrow> \<not> ?ex"
    unfolding ex using nth(1,5) by auto
  moreover have "mType i1 \<noteq> Empty \<Longrightarrow> mType i2 \<noteq> Full \<Longrightarrow> mType i1 = Full \<or> mType i2 = Empty \<Longrightarrow> ?ex"
    unfolding ex using nth[OF pos] pos
    by (cases "mType i1"; cases "mType i2") (auto intro!: exI[of _ 0])
  ultimately show "?ex \<Longrightarrow> fst (subset_body (None, i1, i2)) = Some (\<not> True)"
    and "\<not> ?ex \<Longrightarrow> subset_body (None, i1, i2) = (None, quad_advance n i1, quad_advance n i2)"
    using scan_quads_spec[OF ok(1) _ le(1) ok(2) _ le(2), of "\<lambda>q1 q2. q1 AND NOT q2 \<noteq> 0"] pos
    by (cases "mType i1"; cases "mType i2"; auto simp: Let_def simp flip: n split: prod.splits)+
qed

lemma ex_block:
  "(\<exists>i<34816. \<exists>n<32. P i n) \<longleftrightarrow> (\<exists>cp\<le>1114111. P (cp div 32) (cp mod 32))" for P :: "nat \<Rightarrow> nat \<Rightarrow> bool"
proof
  assume "\<exists>i<34816. \<exists>n<32. P i n"
  then obtain i n where "i < 34816" "n < 32" "P i n" by auto
  then show "\<exists>cp\<le>1114111. P (cp div 32) (cp mod 32)"
    by (intro exI[of _ "i * 32 + n"]) auto
next
  assume "\<exists>cp\<le>1114111. P (cp div 32) (cp mod 32)"
  then obtain cp where "cp \<le> 1114111" "P (cp div 32) (cp mod 32)" by auto
  then show "\<exists>i<34816. \<exists>n<32. P i n"
    by (intro exI[of _ "cp div 32"] exI[of _ "cp mod 32"] conjI) auto
qed

lemma intersects_iff [uset_simps]:
  assumes "uset_ok s" "uset_ok t"
  shows "intersects s t \<longleftrightarrow> codepoints s \<inter> codepoints t \<noteq> {}"
proof -
  have "intersects s t \<longleftrightarrow> (\<exists>i<34816. dense s ! i AND dense t ! i \<noteq> 0)"
    using assms by (simp add: intersects_def intersects_test.test_loop_value list_ex_zip_iff length_dense)
  also have "\<dots> \<longleftrightarrow> (\<exists>i<34816. \<exists>n<32. bit (dense s ! i) n \<and> bit (dense t ! i) n)"
    by (auto simp: bit_eq_iff bit_simps)
  also have "\<dots> \<longleftrightarrow> codepoints s \<inter> codepoints t \<noteq> {}"
    unfolding ex_block using assms by (auto simp: mem_codepoints_ok set_eq_iff)
  finally show ?thesis .
qed

lemma subset_iff [uset_simps]:
  assumes "uset_ok s" "uset_ok t"
  shows "subset s t \<longleftrightarrow> codepoints s \<subseteq> codepoints t"
proof -
  have "subset s t \<longleftrightarrow> \<not> (\<exists>i<34816. dense s ! i AND NOT (dense t ! i) \<noteq> 0)"
    using assms by (simp add: subset_def subset_test.test_loop_value list_ex_zip_iff length_dense)
  also have "\<dots> \<longleftrightarrow> \<not> (\<exists>i<34816. \<exists>n<32. bit (dense s ! i) n \<and> \<not> bit (dense t ! i) n)"
    by (auto simp: bit_eq_iff bit_simps)
  also have "\<dots> \<longleftrightarrow> codepoints s \<subseteq> codepoints t"
    unfolding ex_block using assms by (auto simp: mem_codepoints_ok)
  finally show ?thesis .
qed

section \<open>Equality and order\<close>

fun equal_arrays :: "'a list \<Rightarrow> 'a list \<Rightarrow> bool" where
  "equal_arrays (x # xs) (y # ys) = (if x \<noteq> y then False else equal_arrays xs ys)"
| "equal_arrays _ _ = True"

definition operator_eq :: "unicode_set \<Rightarrow> unicode_set \<Rightarrow> bool" where
  "operator_eq s t =
     (if length (mRuns s) \<noteq> length (mRuns t) \<or> length (mQuads s) \<noteq> length (mQuads t) then False
      else if \<not> equal_arrays (mQuads s) (mQuads t) then False
      else if \<not> equal_arrays (mRuns s) (mRuns t) then False
      else True)"

text \<open>The enumerators are ordered by their values, and a pair \<open>run_t\<close> lexicographically.\<close>

instantiation run_type :: linorder
begin

definition run_type_rank :: "run_type \<Rightarrow> nat" where
  "run_type_rank t = (case t of Empty \<Rightarrow> 0 | Mixed \<Rightarrow> 1 | Full \<Rightarrow> 2)"

definition less_eq_run_type :: "run_type \<Rightarrow> run_type \<Rightarrow> bool" where
  "less_eq_run_type a b \<longleftrightarrow> run_type_rank a \<le> run_type_rank b"

definition less_run_type :: "run_type \<Rightarrow> run_type \<Rightarrow> bool" where
  "less_run_type a b \<longleftrightarrow> run_type_rank a < run_type_rank b"

instance
  by standard (auto simp: less_eq_run_type_def less_run_type_def run_type_rank_def split: run_type.splits)

end

definition run_less :: "run \<Rightarrow> run \<Rightarrow> bool" where
  "run_less r1 r2 \<longleftrightarrow> fst r1 < fst r2 \<or> fst r1 = fst r2 \<and> snd r1 < snd r2"

text \<open>A loop that compares two arrays element by element: \<open>Some\<close> the value returned,
  \<open>None\<close> when the arrays agree.\<close>

fun compare_arrays :: "('a \<Rightarrow> 'a \<Rightarrow> bool) \<Rightarrow> 'a list \<Rightarrow> 'a list \<Rightarrow> bool option" where
  "compare_arrays lt (x # xs) (y # ys) =
     (if lt x y then Some True else if lt y x then Some False else compare_arrays lt xs ys)"
| "compare_arrays lt _ _ = None"

definition operator_less :: "unicode_set \<Rightarrow> unicode_set \<Rightarrow> bool" where
  "operator_less s t =
     (if length (mRuns s) \<noteq> length (mRuns t) then length (mRuns s) < length (mRuns t)
      else if length (mQuads s) \<noteq> length (mQuads t) then length (mQuads s) < length (mQuads t)
      else case compare_arrays run_less (mRuns s) (mRuns t) of
             Some b \<Rightarrow> b
           | None \<Rightarrow> (case compare_arrays (<) (mQuads s) (mQuads t) of
                 Some b \<Rightarrow> b
               | None \<Rightarrow> False))"

lemma equal_arrays_iff: "length xs = length ys \<Longrightarrow> equal_arrays xs ys \<longleftrightarrow> xs = ys"
  by (induction xs ys rule: equal_arrays.induct) auto

lemma operator_eq_iff: "operator_eq s t \<longleftrightarrow> mRuns s = mRuns t \<and> mQuads s = mQuads t"
  by (auto simp: operator_eq_def equal_arrays_iff)

lemma operator_eq_canonical [uset_simps]:
  "canonical s \<Longrightarrow> canonical t \<Longrightarrow> operator_eq s t \<longleftrightarrow> codepoints s = codepoints t"
  using canonical_unique[of s t] by (auto simp: operator_eq_iff codepoints_def dense_def)

text \<open>Comparing arrays is a lexicographic comparison, for any strict linear order of the elements.\<close>

locale strict_linear =
  fixes lt :: "'a \<Rightarrow> 'a \<Rightarrow> bool"
  assumes irreflexive: "\<not> lt x x"
    and transitive: "lt x y \<Longrightarrow> lt y z \<Longrightarrow> lt x z"
    and total: "x = y \<or> lt x y \<or> lt y x"
begin

lemma asymmetric: "lt x y \<Longrightarrow> \<not> lt y x"
  using irreflexive transitive by blast

lemma compare_None: "length xs = length ys \<Longrightarrow> compare_arrays lt xs ys = None \<longleftrightarrow> xs = ys"
proof (induction xs ys rule: list_induct2')
  case (4 x xs y ys)
  then show ?case using irreflexive[of x] total[of x y] by auto
qed auto

lemma compare_swap:
  "compare_arrays lt ys xs = map_option Not (compare_arrays lt xs ys)"
proof (induction xs ys rule: list_induct2')
qed (auto dest: asymmetric)

lemma compare_trans:
  "length xs = length ys \<Longrightarrow> length ys = length zs \<Longrightarrow>
   compare_arrays lt xs ys = Some True \<Longrightarrow> compare_arrays lt ys zs = Some True \<Longrightarrow>
   compare_arrays lt xs zs = Some True"
proof (induction xs ys zs rule: list_induct3)
  case (Cons x xs y ys z zs)
  then show ?case
    using irreflexive[of x] transitive[of x y z] total[of x y] total[of y z] asymmetric
    by (auto split: if_splits)
qed simp

end

interpretation run_order: strict_linear run_less
  by unfold_locales (auto simp: run_less_def)

interpretation quad_order: strict_linear "(<) :: bitquad \<Rightarrow> bitquad \<Rightarrow> bool"
  by unfold_locales auto

lemma compare_less_trans:
  assumes len: "length (mRuns s) = length (mRuns t)" "length (mRuns t) = length (mRuns u)"
    "length (mQuads s) = length (mQuads t)" "length (mQuads t) = length (mQuads u)"
    and less: "operator_less s t" "operator_less t u"
  shows "operator_less s u"
proof -
  let ?r = "compare_arrays run_less" and ?q = "compare_arrays (<)"
  have split: "operator_less a b \<longleftrightarrow> ?r (mRuns a) (mRuns b) = Some True
      \<or> mRuns a = mRuns b \<and> ?q (mQuads a) (mQuads b) = Some True"
    if "length (mRuns a) = length (mRuns b)" "length (mQuads a) = length (mQuads b)" for a b
    using that run_order.compare_None[OF that(1)]
    by (auto simp: operator_less_def split: option.splits)
  show ?thesis
    using less len run_order.compare_trans[of "mRuns s" "mRuns t" "mRuns u"]
      quad_order.compare_trans[of "mQuads s" "mQuads t" "mQuads u"]
    by (auto simp: split)
qed

lemma operator_less_trans: "operator_less s t \<Longrightarrow> operator_less t u \<Longrightarrow> operator_less s u"
  using compare_less_trans[of s t u]
  by (auto simp: operator_less_def split: if_splits)

lemma operator_less_total: "operator_eq s t \<or> operator_less s t \<or> operator_less t s"
  using run_order.compare_None[of "mRuns s" "mRuns t"] quad_order.compare_None[of "mQuads s" "mQuads t"]
    run_order.compare_swap[of "mRuns s" "mRuns t"] quad_order.compare_swap[of "mQuads s" "mQuads t"]
  by (auto simp: operator_less_def operator_eq_iff split: option.splits)

lemma operator_less_not_eq: "operator_less s t \<Longrightarrow> \<not> operator_eq s t"
  using run_order.compare_None[of "mRuns s" "mRuns t"] quad_order.compare_None[of "mQuads s" "mQuads t"]
  by (auto simp: operator_less_def operator_eq_iff split: if_splits option.splits)

section \<open>In-place union\<close>

text \<open>\<open>assign\<close> copies the merged arrays into the set, growing an array only when its
  capacity is too small.\<close>

fun assign :: "unicode_set \<Rightarrow> run_quads \<Rightarrow> unicode_set" where
  "assign self (runs, quads) =
     (let n = length runs; m = length quads;
          s1 = (if mRunCapacity self < n then self\<lparr>mRunCapacity := n\<rparr> else self);
          s2 = s1\<lparr>mRuns := runs\<rparr>;
          s3 = (if m > 0 \<and> mQuadCapacity s2 < m then s2\<lparr>mQuadCapacity := m\<rparr> else s2)
      in s3\<lparr>mQuads := quads\<rparr>)"

text \<open>The mixed-mixed loop of \<open>insert\<close>, which also records whether \<open>i2\<close> adds a code point.\<close>

fun insert_quads :: "nat \<Rightarrow> quad_iterator \<Rightarrow> quad_iterator \<Rightarrow> run_quads \<Rightarrow> bool
    \<Rightarrow> (quad_iterator \<times> quad_iterator \<times> run_quads) \<times> bool" where
  "insert_quads 0 i1 i2 acc changed = ((i1, i2, acc), changed)"
| "insert_quads (Suc n) i1 i2 acc changed =
     insert_quads n (quad_advance 1 i1) (quad_advance 1 i2)
       (append_quad (iter_quad i1 OR iter_quad i2) acc)
       (changed \<or> iter_quad i2 AND NOT (iter_quad i1) \<noteq> 0)"

fun insert_body :: "zip_state \<times> bool \<Rightarrow> zip_state \<times> bool" where
  "insert_body ((i1, i2, acc), changed) =
     (let n = min (mRemaining i1) (mRemaining i2) in
      if mType i1 = Empty \<and> mType i2 = Empty then
        ((quad_advance n i1, quad_advance n i2, append_run_to Empty n acc), changed)
      else if mType i1 = Full \<or> mType i2 = Full then
        ((quad_advance n i1, quad_advance n i2, append_run_to Full n acc), changed \<or> mType i1 \<noteq> Full)
      else if mType i1 = Empty then
        let (i2', acc') = append_quads1 (\<lambda>q. q) n i2 acc in ((quad_advance n i1, i2', acc'), True)
      else if mType i2 = Empty then
        let (i1', acc') = append_quads1 (\<lambda>q. q) n i1 acc in ((i1', quad_advance n i2, acc'), changed)
      else insert_quads n i1 i2 acc changed)"

definition insert_set :: "unicode_set \<Rightarrow> unicode_set \<Rightarrow> unicode_set" where
  "insert_set self other =
     (case while (\<lambda>(z, changed). zip_continues z) insert_body
             ((quad_begin self, quad_begin other, ([], [])), False) of
        ((i1, i2, acc), changed) \<Rightarrow> if changed then assign self acc else self)"

lemma insert_quads_eq:
  "insert_quads n i1 i2 acc changed =
     (append_quads2 (OR) n i1 i2 acc,
      changed \<or> fst (scan_quads (\<lambda>q1 q2. q2 AND NOT q1 \<noteq> 0) n i1 i2))"
  by (induction n i1 i2 acc changed rule: insert_quads.induct) (auto split: prod.splits)

abbreviation quad_adds :: "bitquad \<Rightarrow> bitquad \<Rightarrow> bool" where
  "quad_adds q1 q2 \<equiv> q2 AND NOT q1 \<noteq> 0"

text \<open>One turn of the loop is one turn of the union, and the flag is set when the stretch of
  \<open>other\<close> adds something to the stretch of \<open>self\<close>.\<close>

lemma insert_body_flag:
  assumes ok: "iter_ok i1" "iter_ok i2" and n: "n = min (mRemaining i1) (mRemaining i2)" and pos: "0 < n"
  shows "insert_body ((i1, i2, acc), changed) = (union_body (i1, i2, acc),
    changed \<or> list_ex (\<lambda>(x, y). quad_adds x y) (zip (take n (iter_quads i1)) (take n (iter_quads i2))))"
proof -
  let ?ex = "list_ex (\<lambda>(x, y). quad_adds x y) (zip (take n (iter_quads i1)) (take n (iter_quads i2)))"
  note ex = test_stretch[OF ok n, of quad_adds]
  have le: "n \<le> mRemaining i1" "n \<le> mRemaining i2" using n by simp_all
  note nth = stretch_nth[OF ok(1) le(1)] stretch_nth[OF ok(2) le(2)]
  have no: "mType i1 = Full \<or> mType i2 = Empty \<Longrightarrow> \<not> ?ex"
    unfolding ex using nth(2,4) by auto
  have yes: "mType i1 \<noteq> Full \<Longrightarrow> mType i2 \<noteq> Empty \<Longrightarrow> mType i1 = Empty \<or> mType i2 = Full \<Longrightarrow> ?ex"
    unfolding ex using nth[OF pos] pos
    by (cases "mType i1"; cases "mType i2") (auto intro!: exI[of _ 0])
  show ?thesis
    using no yes scan_quads_spec[OF ok(1) _ le(1) ok(2) _ le(2), of quad_adds]
    by (cases "mType i1"; cases "mType i2")
       (auto simp: Let_def insert_quads_eq simp flip: n split: prod.splits)
qed

definition insert_loop_inv :: "unicode_set \<Rightarrow> unicode_set \<Rightarrow> zip_state \<times> bool \<Rightarrow> bool" where
  "insert_loop_inv s t = (\<lambda>((i1, i2, acc), changed). iter_ok i1 \<and> iter_ok i2
     \<and> length (iter_quads i1) = length (iter_quads i2)
     \<and> compress_from acc (map2 (OR) (iter_quads i1) (iter_quads i2)) = compress (map2 (OR) (dense s) (dense t))
     \<and> (changed \<or> list_ex (\<lambda>(x, y). quad_adds x y) (zip (iter_quads i1) (iter_quads i2))
        \<longleftrightarrow> list_ex (\<lambda>(x, y). quad_adds x y) (zip (dense s) (dense t))))"

lemma list_ex_zip_split:
  "list_ex p (zip xs ys) \<longleftrightarrow> list_ex p (zip (take n xs) (take n ys)) \<or> list_ex p (zip (drop n xs) (drop n ys))"
  by (metis append_take_drop_id drop_zip list_ex_append take_zip)

lemma insert_loop_step:
  assumes "insert_loop_inv s t z" "zip_continues (fst z)"
  shows "insert_loop_inv s t (insert_body z)"
    and "(insert_body z, z) \<in> measure (\<lambda>((i1, i2, acc), changed). length (iter_quads i1))"
proof -
  obtain i1 i2 acc changed where z: "z = ((i1, i2, acc), changed)" by (cases z) auto
  let ?n = "min (mRemaining i1) (mRemaining i2)"
  have inv: "iter_ok i1" "iter_ok i2" and eq: "length (iter_quads i1) = length (iter_quads i2)"
    using assms(1) by (simp_all add: z insert_loop_inv_def)
  have pos: "0 < ?n" using assms(2) by (simp add: z)
  have len: "?n \<le> length (iter_quads i1)" "?n \<le> length (iter_quads i2)"
    using inv iter_remaining_le[of i1] iter_remaining_le[of i2] by auto
  note step = insert_body_flag[OF inv refl pos] union_zip.body_step[OF inv refl pos]
  show "insert_loop_inv s t (insert_body z)"
    using assms(1) inv eq len map2_take_drop[of "(OR)" "iter_quads i1" "iter_quads i2" ?n]
      list_ex_zip_split[of "\<lambda>(x, y). quad_adds x y" "iter_quads i1" "iter_quads i2" ?n]
    by (simp only: z step) (simp add: insert_loop_inv_def disj_ac)
  show "(insert_body z, z) \<in> measure (\<lambda>((i1, i2, acc), changed). length (iter_quads i1))"
    using inv len diff_less[OF pos, of "length (iter_quads i1)"] pos by (simp only: z step) auto
qed

lemma insert_loop_value:
  assumes "uset_ok s" "uset_ok t"
  shows "\<exists>i1 i2. while (\<lambda>(z, changed). zip_continues z) insert_body
       ((quad_begin s, quad_begin t, ([], [])), False) =
     ((i1, i2, compress (map2 (OR) (dense s) (dense t))), \<not> codepoints t \<subseteq> codepoints s)"
    (is "\<exists>i1 i2. ?w = _")
proof -
  let ?ex = "list_ex (\<lambda>(x, y). quad_adds x y) (zip (dense s) (dense t))"
  have "snd (snd (fst ?w)) = compress (map2 (OR) (dense s) (dense t)) \<and> snd ?w = ?ex"
  proof (rule while_rule[where P = "insert_loop_inv s t" and
        r = "measure (\<lambda>((i1, i2, acc), changed). length (iter_quads i1))"])
    show "insert_loop_inv s t ((quad_begin s, quad_begin t, [], []), False)"
      using assms by (simp add: insert_loop_inv_def quad_begin_spec length_dense compress_def)
    fix z assume "insert_loop_inv s t z" "\<not> (case z of (z, changed) \<Rightarrow> zip_continues z)"
    then show "snd (snd (fst z)) = compress (map2 (OR) (dense s) (dense t)) \<and> snd z = ?ex"
      by (cases z) (auto simp: insert_loop_inv_def min_def iter_remaining_0 split: if_splits)
  qed (use insert_loop_step in auto)
  moreover have "?ex \<longleftrightarrow> \<not> codepoints t \<subseteq> codepoints s"
    unfolding subset_iff[OF assms(2,1), symmetric]
    using assms by (simp add: subset_def subset_test.test_loop_value list_ex_zip_iff length_dense)
  ultimately show ?thesis by (cases ?w) auto
qed

lemma assign_simps [simp]:
  "mRuns (assign s p) = fst p" "mQuads (assign s p) = snd p"
  by (cases p; simp add: Let_def)+

lemma insert_set_value:
  assumes "uset_ok s" "uset_ok t"
  shows "insert_set s t = (if codepoints t \<subseteq> codepoints s then s
    else assign s (compress (map2 (OR) (dense s) (dense t))))"
  using insert_loop_value[OF assms] by (elim exE) (simp add: insert_set_def)

lemma assign_compress:
  "mRuns (assign s (compress qs)) = mRuns (new_set (compress qs))"
  "mQuads (assign s (compress qs)) = mQuads (new_set (compress qs))"
  by simp_all

lemma same_arrays:
  assumes "mRuns s = mRuns t" "mQuads s = mQuads t"
  shows "dense s = dense t" "codepoints s = codepoints t" "uset_ok s = uset_ok t" "canonical s = canonical t"
  using assms by (simp_all add: dense_def codepoints_def uset_ok_def canonical_def)

lemma insert_set_spec:
  assumes "uset_ok s" "uset_ok t"
  shows "codepoints (insert_set s t) = codepoints s \<union> codepoints t" "uset_ok (insert_set s t)"
    "canonical s \<Longrightarrow> canonical (insert_set s t)"
proof -
  have plus: "operator_plus s t = new_set (compress (map2 (OR) (dense s) (dense t)))"
    using assms by (simp add: operator_plus_def union_zip.zip_sets_value)
  note same = same_arrays[OF assign_compress, of s "map2 (OR) (dense s) (dense t)", folded plus]
  show "codepoints (insert_set s t) = codepoints s \<union> codepoints t"
    using assms by (auto simp: insert_set_value same codepoints_plus)
  show "uset_ok (insert_set s t)" "canonical s \<Longrightarrow> canonical (insert_set s t)"
    using assms canonical_binary(2)[OF assms]
    by (simp_all add: insert_set_value same canonical_uset_ok)
qed

end
