(* ===== verification/USet_Query.thy ===== *)
theory USet_Query imports USet_Compare begin

text \<open>
  The queries of \<open>unicode_set.cpp\<close> that walk one set: membership, the quad around a code
  point, the number of members and the k-th member, together with the tests \<open>empty\<close> and
  \<open>full\<close> of \<open>unicode_set.h\<close>, which look at the representation only.
\<close>

section \<open>Bit scanning\<close>

text \<open>The compiler builtins \<open>__builtin_ctz\<close> and \<open>__builtin_popcount\<close> at the quad width.\<close>

definition scan_forward_zeroes :: "bitquad \<Rightarrow> nat" where
  "scan_forward_zeroes x = length (takeWhile (\<lambda>n. \<not> bit x n) [0..<32])"

definition popcount :: "bitquad \<Rightarrow> nat" where
  "popcount x = length (filter (bit x) [0..<32])"

section \<open>The queries\<close>

definition is_empty :: "unicode_set \<Rightarrow> bool" where
  "is_empty s \<longleftrightarrow> length (mRuns s) = 1 \<and> fst (hd (mRuns s)) = Empty"

definition is_full :: "unicode_set \<Rightarrow> bool" where
  "is_full s \<longleftrightarrow> length (mRuns s) = 1 \<and> fst (hd (mRuns s)) = Full"

fun contains_loop :: "bitquad list \<Rightarrow> codepoint \<Rightarrow> run list \<Rightarrow> nat \<Rightarrow> nat \<Rightarrow> bool" where
  "contains_loop quads cp [] offset quadIndex = False"
| "contains_loop quads cp ((type, len) # rs) offset quadIndex =
     (if offset < len then
        if type = Mixed
        then quads ! (quadIndex + offset) AND push_bit (cp AND QUAD_LIMIT) 1 \<noteq> 0
        else type = Full
      else contains_loop quads cp rs (offset - len)
             (if type = Mixed then quadIndex + len else quadIndex))"

definition contains :: "unicode_set \<Rightarrow> codepoint \<Rightarrow> bool" where
  "contains s cp = contains_loop (mQuads s) cp (mRuns s) (cp div QUAD_BITS) 0"

fun bitquad_at_loop :: "bitquad list \<Rightarrow> run list \<Rightarrow> nat \<Rightarrow> nat \<Rightarrow> bitquad" where
  "bitquad_at_loop quads [] offset quadIndex = 0"
| "bitquad_at_loop quads ((type, len) # rs) offset quadIndex =
     (if offset < len then
        if type = Mixed then quads ! (quadIndex + offset)
        else if type = Full then NOT 0
        else 0
      else bitquad_at_loop quads rs (offset - len)
             (if type = Mixed then quadIndex + len else quadIndex))"

definition bitquad_at :: "unicode_set \<Rightarrow> codepoint \<Rightarrow> bitquad" where
  "bitquad_at s cp = bitquad_at_loop (mQuads s) (mRuns s) (cp div QUAD_BITS) 0"

fun count_runs :: "run list \<Rightarrow> nat \<Rightarrow> nat" where
  "count_runs [] n = n"
| "count_runs (r # rs) n = count_runs rs (if typeOf r = Full then n + lengthOf r else n)"

fun count_quads :: "bitquad list \<Rightarrow> nat \<Rightarrow> nat" where
  "count_quads [] n = n"
| "count_quads (q # qs) n = count_quads qs (n + popcount q)"

definition count :: "unicode_set \<Rightarrow> nat" where
  "count s = count_quads (mQuads s) (count_runs (mRuns s) 0 * QUAD_BITS)"

text \<open>The loop of \<open>at\<close> over the bits of a quad: drop the lowest set bit until the wanted one
  is the lowest.\<close>

fun select_bit :: "nat \<Rightarrow> bitquad \<Rightarrow> nat" where
  "select_bit 0 q = scan_forward_zeroes q"
| "select_bit (Suc remaining) q = select_bit remaining (q XOR push_bit (scan_forward_zeroes q) 1)"

text \<open>A Mixed run: \<open>Inl\<close> the code point found, or \<open>Inr\<close> the base, the count still to
  skip and the quads of the later runs.\<close>

fun at_mixed :: "nat \<Rightarrow> bitquad list \<Rightarrow> nat \<Rightarrow> nat \<Rightarrow> codepoint + nat \<times> nat \<times> bitquad list" where
  "at_mixed 0 qs base remaining = Inr (base, remaining, qs)"
| "at_mixed (Suc l) qs base remaining =
     (let q = hd qs; c = popcount q in
      if remaining < c then Inl (base + select_bit remaining q)
      else at_mixed l (tl qs) (base + QUAD_BITS) (remaining - c))"

datatype at_error = NoSuchCodepoint nat nat

fun at_loop :: "run list \<Rightarrow> bitquad list \<Rightarrow> nat \<Rightarrow> nat \<Rightarrow> codepoint option" where
  "at_loop [] qs base remaining = None"
| "at_loop (r # rs) qs base remaining =
     (if typeOf r = Empty then at_loop rs qs (base + lengthOf r * QUAD_BITS) remaining
      else if typeOf r = Full then
        let m = lengthOf r * QUAD_BITS in
        if remaining < m then Some (base + remaining)
        else at_loop rs qs (base + m) (remaining - m)
      else case at_mixed (lengthOf r) qs base remaining of
             Inl cp \<Rightarrow> Some cp
           | Inr (base', remaining', qs') \<Rightarrow> at_loop rs qs' base' remaining')"

definition uset_at :: "unicode_set \<Rightarrow> nat \<Rightarrow> at_error + codepoint" where
  "uset_at s k = (case at_loop (mRuns s) (mQuads s) 0 k of
      Some cp \<Rightarrow> Inr cp
    | None \<Rightarrow> Inl (NoSuchCodepoint k (count s)))"

section \<open>Membership\<close>

lemma bitquad_at_loop_eq:
  "quadIndex + mixed_count rs \<le> length quads \<Longrightarrow> bitquad_at_loop quads rs offset quadIndex =
     (if offset < run_total rs then quads_of rs (drop quadIndex quads) ! offset else 0)"
proof (induction rs arbitrary: offset quadIndex)
  case (Cons r rs)
  obtain t n where r: "r = (t, n)" by (cases r)
  have len: "length (take n (drop quadIndex quads)) = n" if "t = Mixed"
    using Cons.prems that by (simp add: r)
  from Cons.prems Cons.IH[of "quadIndex + (if t = Mixed then n else 0)" "offset - n"] show ?case
    by (cases t) (use len in \<open>auto simp: r nth_append FULL_QUAD_MASK_def add.commute\<close>)
qed simp

lemma contains_loop_eq:
  "contains_loop quads cp rs offset quadIndex = bit (bitquad_at_loop quads rs offset quadIndex) (cp mod 32)"
  by (induction quads cp rs offset quadIndex rule: contains_loop.induct)
     (auto simp: and_exp_eq_0_iff_not_bit push_bit_of_1 bit_simps split: run_type.splits)

lemma quad_index_less: "cp div 32 < 34816 \<longleftrightarrow> cp \<le> 1114111" for cp :: nat
  by linarith

lemma bitquad_at_eq:
  assumes "uset_ok s"
  shows "bitquad_at s cp = (if cp \<le> 1114111 then dense s ! (cp div 32) else 0)"
proof -
  have "mixed_count (mRuns s) \<le> length (mQuads s)"
    using uset_okD(1)[OF assms] by (simp add: runs_ok_def)
  then have "bitquad_at s cp = (if cp div 32 < 34816 then dense s ! (cp div 32) else 0)"
    using bitquad_at_loop_eq[of 0 "mRuns s" "mQuads s" "cp div 32"]
    by (simp only: bitquad_at_def dense_def uset_okD(2)[OF assms] quad_constants drop_0 add_0)
  then show ?thesis by (simp only: quad_index_less)
qed

lemma contains_iff [uset_simps]: "uset_ok s \<Longrightarrow> contains s cp \<longleftrightarrow> cp \<in> codepoints s"
  using bitquad_at_eq[of s cp]
  by (simp only: contains_def contains_loop_eq mem_codepoints_ok bitquad_at_def [symmetric]
      split: if_split) simp

lemma bit_bitquad_at:
  assumes "uset_ok s" "n < 32"
  shows "bit (bitquad_at s cp) n \<longleftrightarrow> cp div 32 * 32 + n \<in> codepoints s"
proof -
  have "cp \<le> 1114111 \<longleftrightarrow> cp div 32 * 32 + n \<le> 1114111"
    using assms(2) quad_index_less[of cp] quad_index_less[of "cp div 32 * 32 + n"] by simp
  with assms show ?thesis by (simp add: bitquad_at_eq mem_codepoints_ok)
qed

section \<open>The members in order\<close>

fun members :: "nat \<Rightarrow> bitquad list \<Rightarrow> codepoint list" where
  "members base [] = []"
| "members base (q # qs) = map ((+) base) (filter (bit q) [0..<32]) @ members (base + 32) qs"

lemma members_append: "members base (xs @ ys) = members base xs @ members (base + 32 * length xs) ys"
  by (induction xs arbitrary: base) (simp_all add: algebra_simps)

lemma members_empty [simp]: "members base (replicate n 0) = []"
  by (induction n arbitrary: base) simp_all

lemma members_full: "members base (replicate n FULL_QUAD_MASK) = [base..<base + n * 32]"
proof (induction n arbitrary: base)
  case (Suc n)
  have "filter (bit FULL_QUAD_MASK) [0..<32] = [0..<32]"
    by (rule filter_True) (simp del: upt_rec_numeral)
  moreover have "map ((+) base) [0..<32] = [base..<base + 32]"
    using map_add_upt [of base 32] by (simp only: add.commute [of _ base])
  ultimately have "map ((+) base) (filter (bit FULL_QUAD_MASK) [0..<32]) = [base..<base + 32]"
    by simp
  moreover have "[base..<base + Suc n * 32] = [base..<base + 32] @ [base + 32..<base + 32 + n * 32]"
    using upt_add_eq_append[of base "base + 32" "n * 32"]
    by (simp add: algebra_simps del: upt_rec_numeral)
  ultimately show ?case by (simp add: Suc.IH del: upt_rec_numeral)
qed simp

lemma set_members: "set (members base qs) = {base + cp |cp. quads_mem qs cp}"
proof (induction qs arbitrary: base)
  case (Cons q qs)
  have split: "quads_mem (q # qs) cp \<longleftrightarrow> cp < 32 \<and> bit q cp \<or> (\<exists>c. cp = 32 + c \<and> quads_mem qs c)" for cp
  proof (cases "cp < 32")
    case False
    then obtain c where "cp = 32 + c" using le_iff_add by (metis not_less)
    moreover have "(32 + c) div 32 = Suc (c div 32)" "(32 + c) mod 32 = c mod 32" by simp_all
    ultimately show ?thesis by (simp add: quads_mem_def)
  qed (auto simp: quads_mem_def)
  show ?case unfolding split by (auto simp: Cons.IH algebra_simps simp del: upt_rec_numeral)
qed (simp add: quads_mem_def)

lemma sorted_members: "sorted_wrt (<) (members base qs)"
proof (induction qs arbitrary: base)
  case (Cons q qs)
  have "sorted_wrt (<) (filter (bit q) [0..<32])"
    by (simp add: sorted_wrt_filter del: upt_rec_numeral)
  then have "sorted_wrt (<) (map ((+) base) (filter (bit q) [0..<32]))"
    by (simp add: sorted_wrt_map)
  with Cons.IH[of "base + 32"] show ?case
    by (auto simp: sorted_wrt_append set_members simp del: upt_rec_numeral)
qed simp

lemma codepoints_members: "codepoints s = set (members 0 (dense s))"
  by (simp add: codepoints_def set_members)

lemma finite_codepoints [simp]: "finite (codepoints s)"
  by (simp add: codepoints_members)

lemma members_dense: "members 0 (dense s) = sorted_list_of_set (codepoints s)"
  using sorted_members[of 0 "dense s"]
  by (simp add: codepoints_members sorted_list_of_set.idem_if_sorted_distinct strict_sorted_iff)

lemma card_codepoints: "card (codepoints s) = length (members 0 (dense s))"
  by (metis length_sorted_list_of_set members_dense)

section \<open>Counting\<close>

lemma count_runs_acc: "count_runs rs n = n + count_runs rs 0"
proof (induction rs arbitrary: n)
  case (Cons r rs)
  from Cons[of "n + lengthOf r"] Cons[of n] Cons[of "lengthOf r"] show ?case by simp
qed simp

lemma count_quads_acc: "count_quads qs n = n + count_quads qs 0"
proof (induction qs arbitrary: n)
  case (Cons q qs)
  from Cons[of "n + popcount q"] Cons[of "popcount q"] show ?case by simp
qed simp

lemma length_members: "length (members base qs) = count_quads qs 0"
  by (induction qs arbitrary: base)
     (simp_all add: popcount_def count_quads_acc[of _ "length _"])

lemma count_quads_append: "count_quads (xs @ ys) 0 = count_quads xs 0 + count_quads ys 0"
  by (induction xs) (simp_all add: count_quads_acc[of _ "popcount _"])

lemma count_quads_of:
  "mixed_count rs = length qs \<Longrightarrow> count_quads (quads_of rs qs) 0 = count_quads qs (count_runs rs 0 * 32)"
proof (induction rs qs rule: quads_of.induct)
  case (2 n rs qs)
  have "count_quads (replicate n 0) 0 = 0"
    using length_members[of 0 "replicate n 0"] by simp
  with 2 show ?case by (simp add: count_quads_append typeOf_def)
next
  case (3 n rs qs)
  have "count_quads (replicate n FULL_QUAD_MASK) 0 = 32 * n"
    using length_members[of 0 "replicate n FULL_QUAD_MASK"] by (simp add: members_full)
  with 3 show ?case
    using count_quads_acc[of qs "count_runs rs 0 * 32"] count_quads_acc[of qs "count_runs rs n * 32"]
      count_runs_acc[of rs n]
    by (simp add: count_quads_append typeOf_def lengthOf_def algebra_simps)
next
  case (4 n rs qs)
  have "count_quads qs 0 = count_quads (take n qs) 0 + count_quads (drop n qs) 0"
    by (simp flip: count_quads_append)
  with 4 show ?case
    using count_quads_acc[of qs "count_runs rs 0 * 32"] count_quads_acc[of "drop n qs" "count_runs rs 0 * 32"]
    by (simp add: count_quads_append typeOf_def)
qed simp

lemma count_eq_card [uset_simps]: "uset_ok s \<Longrightarrow> count s = card (codepoints s)"
  using count_quads_of[of "mRuns s" "mQuads s"] uset_okD(1)[of s]
  by (simp add: count_def card_codepoints length_members runs_ok_def dense_def)

section \<open>Selecting the k-th member\<close>

lemma filter_Cons_distinct:
  "distinct xs \<Longrightarrow> filter P xs = y # ys \<Longrightarrow> ys = filter (\<lambda>x. P x \<and> x \<noteq> y) xs"
proof (induction xs)
  case (Cons x xs)
  then show ?case
  proof (cases "P x")
    case True
    with Cons.prems have "x = y" "ys = filter P xs" by auto
    moreover have "filter P xs = filter (\<lambda>z. P z \<and> z \<noteq> y) xs"
      using Cons.prems(1) \<open>x = y\<close> by (intro filter_cong) auto
    ultimately show ?thesis by simp
  qed auto
qed simp

lemma hd_filter_eq_nth:
  "filter P xs \<noteq> [] \<Longrightarrow> hd (filter P xs) = xs ! length (takeWhile (\<lambda>x. \<not> P x) xs) \<and>
     length (takeWhile (\<lambda>x. \<not> P x) xs) < length xs"
  by (induction xs) auto

lemma scan_forward_zeroes_hd:
  assumes "filter (bit q) [0..<32] \<noteq> []"
  shows "hd (filter (bit q) [0..<32]) = scan_forward_zeroes q" "scan_forward_zeroes q < 32"
proof -
  from hd_filter_eq_nth[OF assms]
  show lt: "scan_forward_zeroes q < 32" by (simp add: scan_forward_zeroes_def)
  with hd_filter_eq_nth[OF assms] show "hd (filter (bit q) [0..<32]) = scan_forward_zeroes q"
    by (simp add: scan_forward_zeroes_def nth_upt del: upt_rec_numeral)
qed

lemma select_bit_nth:
  "k < popcount q \<Longrightarrow> select_bit k q = filter (bit q) [0..<32] ! k"
proof (induction k arbitrary: q)
  case 0
  then have "filter (bit q) [0..<32] \<noteq> []" by (auto simp: popcount_def simp del: upt_rec_numeral)
  with scan_forward_zeroes_hd[OF this] show ?case by (simp add: hd_conv_nth del: upt_rec_numeral)
next
  case (Suc k)
  then have ne: "filter (bit q) [0..<32] \<noteq> []" by (auto simp: popcount_def simp del: upt_rec_numeral)
  let ?z = "scan_forward_zeroes q" and ?q = "q XOR push_bit (scan_forward_zeroes q) 1"
  obtain ys where ys: "filter (bit q) [0..<32] = ?z # ys"
    using scan_forward_zeroes_hd(1)[OF ne] ne by (metis list.collapse)
  have z: "bit q ?z" "?z < 32"
  proof -
    have "?z \<in> set (filter (bit q) [0..<32])" by (simp only: ys) simp
    then show "bit q ?z" "?z < 32" by (auto simp del: upt_rec_numeral)
  qed
  have "ys = filter (\<lambda>n. bit q n \<and> n \<noteq> ?z) [0..<32]"
    by (rule filter_Cons_distinct[OF distinct_upt ys])
  also have "\<dots> = filter (bit ?q) [0..<32]"
    using z by (intro filter_cong) (auto simp: bit_simps push_bit_of_1)
  finally show ?case
    using Suc ys by (simp add: popcount_def del: upt_rec_numeral)
qed

lemma at_mixed_spec:
  "l \<le> length qs \<Longrightarrow> at_mixed l qs base k =
     (let m = members base (take l qs) in
      if k < length m then Inl (m ! k) else Inr (base + 32 * l, k - length m, drop l qs))"
proof (induction l qs base k rule: at_mixed.induct)
  case (2 l qs base k)
  from "2.prems" obtain q qs' where qs: "qs = q # qs'" by (cases qs) auto
  have len: "length (map ((+) base) (filter (bit q) [0..<32])) = popcount q"
    by (simp add: popcount_def del: upt_rec_numeral)
  show ?case
  proof (cases "k < popcount q")
    case True
    with len select_bit_nth[OF True] show ?thesis
      by (simp add: qs Let_def nth_append popcount_def del: upt_rec_numeral)
  next
    case False
    with "2.IH"[of q "popcount q"] "2.prems" len show ?thesis
      by (auto simp: qs Let_def nth_append popcount_def simp del: upt_rec_numeral)
  qed
qed (simp add: Let_def)

lemma at_loop_spec:
  "mixed_count rs \<le> length qs \<Longrightarrow> at_loop rs qs base k =
     (let m = members base (quads_of rs qs) in if k < length m then Some (m ! k) else None)"
proof (induction rs qs arbitrary: base k rule: quads_of.induct)
  case (2 n rs qs)
  then show ?case by (simp add: typeOf_def lengthOf_def members_append algebra_simps)
next
  case (3 n rs qs)
  then show ?case
    by (cases "k < n * 32")
       (auto simp: typeOf_def lengthOf_def members_append members_full Let_def nth_append
         less_diff_conv2 algebra_simps)
next
  case (4 n rs qs)
  then show ?case
    by (cases "k < length (members base (take n qs))")
       (auto simp: typeOf_def lengthOf_def members_append Let_def at_mixed_spec nth_append
         less_diff_conv2 algebra_simps)
qed (simp add: Let_def)

lemma at_value:
  assumes "uset_ok s"
  shows "uset_at s k = (if k < card (codepoints s) then Inr (sorted_list_of_set (codepoints s) ! k)
    else Inl (NoSuchCodepoint k (card (codepoints s))))"
  using at_loop_spec[of "mRuns s" "mQuads s" 0 k] uset_okD(1)[OF assms] assms
  by (simp add: uset_at_def Let_def count_eq_card card_codepoints members_dense[symmetric]
      dense_def[symmetric] runs_ok_def)

section \<open>Empty and full sets\<close>

lemma compress_replicate:
  "0 < n \<Longrightarrow> compress (replicate n 0) = ([(Empty, n)], [])"
  "0 < n \<Longrightarrow> compress (replicate n FULL_QUAD_MASK) = ([(Full, n)], [])"
  using append_run_to_eq_compress[of n "([], [])"] by (simp_all add: compress_def append_run_def)

lemma single_run:
  assumes "canonical s" "q = 0 \<and> t = Empty \<or> q = FULL_QUAD_MASK \<and> t = Full"
  shows "length (mRuns s) = 1 \<and> fst (hd (mRuns s)) = t \<longleftrightarrow> dense s = replicate (length (dense s)) q"
proof -
  have len: "length (dense s) = run_total (mRuns s)" "0 < run_total (mRuns s)"
    using uset_okD(2,3)[OF canonical_uset_ok[OF assms(1)]] by simp_all
  have "dense s = replicate (length (dense s)) q \<Longrightarrow> mRuns s = [(t, length (dense s))]"
    using canonical_compress[OF assms(1)] compress_replicate[of "length (dense s)"] len assms(2)
    by (metis fst_conv)
  moreover have "dense s = replicate (length (dense s)) q" if "length (mRuns s) = 1" "fst (hd (mRuns s)) = t"
  proof -
    from that obtain n where "mRuns s = [(t, n)]" by (cases "mRuns s") auto
    with assms(2) show ?thesis by (auto simp: dense_def)
  qed
  ultimately show ?thesis by auto
qed

lemma quads_mem_replicate: "quads_mem (replicate n q) cp \<longleftrightarrow> cp div 32 < n \<and> bit q (cp mod 32)"
  by (auto simp: quads_mem_def)

lemma dense_eq_replicate:
  assumes "uset_ok s"
  shows "dense s = replicate (length (dense s)) q \<longleftrightarrow> codepoints s = {cp. cp \<le> 1114111 \<and> bit q (cp mod 32)}"
proof -
  have "dense s = replicate (length (dense s)) q \<longleftrightarrow>
      (\<forall>cp. quads_mem (dense s) cp = quads_mem (replicate (length (dense s)) q) cp)"
    using quads_eqI[of "dense s" "replicate (length (dense s)) q"] by (metis length_replicate)
  also have "\<dots> \<longleftrightarrow> (\<forall>cp. cp \<in> codepoints s \<longleftrightarrow> cp \<le> 1114111 \<and> bit q (cp mod 32))"
    by (simp only: quads_mem_replicate length_dense[OF assms] quad_index_less mem_codepoints)
  finally show ?thesis by (simp only: set_eq_iff mem_Collect_eq)
qed

lemma is_empty_iff [uset_simps]: "canonical s \<Longrightarrow> is_empty s \<longleftrightarrow> codepoints s = {}"
  using single_run[of s 0 Empty] dense_eq_replicate[of s 0] by (simp add: is_empty_def canonical_uset_ok)

lemma is_full_iff [uset_simps]: "canonical s \<Longrightarrow> is_full s \<longleftrightarrow> codepoints s = {..UNICODE_MAX}"
  using single_run[of s FULL_QUAD_MASK Full] dense_eq_replicate[of s FULL_QUAD_MASK]
  by (simp add: is_full_def canonical_uset_ok atMost_def)

end
