(* ===== verification/USet_Build.thy ===== *)
theory USet_Build imports USet_Query begin

text \<open>
  The constructors of \<open>unicode_set.cpp\<close>: the empty set, singletons, ranges, interval lists
  (\<open>convertIntervalsToUnicodeSet\<close>), copies, moves and the predefined constants, whose
  capacity 0 marks arrays they do not own.
\<close>

section \<open>Empty set, singletons and ranges\<close>

definition UnicodeSet_empty :: unicode_set where
  "UnicodeSet_empty = \<lparr>mRuns = [(Empty, UNICODE_QUAD_COUNT)], mQuads = [],
     mRunCapacity = 1, mQuadCapacity = 0\<rparr>"

definition UnicodeSet_singleton :: "codepoint \<Rightarrow> unicode_set" where
  "UnicodeSet_singleton cp =
     (let offset = cp div QUAD_BITS; remaining = UNICODE_QUAD_COUNT - (offset + 1);
          r1 = (if offset \<noteq> 0 then [(Empty, offset)] else []);
          r2 = r1 @ [(Mixed, 1)];
          r3 = (if remaining \<noteq> 0 then r2 @ [(Empty, remaining)] else r2)
      in \<lparr>mRuns = r3, mQuads = [push_bit (cp AND QUAD_LIMIT) 1], mRunCapacity = 3, mQuadCapacity = 1\<rparr>)"

definition lo_quad :: "codepoint \<Rightarrow> bitquad" where
  "lo_quad lo = push_bit (lo AND QUAD_LIMIT) FULL_QUAD_MASK"

definition hi_quad :: "codepoint \<Rightarrow> bitquad" where
  "hi_quad hi = drop_bit (QUAD_LIMIT - (hi AND QUAD_LIMIT)) FULL_QUAD_MASK"

definition UnicodeSet_range :: "codepoint \<Rightarrow> codepoint \<Rightarrow> unicode_set" where
  "UnicodeSet_range lo hi =
     (let lo_index = lo div QUAD_BITS; hi_index = hi div QUAD_BITS;
          lo_offset = lo AND QUAD_LIMIT; hi_offset = hi AND QUAD_LIMIT;
          runs0 = (if lo_index \<noteq> 0 then [(Empty, lo_index)] else []);
          (runs1, quads1) =
            (if lo_index = hi_index then
               if lo_offset = 0 \<and> hi_offset = QUAD_LIMIT then (runs0 @ [(Full, 1)], [])
               else (runs0 @ [(Mixed, 1)], [lo_quad lo AND hi_quad hi])
             else
               let lm = (if lo_offset \<noteq> 0 then 1 else 0);
                   rm = (if hi_offset \<noteq> QUAD_LIMIT then 1 else 0);
                   d = hi_index - lo_index + 1 - (lm + rm);
                   (ra, qa) = (if lo_offset \<noteq> 0 then (runs0 @ [(Mixed, 1)], [lo_quad lo]) else (runs0, []));
                   rb = (if d \<noteq> 0 then ra @ [(Full, d)] else ra)
               in if hi_offset \<noteq> QUAD_LIMIT then (rb @ [(Mixed, 1)], qa @ [hi_quad hi]) else (rb, qa));
          remaining = UNICODE_QUAD_COUNT - (hi_index + 1);
          runs2 = (if remaining \<noteq> 0 then runs1 @ [(Empty, remaining)] else runs1)
      in \<lparr>mRuns = runs2, mQuads = quads1, mRunCapacity = 5, mQuadCapacity = 2\<rparr>)"

lemma bit_lo_quad [simp]: "n < 32 \<Longrightarrow> bit (lo_quad lo) n \<longleftrightarrow> lo mod 32 \<le> n"
  by (auto simp: lo_quad_def bit_simps)

lemma bit_hi_quad [simp]: "bit (hi_quad hi) n \<longleftrightarrow> n \<le> hi mod 32"
proof -
  have "hi mod 32 < 32" by simp
  then have "(31 - hi mod 32) + n < 32 \<longleftrightarrow> n \<le> hi mod 32" by linarith
  then show ?thesis by (simp add: hi_quad_def bit_simps)
qed

lemma quad_eq_iff: "q = q' \<longleftrightarrow> (\<forall>n<32. bit q n = bit q' n)" for q q' :: bitquad
  by (simp add: bit_eq_iff)

lemma lo_quad_special:
  "lo_quad lo \<noteq> 0" "lo_quad lo = FULL_QUAD_MASK \<longleftrightarrow> lo mod 32 = 0"
proof -
  have "bit (lo_quad lo) 31" by (simp add: less_Suc_eq_le [of "lo mod 32" 31, symmetric])
  then show "lo_quad lo \<noteq> 0" by (metis bit_0_eq bot_apply bot_bool_def)
  show "lo_quad lo = FULL_QUAD_MASK \<longleftrightarrow> lo mod 32 = 0"
    by (auto simp: quad_eq_iff dest: spec[of _ 0])
qed

lemma hi_quad_special:
  "hi_quad hi \<noteq> 0" "hi_quad hi = FULL_QUAD_MASK \<longleftrightarrow> hi mod 32 = 31"
proof -
  have "bit (hi_quad hi) 0" by simp
  then show "hi_quad hi \<noteq> 0" by (metis bit_0_eq bot_apply bot_bool_def)
  have "hi mod 32 < 32" by simp
  then show "hi_quad hi = FULL_QUAD_MASK \<longleftrightarrow> hi mod 32 = 31"
    by (auto simp: quad_eq_iff dest: spec[of _ 31])
qed

lemma lo_and_hi_special:
  assumes "lo mod 32 \<le> hi mod 32"
  shows "lo_quad lo AND hi_quad hi \<noteq> 0"
    "lo_quad lo AND hi_quad hi = FULL_QUAD_MASK \<longleftrightarrow> lo mod 32 = 0 \<and> hi mod 32 = 31"
proof -
  have lt: "hi mod 32 < 32" by simp
  then have "bit (lo_quad lo AND hi_quad hi) (hi mod 32)"
    using assms by (simp add: bit_and_iff)
  then show "lo_quad lo AND hi_quad hi \<noteq> 0" by auto
  show "lo_quad lo AND hi_quad hi = FULL_QUAD_MASK \<longleftrightarrow> lo mod 32 = 0 \<and> hi mod 32 = 31"
    using lt by (auto simp: quad_eq_iff bit_and_iff dest: spec[of _ 0] spec[of _ 31])
qed

text \<open>The quads of a range, as the constructor and \<open>insert_range\<close> think of them.\<close>

definition range_quads :: "codepoint \<Rightarrow> codepoint \<Rightarrow> bitquad list" where
  "range_quads lo hi = (if lo div 32 = hi div 32 then [lo_quad lo AND hi_quad hi]
     else lo_quad lo # replicate (hi div 32 - lo div 32 - 1) FULL_QUAD_MASK @ [hi_quad hi])"

lemma length_range_quads: "lo \<le> hi \<Longrightarrow> length (range_quads lo hi) = hi div 32 + 1 - lo div 32"
  using div_le_mono[of lo hi 32]
  by (cases "lo div 32 = hi div 32") (simp_all add: range_quads_def Suc_diff_Suc Suc_diff_le)

lemma quad_le_iff: "a \<le> b \<longleftrightarrow> a div 32 < b div 32 \<or> a div 32 = b div 32 \<and> a mod 32 \<le> b mod 32" for a b :: nat
proof -
  have "a = 32 * (a div 32) + a mod 32" "b = 32 * (b div 32) + b mod 32" "a mod 32 < 32" "b mod 32 < 32"
    by simp_all
  then show ?thesis by linarith
qed

lemma range_quads_mem:
  assumes "lo \<le> hi" "lo div 32 \<le> cp div 32" "cp div 32 \<le> hi div 32"
  shows "bit (range_quads lo hi ! (cp div 32 - lo div 32)) (cp mod 32) \<longleftrightarrow> lo \<le> cp \<and> cp \<le> hi"
proof -
  obtain L H C c where eqs [simp]: "lo div 32 = L" "hi div 32 = H" "cp div 32 = C" "cp mod 32 = c" by blast
  have c: "c < 32" by (simp flip: eqs(4))
  have ord: "lo \<le> cp \<longleftrightarrow> L < C \<or> L = C \<and> lo mod 32 \<le> c" "cp \<le> hi \<longleftrightarrow> C < H \<or> C = H \<and> c \<le> hi mod 32"
    by (simp_all add: quad_le_iff[of lo cp] quad_le_iff[of cp hi])
  consider "L = H" "C = L" | "L < H" "C = L" | k where "C = H" "H = Suc (L + k)"
    | i k where "C = Suc (L + i)" "H = Suc (L + k)" "i < k"
    using assms less_imp_Suc_add[of L H] less_imp_Suc_add[of L C] by (auto simp: le_less)
  then show ?thesis
    by cases (simp_all add: range_quads_def bit_and_iff ord nth_append c)
qed

lemma dense_range_mem:
  assumes "lo \<le> hi" "hi \<le> 1114111"
  shows "quads_mem (replicate (lo div 32) 0 @ range_quads lo hi @ replicate (34816 - (hi div 32 + 1)) 0) cp
    \<longleftrightarrow> lo \<le> cp \<and> cp \<le> hi"
proof -
  have mono: "lo \<le> cp \<Longrightarrow> lo div 32 \<le> cp div 32" "cp \<le> hi \<Longrightarrow> cp div 32 \<le> hi div 32"
    by (simp_all add: div_le_mono)
  note mem = range_quads_mem[OF assms(1), of cp] and len = length_range_quads[OF assms(1)]
  have le: "lo div 32 \<le> hi div 32" "hi div 32 < 34816"
    using assms by (simp_all add: div_le_mono quad_index_less)
  obtain L H C where eqs [simp]: "lo div 32 = L" "hi div 32 = H" "cp div 32 = C" by blast
  consider "C < L" | "L \<le> C" "C \<le> H" "C - L < Suc H - L" | "H < C" "C < 34816" "C - Suc H < 34815 - H"
      "\<not> C - L < Suc H - L" | "34816 \<le> C" "H < C"
    using le eqs by linarith
  then show ?thesis
    using mem mono le
    by cases (auto simp: quads_mem_def nth_append len)
qed

text \<open>A set is the one meant when its arrays are valid and its dense list is right.\<close>

lemma uset_by_dense:
  assumes "runs_ok (mRuns s, mQuads s)" "dense s = qs" "length qs = 34816" "\<And>cp. quads_mem qs cp \<longleftrightarrow> cp \<in> A"
  shows "uset_ok s" "codepoints s = A"
  using assms by (auto intro!: uset_okI simp: codepoints_def)

lemma UnicodeSet_empty_spec [uset_simps]:
  "canonical UnicodeSet_empty" "codepoints UnicodeSet_empty = {}"
proof -
  have "uset_ok UnicodeSet_empty"
    by (simp add: UnicodeSet_empty_def uset_ok_def verify_iff runs_ok_def)
  then show "canonical UnicodeSet_empty"
    by (simp add: canonical_def canonical_runs_def UnicodeSet_empty_def)
  have "dense UnicodeSet_empty = replicate 34816 0"
    by (simp add: UnicodeSet_empty_def dense_def)
  then show "codepoints UnicodeSet_empty = {}"
    by (simp add: codepoints_def quads_mem_replicate)
qed

lemma UnicodeSet_range_arrays:
  assumes "lo \<le> hi" "hi \<le> 1114111"
  shows "runs_ok (mRuns (UnicodeSet_range lo hi), mQuads (UnicodeSet_range lo hi))"
    "dense (UnicodeSet_range lo hi) =
       replicate (lo div 32) 0 @ range_quads lo hi @ replicate (34816 - (hi div 32 + 1)) 0"
    "canonical_runs (mRuns (UnicodeSet_range lo hi)) \<longleftrightarrow>
       \<not> (hi div 32 = lo div 32 + 1 \<and> lo mod 32 \<noteq> 0 \<and> hi mod 32 \<noteq> 31)"
proof -
  have le: "lo div 32 \<le> hi div 32" "hi div 32 < 34816"
    using assms by (simp_all add: div_le_mono quad_index_less)
  have "lo mod 32 \<le> hi mod 32" if "lo div 32 = hi div 32"
    using assms(1) that by (metis div_mult_mod_eq nat_add_left_cancel_le)
  note special = lo_and_hi_special[OF this] lo_quad_special[of lo] hi_quad_special[of hi]
  have full: "lo_quad lo = FULL_QUAD_MASK" if "lo mod 32 = 0" using that special(4) by simp
  have full': "hi_quad hi = FULL_QUAD_MASK" if "hi mod 32 = 31" using that special(6) by simp
  obtain L H l h where eqs [simp]: "lo div 32 = L" "hi div 32 = H" "lo mod 32 = l" "hi mod 32 = h"
    by blast
  note def = UnicodeSet_range_def Let_def
  show "runs_ok (mRuns (UnicodeSet_range lo hi), mQuads (UnicodeSet_range lo hi))"
    using le special by (auto simp: def runs_ok_def)
  show "canonical_runs (mRuns (UnicodeSet_range lo hi)) \<longleftrightarrow>
       \<not> (hi div 32 = lo div 32 + 1 \<and> lo mod 32 \<noteq> 0 \<and> hi mod 32 \<noteq> 31)"
    using le by (auto simp: def canonical_runs_def)
  show "dense (UnicodeSet_range lo hi) =
       replicate (lo div 32) 0 @ range_quads lo hi @ replicate (34816 - (hi div 32 + 1)) 0"
  proof (cases "L = H")
    case True
    with le special full full' show ?thesis
      by (auto simp: def dense_def range_quads_def)
  next
    case False
    with le obtain k where H: "H = Suc (L + k)" using less_imp_Suc_add[of L H] by auto
    show ?thesis
      using le special full full'
      by (auto simp: def dense_def range_quads_def H replicate_append_same)
  qed
qed

lemma UnicodeSet_range_spec [uset_simps]:
  assumes "lo \<le> hi" "hi \<le> 1114111"
  shows "uset_ok (UnicodeSet_range lo hi)" "codepoints (UnicodeSet_range lo hi) = {lo..hi}"
proof -
  note arrays = UnicodeSet_range_arrays[OF assms]
  have "lo div 32 \<le> hi div 32" "hi div 32 < 34816"
    using assms by (simp_all add: div_le_mono quad_index_less)
  then have len: "length (replicate (lo div 32) 0 @ range_quads lo hi @ replicate (34816 - (hi div 32 + 1)) 0) = 34816"
    by (simp add: length_range_quads[OF assms(1)])
  show "uset_ok (UnicodeSet_range lo hi)"
    using arrays len by (intro uset_okI) simp_all
  show "codepoints (UnicodeSet_range lo hi) = {lo..hi}"
    by (simp only: codepoints_def arrays(2) dense_range_mem[OF assms]) auto
qed

lemma lo_and_hi_same: "lo_quad cp AND hi_quad cp = push_bit (cp mod 32) 1"
  by (auto simp: quad_eq_iff bit_and_iff push_bit_of_1 bit_exp_iff)

lemma UnicodeSet_singleton_range:
  "mRuns (UnicodeSet_singleton cp) = mRuns (UnicodeSet_range cp cp)"
  "mQuads (UnicodeSet_singleton cp) = mQuads (UnicodeSet_range cp cp)"
  by (auto simp: UnicodeSet_singleton_def UnicodeSet_range_def Let_def lo_and_hi_same)

lemma UnicodeSet_singleton_spec [uset_simps]:
  assumes "cp \<le> 1114111"
  shows "canonical (UnicodeSet_singleton cp)" "codepoints (UnicodeSet_singleton cp) = {cp}"
  using same_arrays[OF UnicodeSet_singleton_range, of cp] UnicodeSet_range_spec[of cp cp] assms
    UnicodeSet_range_arrays(3)[of cp cp]
  by (simp_all add: canonical_def)

section \<open>Interval lists\<close>

fun convertIntervals_loop :: "nat \<Rightarrow> bitquad \<Rightarrow> interval list \<Rightarrow> run_quads \<Rightarrow> nat \<times> run_quads" where
  "convertIntervals_loop prior_index qmask [] acc = (prior_index, acc)"
| "convertIntervals_loop prior_index qmask ((lo, hi) # intervals) acc =
     (let lo_index = lo div QUAD_BITS; hi_index = hi div QUAD_BITS;
          acc1 = append_run_to Empty (lo_index - prior_index) acc;
          (qmask1, acc2) =
            (if lo_index = hi_index then (qmask OR (lo_quad lo AND hi_quad hi), acc1)
             else (hi_quad hi, append_run_to Full (hi_index - (lo_index + 1))
                                 (append_quad (qmask OR lo_quad lo) acc1)))
      in if intervals \<noteq> [] \<and> hi_index = fst (hd intervals) div QUAD_BITS
         then convertIntervals_loop hi_index qmask1 intervals acc2
         else convertIntervals_loop (hi_index + 1) 0 intervals (append_quad qmask1 acc2))"

definition convertIntervalsToUnicodeSet :: "interval list \<Rightarrow> run_quads" where
  "convertIntervalsToUnicodeSet intervals =
     (let (prior_index, acc) = convertIntervals_loop 0 0 intervals ([], [])
      in if prior_index < UNICODE_QUAD_COUNT
         then append_run_to Empty (UNICODE_QUAD_COUNT - prior_index) acc else acc)"

definition UnicodeSet_intervals :: "interval list \<Rightarrow> unicode_set" where
  "UnicodeSet_intervals intervals = new_set (convertIntervalsToUnicodeSet intervals)"

text \<open>The order the constructor asserts: intervals in range, each non-empty, each after the last.\<close>

fun intervals_from :: "codepoint \<Rightarrow> interval list \<Rightarrow> bool" where
  "intervals_from b [] \<longleftrightarrow> True"
| "intervals_from b ((lo, hi) # intervals) \<longleftrightarrow>
     b \<le> lo \<and> lo \<le> hi \<and> hi \<le> UNICODE_MAX \<and> intervals_from (hi + 1) intervals"

definition interval_members :: "interval list \<Rightarrow> codepoint set" where
  "interval_members intervals = (\<Union>(lo, hi) \<in> set intervals. {lo..hi})"

text \<open>The quads the loop emits from a position on.\<close>

fun interval_quads :: "nat \<Rightarrow> bitquad \<Rightarrow> interval list \<Rightarrow> bitquad list" where
  "interval_quads prior qmask [] = []"
| "interval_quads prior qmask ((lo, hi) # intervals) =
     (let L = lo div 32; H = hi div 32;
          (qmask1, qs) = (if L = H then (qmask OR (lo_quad lo AND hi_quad hi), [])
            else (hi_quad hi, (qmask OR lo_quad lo) # replicate (H - (L + 1)) FULL_QUAD_MASK))
      in replicate (L - prior) 0 @ qs @
         (if intervals \<noteq> [] \<and> H = fst (hd intervals) div 32 then interval_quads H qmask1 intervals
          else qmask1 # interval_quads (H + 1) 0 intervals))"

lemma convertIntervals_loop_eq:
  "snd (convertIntervals_loop prior qmask intervals acc) = compress_from acc (interval_quads prior qmask intervals)"
proof (induction intervals arbitrary: prior qmask acc)
  case (Cons interval intervals)
  show ?case
    by (cases interval; cases "fst interval div 32 = snd interval div 32")
       (simp_all add: Cons.IH Let_def append_run_to_eq_compress)
qed simp

definition quad_set :: "nat \<Rightarrow> bitquad \<Rightarrow> codepoint set" where
  "quad_set i q = {32 * i + n |n. n < 32 \<and> bit q n}"

definition quads_set :: "nat \<Rightarrow> bitquad list \<Rightarrow> codepoint set" where
  "quads_set i qs = set (members (32 * i) qs)"

lemma quads_set_simps [simp]:
  "quads_set i [] = {}" "quads_set i (q # qs) = quad_set i q \<union> quads_set (Suc i) qs"
  "quads_set i (replicate n 0) = {}"
  by (auto simp: quads_set_def quad_set_def add.commute [of 32 "32 * i"] simp del: upt_rec_numeral)

lemma quads_set_append [simp]: "quads_set i (xs @ ys) = quads_set i xs \<union> quads_set (i + length xs) ys"
  by (simp add: quads_set_def members_append algebra_simps)

lemma quads_set_full [simp]: "quads_set i (replicate n FULL_QUAD_MASK) = {32 * i..<32 * (i + n)}"
  by (simp add: quads_set_def members_full algebra_simps)

lemma quad_set_simps [simp]: "quad_set i 0 = {}" "quad_set i (q OR q') = quad_set i q \<union> quad_set i q'"
  by (auto simp: quad_set_def bit_or_iff)

lemma mem_quad_set: "cp \<in> quad_set i q \<longleftrightarrow> cp div 32 = i \<and> bit q (cp mod 32)"
  by (auto simp: quad_set_def intro: exI[of _ "cp mod 32"])

lemma range_one_quad:
  assumes "lo div 32 = L" "hi div 32 = L" "lo \<le> hi"
  shows "quad_set L (lo_quad lo AND hi_quad hi) = {lo..hi}"
  using assms by (auto simp: mem_quad_set bit_and_iff quad_le_iff[of lo] quad_le_iff[of _ hi])

lemma range_quads_set:
  assumes "lo div 32 = L" "hi div 32 = H" "L < H"
  shows "quad_set L (lo_quad lo) \<union> {32 * Suc L..<32 * H} \<union> quad_set H (hi_quad hi) = {lo..hi}"
proof -
  have "cp \<in> {32 * Suc L..<32 * H} \<longleftrightarrow> Suc L \<le> cp div 32 \<and> cp div 32 < H" for cp :: nat
    by (simp only: atLeastLessThan_iff less_eq_div_iff_mult_less_eq div_less_iff_less_mult
        zero_less_numeral mult.commute [of 32])
  note mid = this
  show ?thesis
  proof (rule set_eqI)
    fix cp :: nat
    obtain C c where eqs: "cp div 32 = C" "cp mod 32 = c" "c < 32" by (metis mod_less_divisor zero_less_numeral)
    have "cp \<in> {lo..hi} \<longleftrightarrow> (L < C \<or> L = C \<and> lo mod 32 \<le> c) \<and> (C < H \<or> C = H \<and> c \<le> hi mod 32)"
      by (simp only: atLeastAtMost_iff quad_le_iff[of lo] quad_le_iff[of _ hi] eqs assms)
    then show "cp \<in> quad_set L (lo_quad lo) \<union> {32 * Suc L..<32 * H} \<union> quad_set H (hi_quad hi) \<longleftrightarrow> cp \<in> {lo..hi}"
      using assms(3) eqs(3) by (simp only: Un_iff mid mem_quad_set eqs bit_hi_quad bit_lo_quad) auto
  qed
qed

lemma interval_members_simps [simp]:
  "interval_members [] = {}" "interval_members ((lo, hi) # ivs) = {lo..hi} \<union> interval_members ivs"
  by (auto simp: interval_members_def)

text \<open>The position and the pending mask between two intervals.\<close>

definition interval_state :: "nat \<Rightarrow> bitquad \<Rightarrow> interval list \<Rightarrow> bool" where
  "interval_state prior m ivs \<longleftrightarrow> intervals_from (32 * prior) ivs \<and> prior \<le> 34816
     \<and> (m \<noteq> 0 \<longrightarrow> ivs \<noteq> [] \<and> fst (hd ivs) div 32 = prior)"

lemma intervals_from_weaken:
  "intervals_from b ivs \<Longrightarrow> (ivs \<noteq> [] \<Longrightarrow> c \<le> fst (hd ivs)) \<Longrightarrow> intervals_from c ivs"
  by (cases ivs) auto

lemma interval_state_next:
  assumes "interval_state prior m ((lo, hi) # ivs)"
  shows "ivs \<noteq> [] \<Longrightarrow> hi div 32 = fst (hd ivs) div 32 \<Longrightarrow> interval_state (hi div 32) m' ivs"
    "\<not> (ivs \<noteq> [] \<and> hi div 32 = fst (hd ivs) div 32) \<Longrightarrow> interval_state (Suc (hi div 32)) 0 ivs"
proof -
  have ivs: "intervals_from (hi + 1) ivs" "hi \<le> 1114111"
    using assms by (simp_all add: interval_state_def)
  have first: "hi < fst (hd ivs)" if "ivs \<noteq> []"
    using ivs that by (cases ivs) auto
  have le: "hi div 32 < 34816" using ivs(2) by (simp only: quad_index_less)
  show "ivs \<noteq> [] \<Longrightarrow> hi div 32 = fst (hd ivs) div 32 \<Longrightarrow> interval_state (hi div 32) m' ivs"
    using ivs le by (auto simp: interval_state_def intro: intervals_from_weaken)
  have "32 * Suc (hi div 32) \<le> fst (hd ivs)" if "ivs \<noteq> []" "hi div 32 \<noteq> fst (hd ivs) div 32"
  proof -
    have "hi div 32 < fst (hd ivs) div 32"
      using div_le_mono[OF less_imp_le[OF first[OF that(1)]], of 32] that(2) by simp
    then have "32 * Suc (hi div 32) \<le> 32 * (fst (hd ivs) div 32)" by simp
    also have "\<dots> \<le> fst (hd ivs)" by (rule times_div_less_eq_dividend)
    finally show ?thesis .
  qed
  then show "\<not> (ivs \<noteq> [] \<and> hi div 32 = fst (hd ivs) div 32) \<Longrightarrow> interval_state (Suc (hi div 32)) 0 ivs"
    using ivs le by (auto simp: interval_state_def intro: intervals_from_weaken)
qed

lemma interval_quads_set:
  "interval_state prior m ivs \<Longrightarrow>
   quads_set prior (interval_quads prior m ivs) = quad_set prior m \<union> interval_members ivs"
proof (induction ivs arbitrary: prior m)
  case (Cons interval ivs)
  obtain lo hi L H where eqs: "interval = (lo, hi)" "lo div 32 = L" "hi div 32 = H" by (cases interval) auto
  have state: "32 * prior \<le> lo" "lo \<le> hi" "m \<noteq> 0 \<Longrightarrow> L = prior"
    using Cons.prems by (auto simp: interval_state_def eqs)
  then have le: "prior \<le> L" "L \<le> H"
    using div_le_mono[of "32 * prior" lo 32] div_le_mono[of lo hi 32] by (simp_all add: eqs)
  have m: "quad_set prior m = quad_set L m" using state(3) by (cases "m = 0") auto
  note next_state = interval_state_next[OF Cons.prems[unfolded eqs(1)], unfolded eqs(3)]
  note IH = Cons.IH[OF next_state(1)] Cons.IH[OF next_state(2)]
  let ?more = "ivs \<noteq> [] \<and> H = fst (hd ivs) div 32"
  show ?case
  proof (cases "L = H")
    case True
    have "quads_set prior (interval_quads prior m (interval # ivs)) =
        quad_set L m \<union> quad_set L (lo_quad lo AND hi_quad hi) \<union> interval_members ivs"
      using IH le eqs True by (cases ?more) (simp_all add: Let_def)
    with m range_one_quad[of lo L hi] eqs state True show ?thesis
      by (simp add: Un_assoc)
  next
    case False
    then have less: "L < H" using le by simp
    have "quads_set prior (interval_quads prior m (interval # ivs)) =
        quad_set L m \<union> (quad_set L (lo_quad lo) \<union> {32 * Suc L..<32 * H} \<union> quad_set H (hi_quad hi))
        \<union> interval_members ivs"
      using IH le less eqs by (cases ?more) (simp_all add: Let_def Un_assoc)
    with m range_quads_set[OF eqs(2,3) less] eqs show ?thesis
      by (simp only: interval_members_simps Un_assoc)
  qed
qed (simp add: interval_state_def)

lemma interval_quads_length:
  "interval_state prior m ivs \<Longrightarrow>
   fst (convertIntervals_loop prior m ivs acc) = prior + length (interval_quads prior m ivs)
   \<and> prior + length (interval_quads prior m ivs) \<le> 34816"
proof (induction ivs arbitrary: prior m acc)
  case (Cons interval ivs)
  obtain lo hi L H where eqs: "interval = (lo, hi)" "lo div 32 = L" "hi div 32 = H" by (cases interval) auto
  have "32 * prior \<le> lo" "lo \<le> hi" using Cons.prems by (auto simp: interval_state_def eqs)
  then have le: "prior \<le> L" "L \<le> H"
    using div_le_mono[of "32 * prior" lo 32] div_le_mono[of lo hi 32] by (simp_all add: eqs)
  note next_state = interval_state_next[OF Cons.prems[unfolded eqs(1)], unfolded eqs(3)]
  note IH = Cons.IH[OF next_state(1)] Cons.IH[OF next_state(2)]
  show ?case
    using IH le eqs
    by (cases "L = H"; cases "ivs \<noteq> [] \<and> H = fst (hd ivs) div 32")
       (auto simp: Let_def)
qed (simp add: interval_state_def)

lemma UnicodeSet_intervals_value:
  assumes "intervals_from 0 ivs"
  shows "UnicodeSet_intervals ivs = new_set (compress (interval_quads 0 0 ivs @
    replicate (34816 - length (interval_quads 0 0 ivs)) 0))"
proof -
  have state: "interval_state 0 0 ivs" using assms by (simp add: interval_state_def)
  obtain prior acc where loop: "convertIntervals_loop 0 0 ivs ([], []) = (prior, acc)" by (metis surj_pair)
  have "prior = length (interval_quads 0 0 ivs)" "prior \<le> 34816" "acc = compress (interval_quads 0 0 ivs)"
    using interval_quads_length[OF state, of "([], [])"] convertIntervals_loop_eq[of 0 0 ivs "([], [])"] loop
    by (simp_all add: compress_def)
  then show ?thesis
    by (auto simp: UnicodeSet_intervals_def convertIntervalsToUnicodeSet_def loop
        append_run_to_eq_compress compress_def)
qed

lemma UnicodeSet_intervals_spec [uset_simps]:
  assumes "intervals_from 0 ivs"
  shows "canonical (UnicodeSet_intervals ivs)" "codepoints (UnicodeSet_intervals ivs) = interval_members ivs"
proof -
  have state: "interval_state 0 0 ivs" using assms by (simp add: interval_state_def)
  let ?qs = "interval_quads 0 0 ivs @ replicate (34816 - length (interval_quads 0 0 ivs)) 0"
  have len: "length ?qs = 34816" using interval_quads_length[OF state] by simp
  show "canonical (UnicodeSet_intervals ivs)"
    unfolding UnicodeSet_intervals_value[OF assms] by (rule new_set_compress[OF len])
  have "quads_set 0 ?qs = interval_members ivs"
    using interval_quads_set[OF state] by simp
  then show "codepoints (UnicodeSet_intervals ivs) = interval_members ivs"
    by (simp add: UnicodeSet_intervals_value[OF assms] codepoints_members quads_set_def)
qed

section \<open>Copies, moves and predefined constants\<close>

definition UnicodeSet_predefined :: "run list \<Rightarrow> bitquad list \<Rightarrow> unicode_set" where
  "UnicodeSet_predefined runs quads = \<lparr>mRuns = runs, mQuads = quads, mRunCapacity = 0, mQuadCapacity = 0\<rparr>"

definition UnicodeSet_lists :: "run list \<Rightarrow> bitquad list \<Rightarrow> unicode_set" where
  "UnicodeSet_lists r q = \<lparr>mRuns = r, mQuads = q, mRunCapacity = length r, mQuadCapacity = length q\<rparr>"

definition move_construct :: "unicode_set \<Rightarrow> unicode_set" where
  "move_construct other = \<lparr>mRuns = mRuns other, mQuads = mQuads other,
     mRunCapacity = length (mRuns other), mQuadCapacity = length (mQuads other)\<rparr>"

definition move_assign :: "unicode_set \<Rightarrow> unicode_set \<Rightarrow> unicode_set" where
  "move_assign self other = self\<lparr>mRuns := mRuns other, mQuads := mQuads other,
     mRunCapacity := mRunCapacity other, mQuadCapacity := mQuadCapacity other\<rparr>"

definition copy_construct :: "unicode_set \<Rightarrow> unicode_set" where
  "copy_construct other = \<lparr>mRuns = mRuns other, mQuads = mQuads other,
     mRunCapacity = (if mRunCapacity other = 0 then 0 else length (mRuns other)),
     mQuadCapacity = (if mQuadCapacity other = 0 then 0 else length (mQuads other))\<rparr>"

definition copy_assign :: "unicode_set \<Rightarrow> unicode_set \<Rightarrow> unicode_set" where
  "copy_assign self other = self\<lparr>mRuns := mRuns other, mQuads := mQuads other,
     mRunCapacity := (if mRunCapacity other = 0 then 0 else length (mRuns other)),
     mQuadCapacity := (if mQuadCapacity other = 0 then 0 else length (mQuads other))\<rparr>"

text \<open>A set owns an array when the capacity covers the elements. A copy owns exactly what its
  source owns; the move constructor claims ownership whatever the source had.\<close>

definition owned :: "unicode_set \<Rightarrow> bool" where
  "owned s \<longleftrightarrow> length (mRuns s) \<le> mRunCapacity s \<and> length (mQuads s) \<le> mQuadCapacity s"

lemma owned_new_set [simp]: "owned (new_set p)"
  by (simp add: owned_def)

lemma owned_range [simp]: "owned (UnicodeSet_range lo hi)"
proof -
  obtain L H l h where eqs [simp]: "lo div 32 = L" "hi div 32 = H" "lo mod 32 = l" "hi mod 32 = h"
    by blast
  show ?thesis
    by (cases "L = H"; cases "l = 0"; cases "h = 31"; simp add: owned_def UnicodeSet_range_def Let_def)
qed

lemma owned_constructors [simp]:
  "owned UnicodeSet_empty" "owned (UnicodeSet_singleton cp)" "owned (UnicodeSet_intervals ivs)"
  by (simp_all add: owned_def UnicodeSet_empty_def UnicodeSet_singleton_def UnicodeSet_intervals_def Let_def)

lemma owned_copy: "owned s \<Longrightarrow> owned (copy_construct s)" "owned s \<Longrightarrow> owned (copy_assign t s)"
  by (auto simp: owned_def copy_construct_def copy_assign_def)

end
