(* ===== verification/USet_Insert.thy ===== *)
theory USet_Insert imports USet_Build begin

text \<open>
  \<open>UnicodeSet::insert(codepoint_t)\<close> and \<open>UnicodeSet::insert_range\<close> of
  \<open>unicode_set.cpp\<close>, the operations that edit the runs and quads in place, with their
  error branches, and the conditions under which they insert what they are asked to.
\<close>

section \<open>Inserting one code point\<close>

datatype insert_error = ExceedsMaximum nat | IllegalRange nat nat | InvalidMemory

text \<open>The search for the run of a quad: type and length of the run, offset in it, its index and
  the index of its first quad. Running off the end of the array is the value \<open>None\<close>.\<close>

fun locate_run :: "run list \<Rightarrow> nat \<Rightarrow> nat \<Rightarrow> nat \<Rightarrow> (run_type \<times> nat \<times> nat \<times> nat \<times> nat) option" where
  "locate_run [] offset runIndex quadIndex = None"
| "locate_run ((type, len) # rs) offset runIndex quadIndex =
     (if offset < len then Some (type, len, offset, runIndex, quadIndex)
      else locate_run rs (offset - len) (runIndex + 1) (if type = Mixed then quadIndex + len else quadIndex))"

text \<open>Raw buffers: an element that was never written is \<open>None\<close>, and a copy that leaves
  the buffer fails.\<close>

type_synonym 'a buffer = "'a option list"

definition allocate :: "nat \<Rightarrow> 'a buffer" where
  "allocate n = replicate n None"

definition copy_to :: "'a buffer \<Rightarrow> nat \<Rightarrow> 'a list \<Rightarrow> 'a buffer option" where
  "copy_to buf pos xs = (if xs = [] then Some buf
     else if pos + length xs \<le> length buf
     then Some (take pos buf @ map Some xs @ drop (pos + length xs) buf) else None)"

text \<open>The copy \<open>insert\<close> makes of quads the set does not own, as the code has it: a buffer of
  \<open>mQuadLength - 1\<close> elements, \<open>quadIndex - 1\<close> of them copied.\<close>

definition borrowed_quads :: "bitquad list \<Rightarrow> nat \<Rightarrow> bitquad \<Rightarrow> (bitquad buffer \<times> bool) option" where
  "borrowed_quads quads quadIndex v =
     (if quadIndex = 0 then None
      else case copy_to (allocate (length quads - 1)) 0 (take (quadIndex - 1) quads) of
          None \<Rightarrow> None
        | Some b1 \<Rightarrow>
            let q = quads ! quadIndex OR v; quadOffset = (if q = FULL_QUAD_MASK then 1 else 0)
            in case copy_to b1 quadIndex [q] of
                None \<Rightarrow> None
              | Some b2 \<Rightarrow>
                  (case copy_to b2 (quadIndex + 1)
                          (take (length quads - quadOffset - (quadIndex + 1))
                             (drop (quadIndex + 1 + quadOffset) quads)) of
                     None \<Rightarrow> None
                   | Some b3 \<Rightarrow> Some (b3, quadOffset = 0)))"

text \<open>The edit of the runs. The positions a shift leaves open are all written.\<close>

definition insert_run :: "unicode_set \<Rightarrow> run_type \<Rightarrow> nat \<Rightarrow> nat \<Rightarrow> nat \<Rightarrow> unicode_set" where
  "insert_run s type len offset runIndex =
     (if len = 1 \<and> mRunCapacity s \<noteq> 0
      then s\<lparr>mRuns := (mRuns s)[runIndex := (if type = Empty then Mixed else Full, lengthOf (mRuns s ! runIndex))]\<rparr>
      else
        let remaining = len - (offset + 1);
            m = (if offset \<noteq> 0 \<and> remaining \<noteq> 0 then 2 else 1);
            l = length (mRuns s) + m;
            k = runIndex + (if offset \<noteq> 0 then 1 else 0);
            r0 = take k (mRuns s) @ replicate m (Empty, 0) @ drop k (mRuns s);
            r1 = r0[k := (if type = Empty then Mixed else Full, 1)];
            r2 = (if offset \<noteq> 0 then r1[k - 1 := (type, offset)] else r1);
            r3 = (if remaining \<noteq> 0 then r2[k + 1 := (type, remaining)] else r2)
        in s\<lparr>mRuns := r3, mRunCapacity := (if l > mRunCapacity s then l else mRunCapacity s)\<rparr>)"

definition insert_cp :: "unicode_set \<Rightarrow> codepoint \<Rightarrow> insert_error + unicode_set" where
  "insert_cp s cp =
     (if cp > UNICODE_MAX then Inl (ExceedsMaximum cp)
      else
        let v = push_bit (cp AND QUAD_LIMIT) 1 in
        case locate_run (mRuns s) (cp div QUAD_BITS) 0 0 of
          None \<Rightarrow> Inl InvalidMemory
        | Some (type, len, offset, runIndex, quadIndex0) \<Rightarrow>
            if type = Mixed then
              let quadIndex = quadIndex0 + offset in
              if mQuadCapacity s = 0 then
                (case borrowed_quads (mQuads s) quadIndex v of
                   None \<Rightarrow> Inl InvalidMemory
                 | Some (buf, unchanged) \<Rightarrow>
                     if None \<in> set buf then Inl InvalidMemory
                     else let s1 = s\<lparr>mQuads := map the buf, mQuadCapacity := length (mQuads s)\<rparr>
                          in Inr (if unchanged then s1 else insert_run s1 type len offset runIndex))
              else
                let quads = (mQuads s)[quadIndex := mQuads s ! quadIndex OR v] in
                if quads ! quadIndex \<noteq> FULL_QUAD_MASK then Inr (s\<lparr>mQuads := quads\<rparr>)
                else Inr (insert_run (s\<lparr>mQuads := take quadIndex quads @ drop (quadIndex + 1) quads\<rparr>)
                            type len offset runIndex)
            else if type = Empty then
              let l = length (mQuads s) + 1;
                  quads = take quadIndex0 (mQuads s) @ v # drop quadIndex0 (mQuads s)
              in Inr (insert_run (s\<lparr>mQuads := quads,
                        mQuadCapacity := (if l > mQuadCapacity s then l else mQuadCapacity s)\<rparr>)
                        type len offset runIndex)
            else Inr s)"

subsection \<open>Where the quad lies\<close>

lemma locate_run_spec:
  "offset < run_total rs \<Longrightarrow> \<exists>pre t n post off. rs = pre @ (t, n) # post \<and> off < n
     \<and> offset = run_total pre + off
     \<and> locate_run rs offset ri qi = Some (t, n, off, ri + length pre, qi + mixed_count pre)"
proof (induction rs arbitrary: offset ri qi)
  case (Cons r rs)
  obtain t n where r: "r = (t, n)" by (cases r)
  show ?case
  proof (cases "offset < n")
    case True
    then show ?thesis by (intro exI[of _ "[]"]) (simp add: r)
  next
    case False
    with Cons.prems have "offset - n < run_total rs" by (simp add: r)
    from Cons.IH[OF this, of "ri + 1" "if t = Mixed then qi + n else qi"] obtain pre t' n' post off where
      "rs = pre @ (t', n') # post" "off < n'" "offset - n = run_total pre + off"
      "locate_run rs (offset - n) (ri + 1) (if t = Mixed then qi + n else qi) =
        Some (t', n', off, ri + 1 + length pre, (if t = Mixed then qi + n else qi) + mixed_count pre)"
      by blast
    with False show ?thesis
      by (intro exI[of _ "r # pre"] exI[of _ t'] exI[of _ n'] exI[of _ post] exI[of _ off]) (auto simp: r)
  qed
qed simp

text \<open>The run at the quad splits in three; runs of length 0 are left out.\<close>

definition split_runs :: "run_type \<Rightarrow> run_type \<Rightarrow> nat \<Rightarrow> nat \<Rightarrow> run list" where
  "split_runs t t' off rest = (if off = 0 then [] else [(t, off)]) @ [(t', 1)] @ (if rest = 0 then [] else [(t, rest)])"

lemma insert_run_runs:
  assumes "mRuns s = pre @ (t, n) # post" "off < n" "mRunCapacity s \<noteq> 0"
  shows "mRuns (insert_run s t n off (length pre)) =
    pre @ split_runs t (if t = Empty then Mixed else Full) off (n - (off + 1)) @ post"
proof (cases "n = 1")
  case True
  with assms show ?thesis by (auto simp: insert_run_def split_runs_def lengthOf_def)
next
  case False
  then show ?thesis
    using assms
    by (auto simp: insert_run_def split_runs_def Let_def list_update_append nth_append numeral_2_eq_2)
qed

lemma insert_run_other [simp]:
  "mQuads (insert_run s t n off ri) = mQuads s" "mQuadCapacity (insert_run s t n off ri) = mQuadCapacity s"
  by (simp_all add: insert_run_def Let_def)

subsection \<open>The edit at the located run\<close>

text \<open>Everything before the run stays, so that the edit is one of the tail of the arrays.\<close>

lemma split_tail:
  assumes "runs_ok (pre @ tl1, qs)"
  obtains qa qb where "qs = qa @ qb" "length qa = mixed_count pre" "runs_ok (pre, qa)" "runs_ok (tl1, qb)"
    "quads_of (pre @ tl1) qs = quads_of pre qa @ quads_of tl1 qb" "length (quads_of pre qa) = run_total pre"
proof
  let ?qa = "take (mixed_count pre) qs" and ?qb = "drop (mixed_count pre) qs"
  show "qs = ?qa @ ?qb" by simp
  show ok: "runs_ok (pre, ?qa)" "runs_ok (tl1, ?qb)"
    using assms by (simp_all add: runs_ok_append)
  then show len: "length ?qa = mixed_count pre" by (simp add: runs_ok_def)
  show "quads_of (pre @ tl1) qs = quads_of pre ?qa @ quads_of tl1 ?qb"
    using quads_of_append[of pre ?qa tl1 ?qb] len by simp
  show "length (quads_of pre ?qa) = run_total pre"
    using len by (simp add: length_quads_of)
qed

lemma join_tail:
  assumes "runs_ok (pre, qa)" "runs_ok (tl1, qb)"
  shows "runs_ok (pre @ tl1, qa @ qb)" "quads_of (pre @ tl1) (qa @ qb) = quads_of pre qa @ quads_of tl1 qb"
  using assms by (auto simp: runs_ok_def quads_of_append)

lemma tail_empty:
  assumes "runs_ok ((Empty, n) # post, qb)" "off < n" "v \<noteq> 0" "v \<noteq> FULL_QUAD_MASK"
  shows "runs_ok (split_runs Empty Mixed off (n - (off + 1)) @ post, v # qb)"
    "quads_of (split_runs Empty Mixed off (n - (off + 1)) @ post) (v # qb) =
       (quads_of ((Empty, n) # post) qb)[off := v]"
proof -
  from assms(2) obtain k where n: "n = off + Suc k" using less_imp_Suc_add by fastforce
  show "runs_ok (split_runs Empty Mixed off (n - (off + 1)) @ post, v # qb)"
    using assms by (auto simp: split_runs_def runs_ok_Cons n)
  show "quads_of (split_runs Empty Mixed off (n - (off + 1)) @ post) (v # qb) =
       (quads_of ((Empty, n) # post) qb)[off := v]"
  proof -
    have "replicate n 0 = replicate off 0 @ 0 # replicate k (0::bitquad)"
      by (simp only: n replicate_add replicate_Suc)
    then show ?thesis by (simp add: split_runs_def n list_update_append)
  qed
qed

lemma tail_mixed:
  assumes "runs_ok ((Mixed, n) # post, qb)" "off < n" "w \<noteq> 0" "w \<noteq> FULL_QUAD_MASK"
  shows "runs_ok ((Mixed, n) # post, qb[off := w])"
    "quads_of ((Mixed, n) # post) (qb[off := w]) = (quads_of ((Mixed, n) # post) qb)[off := w]"
  using assms set_update_subset_insert[of qb off w]
  by (auto simp: runs_ok_def take_update_swap list_update_append)

lemma tail_full:
  assumes "runs_ok ((Mixed, n) # post, qb)" "off < n"
  shows "runs_ok (split_runs Mixed Full off (n - (off + 1)) @ post, take off qb @ drop (off + 1) qb)"
    "quads_of (split_runs Mixed Full off (n - (off + 1)) @ post) (take off qb @ drop (off + 1) qb) =
       (quads_of ((Mixed, n) # post) qb)[off := FULL_QUAD_MASK]"
proof -
  from assms(2) obtain k where n: "n = off + Suc k" using less_imp_Suc_add by fastforce
  have "off + Suc k \<le> length qb" using assms by (simp add: runs_ok_Cons n)
  then obtain q1 x q2 q3 where qb: "qb = q1 @ x # q2 @ q3" "length q1 = off" "length q2 = k"
    using that[of "take off qb" "qb ! off" "take k (drop (Suc off) qb)" "drop k (drop (Suc off) qb)"]
    by (simp flip: drop_drop add: id_take_nth_drop)
  have set: "set (take off qb @ drop (off + 1) qb) \<subseteq> set qb" by (auto simp: qb)
  show "runs_ok (split_runs Mixed Full off (n - (off + 1)) @ post, take off qb @ drop (off + 1) qb)"
    using assms set by (auto simp: split_runs_def runs_ok_def n qb)
  show "quads_of (split_runs Mixed Full off (n - (off + 1)) @ post) (take off qb @ drop (off + 1) qb) =
       (quads_of ((Mixed, n) # post) qb)[off := FULL_QUAD_MASK]"
    using qb(2,3) by (cases "off = 0"; cases "k = 0") (auto simp: split_runs_def n qb(1) list_update_append)
qed

lemma single_bit_special: "push_bit (cp mod 32) 1 \<noteq> (0::bitquad)" "push_bit (cp mod 32) 1 \<noteq> FULL_QUAD_MASK"
proof -
  have "bit (push_bit (cp mod 32) 1 :: bitquad) (cp mod 32)"
    by (simp add: push_bit_of_1 bit_exp_iff)
  then show "push_bit (cp mod 32) 1 \<noteq> (0::bitquad)" by auto
  obtain m where "m < 32" "m \<noteq> cp mod 32" by (cases "cp mod 32 = 0") (auto intro: that[of 0] that[of 1])
  then have "\<not> bit (push_bit (cp mod 32) 1 :: bitquad) m" "bit FULL_QUAD_MASK m"
    by (simp_all add: push_bit_of_1 bit_exp_iff)
  then show "push_bit (cp mod 32) 1 \<noteq> FULL_QUAD_MASK" by metis
qed

text \<open>What inserting does to the dense list, and through it to the members.\<close>

lemma insert_dense:
  assumes "uset_ok s" "cp \<le> 1114111" "runs_ok (mRuns s', mQuads s')"
    "dense s' = (dense s)[cp div 32 := dense s ! (cp div 32) OR push_bit (cp mod 32) 1]"
  shows "uset_ok s'" "codepoints s' = insert cp (codepoints s)"
proof -
  show ok: "uset_ok s'" using assms by (intro uset_okI) (simp_all add: length_dense)
  have "x \<in> codepoints s' \<longleftrightarrow> x = cp \<or> x \<in> codepoints s" for x
  proof (cases "x div 32 = cp div 32")
    case True
    then have "x = cp \<longleftrightarrow> x mod 32 = cp mod 32" by (metis div_mult_mod_eq)
    moreover have "x \<le> 1114111" using True assms(2) by (simp flip: quad_index_less)
    ultimately show ?thesis
      using assms(1,2) ok True quad_index_less[of cp]
      by (auto simp: mem_codepoints_ok assms(4) length_dense bit_or_iff push_bit_of_1 bit_exp_iff)
  next
    case False
    then show ?thesis using assms(1) ok by (auto simp: mem_codepoints_ok assms(4))
  qed
  then show "codepoints s' = insert cp (codepoints s)" by auto
qed

lemma or_single_bit_neq_0: "(q OR push_bit (cp mod 32) 1 :: bitquad) \<noteq> 0"
proof -
  have "bit (q OR push_bit (cp mod 32) 1) (cp mod 32)"
    by (simp add: push_bit_of_1 bit_exp_iff bit_or_iff)
  then show ?thesis by auto
qed

text \<open>The branches of \<open>insert\<close> once the run is found.\<close>

lemma insert_cp_branches:
  assumes "cp \<le> 1114111" "locate_run (mRuns s) (cp div 32) 0 0 = Some (t, n, off, ri, qi)"
  defines "v \<equiv> push_bit (cp mod 32) 1"
  shows "t = Full \<Longrightarrow> insert_cp s cp = Inr s"
    "t = Empty \<Longrightarrow> insert_cp s cp = Inr (insert_run (s\<lparr>mQuads := take qi (mQuads s) @ v # drop qi (mQuads s),
       mQuadCapacity := max (length (mQuads s) + 1) (mQuadCapacity s)\<rparr>) Empty n off ri)"
    "t = Mixed \<Longrightarrow> mQuadCapacity s \<noteq> 0 \<Longrightarrow> qi + off < length (mQuads s) \<Longrightarrow>
       mQuads s ! (qi + off) OR v \<noteq> FULL_QUAD_MASK \<Longrightarrow>
       insert_cp s cp = Inr (s\<lparr>mQuads := (mQuads s)[qi + off := mQuads s ! (qi + off) OR v]\<rparr>)"
    "t = Mixed \<Longrightarrow> mQuadCapacity s \<noteq> 0 \<Longrightarrow> qi + off < length (mQuads s) \<Longrightarrow>
       mQuads s ! (qi + off) OR v = FULL_QUAD_MASK \<Longrightarrow>
       insert_cp s cp = Inr (insert_run (s\<lparr>mQuads := take (qi + off) (mQuads s) @ drop (qi + off + 1) (mQuads s)\<rparr>)
         Mixed n off ri)"
  using assms by (auto simp: insert_cp_def Let_def v_def max_def)

lemma insert_run_capacity: "length (mRuns s) \<le> mRunCapacity s \<Longrightarrow>
   length (mRuns (insert_run s t n off ri)) \<le> mRunCapacity (insert_run s t n off ri)"
  by (auto simp: insert_run_def Let_def)

text \<open>A valid set seen around the quad of a code point: the arrays before the run, the run with the
  offset of the quad in it, and the arrays from the run on.\<close>

definition located :: "unicode_set \<Rightarrow> codepoint \<Rightarrow> run list \<Rightarrow> run_type \<Rightarrow> nat \<Rightarrow> run list \<Rightarrow> nat
    \<Rightarrow> bitquad list \<Rightarrow> bitquad list \<Rightarrow> bool" where
  "located s cp pre t n post off qa qb \<longleftrightarrow> mRuns s = pre @ (t, n) # post \<and> mQuads s = qa @ qb
     \<and> off < n \<and> cp div 32 = run_total pre + off \<and> length qa = mixed_count pre
     \<and> locate_run (mRuns s) (cp div 32) 0 0 = Some (t, n, off, length pre, length qa)
     \<and> runs_ok (pre, qa) \<and> runs_ok ((t, n) # post, qb)"

lemma locatedD:
  assumes "located s cp pre t n post off qa qb"
  shows "mRuns s = pre @ (t, n) # post" "off < n" "mQuads s = qa @ qb" "runs_ok ((t, n) # post, qb)"
    "locate_run (mRuns s) (cp div 32) 0 0 = Some (t, n, off, length pre, length qa)"
  using assms unfolding located_def by blast+

lemma locatedE:
  assumes "uset_ok s" "cp \<le> 1114111"
  obtains pre t n post off qa qb where "located s cp pre t n post off qa qb"
proof -
  have "cp div 32 < run_total (mRuns s)"
    using assms uset_okD(2)[of s] by (simp add: quad_index_less)
  from locate_run_spec[OF this, of 0 0] obtain pre t n post off where
    runs: "mRuns s = pre @ (t, n) # post" "off < n" "cp div 32 = run_total pre + off"
    "locate_run (mRuns s) (cp div 32) 0 0 = Some (t, n, off, length pre, mixed_count pre)"
    by auto
  have "runs_ok (pre @ (t, n) # post, mQuads s)" using uset_okD(1)[OF assms(1)] by (simp add: runs)
  then obtain qa qb where "mQuads s = qa @ qb" "length qa = mixed_count pre" "runs_ok (pre, qa)"
    "runs_ok ((t, n) # post, qb)"
    by (rule split_tail) blast
  with runs have "located s cp pre t n post off qa qb" by (simp add: located_def)
  then show ?thesis by (rule that)
qed

lemma located_dense:
  assumes "located s cp pre t n post off qa qb"
  shows "dense s ! (cp div 32) = quads_of ((t, n) # post) qb ! off"
    "(dense s)[cp div 32 := w] = quads_of pre qa @ (quads_of ((t, n) # post) qb)[off := w]"
proof -
  have "length (quads_of pre qa) = run_total pre" "dense s = quads_of pre qa @ quads_of ((t, n) # post) qb"
    using assms join_tail(2)[of pre qa "(t, n) # post" qb] by (simp_all add: located_def length_quads_of dense_def)
  with assms show "dense s ! (cp div 32) = quads_of ((t, n) # post) qb ! off"
    "(dense s)[cp div 32 := w] = quads_of pre qa @ (quads_of ((t, n) # post) qb)[off := w]"
    by (simp_all add: located_def list_update_append nth_append)
qed

text \<open>The edit is right when the new arrays agree with the old ones before the run and are the
  updated ones from there on.\<close>

definition inserted :: "unicode_set \<Rightarrow> codepoint \<Rightarrow> unicode_set \<Rightarrow> bool" where
  "inserted s cp s' \<longleftrightarrow> runs_ok (mRuns s', mQuads s')
     \<and> dense s' = (dense s)[cp div 32 := dense s ! (cp div 32) OR push_bit (cp mod 32) 1]"

lemma insertedI:
  assumes "located s cp pre t n post off qa qb" "mRuns s' = pre @ tl1" "mQuads s' = qa @ qb'"
    "runs_ok (tl1, qb')"
    "quads_of tl1 qb' = (quads_of ((t, n) # post) qb)[off := quads_of ((t, n) # post) qb ! off OR push_bit (cp mod 32) 1]"
  shows "inserted s cp s'"
  using assms join_tail[of pre qa tl1 qb'] located_dense[OF assms(1)]
  by (simp add: inserted_def dense_def[of s'] located_def)

lemma insert_cp_empty:
  assumes loc: "located s cp pre Empty n post off qa qb" and own: "owned s" and cp: "cp \<le> 1114111"
  shows "\<exists>s'. insert_cp s cp = Inr s' \<and> owned s' \<and> inserted s cp s'"
proof -
  let ?v = "push_bit (cp mod 32) 1 :: bitquad"
  let ?s = "s\<lparr>mQuads := qa @ ?v # qb, mQuadCapacity := max (length (mQuads s) + 1) (mQuadCapacity s)\<rparr>"
  note eqs = locatedD[OF loc]
  have cap: "mRunCapacity s \<noteq> 0" "length (mRuns s) \<le> mRunCapacity s"
    using own eqs(1) by (auto simp: owned_def)
  have "quads_of ((Empty, n) # post) qb ! off OR ?v = ?v" using eqs(2) by (simp add: nth_append)
  with tail_empty[OF eqs(4,2) single_bit_special[of cp]]
  have "inserted s cp (insert_run ?s Empty n off (length pre))"
    using insert_run_runs[of ?s pre Empty n post off] eqs cap by (intro insertedI[OF loc]) simp_all
  moreover have "owned (insert_run ?s Empty n off (length pre))"
    using insert_run_capacity[of ?s] cap by (simp add: owned_def eqs(3))
  moreover have "insert_cp s cp = Inr (insert_run ?s Empty n off (length pre))"
    using insert_cp_branches(2)[OF cp eqs(5)] by (simp add: eqs(3))
  ultimately show ?thesis by blast
qed

lemma insert_cp_mixed:
  assumes loc: "located s cp pre Mixed n post off qa qb" and own: "owned s" and cp: "cp \<le> 1114111"
  shows "\<exists>s'. insert_cp s cp = Inr s' \<and> owned s' \<and> inserted s cp s'"
proof -
  let ?v = "push_bit (cp mod 32) 1 :: bitquad"
  note eqs = locatedD[OF loc]
  have at: "quads_of ((Mixed, n) # post) qb ! off = qb ! off" "off < length qb" "mQuadCapacity s \<noteq> 0"
    using eqs own by (auto simp: runs_ok_Cons nth_append owned_def)
  have cap: "mRunCapacity s \<noteq> 0" "length (mRuns s) \<le> mRunCapacity s" "length (mQuads s) \<le> mQuadCapacity s"
    using own eqs(1) by (auto simp: owned_def)
  note branch = insert_cp_branches(3,4)[OF cp eqs(5) refl at(3)]
  show ?thesis
  proof (cases "qb ! off OR ?v = FULL_QUAD_MASK")
    case True
    let ?s = "s\<lparr>mQuads := qa @ take off qb @ drop (off + 1) qb\<rparr>"
    have "inserted s cp (insert_run ?s Mixed n off (length pre))"
      using insert_run_runs[of ?s pre Mixed n post off] tail_full[OF eqs(4,2)] eqs cap True at
      by (intro insertedI[OF loc]) simp_all
    moreover have "owned (insert_run ?s Mixed n off (length pre))"
      using insert_run_capacity[of ?s] cap at(2) by (simp add: owned_def eqs(3))
    ultimately show ?thesis using branch(2) at(2) True by (simp add: eqs(3))
  next
    case False
    let ?s = "s\<lparr>mQuads := qa @ qb[off := qb ! off OR ?v]\<rparr>"
    have "inserted s cp ?s"
      using tail_mixed[OF eqs(4,2) or_single_bit_neq_0 False] eqs at
      by (intro insertedI[OF loc, of ?s "(Mixed, n) # post" "qb[off := qb ! off OR ?v]"]) simp_all
    moreover have "owned ?s" using own by (simp add: owned_def eqs(3))
    ultimately show ?thesis using branch(1) at(2) False by (simp add: eqs(3) list_update_append)
  qed
qed

text \<open>A set that owns its arrays is the case the code gets right.\<close>

lemma insert_cp_arrays:
  assumes ok: "uset_ok s" and own: "owned s" and cp: "cp \<le> 1114111"
  shows "\<exists>s'. insert_cp s cp = Inr s' \<and> owned s' \<and> inserted s cp s'"
proof -
  obtain pre t n post off qa qb where loc: "located s cp pre t n post off qa qb"
    using locatedE[OF ok cp] .
  show ?thesis
  proof (cases t)
    case Full
    have "dense s ! (cp div 32) = FULL_QUAD_MASK"
      using located_dense(1)[OF loc] loc by (simp add: Full located_def nth_append)
    then have "inserted s cp s"
      using uset_okD(1)[OF ok] by (simp add: inserted_def) (metis list_update_id)
    then show ?thesis
      using insert_cp_branches(1)[OF cp locatedD(5)[OF loc] Full] own by blast
  qed (use insert_cp_empty insert_cp_mixed loc own cp in blast)+
qed

lemma insert_cp_spec:
  assumes "uset_ok s" "owned s" "cp \<le> 1114111"
  obtains s' where "insert_cp s cp = Inr s'" "uset_ok s'" "owned s'" "codepoints s' = insert cp (codepoints s)"
  using insert_cp_arrays[OF assms] insert_dense[OF assms(1,3)] unfolding inserted_def by blast

subsection \<open>Sets that do not own their arrays\<close>

text \<open>With borrowed quads, the copy leaves the buffer or an element of it unwritten, whatever the quads
  are. With borrowed runs, an insertion into an Empty run of length 1 adds a run without shortening
  one, and the set no longer covers the code points.\<close>

lemma length_copy_to: "copy_to buf pos xs = Some b \<Longrightarrow> length b = length buf"
  by (auto simp: copy_to_def split: if_splits)

lemma borrowed_quads_invalid:
  assumes "i < length quads" "borrowed_quads quads i v = Some (buf, unchanged)"
  shows "None \<in> set buf"
proof -
  define n where "n = length quads - 1"
  define q where "q = quads ! i OR v"
  define off where "off = (if q = FULL_QUAD_MASK then 1 else 0 :: nat)"
  define rest where "rest = take (length quads - off - (i + 1)) (drop (i + 1 + off) quads)"
  have i: "0 < i" using assms(2) by (auto simp: borrowed_quads_def split: if_splits)
  obtain b1 b2 b3 where b: "copy_to (allocate n) 0 (take (i - 1) quads) = Some b1"
    "copy_to b1 i [q] = Some b2" "copy_to b2 (i + 1) rest = Some b3" "buf = b3"
    using assms(2) i
    by (auto simp: borrowed_quads_def Let_def n_def q_def off_def rest_def split: option.splits if_splits)
  have len: "length b1 = n" using length_copy_to[OF b(1)] by (simp add: allocate_def)
  have "i < n" using b(2) len by (auto simp: copy_to_def split: if_splits)
  then have "i - 1 < n" by simp
  have b1: "length b1 = n" "b1 ! (i - 1) = None"
    using b(1) assms(1) i \<open>i < n\<close> len
    by (auto simp: copy_to_def allocate_def n_def nth_append min_def split: if_splits)
  have b2: "length b2 = n" "b2 ! (i - 1) = None"
    using b(2) b1 i \<open>i < n\<close> by (auto simp: copy_to_def nth_append)
  have "b3 ! (i - 1) = None" "length b3 = n"
    using b(3) b2 i \<open>i < n\<close> by (auto simp: copy_to_def nth_append split: if_splits)
  then show ?thesis using \<open>i - 1 < n\<close> b(4) by (metis nth_mem)
qed

lemma insert_cp_borrowed_quads:
  assumes "located s cp pre Mixed n post off qa qb" "cp \<le> 1114111" "mQuadCapacity s = 0"
  shows "insert_cp s cp = Inl InvalidMemory"
proof -
  note eqs = locatedD[OF assms(1)]
  have "length qa + off < length (mQuads s)" using eqs by (auto simp: runs_ok_Cons)
  from borrowed_quads_invalid[OF this] show ?thesis
    using assms(2,3) eqs(5) by (auto simp: insert_cp_def Let_def split: option.splits)
qed

lemma run_total_insert_borrowed:
  assumes "mRuns s = pre @ (t, 1) # post" "mRunCapacity s = 0"
  shows "run_total (mRuns (insert_run s t 1 0 (length pre))) = run_total (mRuns s) + 1"
  using assms by (simp add: insert_run_def Let_def list_update_append)

lemma insert_cp_borrowed_runs:
  assumes loc: "located s cp pre Empty 1 post off qa qb" and cap: "mRunCapacity s = 0"
    and ok: "uset_ok s" and cp: "cp \<le> 1114111"
  shows "\<exists>s'. insert_cp s cp = Inr s' \<and> \<not> uset_ok s'"
proof -
  note eqs = locatedD[OF loc]
  have off: "off = 0" using eqs(2) by simp
  let ?s = "s\<lparr>mQuads := qa @ push_bit (cp mod 32) 1 # qb, mQuadCapacity := max (length (mQuads s) + 1) (mQuadCapacity s)\<rparr>"
  have "insert_cp s cp = Inr (insert_run ?s Empty 1 0 (length pre))"
    using insert_cp_branches(2)[OF cp eqs(5)] by (simp add: eqs(3) off)
  moreover have "run_total (mRuns (insert_run ?s Empty 1 0 (length pre))) = 34817"
    using run_total_insert_borrowed[of ?s pre Empty post] eqs(1) cap uset_okD(2)[OF ok] by simp
  then have "\<not> uset_ok (insert_run ?s Empty 1 0 (length pre))"
    using uset_okD(2) by fastforce
  ultimately show ?thesis by blast
qed

end
