(* ===== verification/USet_Range.thy ===== *)
theory USet_Range imports USet_Insert begin

text \<open>
  \<open>UnicodeSet::insert_range\<close> of \<open>unicode_set.cpp\<close>: the branches of the code, the
  sets for which it inserts the range, and one for which it loses a member.
\<close>

section \<open>The operation\<close>

text \<open>Past the runs before \<open>lo\<close>: the runs passed, the run reached, the runs after it, both
  indices relative to the run and the index of the run's first quad.\<close>

fun skip_runs :: "run list \<Rightarrow> run list \<Rightarrow> nat \<Rightarrow> nat \<Rightarrow> nat
    \<Rightarrow> (run list \<times> run_type \<times> nat \<times> run list \<times> nat \<times> nat \<times> nat) option" where
  "skip_runs passed [] lo_index hi_index qi = None"
| "skip_runs passed ((type, len) # ri) lo_index hi_index qi =
     (if lo_index < len then Some (passed, type, len, ri, lo_index, hi_index, qi)
      else skip_runs (passed @ [(type, len)]) ri (lo_index - len) (hi_index - len)
             (if type = Mixed then qi + len else qi))"

text \<open>Past the quads that the range fills: \<open>while (length < hi_index)\<close>.\<close>

fun skip_filled :: "run_type \<Rightarrow> nat \<Rightarrow> run list \<Rightarrow> nat \<Rightarrow> nat
    \<Rightarrow> (run_type \<times> nat \<times> run list \<times> nat \<times> nat) option" where
  "skip_filled type len [] hi_index qi =
     (if len < hi_index then None else Some (type, len, [], hi_index, qi))"
| "skip_filled type len ((type', len') # ri) hi_index qi =
     (if len < hi_index
      then skip_filled type' len' ri (hi_index - len) (if type = Mixed then qi + len else qi)
      else Some (type, len, (type', len') # ri, hi_index, qi))"

definition finish_range :: "unicode_set \<Rightarrow> run_type \<Rightarrow> nat \<Rightarrow> run list \<Rightarrow> nat \<Rightarrow> run_quads \<Rightarrow> unicode_set" where
  "finish_range s type len ri qi acc =
     (let (runs, quads) = append_run_to type len acc
      in assign s (runs @ ri, quads @ drop qi (mQuads s)))"

definition write_hi :: "unicode_set \<Rightarrow> codepoint \<Rightarrow> run_type \<Rightarrow> nat \<Rightarrow> nat \<Rightarrow> nat \<Rightarrow> run_quads \<Rightarrow> run_quads \<times> nat" where
  "write_hi s hi type len hi_index qi acc =
     (if type = Full then (append_run_to Full 1 acc, qi)
      else if type = Mixed then
        let qi' = qi + hi_index in
        if len \<noteq> 0
        then (append_quad (hi_quad hi OR mQuads s ! qi') (fst acc, snd acc @ take hi_index (drop qi (mQuads s))),
              qi' + 1)
        else (append_quad (hi_quad hi) acc, qi')
      else (append_quad (hi_quad hi) acc, qi))"

definition write_lo :: "unicode_set \<Rightarrow> codepoint \<Rightarrow> codepoint \<Rightarrow> run_type \<Rightarrow> nat \<Rightarrow> nat \<Rightarrow> run_quads \<Rightarrow> run_quads \<times> nat" where
  "write_lo s lo hi type hi_index qi acc =
     (if type = Full then (append_run_to Full 1 acc, qi)
      else
        let lq = (if hi_index = 0 then lo_quad lo AND hi_quad hi else lo_quad lo)
        in if type = Mixed then (append_quad (lq OR mQuads s ! qi) acc, qi + 1)
           else (append_quad lq acc, qi))"

text \<open>From the quad of \<open>lo\<close> on: \<open>runs\<close> holds the runs before it and \<open>qi\<close> the
  index of its quad, \<open>len\<close> quads of its run are left, and \<open>hi\<close> lies \<open>hi_index\<close> quads on.\<close>

definition merge_range :: "unicode_set \<Rightarrow> codepoint \<Rightarrow> codepoint \<Rightarrow> run_type \<Rightarrow> run list \<Rightarrow> run list \<Rightarrow> nat \<Rightarrow> nat
    \<Rightarrow> nat \<Rightarrow> insert_error + unicode_set" where
  "merge_range s lo hi type ri runs qi hi_index len1 =
     (let (acc, qi1) = write_lo s lo hi type hi_index qi (runs, take qi (mQuads s));
          len2 = len1 - 1
      in if hi_index \<noteq> 0 then
           case skip_filled type len2 ri hi_index qi1 of
             None \<Rightarrow> Inl InvalidMemory
           | Some (type', len3, ri', hi_index', qi2) \<Rightarrow>
               let len4 = len3 - hi_index';
                   (acc', qi3) = write_hi s hi type' len4 hi_index' qi2
                                   (append_run_to Full (hi_index - 1) acc)
               in Inr (finish_range s type' len4 ri' qi3 acc')
         else Inr (finish_range s type len2 ri qi1 acc))"

definition insert_range :: "unicode_set \<Rightarrow> codepoint \<Rightarrow> codepoint \<Rightarrow> insert_error + unicode_set" where
  "insert_range s lo hi =
     (if lo > hi then Inl (IllegalRange lo hi)
      else if hi > UNICODE_MAX then Inl (ExceedsMaximum hi)
      else case skip_runs [] (mRuns s) (lo div QUAD_BITS) (hi div QUAD_BITS) 0 of
          None \<Rightarrow> Inl InvalidMemory
        | Some (runs0, type, len0, ri, lo_index, hi_index0, qi0) \<Rightarrow>
            if lo_index \<noteq> 0
            then merge_range s lo hi type ri (runs0 @ [(type, lo_index)])
                   (if type = Mixed then qi0 + lo_index else qi0) (hi_index0 - lo_index) (len0 - lo_index)
            else merge_range s lo hi type ri runs0 qi0 hi_index0 len0)"

section \<open>The quads still to come\<close>

text \<open>A run that may be used up, the runs after it and the quads of both.\<close>

definition tail_ok :: "run_type \<Rightarrow> nat \<Rightarrow> run list \<Rightarrow> bitquad list \<Rightarrow> bool" where
  "tail_ok t n ri qs \<longleftrightarrow> (\<forall>r \<in> set ri. 0 < snd r) \<and> mixed_count ((t, n) # ri) = length qs
     \<and> (\<forall>q \<in> set qs. q \<noteq> 0 \<and> q \<noteq> FULL_QUAD_MASK)"

lemma tail_ok_runs: "runs_ok ((t, n) # ri, qs) \<longleftrightarrow> 0 < n \<and> tail_ok t n ri qs"
  by (auto simp: tail_ok_def runs_ok_def)

lemma tail_advance:
  assumes "tail_ok t n ri qs" "m \<le> n"
  shows "tail_ok t (n - m) ri (if t = Mixed then drop m qs else qs)"
    "quads_of ((t, n - m) # ri) (if t = Mixed then drop m qs else qs) = drop m (quads_of ((t, n) # ri) qs)"
  using assms set_drop_subset[of m qs]
  by (cases t; auto simp: tail_ok_def simp flip: drop_replicate drop_take)+

lemma tail_next:
  assumes "tail_ok t n ((t', n') # ri) qs"
  shows "tail_ok t' n' ri (if t = Mixed then drop n qs else qs)" "0 < n'"
    "quads_of ((t', n') # ri) (if t = Mixed then drop n qs else qs) = drop n (quads_of ((t, n) # (t', n') # ri) qs)"
  using assms set_drop_subset[of n qs]
  by (cases t; auto simp: tail_ok_def)+

lemma skip_runs_spec:
  "runs_ok (rs, drop qi Q) \<Longrightarrow> lo < run_total rs \<Longrightarrow> lo \<le> hi \<Longrightarrow>
   \<exists>pre t n post. rs = pre @ (t, n) # post \<and> run_total pre \<le> lo \<and> lo - run_total pre < n
     \<and> skip_runs passed rs lo hi qi = Some (passed @ pre, t, n, post, lo - run_total pre, hi - run_total pre,
         qi + mixed_count pre)"
proof (induction rs arbitrary: passed lo hi qi)
  case (Cons r rs)
  obtain t n where r: "r = (t, n)" by (cases r)
  show ?case
  proof (cases "lo < n")
    case True
    then show ?thesis by (intro exI[of _ "[]"]) (simp add: r)
  next
    case False
    have "runs_ok (rs, drop (if t = Mixed then qi + n else qi) Q)"
      using Cons.prems(1) by (auto simp: r runs_ok_Cons add.commute split: if_splits)
    moreover have "lo - n < run_total rs" "lo - n \<le> hi - n"
      using Cons.prems(2,3) False by (simp_all add: r)
    ultimately obtain pre t' n' post where "rs = pre @ (t', n') # post" "run_total pre \<le> lo - n"
      "lo - n - run_total pre < n'"
      "skip_runs (passed @ [r]) rs (lo - n) (hi - n) (if t = Mixed then qi + n else qi) =
        Some ((passed @ [r]) @ pre, t', n', post, lo - n - run_total pre, hi - n - run_total pre,
          (if t = Mixed then qi + n else qi) + mixed_count pre)"
      using Cons.IH[of "if t = Mixed then qi + n else qi" "lo - n" "hi - n" "passed @ [r]"] by blast
    with False show ?thesis
      by (intro exI[of _ "r # pre"] exI[of _ t'] exI[of _ n'] exI[of _ post]) (auto simp: r)
  qed
qed simp

lemma skip_filled_spec:
  "tail_ok t n ri (drop qi Q) \<Longrightarrow> 0 < d \<Longrightarrow> d \<le> length (quads_of ((t, n) # ri) (drop qi Q)) \<Longrightarrow>
   \<exists>t' n' ri' d' qi'. skip_filled t n ri d qi = Some (t', n', ri', d', qi') \<and> 0 < d' \<and> d' \<le> n'
     \<and> tail_ok t' n' ri' (drop qi' Q) \<and> d' \<le> d
     \<and> quads_of ((t', n') # ri') (drop qi' Q) = drop (d - d') (quads_of ((t, n) # ri) (drop qi Q))"
proof (induction t n ri d qi rule: skip_filled.induct)
  case (1 t n d qi)
  then show ?case by (cases t) (auto simp: tail_ok_def)
next
  case (2 t n t' n' ri d qi)
  show ?case
  proof (cases "n < d")
    case True
    let ?qi = "if t = Mixed then qi + n else qi"
    have eq: "drop ?qi Q = (if t = Mixed then drop n (drop qi Q) else drop qi Q)"
      by (simp add: add.commute)
    note next_tail = tail_next[OF "2.prems"(1), folded eq]
    have "d - n \<le> length (quads_of ((t', n') # ri) (drop ?qi Q))"
      using "2.prems"(3) by (simp only: next_tail length_drop)
    from "2.IH"[OF True next_tail(1) _ this] True show ?thesis
      unfolding next_tail(3) by (fastforce simp: add.commute)
  next
    case False
    with "2.prems" show ?thesis by simp
  qed
qed

section \<open>What the operation writes\<close>

text \<open>An output buffer that holds given quads, and the output as a whole.\<close>

definition holds :: "run_quads \<Rightarrow> bitquad list \<Rightarrow> bool" where
  "holds acc qs \<longleftrightarrow> runs_ok acc \<and> case_prod quads_of acc = qs"

lemma holds_append_quad: "holds acc qs \<Longrightarrow> holds (append_quad q acc) (qs @ [q])"
  by (simp add: holds_def append_quad_ok)

lemma holds_append_run:
  assumes "holds acc qs"
  shows "holds (append_run_to Full n acc) (qs @ replicate n FULL_QUAD_MASK)"
  using assms compress_from_ok[of acc "replicate n FULL_QUAD_MASK"]
  by (simp add: holds_def append_run_to_eq_compress)

lemma write_lo_spec:
  assumes "tail_ok t n ri (drop qi (mQuads s))" "0 < n" "holds acc qs"
    and lq: "lq = (if d = 0 then lo_quad lo AND hi_quad hi else lo_quad lo)"
  shows "\<exists>acc' qi'. write_lo s lo hi t d qi acc = (acc', qi')
    \<and> holds acc' (qs @ [hd (quads_of ((t, n) # ri) (drop qi (mQuads s))) OR lq])
    \<and> tail_ok t (n - 1) ri (drop qi' (mQuads s))
    \<and> quads_of ((t, n - 1) # ri) (drop qi' (mQuads s)) = tl (quads_of ((t, n) # ri) (drop qi (mQuads s)))"
proof -
  note adv = tail_advance[OF assms(1), of 1]
  show ?thesis
  proof (cases t)
    case Full
    then show ?thesis
      using adv assms holds_append_run[OF assms(3), of 1]
      by (cases n) (auto simp: write_lo_def drop_Suc)
  next
    case Empty
    then show ?thesis
      using adv assms holds_append_quad[OF assms(3), of lq]
      by (cases n) (auto simp: write_lo_def drop_Suc Let_def)
  next
    case Mixed
    have "n \<le> length (drop qi (mQuads s))" using assms(1) by (simp add: tail_ok_def Mixed)
    moreover from this have "qi < length (mQuads s)" using assms(2) by simp
    ultimately have "hd (quads_of ((t, n) # ri) (drop qi (mQuads s))) = mQuads s ! qi"
      using assms(2) by (simp add: Mixed hd_drop_conv_nth hd_append)
    moreover have "drop 1 xs = tl xs" for xs :: "bitquad list" by (simp add: drop_Suc)
    then have "tail_ok t (n - 1) ri (drop (qi + 1) (mQuads s))"
      "quads_of ((t, n - 1) # ri) (drop (qi + 1) (mQuads s)) = tl (quads_of ((t, n) # ri) (drop qi (mQuads s)))"
      using adv assms(2) by (simp_all only: Mixed if_True drop_drop add.commute less_eq_Suc_le One_nat_def refl simp_thms)
    ultimately show ?thesis
      using holds_append_quad[OF assms(3), of "mQuads s ! qi OR lq"] Mixed lq
      by (auto simp: write_lo_def Let_def or.commute simp del: quads_of.simps)
  qed
qed

lemma write_hi_spec:
  assumes "tail_ok t n ri (drop qi (mQuads s))" "0 < d" "d \<le> n" "holds acc qs" "t \<noteq> Mixed"
  shows "\<exists>acc'. write_hi s hi t (n - d) d qi acc = (acc', qi)
    \<and> holds acc' (qs @ [quads_of ((t, n) # ri) (drop qi (mQuads s)) ! (d - 1) OR hi_quad hi])"
  using assms holds_append_run[OF assms(4), of 1] holds_append_quad[OF assms(4), of "hi_quad hi"]
  by (cases t) (auto simp: write_hi_def nth_append)

lemma finish_range_spec:
  assumes "tail_ok t n ri (drop qi (mQuads s))" "holds acc qs"
  shows "runs_ok (mRuns (finish_range s t n ri qi acc), mQuads (finish_range s t n ri qi acc))"
    "dense (finish_range s t n ri qi acc) = qs @ quads_of ((t, n) # ri) (drop qi (mQuads s))"
proof -
  obtain rs qa where acc: "acc = (rs, qa)" by (cases acc)
  have ok: "runs_ok (rs, qa)" "quads_of rs qa = qs" using assms(2) by (simp_all add: acc holds_def)
  let ?qb = "drop qi (mQuads s)"
  have arrays: "mRuns (finish_range s t n ri qi acc) = append_run t n rs @ ri"
    "mQuads (finish_range s t n ri qi acc) = qa @ ?qb"
    by (simp_all add: finish_range_def acc del: assign.simps)
  show "runs_ok (mRuns (finish_range s t n ri qi acc), mQuads (finish_range s t n ri qi acc))"
    using ok(1) assms(1) append_run_pos[of rs t n]
    by (auto simp: arrays runs_ok_def tail_ok_def)
  have mc: "mixed_count rs = length qa" using ok(1) by (simp add: runs_ok_def)
  let ?qm = "if t = Mixed then take n ?qb else []" and ?qr = "if t = Mixed then drop n ?qb else ?qb"
  have qm: "(if t = Mixed then n else 0) = length ?qm"
    using assms(1) by (auto simp: tail_ok_def)
  then have "quads_of (append_run t n rs @ ri) ((qa @ ?qm) @ ?qr) = quads_of (append_run t n rs) (qa @ ?qm) @ quads_of ri ?qr"
    using mc by (intro quads_of_append) simp
  moreover have "(qa @ ?qm) @ ?qr = qa @ ?qb"
    by (cases "t = Mixed") (simp_all only: if_True if_False append_take_drop_id append_Nil append_Nil2 append_assoc simp_thms)
  ultimately have "quads_of (append_run t n rs @ ri) (qa @ ?qb) = quads_of (append_run t n rs) (qa @ ?qm) @ quads_of ri ?qr"
    by metis
  also have "quads_of (append_run t n rs) (qa @ ?qm) = qs @ quads_of [(t, n)] ?qm"
    using quads_of_append_run[OF mc, where n = n] qm ok(2) by (cases t) auto
  finally show "dense (finish_range s t n ri qi acc) = qs @ quads_of ((t, n) # ri) (drop qi (mQuads s))"
    unfolding dense_def arrays by (cases t) auto
qed

lemma prefix_spec:
  assumes ok: "runs_ok (pre @ (t, n) # post, Q)" and off: "off < n"
  defines "D \<equiv> quads_of (pre @ (t, n) # post) Q" and "L \<equiv> run_total pre + off"
    and "qi \<equiv> mixed_count pre + (if t = Mixed then off else 0)"
  shows "holds (if off \<noteq> 0 then pre @ [(t, off)] else pre, take qi Q) (take L D)"
    "tail_ok t (n - off) post (drop qi Q)" "quads_of ((t, n - off) # post) (drop qi Q) = drop L D"
proof -
  obtain qa qb where qs: "Q = qa @ qb" "length qa = mixed_count pre" "runs_ok (pre, qa)"
    "runs_ok ((t, n) # post, qb)" "D = quads_of pre qa @ quads_of ((t, n) # post) qb"
    "length (quads_of pre qa) = run_total pre"
    using split_tail[OF ok] unfolding D_def by metis
  have qb: "drop qi Q = (if t = Mixed then drop off qb else qb)"
    "take qi Q = qa @ (if t = Mixed then take off qb else [])"
    by (simp_all add: qi_def qs(1) qs(2)[symmetric])
  have tl1: "tail_ok t n post qb" using qs(4) by (simp add: tail_ok_runs)
  show "tail_ok t (n - off) post (drop qi Q)" "quads_of ((t, n - off) # post) (drop qi Q) = drop L D"
    using tail_advance[OF tl1, of off] off unfolding qb by (simp_all add: qs(5,6) L_def)
  have "runs_ok ([(t, off)], if t = Mixed then take off qb else [])" if "off \<noteq> 0"
    using qs(4) off that set_take_subset[of off qb] by (auto simp: runs_ok_def)
  moreover have "quads_of [(t, off)] (if t = Mixed then take off qb else []) = take off (quads_of ((t, n) # post) qb)"
    using qs(4) off by (cases t) (auto simp: runs_ok_Cons min_def)
  ultimately show "holds (if off \<noteq> 0 then pre @ [(t, off)] else pre, take qi Q) (take L D)"
    using join_tail[OF qs(3), of "[(t, off)]"] qs(3) unfolding qb
    by (auto simp: holds_def qs(5,6) L_def)
qed

text \<open>The second half: from the quad of \<open>lo\<close> to the end, when \<open>hi\<close> lies in a later quad.\<close>

lemma insert_range_hi:
  assumes tl1: "tail_ok t n ri (drop qi (mQuads s))" and acc: "holds acc qs"
    and T: "T = quads_of ((t, n) # ri) (drop qi (mQuads s))"
    and d: "0 < d" "d \<le> length T" and not_mixed: "T ! (d - 1) = 0 \<or> T ! (d - 1) = FULL_QUAD_MASK"
  shows "\<exists>t' n' ri' d' qi' acc'. skip_filled t n ri d qi = Some (t', n', ri', d', qi')
    \<and> write_hi s hi t' (n' - d') d' qi' (append_run_to Full (d - 1) acc) = (acc', qi')
    \<and> runs_ok (mRuns (finish_range s t' (n' - d') ri' qi' acc'), mQuads (finish_range s t' (n' - d') ri' qi' acc'))
    \<and> dense (finish_range s t' (n' - d') ri' qi' acc') =
        qs @ replicate (d - 1) FULL_QUAD_MASK @ (T ! (d - 1) OR hi_quad hi) # drop d T"
proof -
  from skip_filled_spec[OF tl1 d(1) d(2)[unfolded T]] obtain t' n' ri' d' qi' where
    skip: "skip_filled t n ri d qi = Some (t', n', ri', d', qi')" and d': "0 < d'" "d' \<le> n'" "d' \<le> d"
    and tl2: "tail_ok t' n' ri' (drop qi' (mQuads s))"
    and T': "quads_of ((t', n') # ri') (drop qi' (mQuads s)) = drop (d - d') T"
    by (auto simp: T)
  have nth: "quads_of ((t', n') # ri') (drop qi' (mQuads s)) ! (d' - 1) = T ! (d - 1)"
    using d d' by (simp add: T')
  have nm: "t' \<noteq> Mixed"
  proof
    assume mixed: "t' = Mixed"
    then have "n' \<le> length (drop qi' (mQuads s))" using tl2 by (simp add: tail_ok_def)
    moreover from this have "d' - 1 < n'" "d' - 1 < length (drop qi' (mQuads s))"
      using d' by linarith+
    ultimately have "T ! (d - 1) = drop qi' (mQuads s) ! (d' - 1)" "d' - 1 < length (drop qi' (mQuads s))"
      using mixed nth by (simp_all add: nth_append del: nth_drop)
    then have "T ! (d - 1) \<in> set (drop qi' (mQuads s))" by (metis nth_mem)
    with tl2 not_mixed show False by (auto simp: tail_ok_def)
  qed
  from write_hi_spec[OF tl2 d'(1,2) holds_append_run[OF acc, of "d - 1"] nm, of hi] obtain acc' where
    hi: "write_hi s hi t' (n' - d') d' qi' (append_run_to Full (d - 1) acc) = (acc', qi')"
    "holds acc' ((qs @ replicate (d - 1) FULL_QUAD_MASK) @ [T ! (d - 1) OR hi_quad hi])"
    unfolding nth by blast
  have "tail_ok t' (n' - d') ri' (drop qi' (mQuads s))"
    "quads_of ((t', n' - d') # ri') (drop qi' (mQuads s)) = drop d T"
    using tail_advance[OF tl2 d'(2)] nm d' d by (simp_all add: T')
  with finish_range_spec[OF this(1) hi(2)]
  have "runs_ok (mRuns (finish_range s t' (n' - d') ri' qi' acc'), mQuads (finish_range s t' (n' - d') ri' qi' acc'))"
    "dense (finish_range s t' (n' - d') ri' qi' acc') =
        qs @ replicate (d - 1) FULL_QUAD_MASK @ (T ! (d - 1) OR hi_quad hi) # drop d T"
    by simp_all
  with skip hi(1) show ?thesis by blast
qed

lemma map2_or_range:
  assumes "length D = 34816" "lo \<le> hi" "hi div 32 < 34816"
  shows "map2 (OR) D (replicate (lo div 32) 0 @ range_quads lo hi @ replicate (34816 - (hi div 32 + 1)) 0) =
    (if lo div 32 = hi div 32
     then take (lo div 32) D @ (D ! (lo div 32) OR (lo_quad lo AND hi_quad hi)) # drop (Suc (lo div 32)) D
     else take (lo div 32) D @ (D ! (lo div 32) OR lo_quad lo) #
       replicate (hi div 32 - lo div 32 - 1) FULL_QUAD_MASK @
       (D ! (hi div 32) OR hi_quad hi) # drop (Suc (hi div 32)) D)" (is "?l = ?r")
proof (rule nth_equalityI)
  have le: "lo div 32 \<le> hi div 32" using assms(2) by (rule div_le_mono)
  show len: "length ?l = length ?r"
    using assms le by (simp add: length_range_quads)
  fix i assume "i < length ?l"
  obtain L H where eqs [simp]: "lo div 32 = L" "hi div 32 = H" by blast
  have i: "i < 34816" using \<open>i < length ?l\<close> assms le by (simp add: length_range_quads)
  have r: "length (range_quads lo hi) = Suc H - L" using length_range_quads[OF assms(2)] by simp
  show "?l ! i = ?r ! i"
  proof (cases "L = H")
    case True
    then show ?thesis using i assms le r
      by (auto simp: nth_append nth_Cons' range_quads_def)
  next
    case False
    then obtain k where H: "H = Suc (L + k)" using le less_imp_Suc_add[of L H] by auto
    consider "i < L" | "i = L" | j where "i = Suc (L + j)" "j < k" | "i = H" | j where "i = Suc (H + j)"
      using less_imp_Suc_add[of L i] less_imp_Suc_add[of H i] H by (metis add_less_cancel_left linorder_neqE_nat
          Suc_less_eq not_less_eq)
    then show ?thesis
      using i assms r by cases (simp_all add: nth_append range_quads_def H)
  qed
qed

text \<open>\<open>insert_range\<close> does what it says when the last quad of the range is the first one too, or
  holds no mixture of members and non-members.\<close>

definition range_supported :: "unicode_set \<Rightarrow> codepoint \<Rightarrow> codepoint \<Rightarrow> bool" where
  "range_supported s lo hi \<longleftrightarrow> lo div 32 = hi div 32
     \<or> bitquad_at s hi = 0 \<or> bitquad_at s hi = FULL_QUAD_MASK"

text \<open>The state of the operation when it reaches the quad of \<open>lo\<close>.\<close>

lemma insert_range_prefix:
  assumes ok: "uset_ok s" and range: "lo \<le> hi" "hi \<le> 1114111"
  obtains t n ri runs qi where
    "insert_range s lo hi = merge_range s lo hi t ri runs qi (hi div 32 - lo div 32) n"
    "holds (runs, take qi (mQuads s)) (take (lo div 32) (dense s))" "0 < n"
    "tail_ok t n ri (drop qi (mQuads s))" "quads_of ((t, n) # ri) (drop qi (mQuads s)) = drop (lo div 32) (dense s)"
proof -
  let ?L = "lo div 32" and ?H = "hi div 32"
  have le: "?L \<le> ?H" "?H < 34816"
    using div_le_mono[OF range(1), of 32] range(2) quad_index_less[of hi] by simp_all
  then have "?L < run_total (mRuns s)" using uset_okD(2)[OF ok] by simp
  from skip_runs_spec[of "mRuns s" 0 "mQuads s", OF _ this le(1), of "[]"] uset_okD(1)[OF ok]
  obtain pre t n post where runs: "mRuns s = pre @ (t, n) # post" "run_total pre \<le> ?L" "?L - run_total pre < n"
    and skip: "skip_runs [] (mRuns s) ?L ?H 0 =
      Some (pre, t, n, post, ?L - run_total pre, ?H - run_total pre, mixed_count pre)"
    by auto
  define off where "off = ?L - run_total pre"
  define qi where "qi = mixed_count pre + (if t = Mixed then off else 0)"
  have L: "run_total pre + off = ?L" using runs(2) by (simp add: off_def)
  note prefix = prefix_spec[of pre t n post "mQuads s" off, folded runs(1) dense_def qi_def, unfolded L,
      OF uset_okD(1)[OF ok] runs(3)[folded off_def]]
  have "?H - run_total pre - off = ?H - ?L" "off = 0 \<Longrightarrow> run_total pre = ?L" using L by simp_all
  then have "insert_range s lo hi = merge_range s lo hi t post
      (if off \<noteq> 0 then pre @ [(t, off)] else pre) qi (?H - ?L) (n - off)"
    using range skip unfolding off_def [symmetric]
    by (cases "off = 0") (simp_all add: insert_range_def qi_def)
  moreover have "0 < n - off" using runs(3) off_def by simp
  ultimately show ?thesis using prefix that by blast
qed

lemma insert_range_dense:
  assumes ok: "uset_ok s" and range: "lo \<le> hi" "hi \<le> 1114111" and supported: "range_supported s lo hi"
  shows "\<exists>s'. insert_range s lo hi = Inr s' \<and> runs_ok (mRuns s', mQuads s') \<and>
    dense s' = map2 (OR) (dense s)
      (replicate (lo div 32) 0 @ range_quads lo hi @ replicate (34816 - (hi div 32 + 1)) 0)"
proof -
  obtain L H where eqs [simp]: "lo div 32 = L" "hi div 32 = H" by blast
  let ?D = "dense s"
  have le: "L \<le> H" "H < 34816"
    using div_le_mono[OF range(1), of 32] range(2) quad_index_less[of hi] by simp_all
  note merged = map2_or_range[OF length_dense[OF ok] range(1), unfolded eqs, OF le(2)]
  obtain t n ri runs qi where call: "insert_range s lo hi = merge_range s lo hi t ri runs qi (H - L) n"
    and pre: "holds (runs, take qi (mQuads s)) (take L ?D)" "0 < n" "tail_ok t n ri (drop qi (mQuads s))"
      "quads_of ((t, n) # ri) (drop qi (mQuads s)) = drop L ?D"
    by (rule insert_range_prefix[OF ok range, unfolded eqs])
  have hd: "hd (drop L ?D) = ?D ! L" "tl (drop L ?D) = drop (Suc L) ?D"
    using le ok by (simp_all add: hd_drop_conv_nth length_dense drop_Suc tl_drop)
  from write_lo_spec[OF pre(3,2,1) refl, where d = "H - L" and lo = lo and hi = hi, unfolded pre(4) hd] obtain acc qi' where
    lo: "write_lo s lo hi t (H - L) qi (runs, take qi (mQuads s)) = (acc, qi')"
    and acc: "holds acc (take L ?D @ [?D ! L OR (if H - L = 0 then lo_quad lo AND hi_quad hi else lo_quad lo)])"
    and tl1: "tail_ok t (n - 1) ri (drop qi' (mQuads s))"
      "quads_of ((t, n - 1) # ri) (drop qi' (mQuads s)) = drop (Suc L) ?D"
    by blast
  show ?thesis
  proof (cases "L = H")
    case True
    have "insert_range s lo hi = Inr (finish_range s t (n - 1) ri qi' acc)"
      using True lo by (simp add: call merge_range_def)
    with finish_range_spec[OF tl1(1) acc] tl1(2) merged True show ?thesis by simp
  next
    case False
    then have less: "0 < H - L" "H - L \<le> length (drop (Suc L) ?D)" using le ok by (simp_all add: length_dense)
    have nth: "drop (Suc L) ?D ! (H - L - 1) = ?D ! H" using less ok le by (simp add: length_dense)
    have "?D ! H = 0 \<or> ?D ! H = FULL_QUAD_MASK"
      using supported False bitquad_at_eq[OF ok, of hi] range by (simp add: range_supported_def)
    with insert_range_hi[OF tl1(1) acc tl1(2)[symmetric] less, of hi] obtain t' n' ri' d' qi2 acc' where
      "skip_filled t (n - 1) ri (H - L) qi' = Some (t', n', ri', d', qi2)"
      "write_hi s hi t' (n' - d') d' qi2 (append_run_to Full (H - L - 1) acc) = (acc', qi2)"
      "runs_ok (mRuns (finish_range s t' (n' - d') ri' qi2 acc'), mQuads (finish_range s t' (n' - d') ri' qi2 acc'))"
      "dense (finish_range s t' (n' - d') ri' qi2 acc') =
        (take L ?D @ [?D ! L OR (if H - L = 0 then lo_quad lo AND hi_quad hi else lo_quad lo)])
        @ replicate (H - L - 1) FULL_QUAD_MASK @ (?D ! H OR hi_quad hi) # drop (H - L) (drop (Suc L) ?D)"
      unfolding nth by blast
    moreover from this(1,2) have "insert_range s lo hi = Inr (finish_range s t' (n' - d') ri' qi2 acc')"
      using less lo by (simp add: call merge_range_def)
    ultimately show ?thesis using merged False less by simp
  qed
qed

lemma insert_range_ok:
  assumes "uset_ok s" "lo \<le> hi" "hi \<le> 1114111" "range_supported s lo hi"
  obtains s' where "insert_range s lo hi = Inr s'" "uset_ok s'" "codepoints s' = codepoints s \<union> {lo..hi}"
proof -
  obtain s' where s': "insert_range s lo hi = Inr s'" "runs_ok (mRuns s', mQuads s')"
    "dense s' = map2 (OR) (dense s) (dense (UnicodeSet_range lo hi))"
    using insert_range_dense[OF assms] UnicodeSet_range_arrays(2)[OF assms(2,3)] by auto
  note range = UnicodeSet_range_spec[OF assms(2,3)]
  have plus: "operator_plus s (UnicodeSet_range lo hi) = new_set (compress (dense s'))"
    using assms(1) range(1) by (simp add: operator_plus_def union_zip.zip_sets_value s'(3))
  then have "dense s' = dense (operator_plus s (UnicodeSet_range lo hi))" by simp
  then have "codepoints s' = codepoints s \<union> {lo..hi}"
    using codepoints_plus[OF assms(1) range(1)] range(2) by (simp add: codepoints_def)
  moreover have "uset_ok s'"
    using s' assms(1) range(1) by (intro uset_okI) (simp_all add: length_dense)
  ultimately show ?thesis using s'(1) that by blast
qed

text \<open>A range that ends inside a Mixed quad it did not start in loses what the quad held.\<close>

lemma insert_range_63:
  "insert_range (UnicodeSet_singleton 63) 5 40 =
     Inr \<lparr>mRuns = [(Mixed, 2), (Empty, 34814)], mQuads = [lo_quad 5, hi_quad 40],
       mRunCapacity = 3, mQuadCapacity = 2\<rparr>"
  by (simp add: insert_range_def merge_range_def UnicodeSet_singleton_def Let_def write_lo_def write_hi_def
      finish_range_def append_run_def typeOf_def lengthOf_def lo_quad_special hi_quad_special)

lemma insert_range_loses_member:
  "case insert_range (UnicodeSet_singleton 63) 5 40 of
     Inl e \<Rightarrow> False
   | Inr s' \<Rightarrow> uset_ok s' \<and> \<not> contains s' 63"
proof -
  have "\<not> bit (hi_quad 40) 31" by simp
  then have "hi_quad 40 AND 2 ^ 31 = 0"
    by (simp only: and_exp_eq_0_iff_not_bit not_False_eq_True)
  moreover have "(2 :: bitquad) ^ 31 = 2147483648" by simp
  ultimately have bit31: "hi_quad 40 AND 2147483648 = 0" by (simp only:)
  show ?thesis
    by (simp add: insert_range_63 uset_ok_def verify_iff runs_ok_def contains_def bit31
      lo_quad_special hi_quad_special)
qed

end
