(* ===== verification/USet_Intervals.thy ===== *)
theory USet_Intervals imports USet_Range begin

text \<open>
  The interval iterator of \<open>unicode_set.cpp\<close> (\<open>UnicodeSet::iterator\<close>) and the
  operations defined by iterating: \<open>size\<close>, \<open>front\<close>, \<open>back\<close>,
  \<open>intersects(lo, hi)\<close> and \<open>isolates\<close>. The iterator yields the maximal intervals of
  members in ascending order.
\<close>

section \<open>The iterator\<close>

text \<open>The position: runs and quads still to read, progress in a Mixed run, offset in the quad and the
  first code point of the quad.\<close>

record cursor =
  cRuns :: "run list"
  cQuads :: "bitquad list"
  mMixedRunIndex :: nat
  mQuadOffset :: nat
  mBaseCodePoint :: codepoint

record interval_iterator = cursor +
  mMinCodePoint :: codepoint
  mMaxCodePoint :: codepoint

text \<open>The loop \<open>while (mMixedRunIndex != lengthOf(*mRunIterator))\<close> over the rest of a Mixed run.
  \<open>f\<close> is the identity when the start of an interval is sought and the complement when its end
  is. \<open>Inl\<close> is the jump out of the loops with the code point found.\<close>

fun scan_mixed :: "(bitquad \<Rightarrow> bitquad) \<Rightarrow> nat \<Rightarrow> cursor \<Rightarrow> cursor \<times> codepoint + cursor" where
  "scan_mixed f 0 c = Inr (c\<lparr>cRuns := tl (cRuns c), mQuadOffset := 0, mMixedRunIndex := 0\<rparr>)"
| "scan_mixed f (Suc l) c =
     (let m = f (hd (cQuads c)) AND push_bit (mQuadOffset c) FULL_QUAD_MASK in
      if m \<noteq> 0 then
        let c' = c\<lparr>mQuadOffset := scan_forward_zeroes m\<rparr>
        in Inl (c', mBaseCodePoint c' + mQuadOffset c')
      else scan_mixed f l (c\<lparr>mBaseCodePoint := mBaseCodePoint c + QUAD_BITS, cQuads := tl (cQuads c),
             mMixedRunIndex := mMixedRunIndex c + 1, mQuadOffset := 0\<rparr>))"

text \<open>Both outer loops of \<open>advance\<close>: they differ in \<open>f\<close> and in the run type that ends
  the search.\<close>

fun scan_runs :: "run_type \<Rightarrow> (bitquad \<Rightarrow> bitquad) \<Rightarrow> nat \<Rightarrow> cursor \<Rightarrow> cursor \<times> codepoint option" where
  "scan_runs stop f 0 c = (c, None)"
| "scan_runs stop f (Suc fuel) c =
     (if mBaseCodePoint c > UNICODE_MAX then (c, None)
      else
        let (type, len) = hd (cRuns c) in
        if type \<noteq> Mixed then
          let c' = c\<lparr>mBaseCodePoint := mBaseCodePoint c + len * QUAD_BITS, cRuns := tl (cRuns c)\<rparr>
          in if type = stop then (c', Some (mBaseCodePoint c)) else scan_runs stop f fuel c'
        else case scan_mixed f (len - mMixedRunIndex c) c of
            Inl (c', cp) \<Rightarrow> (c', Some cp)
          | Inr c' \<Rightarrow> scan_runs stop f fuel c')"

datatype iterator_error = IteratorExceedsMaximum

text \<open>Each turn of an outer loop uses up a run, so the number of runs left bounds the turns.\<close>

definition scan :: "run_type \<Rightarrow> (bitquad \<Rightarrow> bitquad) \<Rightarrow> cursor \<Rightarrow> cursor \<times> codepoint option" where
  "scan stop f c = scan_runs stop f (Suc (length (cRuns c))) c"

definition advance :: "interval_iterator \<Rightarrow> iterator_error + interval_iterator" where
  "advance it =
     (if mMinCodePoint it > UNICODE_MAX then Inl IteratorExceedsMaximum
      else Inr (case scan Full (\<lambda>q. q) (cursor.truncate it) of
          (c, None) \<Rightarrow> cursor.extend c \<lparr>mMinCodePoint = UNICODE_MAX + 1, mMaxCodePoint = mMaxCodePoint it\<rparr>
        | (c, Some lo) \<Rightarrow>
            (case scan Empty (\<lambda>q. NOT q) c of
               (c', None) \<Rightarrow> cursor.extend c' \<lparr>mMinCodePoint = lo, mMaxCodePoint = UNICODE_MAX\<rparr>
             | (c', Some x) \<Rightarrow> cursor.extend c' \<lparr>mMinCodePoint = lo, mMaxCodePoint = x - 1\<rparr>)))"

definition initial_iterator :: "unicode_set \<Rightarrow> codepoint \<Rightarrow> interval_iterator" where
  "initial_iterator s cp = \<lparr>cRuns = mRuns s, cQuads = mQuads s, mMixedRunIndex = 0, mQuadOffset = 0,
     mBaseCodePoint = cp, mMinCodePoint = cp, mMaxCodePoint = cp\<rparr>"

definition uset_begin :: "unicode_set \<Rightarrow> iterator_error + interval_iterator" where
  "uset_begin s = advance (initial_iterator s 0)"

text \<open>Equality of iterators compares \<open>mMinCodePoint\<close>, and \<open>end()\<close> stands at \<open>UNICODE_MAX + 1\<close>.\<close>

definition at_end :: "interval_iterator \<Rightarrow> bool" where
  "at_end it \<longleftrightarrow> mMinCodePoint it = UNICODE_MAX + 1"

section \<open>What a cursor stands for\<close>

definition cur_quads :: "cursor \<Rightarrow> bitquad list" where
  "cur_quads c = (case cRuns c of [] \<Rightarrow> []
     | (t, n) # rs \<Rightarrow> quads_of ((t, n - mMixedRunIndex c) # rs) (cQuads c))"

definition cursor_pos :: "cursor \<Rightarrow> codepoint" where
  "cursor_pos c = mBaseCodePoint c + mQuadOffset c"

text \<open>A cursor on the dense list \<open>D\<close>.\<close>

definition cursor_ok :: "bitquad list \<Rightarrow> cursor \<Rightarrow> bool" where
  "cursor_ok D c \<longleftrightarrow> mBaseCodePoint c = 32 * (length D - length (cur_quads c))
     \<and> cur_quads c = drop (length D - length (cur_quads c)) D
     \<and> (case cRuns c of
          [] \<Rightarrow> mMixedRunIndex c = 0 \<and> mQuadOffset c = 0
        | (t, n) # rs \<Rightarrow> tail_ok t (n - mMixedRunIndex c) rs (cQuads c) \<and> 0 < n \<and> mMixedRunIndex c \<le> n
            \<and> (mMixedRunIndex c = n \<longrightarrow> mQuadOffset c = 0) \<and> (t \<noteq> Mixed \<longrightarrow> mMixedRunIndex c = 0 \<and> mQuadOffset c = 0) \<and> mQuadOffset c < 32)"

definition holds_at :: "(bitquad \<Rightarrow> bitquad) \<Rightarrow> bitquad list \<Rightarrow> codepoint \<Rightarrow> bool" where
  "holds_at f D cp \<longleftrightarrow> quads_mem (map f D) cp"

lemma holds_at_base:
  assumes "k < length D" "n < 32"
  shows "holds_at f D (32 * k + n) \<longleftrightarrow> bit (f (D ! k)) n"
  using assms by (simp add: holds_at_def quads_mem_def)

text \<open>The first code point from a position on at which the property holds, and the position after:
  everything between the code point and the position has the property.\<close>

definition scan_result :: "(bitquad \<Rightarrow> bitquad) \<Rightarrow> bitquad list \<Rightarrow> codepoint \<Rightarrow> cursor \<times> codepoint option \<Rightarrow> bool" where
  "scan_result f D p = (\<lambda>(c, r). cursor_ok D c \<and> (case r of
      None \<Rightarrow> 32 * length D \<le> cursor_pos c \<and> (\<forall>x. p \<le> x \<longrightarrow> \<not> holds_at f D x)
    | Some cp \<Rightarrow> p \<le> cp \<and> cp < 32 * length D \<and> (\<forall>x. p \<le> x \<and> x < cp \<longrightarrow> \<not> holds_at f D x)
        \<and> holds_at f D cp \<and> cp \<le> cursor_pos c \<and> (\<forall>x. cp \<le> x \<and> x < cursor_pos c \<longrightarrow> holds_at f D x)))"

lemma scan_result_later:
  "scan_result f D p' r \<Longrightarrow> p \<le> p' \<Longrightarrow> \<forall>x. p \<le> x \<and> x < p' \<longrightarrow> \<not> holds_at f D x \<Longrightarrow> scan_result f D p r"
  unfolding scan_result_def by (cases r; cases "snd r"; simp; meson le_trans not_le)

text \<open>Scanning forward from an offset in a quad.\<close>

lemma scan_masked:
  fixes q :: bitquad
  assumes "off < 32"
  defines "m \<equiv> q AND push_bit off FULL_QUAD_MASK"
  shows "m = 0 \<Longrightarrow> off \<le> n \<Longrightarrow> n < 32 \<Longrightarrow> \<not> bit q n"
    "m \<noteq> 0 \<Longrightarrow> off \<le> scan_forward_zeroes m \<and> scan_forward_zeroes m < 32 \<and> bit q (scan_forward_zeroes m)
       \<and> (\<forall>n. off \<le> n \<and> n < scan_forward_zeroes m \<longrightarrow> \<not> bit q n)"
proof -
  have bit_m: "bit m n \<longleftrightarrow> off \<le> n \<and> bit q n" if "n < 32" for n
    using that by (auto simp: m_def bit_and_iff bit_push_bit_iff)
  show "m = 0 \<Longrightarrow> off \<le> n \<Longrightarrow> n < 32 \<Longrightarrow> \<not> bit q n"
    using bit_m by auto
  assume "m \<noteq> 0"
  then obtain n where "n < 32" "bit m n" by (auto simp: quad_eq_iff)
  then have ne: "filter (bit m) [0..<32] \<noteq> []" by (auto simp: filter_empty_conv simp del: upt_rec_numeral)
  note z = scan_forward_zeroes_hd[OF ne]
  have "scan_forward_zeroes m \<in> set (filter (bit m) [0..<32])"
    using z(1) ne by (metis list.set_sel(1))
  then have "bit m (scan_forward_zeroes m)" by (simp del: upt_rec_numeral)
  moreover have "\<not> bit m n" if "n < scan_forward_zeroes m" for n
  proof -
    have n: "n < length (takeWhile (\<lambda>n. \<not> bit m n) [0..<32])" using that by (simp add: scan_forward_zeroes_def)
    then have "takeWhile (\<lambda>n. \<not> bit m n) [0..<32] ! n = n"
      using takeWhile_nth[OF n] length_takeWhile_le[of "\<lambda>n. \<not> bit m n" "[0..<32]"] by simp
    with nth_mem[OF n] show ?thesis by (metis set_takeWhileD)
  qed
  ultimately show "off \<le> scan_forward_zeroes m \<and> scan_forward_zeroes m < 32 \<and> bit q (scan_forward_zeroes m)
       \<and> (\<forall>n. off \<le> n \<and> n < scan_forward_zeroes m \<longrightarrow> \<not> bit q n)"
    using z(2) bit_m by (metis order_less_trans)
qed

section \<open>The loops find what they look for\<close>

text \<open>Moving a cursor one quad on inside a Mixed run, and over the end of a run.\<close>

lemma cursor_mixed_quad:
  assumes "cursor_ok D c" "cRuns c = (Mixed, n) # rs" "mMixedRunIndex c < n"
  defines "k \<equiv> length D - length (cur_quads c)"
  shows "k < length D" "D ! k = hd (cQuads c)" "mBaseCodePoint c = 32 * k" "mQuadOffset c < 32"
    "cursor_ok D (c\<lparr>mBaseCodePoint := mBaseCodePoint c + QUAD_BITS, cQuads := tl (cQuads c),
       mMixedRunIndex := mMixedRunIndex c + 1, mQuadOffset := 0\<rparr>)"
proof -
  let ?m = "n - mMixedRunIndex c"
  have m: "0 < ?m" using assms(3) by simp
  have tl1: "tail_ok Mixed ?m rs (cQuads c)" and off: "mQuadOffset c < 32"
    and D: "cur_quads c = drop k D" "mBaseCodePoint c = 32 * k"
    using assms(1,2) by (simp_all add: cursor_ok_def k_def)
  have cq: "cur_quads c = quads_of ((Mixed, ?m) # rs) (cQuads c)" using assms(2) by (simp add: cur_quads_def)
  have "?m \<le> length (cQuads c)" using tl1 by (simp add: tail_ok_def)
  with m obtain q qs where qs: "cQuads c = q # qs" by (cases "cQuads c") auto
  have "cur_quads c = q # quads_of ((Mixed, ?m - 1) # rs) qs"
    using m by (cases ?m) (simp_all add: cq qs)
  then have dk: "drop k D = q # quads_of ((Mixed, ?m - 1) # rs) qs" using D(1) by simp
  then show k: "k < length D" by (metis drop_all not_le list.distinct(1))
  show "D ! k = hd (cQuads c)" using dk by (simp add: qs flip: hd_drop_conv_nth[OF k])
  have next_quads: "quads_of ((Mixed, ?m - 1) # rs) qs = drop (Suc k) D"
    using dk by (metis drop_Suc list.sel(3) tl_drop)
  have "tail_ok Mixed (?m - 1) rs qs"
    using tail_advance(1)[OF tl1, of 1] m by (simp add: qs)
  then show "cursor_ok D (c\<lparr>mBaseCodePoint := mBaseCodePoint c + QUAD_BITS, cQuads := tl (cQuads c),
       mMixedRunIndex := mMixedRunIndex c + 1, mQuadOffset := 0\<rparr>)"
    using next_quads k D(2) assms(2,3) m
    by (simp add: cursor_ok_def cur_quads_def qs Suc_diff_Suc)
qed (use assms in \<open>simp_all add: cursor_ok_def\<close>)

lemma cursor_next_run:
  assumes "cursor_ok D c" "cRuns c = (t, n) # rs" "t \<noteq> Mixed \<or> mMixedRunIndex c = n"
  shows "cursor_ok D (c\<lparr>mBaseCodePoint := mBaseCodePoint c + (n - mMixedRunIndex c) * 32, cRuns := rs,
      mQuadOffset := 0, mMixedRunIndex := 0\<rparr>)"
    "n - mMixedRunIndex c \<le> length (cur_quads c)"
    "cur_quads (c\<lparr>mBaseCodePoint := b, cRuns := rs, mQuadOffset := 0, mMixedRunIndex := 0\<rparr>) =
      drop (n - mMixedRunIndex c) (cur_quads c)"
proof -
  let ?m = "n - mMixedRunIndex c"
  let ?k = "length D - length (cur_quads c)"
  let ?c = "c\<lparr>mBaseCodePoint := mBaseCodePoint c + ?m * 32, cRuns := rs, mQuadOffset := 0, mMixedRunIndex := 0\<rparr>"
  have tl1: "tail_ok t ?m rs (cQuads c)" and D: "cur_quads c = drop ?k D" "mBaseCodePoint c = 32 * ?k"
    using assms(1,2) by (simp_all add: cursor_ok_def)
  have cq: "cur_quads c = quads_of ((t, ?m) # rs) (cQuads c)" using assms(2) by (simp add: cur_quads_def)
  have m0: "t = Mixed \<Longrightarrow> ?m = 0" using assms(3) by auto
  show le: "?m \<le> length (cur_quads c)" using m0 by (cases t) (simp_all add: cq)
  have rest: "quads_of rs (cQuads c) = drop ?m (cur_quads c)" using m0 by (cases t) (simp_all add: cq)
  have quads_rs: "cur_quads (c\<lparr>mBaseCodePoint := b, cRuns := rs, mQuadOffset := 0, mMixedRunIndex := 0\<rparr>)
      = quads_of rs (cQuads c)" for b
    by (cases rs) (auto simp: cur_quads_def)
  then show "cur_quads (c\<lparr>mBaseCodePoint := b, cRuns := rs, mQuadOffset := 0, mMixedRunIndex := 0\<rparr>) =
      drop ?m (cur_quads c)" by (simp add: rest)
  have len: "length (cur_quads c) \<le> length D" using D(1) by (metis diff_le_self length_drop)
  have mc: "mixed_count rs = length (cQuads c)" "\<forall>r\<in>set rs. 0 < snd r"
    "\<forall>q\<in>set (cQuads c). q \<noteq> 0 \<and> q \<noteq> FULL_QUAD_MASK"
    using tl1 m0 by (auto simp: tail_ok_def split: if_splits)
  have "length D - length (cur_quads ?c) = ?k + ?m"
    unfolding quads_rs rest using le len by simp
  moreover have "drop (?k + ?m) D = drop ?m (cur_quads c)"
    by (subst D(1)) (simp add: add.commute)
  ultimately show "cursor_ok D ?c"
    using D(2) mc unfolding cursor_ok_def quads_rs rest
    by (cases rs) (auto simp: tail_ok_def algebra_simps)
qed

lemma scan_mixed_spec:
  "cursor_ok D c \<Longrightarrow> cRuns c = (Mixed, n) # rs \<Longrightarrow> l = n - mMixedRunIndex c \<Longrightarrow>
   case scan_mixed f l c of
     Inl (c', x) \<Rightarrow> scan_result f D (cursor_pos c) (c', Some x)
   | Inr c' \<Rightarrow> cursor_ok D c' \<and> cRuns c' = rs \<and> cursor_pos c \<le> cursor_pos c'
       \<and> (\<forall>x. cursor_pos c \<le> x \<and> x < cursor_pos c' \<longrightarrow> \<not> holds_at f D x)"
proof (induction f l c rule: scan_mixed.induct)
  case (1 f c)
  have idx: "mMixedRunIndex c = n" "mQuadOffset c = 0" using 1 by (auto simp: cursor_ok_def)
  with cursor_next_run(1)[OF 1(1,2)] show ?case
    using 1(2) by (auto simp: cursor_pos_def)
next
  case (2 f l c)
  let ?k = "length D - length (cur_quads c)"
  have less: "mMixedRunIndex c < n" using "2.prems"(3) by simp
  note quad = cursor_mixed_quad[OF "2.prems"(1,2) less]
  let ?q = "f (hd (cQuads c))" and ?o = "mQuadOffset c"
  let ?m = "?q AND push_bit ?o FULL_QUAD_MASK"
  let ?c = "c\<lparr>mBaseCodePoint := mBaseCodePoint c + QUAD_BITS, cQuads := tl (cQuads c),
             mMixedRunIndex := mMixedRunIndex c + 1, mQuadOffset := 0\<rparr>"
  note masked = scan_masked[OF quad(4), of ?q]
  have at: "holds_at f D (32 * ?k + j) \<longleftrightarrow> bit ?q j" if "j < 32" for j
    using holds_at_base[OF quad(1) that, of f] quad(2) by simp
  have before: "\<not> holds_at f D x" if "32 * ?k + ?o \<le> x" "x < 32 * ?k + u" "u \<le> 32"
    "\<And>j. ?o \<le> j \<Longrightarrow> j < u \<Longrightarrow> \<not> bit ?q j" for x u
  proof -
    define j where "j = x - 32 * ?k"
    have "x = 32 * ?k + j" "?o \<le> j" "j < u" using that(1,2) unfolding j_def by linarith+
    with that(3,4) at[of j] show ?thesis by simp
  qed
  show ?case
  proof (cases "?m = 0")
    case False
    let ?z = "scan_forward_zeroes ?m"
    note z = masked(2)[OF False]
    have "cursor_ok D (c\<lparr>mQuadOffset := ?z\<rparr>)"
      using "2.prems"(1,2) z less by (simp add: cursor_ok_def cur_quads_def)
    moreover have "32 * ?k + ?z < 32 * length D" using quad(1) z by simp
    ultimately have "scan_result f D (cursor_pos c) (c\<lparr>mQuadOffset := ?z\<rparr>, Some (32 * ?k + ?z))"
      using z at[of ?z] before[of _ ?z] quad(3) by (auto simp: scan_result_def cursor_pos_def)
    with False quad(3) show ?thesis by (simp add: Let_def)
  next
    case True
    have step: "scan_mixed f (Suc l) c = scan_mixed f l ?c" using True by (simp add: Let_def)
    have pos: "cursor_pos ?c = 32 * ?k + 32" "cursor_pos c = 32 * ?k + ?o" using quad(3) by (simp_all add: cursor_pos_def)
    have none: "\<forall>x. cursor_pos c \<le> x \<and> x < cursor_pos ?c \<longrightarrow> \<not> holds_at f D x"
      using before[of _ 32] masked(1)[OF True] unfolding pos by blast
    have le: "cursor_pos c \<le> cursor_pos ?c" using quad(4) unfolding pos by simp
    have "l = n - mMixedRunIndex ?c" "cRuns ?c = (Mixed, n) # rs" using "2.prems"(2,3) by simp_all
    from "2.IH"[OF refl _ quad(5) this(2,1)] True
    have IH: "case scan_mixed f l ?c of
        Inl (c', x) \<Rightarrow> scan_result f D (cursor_pos ?c) (c', Some x)
      | Inr c' \<Rightarrow> cursor_ok D c' \<and> cRuns c' = rs \<and> cursor_pos ?c \<le> cursor_pos c'
          \<and> (\<forall>x. cursor_pos ?c \<le> x \<and> x < cursor_pos c' \<longrightarrow> \<not> holds_at f D x)"
      by simp
    show ?thesis
    proof (cases "scan_mixed f l ?c")
      case (Inl r)
      with IH scan_result_later[OF _ le none] show ?thesis unfolding step by (cases r) simp
    next
      case (Inr c')
      with IH have "\<not> holds_at f D x" if "cursor_pos c \<le> x" "x < cursor_pos c'" for x
        using none that by (cases "x < cursor_pos ?c") auto
      with IH Inr le show ?thesis unfolding step by simp
    qed
  qed
qed

definition type_quad :: "run_type \<Rightarrow> bitquad" where
  "type_quad t = (if t = Empty then 0 else FULL_QUAD_MASK)"

text \<open>The contract of a search: the run type it stops at is the one whose quads \<open>f\<close> makes full.\<close>

locale interval_scan =
  fixes stop :: run_type and f :: "bitquad \<Rightarrow> bitquad"
  assumes stop_quad: "t \<noteq> Mixed \<Longrightarrow> f (type_quad t) = (if t = stop then FULL_QUAD_MASK else 0)"
begin

lemma uniform_run:
  assumes "cursor_ok D c" "cRuns c = (t, n) # rs" "t \<noteq> Mixed" "mBaseCodePoint c \<le> x" "x < mBaseCodePoint c + n * 32"
  shows "holds_at f D x \<longleftrightarrow> t = stop"
proof -
  let ?k = "length D - length (cur_quads c)"
  have idx: "mMixedRunIndex c = 0" "mBaseCodePoint c = 32 * ?k" "cur_quads c = drop ?k D"
    using assms(1-3) by (auto simp: cursor_ok_def)
  have quads: "cur_quads c = replicate n (type_quad t) @ quads_of rs (cQuads c)"
    using assms(2,3) idx(1) by (cases t) (simp_all add: cur_quads_def type_quad_def)
  have x: "x div 32 = ?k + (x div 32 - ?k)" "x div 32 - ?k < n" using assms(4,5) idx(2) by linarith+
  have "x div 32 < length D" "D ! (x div 32) = type_quad t"
  proof -
    have "n \<le> length (drop ?k D)" by (metis idx(3) quads length_append length_replicate le_add1)
    then show "x div 32 < length D" using x unfolding length_drop by linarith
    have "D ! (x div 32) = drop ?k D ! (x div 32 - ?k)"
      using x(1) \<open>n \<le> length (drop ?k D)\<close> by (metis diff_le_self nth_drop)
    also have "\<dots> = (replicate n (type_quad t) @ quads_of rs (cQuads c)) ! (x div 32 - ?k)"
      using quads idx(3) by simp
    also have "\<dots> = type_quad t" using x(2) by (simp add: nth_append)
    finally show "D ! (x div 32) = type_quad t" .
  qed
  then show ?thesis using stop_quad[OF assms(3)] by (simp add: holds_at_def quads_mem_def)
qed

lemma scan_runs_spec:
  "cursor_ok D c \<Longrightarrow> length D = 34816 \<Longrightarrow> length (cRuns c) < fuel \<Longrightarrow>
   scan_result f D (cursor_pos c) (scan_runs stop f fuel c)"
proof (induction fuel arbitrary: c)
  case (Suc fuel)
  have base: "mBaseCodePoint c = 32 * (34816 - length (cur_quads c))"
    using Suc.prems(1,2) by (simp add: cursor_ok_def)
  show ?case
  proof (cases "mBaseCodePoint c > 1114111")
    case True
    have "\<not> holds_at f D x" if "cursor_pos c \<le> x" for x
      using that True Suc.prems(2) quad_index_less[of x] by (auto simp: holds_at_def quads_mem_def cursor_pos_def)
    with True Suc.prems(1,2) show ?thesis by (simp add: scan_result_def cursor_pos_def)
  next
    case False
    then have "cur_quads c \<noteq> []" using base by auto
    then obtain t n rs where runs: "cRuns c = (t, n) # rs" by (auto simp: cur_quads_def split: list.splits)
    show ?thesis
    proof (cases "t = Mixed")
      case True
      note mixed = scan_mixed_spec[OF Suc.prems(1) runs[unfolded True] refl, of f]
      show ?thesis
      proof (cases "scan_mixed f (n - mMixedRunIndex c) c")
        case (Inl r)
        with mixed runs True False show ?thesis by (cases r) (simp add: Let_def)
      next
        case (Inr c')
        with mixed have c': "cursor_ok D c'" "cRuns c' = rs" "cursor_pos c \<le> cursor_pos c'"
          "\<forall>x. cursor_pos c \<le> x \<and> x < cursor_pos c' \<longrightarrow> \<not> holds_at f D x"
          by simp_all
        have "length (cRuns c') < fuel" using Suc.prems(3) runs c'(2) by simp
        from scan_result_later[OF Suc.IH[OF c'(1) Suc.prems(2) this] c'(3,4)] show ?thesis
          using Inr runs True False by (simp add: Let_def)
      qed
    next
      case nm: False
      let ?c = "c\<lparr>mBaseCodePoint := mBaseCodePoint c + n * 32, cRuns := rs\<rparr>"
      have idx: "mMixedRunIndex c = 0" "mQuadOffset c = 0" using Suc.prems(1) runs nm by (auto simp: cursor_ok_def)
      then have "?c = c\<lparr>mBaseCodePoint := mBaseCodePoint c + (n - mMixedRunIndex c) * 32, cRuns := rs,
          mQuadOffset := 0, mMixedRunIndex := 0\<rparr>" by simp
      with cursor_next_run(1)[OF Suc.prems(1) runs] nm have ok: "cursor_ok D ?c" by simp
      note run = uniform_run[OF Suc.prems(1) runs nm]
      have pos: "cursor_pos c = mBaseCodePoint c" "cursor_pos ?c = mBaseCodePoint c + n * 32"
        using idx by (simp_all add: cursor_pos_def)
      show ?thesis
      proof (cases "t = stop")
        case True
        have "0 < n" using Suc.prems(1) runs by (simp add: cursor_ok_def)
        with True run ok pos Suc.prems(2) False runs nm show ?thesis
          by (auto simp: scan_result_def Let_def)
      next
        case other: False
        have "length (cRuns ?c) < fuel" using Suc.prems(3) runs by simp
        from scan_result_later[OF Suc.IH[OF ok Suc.prems(2) this], of "cursor_pos c"] show ?thesis
          using runs nm other False run unfolding pos by (simp add: Let_def)
      qed
    qed
  qed
qed simp

lemma scan_spec:
  "cursor_ok D c \<Longrightarrow> length D = 34816 \<Longrightarrow> scan_result f D (cursor_pos c) (scan stop f c)"
  unfolding scan_def by (rule scan_runs_spec) simp_all

end

interpretation start_scan: interval_scan Full "\<lambda>q. q"
  by unfold_locales (metis run_type.exhaust type_quad_def run_type.distinct)

interpretation end_scan: interval_scan Empty "\<lambda>q. NOT q"
  by unfold_locales (auto simp: type_quad_def FULL_QUAD_MASK_def)

section \<open>The intervals of a set\<close>

text \<open>\<open>for (auto range : *this)\<close>: the values the iterator yields up to \<open>end()\<close>. Each turn
  moves past a code point, so \<open>UNICODE_MAX + 2\<close> turns are enough.\<close>

fun collect :: "nat \<Rightarrow> iterator_error + interval_iterator \<Rightarrow> interval list" where
  "collect 0 r = []"
| "collect (Suc fuel) r = (case r of
      Inl e \<Rightarrow> []
    | Inr it \<Rightarrow> if at_end it then [] else (mMinCodePoint it, mMaxCodePoint it) # collect fuel (advance it))"

definition intervals :: "unicode_set \<Rightarrow> interval list" where
  "intervals s = collect (UNICODE_MAX + 2) (uset_begin s)"

definition uset_size :: "unicode_set \<Rightarrow> nat" where
  "uset_size s = length (intervals s)"

definition front :: "unicode_set \<Rightarrow> iterator_error + interval" where
  "front s = (case uset_begin s of Inl e \<Rightarrow> Inl e | Inr it \<Rightarrow> Inr (mMinCodePoint it, mMaxCodePoint it))"

fun back_loop :: "interval \<Rightarrow> interval list \<Rightarrow> interval" where
  "back_loop b [] = b"
| "back_loop b (i # rest) = back_loop i rest"

definition uset_back :: "unicode_set \<Rightarrow> iterator_error + interval" where
  "uset_back s = (case front s of Inl e \<Rightarrow> Inl e | Inr b \<Rightarrow> Inr (back_loop b (intervals s)))"

fun intersects_loop :: "codepoint \<Rightarrow> codepoint \<Rightarrow> interval list \<Rightarrow> bool" where
  "intersects_loop lo hi [] = False"
| "intersects_loop lo hi (ival # ivals) =
     (if snd ival < lo then intersects_loop lo hi ivals
      else if fst ival > hi then False
      else True)"

definition intersects_range :: "unicode_set \<Rightarrow> codepoint \<Rightarrow> codepoint \<Rightarrow> bool" where
  "intersects_range s lo hi = intersects_loop lo hi (intervals s)"

fun isolates_loop :: "interval list \<Rightarrow> unicode_set \<Rightarrow> insert_error + unicode_set" where
  "isolates_loop [] theIsolates = Inr theIsolates"
| "isolates_loop (ival # ivals) theIsolates =
     (if fst ival = snd ival then
        case insert_cp theIsolates (fst ival) of
          Inl e \<Rightarrow> Inl e
        | Inr t \<Rightarrow> isolates_loop ivals t
      else isolates_loop ivals theIsolates)"

definition isolates :: "unicode_set \<Rightarrow> insert_error + unicode_set" where
  "isolates s = isolates_loop (intervals s) UnicodeSet_empty"

subsection \<open>One step of the iterator\<close>

text \<open>An iterator that has not ended shows a maximal interval and stands where no member lies between
  the end of the interval and its position.\<close>

definition shows_interval :: "unicode_set \<Rightarrow> interval_iterator \<Rightarrow> bool" where
  "shows_interval s it \<longleftrightarrow> cursor_ok (dense s) (cursor.truncate it) \<and> (at_end it
     \<or> mMinCodePoint it \<le> mMaxCodePoint it \<and> mMaxCodePoint it \<le> UNICODE_MAX
       \<and> {mMinCodePoint it..mMaxCodePoint it} \<subseteq> codepoints s \<and> mMaxCodePoint it + 1 \<notin> codepoints s
       \<and> mMaxCodePoint it < cursor_pos (cursor.truncate it)
       \<and> (\<forall>x. mMaxCodePoint it < x \<and> x < cursor_pos (cursor.truncate it) \<longrightarrow> x \<notin> codepoints s))"

lemma holds_at_member:
  "holds_at (\<lambda>q. q) (dense s) x \<longleftrightarrow> x \<in> codepoints s"
  by (simp add: holds_at_def mem_codepoints)

lemma holds_at_nonmember:
  "uset_ok s \<Longrightarrow> holds_at (\<lambda>q. NOT q) (dense s) x \<longleftrightarrow> x \<le> 1114111 \<and> x \<notin> codepoints s"
  by (auto simp: holds_at_def quads_mem_map mem_codepoints_ok length_dense bit_not_iff)

lemma truncate_extend [simp]: "cursor.truncate (cursor.extend c r) = cursor.truncate c"
  by (simp add: cursor.truncate_def cursor.extend_def)

lemma truncate_cursor [simp]: "cursor.truncate c = c" for c :: cursor
  by (simp add: cursor.truncate_def)

lemma extend_selectors [simp]:
  "mMinCodePoint (cursor.extend c \<lparr>mMinCodePoint = a, mMaxCodePoint = b\<rparr>) = a"
  "mMaxCodePoint (cursor.extend c \<lparr>mMinCodePoint = a, mMaxCodePoint = b\<rparr>) = b"
  by (simp_all add: cursor.extend_def)

lemma advance_step:
  assumes ok: "uset_ok s" and cur: "cursor_ok (dense s) (cursor.truncate it)" and min: "mMinCodePoint it \<le> 1114111"
  defines "p \<equiv> cursor_pos (cursor.truncate it)"
  shows "\<exists>it'. advance it = Inr it' \<and> shows_interval s it'
    \<and> (if at_end it' then \<forall>x. p \<le> x \<longrightarrow> x \<notin> codepoints s
       else p \<le> mMinCodePoint it' \<and> (\<forall>x. p \<le> x \<and> x < mMinCodePoint it' \<longrightarrow> x \<notin> codepoints s))"
proof -
  note len = length_dense[OF ok]
  obtain c r where lo: "scan Full (\<lambda>q. q) (cursor.truncate it) = (c, r)" by fastforce
  note start = start_scan.scan_spec[OF cur len, unfolded lo scan_result_def holds_at_member, folded p_def]
  show ?thesis
  proof (cases r)
    case None
    with start lo min show ?thesis by (auto simp: advance_def shows_interval_def at_end_def)
  next
    case (Some a)
    obtain c' r' where hi: "scan Empty (\<lambda>q. NOT q) c = (c', r')" by fastforce
    have c: "cursor_ok (dense s) c" using start Some by simp
    note finish = end_scan.scan_spec[OF c len, unfolded hi scan_result_def holds_at_nonmember[OF ok]]
    have a: "p \<le> a" "\<forall>x. p \<le> x \<and> x < a \<longrightarrow> x \<notin> codepoints s" "a \<in> codepoints s" "a \<le> cursor_pos c"
      "\<forall>x. a \<le> x \<and> x < cursor_pos c \<longrightarrow> x \<in> codepoints s"
      using start Some by simp_all
    have a_max: "a \<le> 1114111" using codepoints_le_max[OF ok a(3)] by simp
    have fin: "at_end it' \<longleftrightarrow> False" if "mMinCodePoint it' = a" for it' using that a_max by (simp add: at_end_def)
    show ?thesis
    proof (cases r')
      case None
      have all: "x \<in> codepoints s" if "a \<le> x" "x \<le> 1114111" for x
        using finish None a(5) that by (cases "x < cursor_pos c") auto
      have "1114112 \<notin> codepoints s" using codepoints_le_max[OF ok] by fastforce
      with finish None all a a_max len lo hi min Some show ?thesis
        by (auto simp: advance_def shows_interval_def fin dest: codepoints_le_max[OF ok])
    next
      case (Some x)
      have x: "cursor_pos c \<le> x" "x \<le> 1114111" "x \<notin> codepoints s" "x \<le> cursor_pos c'"
        "\<forall>y. cursor_pos c \<le> y \<and> y < x \<longrightarrow> y \<in> codepoints s \<or> \<not> y \<le> 1114111"
        "\<forall>y. x \<le> y \<and> y < cursor_pos c' \<longrightarrow> y \<notin> codepoints s" "cursor_ok (dense s) c'"
        using finish Some by auto
      have ax: "a < x" using a(3,4) x(1,3) by (metis le_neq_implies_less le_trans)
      have "y \<in> codepoints s" if "a \<le> y" "y < x" for y
        using a(5) x(2,5) that by (cases "y < cursor_pos c") auto
      with a ax x lo hi min Some \<open>r = Some a\<close> show ?thesis
        by (auto simp: advance_def shows_interval_def fin)
    qed
  qed
qed

subsection \<open>All the intervals\<close>

text \<open>Ascending maximal intervals: a gap of at least one code point before the next one.\<close>

fun separated :: "codepoint \<Rightarrow> interval list \<Rightarrow> bool" where
  "separated b [] \<longleftrightarrow> True"
| "separated b ((lo, hi) # ivs) \<longleftrightarrow> b \<le> lo \<and> lo \<le> hi \<and> hi \<le> UNICODE_MAX \<and> separated (hi + 2) ivs"

lemma separated_weaken: "separated b ivs \<Longrightarrow> c \<le> b \<Longrightarrow> separated c ivs"
  by (cases ivs) auto

lemma intervals_from_mono: "intervals_from b ivs \<Longrightarrow> c \<le> b \<Longrightarrow> intervals_from c ivs"
  by (cases ivs) auto

lemma separated_from: "separated b ivs \<Longrightarrow> intervals_from b ivs"
  by (induction b ivs rule: separated.induct) (auto intro: intervals_from_mono)

lemma separated_lower: "separated b ivs \<Longrightarrow> x \<in> interval_members ivs \<Longrightarrow> b \<le> x"
  by (induction b ivs rule: separated.induct) auto

lemma collect_spec:
  assumes ok: "uset_ok s"
  shows "shows_interval s it \<Longrightarrow> \<forall>x. p \<le> x \<and> x < mMinCodePoint it \<longrightarrow> x \<notin> codepoints s \<Longrightarrow>
    p \<le> mMinCodePoint it \<Longrightarrow> 1114112 - mMinCodePoint it < fuel \<Longrightarrow>
    separated p (collect fuel (Inr it)) \<and> interval_members (collect fuel (Inr it)) = {x \<in> codepoints s. p \<le> x}"
proof (induction fuel arbitrary: it p)
  case (Suc fuel)
  let ?min = "mMinCodePoint it" and ?max = "mMaxCodePoint it" and ?pos = "cursor_pos (cursor.truncate it)"
  show ?case
  proof (cases "at_end it")
    case True
    have "x \<notin> codepoints s" if "p \<le> x" for x
      using Suc.prems(2) that True codepoints_le_max[OF ok, of x] by (auto simp: at_end_def)
    with True show ?thesis by auto
  next
    case False
    have it: "cursor_ok (dense s) (cursor.truncate it)" "?min \<le> ?max" "?max \<le> 1114111" "?max < ?pos"
      "?max + 1 \<notin> codepoints s"
      and inside: "{?min..?max} \<subseteq> codepoints s" "\<forall>x. ?max < x \<and> x < ?pos \<longrightarrow> x \<notin> codepoints s"
      using Suc.prems(1) False by (auto simp: shows_interval_def)
    have "?min \<le> 1114111" using it(2,3) by simp
    from advance_step[OF ok it(1) this] obtain it' where adv: "advance it = Inr it'" "shows_interval s it'"
      and next_it: "if at_end it' then \<forall>x. ?pos \<le> x \<longrightarrow> x \<notin> codepoints s
       else ?pos \<le> mMinCodePoint it' \<and> (\<forall>x. ?pos \<le> x \<and> x < mMinCodePoint it' \<longrightarrow> x \<notin> codepoints s)"
      by blast
    have gap: "x \<notin> codepoints s" if "?max < x" "x < mMinCodePoint it'" for x
      using that inside(2) next_it by (cases "x < ?pos") (auto split: if_splits)
    have less: "?max < mMinCodePoint it'"
      using next_it it(3,4) by (auto simp: at_end_def split: if_splits)
    have "x \<in> codepoints s \<and> p \<le> x \<longleftrightarrow> x \<in> {?min..?max} \<or> x \<in> codepoints s \<and> mMinCodePoint it' \<le> x" for x
      using Suc.prems(2,3) inside(1) gap[of x] it(2) less
      by (cases "x < ?min"; cases "x \<le> ?max"; cases "x < mMinCodePoint it'") auto
    then have here: "{x \<in> codepoints s. p \<le> x} = {?min..?max} \<union> {x \<in> codepoints s. mMinCodePoint it' \<le> x}"
      by blast
    show ?thesis
    proof (cases "at_end it'")
      case True
      then have "collect fuel (Inr it') = []" by (cases fuel) auto
      moreover have none: "{x \<in> codepoints s. mMinCodePoint it' \<le> x} = {}"
      proof -
        have "x \<notin> codepoints s" if "mMinCodePoint it' \<le> x" for x
          using True that codepoints_le_max[OF ok, of x] by (auto simp: at_end_def)
        then show ?thesis by blast
      qed
      ultimately show ?thesis using False adv(1) it Suc.prems(3) here[unfolded none] by simp
    next
      case more: False
      then have "mMinCodePoint it' \<in> codepoints s" "?max < mMinCodePoint it'"
        using adv(2) next_it it(4) by (auto simp: shows_interval_def)
      with it(5) have two: "?max + 2 \<le> mMinCodePoint it'"
        by (metis Suc_eq_plus1 Suc_leI add_2_eq_Suc' le_neq_implies_less)
      then have "1114112 - mMinCodePoint it' < fuel" "?max + 2 \<le> mMinCodePoint it'"
        using Suc.prems(4) it(2,3) by linarith+
      from Suc.IH[OF adv(2) _ this(2,1)] gap
      have IH: "separated (?max + 2) (collect fuel (Inr it'))"
        "interval_members (collect fuel (Inr it')) = {x \<in> codepoints s. ?max + 2 \<le> x}"
        by auto
      have "x \<in> codepoints s \<and> ?max + 2 \<le> x \<longleftrightarrow> x \<in> codepoints s \<and> mMinCodePoint it' \<le> x" for x
        using gap[of x] two by (cases "x < mMinCodePoint it'") auto
      then have "{x \<in> codepoints s. ?max + 2 \<le> x} = {x \<in> codepoints s. mMinCodePoint it' \<le> x}"
        by blast
      with IH False adv(1) it Suc.prems(3) here show ?thesis by simp
    qed
  qed
qed simp

lemma intervals_spec:
  assumes ok: "uset_ok s"
  shows "separated 0 (intervals s)" "interval_members (intervals s) = codepoints s"
proof -
  let ?it = "initial_iterator s 0"
  have cur: "cursor_ok (dense s) (cursor.truncate ?it)" "cursor_pos (cursor.truncate ?it) = 0"
  proof -
    from uset_okD[OF ok] obtain t n rs where runs: "mRuns s = (t, n) # rs" by (cases "mRuns s") auto
    then have "cur_quads (cursor.truncate ?it) = dense s"
      by (simp add: cur_quads_def initial_iterator_def cursor.truncate_def dense_def)
    with uset_okD(1)[OF ok] show "cursor_ok (dense s) (cursor.truncate ?it)"
      by (simp add: cursor_ok_def initial_iterator_def cursor.truncate_def runs tail_ok_runs)
    show "cursor_pos (cursor.truncate ?it) = 0"
      by (simp add: cursor_pos_def initial_iterator_def cursor.truncate_def)
  qed
  have "mMinCodePoint ?it \<le> 1114111" by (simp add: initial_iterator_def)
  from advance_step[OF ok cur(1) this, unfolded cur(2)] obtain it' where
    adv: "uset_begin s = Inr it'" "shows_interval s it'"
    and first: "\<forall>x. x < mMinCodePoint it' \<longrightarrow> x \<notin> codepoints s"
    unfolding uset_begin_def using codepoints_le_max[OF ok] by (fastforce simp: at_end_def split: if_splits)
  have "separated 0 (intervals s) \<and> interval_members (intervals s) = {x \<in> codepoints s. 0 \<le> x}"
    unfolding intervals_def adv(1) using first by (intro collect_spec[OF ok adv(2)]) simp_all
  then show "separated 0 (intervals s)" "interval_members (intervals s) = codepoints s"
    by simp_all
qed

lemma begin_intervals:
  assumes "uset_ok s"
  shows "\<exists>it. uset_begin s = Inr it \<and> (codepoints s \<noteq> {} \<longrightarrow> intervals s \<noteq> [] \<and>
    (mMinCodePoint it, mMaxCodePoint it) = hd (intervals s))"
proof -
  have "uset_begin s \<noteq> Inl e" for e by (simp add: uset_begin_def advance_def initial_iterator_def)
  then obtain it where it: "uset_begin s = Inr it" by (cases "uset_begin s") auto
  have "intervals s = (if at_end it then []
      else (mMinCodePoint it, mMaxCodePoint it) # collect (Suc UNICODE_MAX) (advance it))"
    by (simp only: intervals_def add_2_eq_Suc' it collect.simps(2) sum.case)
  with intervals_spec(2)[OF assms] it show ?thesis by (cases "at_end it") auto
qed

section \<open>The operations that iterate\<close>

lemma front_spec:
  assumes "uset_ok s" "codepoints s \<noteq> {}"
  shows "front s = Inr (hd (intervals s))" "fst (hd (intervals s)) = Min (codepoints s)"
proof -
  show "front s = Inr (hd (intervals s))"
    using begin_intervals[OF assms(1)] assms(2) by (auto simp: front_def)
  obtain lo hi ivs where ivs: "intervals s = (lo, hi) # ivs"
    using intervals_spec(2)[OF assms(1)] assms(2) by (cases "intervals s") auto
  have sep: "lo \<le> hi" "separated (hi + 2) ivs" using intervals_spec(1)[OF assms(1)] ivs by auto
  have mem: "codepoints s = {lo..hi} \<union> interval_members ivs" using intervals_spec(2)[OF assms(1)] ivs by simp
  show "fst (hd (intervals s)) = Min (codepoints s)"
    using sep mem finite_codepoints[of s] separated_lower[OF sep(2)]
    by (intro Min_eqI[symmetric]) (fastforce simp: ivs)+
qed

lemma back_loop_last: "back_loop b ivs = last (b # ivs)"
  by (induction b ivs rule: back_loop.induct) auto

lemma last_interval:
  "separated b ivs \<Longrightarrow> ivs \<noteq> [] \<Longrightarrow> snd (last ivs) \<in> interval_members ivs
     \<and> (\<forall>x \<in> interval_members ivs. x \<le> snd (last ivs))"
proof (induction b ivs rule: separated.induct)
  case (2 b lo hi ivs)
  show ?case
  proof (cases "ivs = []")
    case False
    with 2 have IH: "snd (last ivs) \<in> interval_members ivs" "\<forall>x\<in>interval_members ivs. x \<le> snd (last ivs)" by auto
    moreover have "hi + 2 \<le> snd (last ivs)" using separated_lower[of "hi + 2" ivs "snd (last ivs)"] IH(1) 2 by simp
    ultimately show ?thesis using False by auto
  qed (use 2 in auto)
qed simp

lemma uset_back_spec:
  assumes "uset_ok s" "codepoints s \<noteq> {}"
  shows "uset_back s = Inr (last (intervals s))" "snd (last (intervals s)) = Max (codepoints s)"
proof -
  have ne: "intervals s \<noteq> []" using intervals_spec(2)[OF assms(1)] assms(2) by auto
  then show "uset_back s = Inr (last (intervals s))"
    using front_spec(1)[OF assms] by (simp add: uset_back_def back_loop_last)
  show "snd (last (intervals s)) = Max (codepoints s)"
    using last_interval[OF intervals_spec(1)[OF assms(1)] ne] finite_codepoints[of s]
    unfolding intervals_spec(2)[OF assms(1)] by (intro Max_eqI[symmetric]) auto
qed

lemma intersects_loop_iff:
  "separated b ivs \<Longrightarrow> lo \<le> hi \<Longrightarrow> intersects_loop lo hi ivs \<longleftrightarrow> (\<exists>x \<in> interval_members ivs. lo \<le> x \<and> x \<le> hi)"
proof (induction b ivs rule: separated.induct)
  case (2 b a c ivs)
  have later: "\<forall>x \<in> interval_members ivs. c + 2 \<le> x" using 2(2) separated_lower by auto
  show ?case
  proof (cases "c < lo \<or> hi < a")
    case True
    with 2 later show ?thesis by fastforce
  next
    case False
    then have "\<exists>x \<in> interval_members ((a, c) # ivs). lo \<le> x \<and> x \<le> hi"
      using 2 by (intro bexI[of _ "max a lo"]) auto
    with False show ?thesis by simp
  qed
qed simp

lemma intersects_range_iff [uset_simps]:
  "uset_ok s \<Longrightarrow> lo \<le> hi \<Longrightarrow> intersects_range s lo hi \<longleftrightarrow> codepoints s \<inter> {lo..hi} \<noteq> {}"
  using intersects_loop_iff[OF intervals_spec(1), of s lo hi] intervals_spec(2)[of s]
  by (auto simp: intersects_range_def)

lemma isolates_loop_spec:
  "separated b ivs \<Longrightarrow> uset_ok t \<Longrightarrow> owned t \<Longrightarrow> \<exists>t'. isolates_loop ivs t = Inr t' \<and> uset_ok t'
     \<and> codepoints t' = codepoints t \<union> {x. (x, x) \<in> set ivs}"
proof (induction b ivs arbitrary: t rule: separated.induct)
  case (2 b lo hi ivs)
  show ?case
  proof (cases "lo = hi")
    case True
    with "2.prems" have "lo \<le> 1114111" by simp
    from insert_cp_spec[OF "2.prems"(2,3) this] obtain t1 where
      t1: "insert_cp t lo = Inr t1" "uset_ok t1" "owned t1" "codepoints t1 = insert lo (codepoints t)" .
    from 2 have "separated (hi + 2) ivs" by simp
    from "2.IH"[OF this t1(2,3)] t1 True show ?thesis by auto
  next
    case False
    then have "{x. (x, x) \<in> set ((lo, hi) # ivs)} = {x. (x, x) \<in> set ivs}" by auto
    with 2 False show ?thesis by simp
  qed
qed simp

lemma separated_single:
  "separated b ivs \<Longrightarrow> (x, x) \<in> set ivs \<longleftrightarrow>
     x \<in> interval_members ivs \<and> x + 1 \<notin> interval_members ivs \<and> (x = 0 \<or> x - 1 \<notin> interval_members ivs)"
proof (induction b ivs rule: separated.induct)
  case (2 b lo hi ivs)
  then have sep: "separated (hi + 2) ivs" "lo \<le> hi" by auto
  have later: "y \<in> interval_members ivs \<Longrightarrow> hi + 2 \<le> y" for y using separated_lower[OF sep(1)] .
  have later': "(x, x) \<in> set ivs \<Longrightarrow> hi + 2 \<le> x"
    using later[of x] by (force simp: interval_members_def)
  show ?case
  proof (cases "x \<le> hi + 1")
    case True
    then have "x \<notin> interval_members ivs" "x - 1 \<notin> interval_members ivs" "(x, x) \<notin> set ivs"
      using later later' by fastforce+
    moreover have "x \<le> hi \<Longrightarrow> x + 1 \<notin> interval_members ivs" using later by fastforce
    ultimately show ?thesis using sep(2) True by auto
  next
    case False
    with 2(1)[OF sep(1)] sep(2) show ?thesis by auto
  qed
qed simp

lemma isolates_spec:
  assumes "uset_ok s"
  shows "\<exists>t. isolates s = Inr t \<and> uset_ok t
    \<and> codepoints t = {x \<in> codepoints s. x + 1 \<notin> codepoints s \<and> (x = 0 \<or> x - 1 \<notin> codepoints s)}"
  using isolates_loop_spec[OF intervals_spec(1)[OF assms] canonical_uset_ok[OF UnicodeSet_empty_spec(1)]]
    separated_single[OF intervals_spec(1)[OF assms]]
  by (auto simp: isolates_def UnicodeSet_empty_spec(2) intervals_spec(2)[OF assms])

lemma intervals_roundtrip:
  assumes "uset_ok s"
  shows "canonical (UnicodeSet_intervals (intervals s))"
    "codepoints (UnicodeSet_intervals (intervals s)) = codepoints s"
  using UnicodeSet_intervals_spec[OF separated_from[OF intervals_spec(1)[OF assms]]] intervals_spec(2)[OF assms]
  by simp_all

end
