(* ===== verification/USet_Props.thy ===== *)
theory USet_Props imports USet_Intervals begin

text \<open>
  The properties of the Unicode sets of \<open>lib/ucd/core/unicode_set.cpp\<close>, over the
  abstraction \<open>codepoints\<close> of a set to its members. \<open>uset_ok\<close> is the sanity check
  \<open>verify\<close> of the code, \<open>canonical\<close> adds that no two neighbouring runs have the same
  type, and \<open>owned\<close> says that a set owns its arrays.
\<close>

text \<open>C1: the four binary operators compute intersection, union, difference and symmetric difference of
  the member sets, and their results pass the sanity check in canonical form.\<close>

theorem uset_binary_operators:
  assumes "uset_ok s" "uset_ok t"
  shows "codepoints (operator_and s t) = codepoints s \<inter> codepoints t \<and> canonical (operator_and s t)
    \<and> codepoints (operator_plus s t) = codepoints s \<union> codepoints t \<and> canonical (operator_plus s t)
    \<and> codepoints (operator_minus s t) = codepoints s - codepoints t \<and> canonical (operator_minus s t)
    \<and> codepoints (operator_xor s t) = (codepoints s - codepoints t) \<union> (codepoints t - codepoints s)
    \<and> canonical (operator_xor s t)"
  using assms by (simp add: uset_simps uset_intros)

theorem uset_binary_operators_witness:
  "codepoints (operator_minus (UnicodeSet_range 32 126) (UnicodeSet_range 65 90)) = {32..126} - {65..90}"
  using uset_binary_operators[of "UnicodeSet_range 32 126" "UnicodeSet_range 65 90"]
  by (simp add: UnicodeSet_range_spec)

text \<open>C2: the complement and its in-place variant hold the code points that are not members, and keep
  the representation valid and canonical.\<close>

theorem uset_complement:
  assumes "uset_ok s"
  shows "codepoints (operator_not s) = {..UNICODE_MAX} - codepoints s \<and> uset_ok (operator_not s)
    \<and> codepoints (invert s) = {..UNICODE_MAX} - codepoints s \<and> uset_ok (invert s)
    \<and> (canonical s \<longrightarrow> canonical (operator_not s) \<and> canonical (invert s))"
  using assms by (simp add: uset_simps uset_intros invert_same)

theorem uset_complement_witness:
  "codepoints (operator_not UnicodeSet_empty) = {..UNICODE_MAX}"
  using uset_complement[OF canonical_uset_ok[OF UnicodeSet_empty_spec(1)]] UnicodeSet_empty_spec(2) by simp

text \<open>C3: on canonical sets the structural equality of the code decides equality of the member sets,
  and \<open>empty\<close> and \<open>full\<close>, which look at the first run only, decide emptiness and fullness.\<close>

theorem uset_equality_extensional:
  assumes "canonical s" "canonical t"
  shows "operator_eq s t = (codepoints s = codepoints t)
    \<and> is_empty s = (codepoints s = {}) \<and> is_full s = (codepoints s = {..UNICODE_MAX})"
  using assms by (simp add: uset_simps)

theorem uset_equality_extensional_witness:
  "\<not> operator_eq (UnicodeSet_singleton 65) UnicodeSet_empty \<and> is_empty UnicodeSet_empty"
  using uset_equality_extensional[of UnicodeSet_empty UnicodeSet_empty]
    uset_equality_extensional[of "UnicodeSet_singleton 65" UnicodeSet_empty]
  by (simp add: UnicodeSet_empty_spec UnicodeSet_singleton_spec)

text \<open>C4: the order that containers of sets use is a strict linear order whose ties are exactly the
  structurally equal sets.\<close>

theorem uset_order_strict_linear:
  "\<not> operator_less s s
   \<and> (\<not> operator_less s t \<or> \<not> operator_less t u \<or> operator_less s u)
   \<and> (operator_eq s t \<noteq> (operator_less s t \<or> operator_less t s))
   \<and> \<not> (operator_less s t \<and> operator_less t s)"
  using operator_less_trans operator_less_total operator_less_not_eq operator_eq_iff operator_less_trans[of s t s]
  by (metis (full_types))

theorem uset_order_strict_linear_witness:
  "\<not> operator_less UnicodeSet_empty UnicodeSet_empty"
  using uset_order_strict_linear[of UnicodeSet_empty UnicodeSet_empty UnicodeSet_empty] by blast



text \<open>C6: inserting a code point into a set that owns its arrays succeeds exactly for code points up to
  the maximum, adds that code point only, and leaves a valid set that owns its arrays.\<close>

theorem uset_insert_codepoint:
  assumes "uset_ok s" "owned s"
  shows "if cp \<le> UNICODE_MAX
    then (case insert_cp s cp of
            Inr s' \<Rightarrow> codepoints s' = insert cp (codepoints s) \<and> uset_ok s' \<and> owned s'
          | Inl e \<Rightarrow> False)
    else insert_cp s cp = Inl (ExceedsMaximum cp)"
proof (cases "cp \<le> 1114111")
  case True
  obtain s' where "insert_cp s cp = Inr s'" "uset_ok s'" "owned s'" "codepoints s' = insert cp (codepoints s)"
    by (rule insert_cp_spec[OF assms True])
  then show ?thesis using True by simp
qed (simp add: insert_cp_def)

theorem uset_insert_codepoint_witness:
  "case insert_cp UnicodeSet_empty 955 of Inr s' \<Rightarrow> codepoints s' = {955} | Inl e \<Rightarrow> False"
  using uset_insert_codepoint[of UnicodeSet_empty 955]
  by (simp add: UnicodeSet_empty_spec canonical_uset_ok split: sum.splits)



lemma uset_insert_range_defect:
  "contains (UnicodeSet_singleton 63) 63
   \<and> (case insert_range (UnicodeSet_singleton 63) 5 40 of
        Inr s' \<Rightarrow> uset_ok s' \<and> \<not> contains s' 63
      | Inl e \<Rightarrow> False)"
  using insert_range_loses_member UnicodeSet_singleton_spec[of 63]
  by (auto simp: contains_iff canonical_uset_ok split: sum.splits)

lemma uset_insert_borrowed_defect:
  "insert_cp (UnicodeSet_predefined [(Mixed, 2), (Empty, 34814)] [1, 1]) 33 = Inl InvalidMemory
   \<and> (case insert_cp (UnicodeSet_predefined [(Full, 1), (Empty, 1), (Full, 34814)] []) 33 of
        Inr s' \<Rightarrow> uset_ok (UnicodeSet_predefined [(Full, 1), (Empty, 1), (Full, 34814)] []) \<and> \<not> uset_ok s'
      | Inl e \<Rightarrow> False)"
proof -
  let ?s = "UnicodeSet_predefined [(Mixed, 2), (Empty, 34814)] [1, 1]"
  let ?t = "UnicodeSet_predefined [(Full, 1), (Empty, 1), (Full, 34814)] []"
  have "located ?s 33 [] Mixed 2 [(Empty, 34814)] 1 [] [1, 1]"
    by (simp add: located_def UnicodeSet_predefined_def runs_ok_def FULL_QUAD_MASK_def)
  then have "insert_cp ?s 33 = Inl InvalidMemory"
    by (rule insert_cp_borrowed_quads) (simp_all add: UnicodeSet_predefined_def)
  moreover have "located ?t 33 [(Full, 1)] Empty 1 [(Full, 34814)] 0 [] []"
    by (simp add: located_def UnicodeSet_predefined_def runs_ok_def)
  moreover have "uset_ok ?t"
    by (simp add: UnicodeSet_predefined_def uset_ok_def verify_iff runs_ok_def)
  ultimately show ?thesis
    using insert_cp_borrowed_runs[of ?t 33 "[(Full, 1)]" "[(Full, 34814)]" 0 "[]" "[]"]
    by (auto simp: UnicodeSet_predefined_def)
qed

lemma uset_range_equality_defect:
  "codepoints (UnicodeSet_range 5 40) = codepoints (operator_plus (UnicodeSet_range 5 31) (UnicodeSet_range 32 40))
   \<and> \<not> operator_eq (UnicodeSet_range 5 40) (operator_plus (UnicodeSet_range 5 31) (UnicodeSet_range 32 40))"
proof -
  let ?t = "operator_plus (UnicodeSet_range 5 31) (UnicodeSet_range 32 40)"
  have ok: "uset_ok (UnicodeSet_range 5 31)" "uset_ok (UnicodeSet_range 32 40)"
    by (simp_all add: UnicodeSet_range_spec)
  have "\<not> canonical_runs (mRuns (UnicodeSet_range 5 40))"
    using UnicodeSet_range_arrays(3)[of 5 40] by simp
  moreover have "canonical_runs (mRuns ?t)"
    using canonical_binary(2)[OF ok] by (simp add: canonical_def)
  ultimately have "\<not> operator_eq (UnicodeSet_range 5 40) ?t"
    unfolding operator_eq_iff by metis
  moreover have "codepoints ?t = {5..31} \<union> {32..40}"
    by (simp add: codepoints_plus[OF ok] UnicodeSet_range_spec)
  moreover have "x \<in> {5..31} \<union> {32..40} \<longleftrightarrow> x \<in> {5..40}" for x :: nat
    by (simp only: Un_iff atLeastAtMost_iff) linarith
  then have "{5..31} \<union> {32..40} = {5..40::nat}" by blast
  moreover have "codepoints (UnicodeSet_range 5 40) = {5..40}" by (simp add: UnicodeSet_range_spec)
  ultimately show ?thesis by (simp only: simp_thms)
qed

text \<open>C8: the set operations where they miss their aim. A range whose last quad mixes members and
  non-members loses members: after inserting \<open>5-40\<close> into \<open>{63}\<close> the set is valid but does
  not contain 63 any more. Inserting into a set that borrows its arrays makes the copy leave its buffer
  (borrowed quads) or breaks the sanity check (borrowed runs). The range constructor can build two
  neighbouring Mixed runs, so that the structural equality tells apart sets with the same members.\<close>

theorem uset_defects:
  "(case insert_range (UnicodeSet_singleton 63) 5 40 of
      Inr s' \<Rightarrow> contains (UnicodeSet_singleton 63) 63 \<and> uset_ok s' \<and> \<not> contains s' 63
    | Inl e \<Rightarrow> False)
   \<and> insert_cp (UnicodeSet_predefined [(Mixed, 2), (Empty, 34814)] [1, 1]) 33 = Inl InvalidMemory
   \<and> (case insert_cp (UnicodeSet_predefined [(Full, 1), (Empty, 1), (Full, 34814)] []) 33 of
        Inr s' \<Rightarrow> uset_ok (UnicodeSet_predefined [(Full, 1), (Empty, 1), (Full, 34814)] []) \<and> \<not> uset_ok s'
      | Inl e \<Rightarrow> False)
   \<and> codepoints (UnicodeSet_range 5 40) = codepoints (operator_plus (UnicodeSet_range 5 31) (UnicodeSet_range 32 40))
   \<and> \<not> operator_eq (UnicodeSet_range 5 40) (operator_plus (UnicodeSet_range 5 31) (UnicodeSet_range 32 40))"
  using uset_insert_range_defect uset_insert_borrowed_defect uset_range_equality_defect
  by (auto split: sum.splits)



text \<open>C10: the queries: membership, the quad around a code point, the number of members, the k-th
  member in ascending order or the error that names the size of the set, and the early-exit loops of
  the intersection and subset tests.\<close>

theorem uset_queries:
  assumes "uset_ok s" "uset_ok t"
  shows "contains s cp = (cp \<in> codepoints s)
    \<and> (\<forall>n. bit (bitquad_at s cp) n = (n < 32 \<and> cp div 32 * 32 + n \<in> codepoints s))
    \<and> count s = card (codepoints s)
    \<and> uset_at s k = (if k < card (codepoints s) then Inr (sorted_list_of_set (codepoints s) ! k)
        else Inl (NoSuchCodepoint k (card (codepoints s))))
    \<and> intersects s t = (codepoints s \<inter> codepoints t \<noteq> {}) \<and> subset s t = (codepoints s \<subseteq> codepoints t)"
proof -
  have "bit (bitquad_at s cp) n = (n < 32 \<and> cp div 32 * 32 + n \<in> codepoints s)" for n
    using bit_bitquad_at[OF assms(1), of n cp] bit_imp_le_length[of "bitquad_at s cp" n] by auto
  then show ?thesis using assms by (simp add: uset_simps at_value)
qed

theorem uset_queries_witness:
  "contains (UnicodeSet_range 48 57) 50 \<and> count (UnicodeSet_range 48 57) = 10
   \<and> uset_at (UnicodeSet_range 48 57) 20 = Inl (NoSuchCodepoint 20 10)
   \<and> subset (UnicodeSet_range 48 57) (UnicodeSet_range 40 90)"
  using uset_queries[of "UnicodeSet_range 48 57" "UnicodeSet_range 40 90" 50 20] by (simp add: UnicodeSet_range_spec)



text \<open>C12: the operations defined by iteration: the first and last interval start and end at the least
  and greatest member, the interval test decides whether a member lies in the interval, and the
  isolates are the members without a neighbour in the set.\<close>

theorem uset_iterating_operations:
  assumes "uset_ok s" "codepoints s \<noteq> {}" "lo \<le> hi"
  shows "(\<exists>a. front s = Inr (Min (codepoints s), a)) \<and> (\<exists>a. uset_back s = Inr (a, Max (codepoints s)))
    \<and> intersects_range s lo hi = (codepoints s \<inter> {lo..hi} \<noteq> {})
    \<and> (\<exists>t. isolates s = Inr t \<and> uset_ok t
         \<and> codepoints t = {x \<in> codepoints s. x + 1 \<notin> codepoints s \<and> (x = 0 \<or> x - 1 \<notin> codepoints s)})"
  using front_spec[OF assms(1,2)] uset_back_spec[OF assms(1,2)] isolates_spec[OF assms(1)]
    intersects_range_iff[OF assms(1,3)]
  by (metis prod.collapse)

theorem uset_iterating_operations_witness:
  "intersects_range (UnicodeSet_range 100 300) 250 400 \<and> (\<exists>a. front (UnicodeSet_range 100 300) = Inr (100, a))"
proof -
  have "Min {100..300::nat} = 100" by (rule Min_eqI) auto
  then show ?thesis
    using uset_iterating_operations[of "UnicodeSet_range 100 300" 250 400] by (simp add: UnicodeSet_range_spec)
qed

end
