(* ===== verification/UTF.thy ===== *)
theory UTF imports Prelude begin

text \<open>
  The encoder of \<open>lib/ucd/utf/utf_encoder.cpp\<close> for UTF-8, UTF-16 and UTF-32. The number of
  bits of a code unit, a member of the class, is the first argument of every operation. Code points
  and code units are natural numbers; the shifts and masks of the code are those of the bit
  operations on \<^typ>\<open>nat\<close>.
\<close>

section \<open>The encoder\<close>

definition encoded_length :: "nat \<Rightarrow> codepoint \<Rightarrow> nat" where
  "encoded_length bits cp =
     (if bits = 8 then
        if cp \<le> 0x7F then 1
        else if cp \<le> 0x7FF then 2
        else if cp \<le> 0xFFFF then 3
        else 4
      else if bits = 16 then
        if cp \<le> 0xFFFF then 1
        else 2
      else 1)"

fun encoded_length_string :: "nat \<Rightarrow> codepoint list \<Rightarrow> nat" where
  "encoded_length_string bits [] = 0"
| "encoded_length_string bits (cp # s) = encoded_length bits cp + encoded_length_string bits s"

definition max_codepoint_of_length :: "nat \<Rightarrow> nat \<Rightarrow> codepoint" where
  "max_codepoint_of_length bits len =
     (if bits = 8 then
        if len = 1 then 0x7F
        else if len = 2 then 0x7FF
        else if len = 3 then 0xFFFF
        else 0x10FFFF
      else if bits = 16 then
        if len = 1 then 0xFFFF
        else 0x10FFFF
      else 0x10FFFF)"

definition nthCodeUnit :: "nat \<Rightarrow> codepoint \<Rightarrow> nat \<Rightarrow> nat" where
  "nthCodeUnit bits cp n =
     (let len = encoded_length bits cp in
      if bits = 8 then
        if n = 1 then
          if len = 1 then cp
          else if len = 2 then 0xC0 OR drop_bit 6 cp
          else if len = 3 then 0xE0 OR drop_bit 12 cp
          else 0xF0 OR drop_bit 18 cp
        else 0x80 OR (drop_bit (6 * (len - n)) cp AND 0x3F)
      else if bits = 16 then
        if len = 1 then cp
        else if n = 1 then 0xD800 OR drop_bit 10 (cp - 0x10000)
        else 0xDC00 OR ((cp - 0x10000) AND 0x3FF)
      else cp)"

definition isLowCodePointAfterNthCodeUnit :: "nat \<Rightarrow> codepoint \<Rightarrow> nat \<Rightarrow> bool" where
  "isLowCodePointAfterNthCodeUnit bits cp n =
     (if cp = 0 then True
      else if encoded_length bits (cp - 1) < encoded_length bits cp then True
      else nthCodeUnit bits (cp - 1) n \<noteq> nthCodeUnit bits cp n)"

definition isHighCodePointAfterNthCodeUnit :: "nat \<Rightarrow> codepoint \<Rightarrow> nat \<Rightarrow> bool" where
  "isHighCodePointAfterNthCodeUnit bits cp n =
     (if cp = 0x10FFFF then True
      else if encoded_length bits (cp + 1) > encoded_length bits cp then True
      else nthCodeUnit bits (cp + 1) n \<noteq> nthCodeUnit bits cp n)"

text \<open>\<open>cp &~ mask\<close>, which has no counterpart on \<^typ>\<open>nat\<close>.\<close>

definition and_not :: "nat \<Rightarrow> nat \<Rightarrow> nat" where
  "and_not a b = a - (a AND b)"

definition minCodePointWithCommonCodeUnits :: "nat \<Rightarrow> codepoint \<Rightarrow> nat \<Rightarrow> codepoint" where
  "minCodePointWithCommonCodeUnits bits cp common =
     (let len = encoded_length bits cp in
      if len = 1 then 0
      else if bits = 8 then
        let m = push_bit ((len - common) * 6) 1 - 1; lo_cp = and_not cp m
        in max lo_cp (max_codepoint_of_length bits (len - 1) + 1)
      else if bits = 16 then
        if len = 1 then 0
        else if common = 1 then cp AND 0x1FFC00
        else cp
      else 0)"

definition maxCodePointWithCommonCodeUnits :: "nat \<Rightarrow> codepoint \<Rightarrow> nat \<Rightarrow> codepoint" where
  "maxCodePointWithCommonCodeUnits bits cp common =
     (let len = encoded_length bits cp in
      if bits = 8 then
        if len = 1 then 0x7F
        else
          let m = push_bit ((len - common) * 6) 1 - 1
          in min (cp OR m) (max_codepoint_of_length bits len)
      else if bits = 16 then
        if len = 1 then 0xFFFF
        else if common = 1 then 0x10FFFF
        else cp
      else 0x10FFFF)"

definition minCodePointWithPrefix :: "nat \<Rightarrow> nat \<Rightarrow> codepoint" where
  "minCodePointWithPrefix bits pfx =
     (if bits = 8 then
        if pfx \<le> 0xDF then max (push_bit 6 (pfx AND 0x1F)) 0x80
        else if pfx \<le> 0xEF then max (push_bit 12 (pfx AND 0x0F)) 0x800
        else max (push_bit 18 (pfx AND 0x07)) 0x10000
      else if bits = 16 then
        if pfx AND 0xD8 = 0xD8 then 0x10000 else 0
      else 0)"

definition maxCodePointWithPrefix :: "nat \<Rightarrow> nat \<Rightarrow> codepoint" where
  "maxCodePointWithPrefix bits pfx =
     (if bits = 8 then
        if pfx \<le> 0xDF then minCodePointWithPrefix bits pfx OR 0x3F
        else if pfx \<le> 0xEF then minCodePointWithPrefix bits pfx OR 0xFFF
        else min (minCodePointWithPrefix bits pfx OR 0x3FFFF) 0x10FFFF
      else if bits = 16 then
        if pfx AND 0xD8 = 0xD8 then 0x10FFFF else 0xFFFF
      else 0x10FFFF)"

text \<open>The loop of \<open>common_code_units\<close> runs while the units agree; \<open>None\<close> is running on
  after the given number of turns.\<close>

fun common_units_loop :: "nat \<Rightarrow> nat \<Rightarrow> codepoint \<Rightarrow> codepoint \<Rightarrow> nat \<Rightarrow> nat option" where
  "common_units_loop 0 bits cp1 cp2 common = None"
| "common_units_loop (Suc fuel) bits cp1 cp2 common =
     (if nthCodeUnit bits cp1 (common + 1) = nthCodeUnit bits cp2 (common + 1)
      then common_units_loop fuel bits cp1 cp2 (common + 1)
      else Some common)"

definition common_code_units :: "nat \<Rightarrow> codepoint \<Rightarrow> codepoint \<Rightarrow> nat option" where
  "common_code_units bits cp1 cp2 =
     (if cp1 = cp2 then Some (encoded_length bits cp1) else common_units_loop 4 bits cp1 cp2 0)"

text \<open>The code units of a code point, and of a string, in order.\<close>

definition encode :: "nat \<Rightarrow> codepoint \<Rightarrow> nat list" where
  "encode bits cp = map (nthCodeUnit bits cp) [1..<encoded_length bits cp + 1]"

section \<open>The bit operations as arithmetic\<close>

lemma or_shifted:
  fixes x c :: nat
  assumes "x < 2 ^ k"
  shows "(c * 2 ^ k) OR x = c * 2 ^ k + x"
proof -
  have "\<not> bit (c * 2 ^ k) n \<or> \<not> bit x n" for n
  proof (cases "n < k")
    case True
    then show ?thesis by (simp add: bit_push_bit_iff flip: push_bit_eq_mult)
  next
    case False
    have "x = take_bit k x" using assms by (simp add: take_bit_eq_mod)
    then have "\<not> bit x n" using False by (metis bit_take_bit_iff)
    then show ?thesis ..
  qed
  then show ?thesis by (rule disjunctive_add[symmetric])
qed

lemma or_lead:
  "x < 0x20 \<Longrightarrow> 0xC0 OR x = 0xC0 + x" "x < 0x10 \<Longrightarrow> 0xE0 OR x = 0xE0 + x"
  "x < 0x08 \<Longrightarrow> 0xF0 OR x = 0xF0 + x" "x < 0x40 \<Longrightarrow> 0x80 OR x = 0x80 + x"
  "x < 0x400 \<Longrightarrow> 0xD800 OR x = 0xD800 + x" "x < 0x400 \<Longrightarrow> 0xDC00 OR x = 0xDC00 + x" for x :: nat
  using or_shifted[of x 5 6] or_shifted[of x 4 14] or_shifted[of x 3 30] or_shifted[of x 6 2]
    or_shifted[of x 10 54] or_shifted[of x 10 55]
  by simp_all

lemma and_low_mask: "x AND (2 ^ k - 1) = x mod 2 ^ k" for x :: nat
  by (metis mask_eq_exp_minus_1 take_bit_eq_mask take_bit_eq_mod)

lemma and_low [simp]: "x AND 0x3F = x mod 0x40" "x AND 0x3FF = x mod 0x400" "x AND 0x1F = x mod 0x20"
  "x AND 0xF = x mod 0x10" "x AND 0x7 = x mod 8" for x :: nat
  using and_low_mask[of x 6] and_low_mask[of x 10] and_low_mask[of x 5] and_low_mask[of x 4] and_low_mask[of x 3]
  by simp_all

lemma drop_bit_div: "drop_bit n x = x div 2 ^ n" for x :: nat
  by (rule drop_bit_eq_div)

text \<open>The four forms of a UTF-8 sequence and the two of a UTF-16 one.\<close>

lemma encode_8:
  assumes "cp \<le> 0x10FFFF"
  shows "encode 8 cp =
    (if cp \<le> 0x7F then [cp]
     else if cp \<le> 0x7FF then [0xC0 + cp div 0x40, 0x80 + cp mod 0x40]
     else if cp \<le> 0xFFFF then [0xE0 + cp div 0x1000, 0x80 + cp div 0x40 mod 0x40, 0x80 + cp mod 0x40]
     else [0xF0 + cp div 0x40000, 0x80 + cp div 0x1000 mod 0x40, 0x80 + cp div 0x40 mod 0x40, 0x80 + cp mod 0x40])"
proof -
  have lists: "[Suc 0..<2] = [1]" "[Suc 0..<3] = [1, 2]" "[Suc 0..<4] = [1, 2, 3]" "[Suc 0..<5] = [1, 2, 3, 4]"
    by (simp_all add: upt_rec)
  have small: "cp \<le> 0x7FF \<Longrightarrow> cp div 0x40 < 0x20" "cp \<le> 0xFFFF \<Longrightarrow> cp div 0x1000 < 0x10" "cp div 0x40000 < 0x8"
    using assms by linarith+
  show ?thesis
    using small by (simp add: encode_def encoded_length_def nthCodeUnit_def lists drop_bit_div or_lead del: upt_rec_numeral)
qed

lemma encode_16:
  assumes "cp \<le> 0x10FFFF"
  shows "encode 16 cp =
    (if cp \<le> 0xFFFF then [cp]
     else [0xD800 + (cp - 0x10000) div 0x400, 0xDC00 + (cp - 0x10000) mod 0x400])"
proof -
  have lists: "[Suc 0..<2] = [1]" "[Suc 0..<3] = [1, 2]"
    by (simp_all add: upt_rec)
  have "(cp - 0x10000) div 0x400 < 0x400" using assms by linarith
  then show ?thesis
    by (simp add: encode_def encoded_length_def nthCodeUnit_def lists drop_bit_div or_lead del: upt_rec_numeral)
qed

section \<open>Decoding\<close>

text \<open>The decoder of RFC 3629, as a specification: it rejects continuation bytes out of place and
  overlong forms.\<close>

definition cont :: "nat \<Rightarrow> bool" where
  "cont b \<longleftrightarrow> 0x80 \<le> b \<and> b < 0xC0"

fun utf8_decode :: "nat list \<Rightarrow> codepoint option" where
  "utf8_decode [a] = (if a < 0x80 then Some a else None)"
| "utf8_decode [a, b] =
     (if 0xC2 \<le> a \<and> a < 0xE0 \<and> cont b then Some ((a - 0xC0) * 0x40 + (b - 0x80)) else None)"
| "utf8_decode [a, b, c] =
     (let cp = (a - 0xE0) * 0x1000 + (b - 0x80) * 0x40 + (c - 0x80)
      in if 0xE0 \<le> a \<and> a < 0xF0 \<and> cont b \<and> cont c \<and> 0x800 \<le> cp then Some cp else None)"
| "utf8_decode [a, b, c, d] =
     (let cp = (a - 0xF0) * 0x40000 + (b - 0x80) * 0x1000 + (c - 0x80) * 0x40 + (d - 0x80)
      in if 0xF0 \<le> a \<and> cont b \<and> cont c \<and> cont d \<and> 0x10000 \<le> cp \<and> cp \<le> 0x10FFFF then Some cp else None)"
| "utf8_decode _ = None"

lemma split_sextets:
  "cp = cp div 0x40 * 0x40 + cp mod 0x40"
  "cp = cp div 0x1000 * 0x1000 + cp div 0x40 mod 0x40 * 0x40 + cp mod 0x40"
  "cp = cp div 0x40000 * 0x40000 + cp div 0x1000 mod 0x40 * 0x1000 + cp div 0x40 mod 0x40 * 0x40 + cp mod 0x40"
  for cp :: nat
proof -
  have a: "cp = cp div 0x40 * 0x40 + cp mod 0x40" by simp
  have b: "cp div 0x40 = cp div 0x1000 * 0x40 + cp div 0x40 mod 0x40"
    using div_mult_mod_eq[of "cp div 0x40" "0x40"] by (simp flip: div_mult2_eq)
  have c: "cp div 0x1000 = cp div 0x40000 * 0x40 + cp div 0x1000 mod 0x40"
    using div_mult_mod_eq[of "cp div 0x1000" "0x40"] by (simp flip: div_mult2_eq)
  show "cp = cp div 0x40 * 0x40 + cp mod 0x40" by (fact a)
  show "cp = cp div 0x1000 * 0x1000 + cp div 0x40 mod 0x40 * 0x40 + cp mod 0x40" using a b by linarith
  show "cp = cp div 0x40000 * 0x40000 + cp div 0x1000 mod 0x40 * 0x1000 + cp div 0x40 mod 0x40 * 0x40 + cp mod 0x40"
    using a b c by linarith
qed

lemma cont_add: "x < 0x40 \<Longrightarrow> cont (0x80 + x)"
  by (simp add: cont_def)

lemma utf8_roundtrip:
  assumes "cp \<le> 0x10FFFF"
  shows "utf8_decode (encode 8 cp) = Some cp"
proof -
  consider "cp \<le> 0x7F" | "0x7F < cp" "cp \<le> 0x7FF" | "0x7FF < cp" "cp \<le> 0xFFFF" | "0xFFFF < cp" by linarith
  then show ?thesis
  proof cases
    case 2
    then have "2 \<le> cp div 0x40" "cp div 0x40 < 0x20" by linarith+
    with 2 assms show ?thesis using split_sextets(1)[of cp] by (auto simp: encode_8 cont_add)
  next
    case 3
    then have "cp div 0x1000 < 0x10" by linarith
    with 3 assms show ?thesis using split_sextets(2)[of cp] by (auto simp: encode_8 cont_add Let_def)
  next
    case 4
    with assms show ?thesis using split_sextets(3)[of cp] by (simp add: encode_8 cont_add Let_def)
  qed (use assms in \<open>simp add: encode_8\<close>)
qed

lemma encode_inj:
  "cp \<le> 0x10FFFF \<Longrightarrow> cp' \<le> 0x10FFFF \<Longrightarrow> encode 8 cp = encode 8 cp' \<Longrightarrow> cp = cp'"
  by (metis utf8_roundtrip option.inject)

section \<open>Code points that share code units\<close>

lemma and_not_low: "and_not cp (2 ^ j - 1) = cp div 2 ^ j * 2 ^ j"
proof -
  have "cp - cp mod 2 ^ j = cp div 2 ^ j * 2 ^ j" by (rule minus_mod_eq_div_mult)
  then show ?thesis by (simp only: and_not_def and_low_mask)
qed

lemma or_low: "cp OR (2 ^ j - 1) = cp div 2 ^ j * 2 ^ j + (2 ^ j - 1)" for cp :: nat
proof -
  have "cp OR (2 ^ j - 1) = (cp div 2 ^ j * 2 ^ j) OR (2 ^ j - 1)"
  proof (rule bit_eqI)
    fix n
    have "bit (2 ^ j - 1 :: nat) n \<longleftrightarrow> n < j"
      using bit_mask_iff[of j n, where 'a = nat] by (simp add: mask_eq_exp_minus_1)
    then show "bit (cp OR (2 ^ j - 1)) n \<longleftrightarrow> bit (cp div 2 ^ j * 2 ^ j OR (2 ^ j - 1)) n"
      by (auto simp: bit_or_iff bit_push_bit_iff bit_drop_bit_eq simp flip: push_bit_eq_mult drop_bit_eq_div)
  qed
  also have "\<dots> = cp div 2 ^ j * 2 ^ j + (2 ^ j - 1)" by (rule or_shifted) simp
  finally show ?thesis .
qed

text \<open>Two code points of the same length agree on the first \<open>n\<close> units when they agree above the
  bits of the other units.\<close>

lemma length_encode [simp]: "length (encode bits cp) = encoded_length bits cp"
  by (simp add: encode_def)

lemma encoded_length_8:
  "encoded_length 8 cp = Suc 0 \<longleftrightarrow> cp \<le> 0x7F"
  "encoded_length 8 cp = 1 \<longleftrightarrow> cp \<le> 0x7F" "encoded_length 8 cp = 2 \<longleftrightarrow> 0x7F < cp \<and> cp \<le> 0x7FF"
  "encoded_length 8 cp = 3 \<longleftrightarrow> 0x7FF < cp \<and> cp \<le> 0xFFFF" "encoded_length 8 cp = 4 \<longleftrightarrow> 0xFFFF < cp"
  by (auto simp: encoded_length_def)

lemma encoded_length_cases:
  obtains "encoded_length 8 cp = 1" "cp \<le> 0x7F" | "encoded_length 8 cp = 2" "0x7F < cp" "cp \<le> 0x7FF"
    | "encoded_length 8 cp = 3" "0x7FF < cp" "cp \<le> 0xFFFF" | "encoded_length 8 cp = 4" "0xFFFF < cp"
proof -
  consider "cp \<le> 0x7F" | "0x7F < cp" "cp \<le> 0x7FF" | "0x7FF < cp" "cp \<le> 0xFFFF" | "0xFFFF < cp" by linarith
  then show ?thesis by cases (rule that; simp add: encoded_length_8)+
qed

lemma take_lists:
  "take 0 xs = []" "take 1 [a, b] = [a]" "take 1 [a, b, c] = [a]" "take 2 [a, b, c] = [a, b]"
  "take 1 [a, b, c, d] = [a]" "take 2 [a, b, c, d] = [a, b]" "take 3 [a, b, c, d] = [a, b, c]"
  by (simp_all add: numeral_eq_Suc)

lemma sextet_eq:
  "a div 0x1000 = b div 0x1000 \<and> a div 0x40 mod 0x40 = b div 0x40 mod 0x40 \<longleftrightarrow> a div 0x40 = b div 0x40"
  "a div 0x40000 = b div 0x40000 \<and> a div 0x1000 mod 0x40 = b div 0x1000 mod 0x40 \<longleftrightarrow> a div 0x1000 = b div 0x1000"
  "a div 0x40 = b div 0x40 \<and> a mod 0x40 = b mod 0x40 \<longleftrightarrow> a = b" for a b :: nat
proof -
  have one: "x div 0x40 = y div 0x40 \<and> x mod 0x40 = y mod 0x40 \<longleftrightarrow> x = y" for x y :: nat
    by (metis div_mult_mod_eq)
  show "a div 0x40 = b div 0x40 \<and> a mod 0x40 = b mod 0x40 \<longleftrightarrow> a = b" by (fact one)
  show "a div 0x1000 = b div 0x1000 \<and> a div 0x40 mod 0x40 = b div 0x40 mod 0x40 \<longleftrightarrow> a div 0x40 = b div 0x40"
    using one[of "a div 0x40" "b div 0x40"] by (simp flip: div_mult2_eq)
  show "a div 0x40000 = b div 0x40000 \<and> a div 0x1000 mod 0x40 = b div 0x1000 mod 0x40 \<longleftrightarrow> a div 0x1000 = b div 0x1000"
    using one[of "a div 0x1000" "b div 0x1000"] by (simp flip: div_mult2_eq)
qed

lemma common_units_iff:
  assumes "cp \<le> 0x10FFFF" "cp' \<le> 0x10FFFF" "encoded_length 8 cp' = encoded_length 8 cp" "0 < n" "n \<le> encoded_length 8 cp"
  shows "take n (encode 8 cp') = take n (encode 8 cp)
    \<longleftrightarrow> cp' div 2 ^ ((encoded_length 8 cp - n) * 6) = cp div 2 ^ ((encoded_length 8 cp - n) * 6)"
proof (cases cp rule: encoded_length_cases)
  case 1
  then have "n = 1" "cp' \<le> 0x7F" using assms(3-5) encoded_length_8(1)[of cp'] by simp_all
  with 1 assms show ?thesis by (simp add: encode_8)
next
  case 2
  then consider "n = 1" | "n = 2" using assms(4,5) by linarith
  moreover have "0x7F < cp'" "cp' \<le> 0x7FF" using assms(3) 2(1) encoded_length_8(3)[of cp'] by simp_all
  ultimately show ?thesis
    using 2 assms(1,2) sextet_eq(3)[of cp' cp] by cases (simp_all add: encode_8 take_lists)
next
  case 3
  then consider "n = 1" | "n = 2" | "n = 3" using assms(4,5) by linarith
  moreover have "0x7FF < cp'" "cp' \<le> 0xFFFF" using assms(3) 3(1) encoded_length_8(4)[of cp'] by simp_all
  ultimately show ?thesis
    using 3 assms(1,2) sextet_eq(1,3)[of cp' cp] by cases (auto simp: encode_8 take_lists)
next
  case 4
  then consider "n = 1" | "n = 2" | "n = 3" | "n = 4" using assms(4,5) by linarith
  moreover have "0xFFFF < cp'" using assms(3) 4(1) encoded_length_8(5)[of cp'] by simp
  ultimately show ?thesis
    using 4 assms(1,2) sextet_eq[of cp' cp] by cases (auto simp: encode_8 take_lists)
qed

lemma div_eq_interval:
  "a div 2 ^ j = b div 2 ^ j \<longleftrightarrow> b div 2 ^ j * 2 ^ j \<le> a \<and> a \<le> b div 2 ^ j * 2 ^ j + (2 ^ j - 1)" for a b :: nat
proof -
  define K :: nat where "K = 2 ^ j"
  have K: "0 < K" by (simp add: K_def)
  define q where "q = b div K"
  have "a div K = q \<longleftrightarrow> q * K \<le> a \<and> a < (q + 1) * K"
    using K by (metis Suc_eq_plus1 div_less_iff_less_mult less_eq_div_iff_mult_less_eq less_Suc_eq_le le_antisym order_refl)
  also have "(q + 1) * K = q * K + K" by (simp add: algebra_simps)
  also have "a < q * K + K \<longleftrightarrow> a \<le> q * K + (K - 1)" using K by linarith
  finally show ?thesis by (simp only: K_def q_def)
qed

lemma length_interval:
  assumes "1 < encoded_length 8 cp" "cp' \<le> 0x10FFFF"
  shows "encoded_length 8 cp' = encoded_length 8 cp \<longleftrightarrow>
    max_codepoint_of_length 8 (encoded_length 8 cp - 1) + 1 \<le> cp' \<and> cp' \<le> max_codepoint_of_length 8 (encoded_length 8 cp)"
  using assms encoded_length_8[of cp']
  by (cases cp rule: encoded_length_cases) (auto simp: max_codepoint_of_length_def not_le)

lemma common_units_interval:
  assumes "cp \<le> 0x10FFFF" "cp' \<le> 0x10FFFF" "1 < encoded_length 8 cp" "0 < n" "n \<le> encoded_length 8 cp"
  shows "encoded_length 8 cp' = encoded_length 8 cp \<and> take n (encode 8 cp') = take n (encode 8 cp)
    \<longleftrightarrow> minCodePointWithCommonCodeUnits 8 cp n \<le> cp' \<and> cp' \<le> maxCodePointWithCommonCodeUnits 8 cp n"
proof -
  let ?len = "encoded_length 8 cp" and ?j = "(encoded_length 8 cp - n) * 6"
  have "minCodePointWithCommonCodeUnits 8 cp n = max (cp div 2 ^ ?j * 2 ^ ?j) (max_codepoint_of_length 8 (?len - 1) + 1)"
    using assms(3) by (simp add: minCodePointWithCommonCodeUnits_def Let_def push_bit_of_1 and_not_low[unfolded One_nat_def])
  moreover have "maxCodePointWithCommonCodeUnits 8 cp n = min (cp div 2 ^ ?j * 2 ^ ?j + (2 ^ ?j - 1)) (max_codepoint_of_length 8 ?len)"
    using assms(3) by (simp add: maxCodePointWithCommonCodeUnits_def Let_def push_bit_of_1 or_low[unfolded One_nat_def])
  ultimately show ?thesis
    using common_units_iff[OF assms(1,2) _ assms(4,5)] length_interval[OF assms(3,2)] div_eq_interval[of cp' ?j cp]
    by auto
qed

section \<open>Boundaries after a code unit\<close>

lemma unit_payload:
  assumes "cp \<le> 0x10FFFF" "cp' \<le> 0x10FFFF" "encoded_length 8 cp' = encoded_length 8 cp" "0 < n" "n \<le> encoded_length 8 cp"
  shows "nthCodeUnit 8 cp' n = nthCodeUnit 8 cp n \<longleftrightarrow>
    cp' div 2 ^ ((encoded_length 8 cp - n) * 6) mod (if n = 1 then 0x80 else 0x40)
    = cp div 2 ^ ((encoded_length 8 cp - n) * 6) mod (if n = 1 then 0x80 else 0x40)"
proof (cases "n = 1")
  case False
  then have "nthCodeUnit 8 c n = 0x80 OR (c div 2 ^ (6 * (encoded_length 8 c - n)) mod 0x40)" for c
    by (simp add: nthCodeUnit_def Let_def drop_bit_div)
  then have "nthCodeUnit 8 c n = 0x80 + c div 2 ^ (6 * (encoded_length 8 c - n)) mod 0x40" for c
    by (simp add: or_lead(4))
  with False assms(3) show ?thesis by (simp add: mult.commute)
next
  case True
  show ?thesis
  proof (cases cp rule: encoded_length_cases)
    case 1
    then have "cp' \<le> 0x7F" using assms(3) encoded_length_8(1)[of cp'] by simp
    with 1 True assms(3) show ?thesis by (simp add: nthCodeUnit_def)
  next
    case 2
    then have "cp' \<le> 0x7FF" using assms(3) encoded_length_8(3)[of cp'] by simp
    then have "cp' div 0x40 < 0x20" "cp div 0x40 < 0x20" using 2 by linarith+
    with 2 True assms(3) show ?thesis by (simp add: nthCodeUnit_def drop_bit_div or_lead)
  next
    case 3
    then have "cp' \<le> 0xFFFF" using assms(3) encoded_length_8(4)[of cp'] by simp
    then have "cp' div 0x1000 < 0x10" "cp div 0x1000 < 0x10" using 3 by linarith+
    with 3 True assms(3) show ?thesis by (simp add: nthCodeUnit_def drop_bit_div or_lead)
  next
    case 4
    have "cp' div 0x40000 < 8" "cp div 0x40000 < 8" using assms(1,2) by linarith+
    with 4 True assms(3) show ?thesis by (simp add: nthCodeUnit_def drop_bit_div or_lead)
  qed
qed

lemma successor_blocks:
  "(a + 1) div 2 ^ j = a div 2 ^ j \<or> (a + 1) div 2 ^ j = a div 2 ^ j + 1" for a :: nat
  by (metis Suc_eq_plus1 div_Suc)

text \<open>Of two neighbours of the same length, the \<open>n\<close>-th units differ as soon as the first
  \<open>n\<close> units do.\<close>

lemma neighbour_units:
  assumes "cp < 0x10FFFF" "encoded_length 8 (cp + 1) = encoded_length 8 cp" "0 < n" "n \<le> encoded_length 8 cp"
  shows "nthCodeUnit 8 (cp + 1) n \<noteq> nthCodeUnit 8 cp n \<longleftrightarrow> take n (encode 8 (cp + 1)) \<noteq> take n (encode 8 cp)"
proof -
  let ?j = "(encoded_length 8 cp - n) * 6" and ?m = "if n = 1 then 0x80 else 0x40 :: nat"
  have "cp \<le> 0x10FFFF" "cp + 1 \<le> 0x10FFFF" using assms(1) by simp_all
  note units = unit_payload[OF this assms(2-4)] common_units_iff[OF this assms(2-4)]
  have "(cp + 1) div 2 ^ ?j mod ?m = cp div 2 ^ ?j mod ?m \<longleftrightarrow> (cp + 1) div 2 ^ ?j = cp div 2 ^ ?j"
    using successor_blocks[of cp ?j] by (auto simp: mod_Suc split: if_splits)
  then show ?thesis by (simp only: units)
qed

lemma encoded_length_mono: "cp \<le> cp' \<Longrightarrow> encoded_length 8 cp \<le> encoded_length 8 cp'"
  by (auto simp: encoded_length_def)

lemma isLow_iff:
  assumes "cp \<le> 0x10FFFF" "0 < n" "n \<le> encoded_length 8 cp"
  shows "isLowCodePointAfterNthCodeUnit 8 cp n \<longleftrightarrow>
    (\<forall>cp'. cp' < cp \<longrightarrow> \<not> (encoded_length 8 cp' = encoded_length 8 cp \<and> take n (encode 8 cp') = take n (encode 8 cp)))"
    (is "_ \<longleftrightarrow> ?r")
proof (cases "cp = 0")
  case False
  then obtain c where c: "cp = c + 1" by (metis Suc_eq_plus1 not0_implies_Suc)
  have low: "isLowCodePointAfterNthCodeUnit 8 cp n \<longleftrightarrow>
      \<not> (encoded_length 8 c = encoded_length 8 cp \<and> take n (encode 8 c) = take n (encode 8 cp))"
    using encoded_length_mono[of c cp] neighbour_units[of c n] assms c
    by (auto simp: isLowCodePointAfterNthCodeUnit_def)
  show ?thesis
  proof
    assume "?r"
    then show "isLowCodePointAfterNthCodeUnit 8 cp n" using low c by simp
  next
    assume "isLowCodePointAfterNthCodeUnit 8 cp n"
    show ?r
    proof (intro allI impI notI)
      fix x
      assume x: "x < cp" "encoded_length 8 x = encoded_length 8 cp \<and> take n (encode 8 x) = take n (encode 8 cp)"
      have len: "encoded_length 8 c = encoded_length 8 cp"
        using encoded_length_mono[of x c] encoded_length_mono[of c cp] x c by simp
      let ?j = "(encoded_length 8 cp - n) * 6"
      have "x div 2 ^ ?j = cp div 2 ^ ?j" using common_units_iff[OF assms(1) _ _ assms(2,3), of x] x assms(1) by simp
      then have "c div 2 ^ ?j = cp div 2 ^ ?j"
        using div_le_mono[of x c "2 ^ ?j"] div_le_mono[of c cp "2 ^ ?j"] x(1) c
        by (intro le_antisym) simp_all
      then show False
        using common_units_iff[OF assms(1) _ len assms(2,3)] assms(1) c len low
          \<open>isLowCodePointAfterNthCodeUnit 8 cp n\<close> by simp
    qed
  qed
qed (simp add: isLowCodePointAfterNthCodeUnit_def)

lemma isHigh_iff:
  assumes "cp \<le> 0x10FFFF" "0 < n" "n \<le> encoded_length 8 cp"
  shows "isHighCodePointAfterNthCodeUnit 8 cp n \<longleftrightarrow>
    (\<forall>cp'. cp < cp' \<and> cp' \<le> 0x10FFFF \<longrightarrow>
       \<not> (encoded_length 8 cp' = encoded_length 8 cp \<and> take n (encode 8 cp') = take n (encode 8 cp)))"
    (is "_ \<longleftrightarrow> ?r")
proof (cases "cp = 0x10FFFF")
  case False
  then have less: "cp < 0x10FFFF" using assms(1) by simp
  let ?c = "cp + 1"
  have high: "isHighCodePointAfterNthCodeUnit 8 cp n \<longleftrightarrow>
      \<not> (encoded_length 8 ?c = encoded_length 8 cp \<and> take n (encode 8 ?c) = take n (encode 8 cp))"
    using encoded_length_mono[of cp ?c] neighbour_units[OF less _ assms(2,3)] less
    by (auto simp: isHighCodePointAfterNthCodeUnit_def)
  show ?thesis
  proof
    assume "?r"
    then show "isHighCodePointAfterNthCodeUnit 8 cp n" using high less by simp
  next
    assume h: "isHighCodePointAfterNthCodeUnit 8 cp n"
    show ?r
    proof (intro allI impI notI)
      fix x
      assume x: "cp < x \<and> x \<le> 0x10FFFF" "encoded_length 8 x = encoded_length 8 cp \<and> take n (encode 8 x) = take n (encode 8 cp)"
      have len: "encoded_length 8 ?c = encoded_length 8 cp"
        using encoded_length_mono[of cp ?c] encoded_length_mono[of ?c x] x by simp
      let ?j = "(encoded_length 8 cp - n) * 6"
      have "x div 2 ^ ?j = cp div 2 ^ ?j" using common_units_iff[OF assms(1) _ _ assms(2,3), of x] x by simp
      then have "?c div 2 ^ ?j = cp div 2 ^ ?j"
        using div_le_mono[of cp ?c "2 ^ ?j"] div_le_mono[of ?c x "2 ^ ?j"] x(1)
        by (intro le_antisym) simp_all
      then show False
        using common_units_iff[OF assms(1) _ len assms(2,3)] less len high h by simp
    qed
  qed
next
  case True
  then show ?thesis by (auto simp: isHighCodePointAfterNthCodeUnit_def)
qed

section \<open>The number of common units\<close>

lemma nth_encode: "i < encoded_length bits cp \<Longrightarrow> encode bits cp ! i = nthCodeUnit bits cp (i + 1)"
  by (simp add: encode_def nth_append del: upt_rec_numeral upt_Suc)

lemma first_unit_class:
  assumes "cp \<le> 0x10FFFF" "cp' \<le> 0x10FFFF" "nthCodeUnit 8 cp 1 = nthCodeUnit 8 cp' 1"
  shows "encoded_length 8 cp = encoded_length 8 cp'"
proof -
  have ranges: "nthCodeUnit 8 c 1 = (if c \<le> 0x7F then c else if c \<le> 0x7FF then 0xC0 + c div 0x40
      else if c \<le> 0xFFFF then 0xE0 + c div 0x1000 else 0xF0 + c div 0x40000)" if "c \<le> 0x10FFFF" for c
    using nth_encode[of 0 8 c] encode_8[OF that] by (simp add: encoded_length_def split: if_splits)
  have "c \<le> 0x7FF \<Longrightarrow> c div 0x40 < 0x20" "c \<le> 0xFFFF \<Longrightarrow> c div 0x1000 < 0x10" for c :: nat
    by linarith+
  note small = this[of cp] this[of cp']
  show ?thesis
    using assms(3) small unfolding ranges[OF assms(1)] ranges[OF assms(2)]
    by (auto simp: encoded_length_def split: if_splits)
qed

lemma common_units_loop_value:
  "(\<And>j. i \<le> j \<Longrightarrow> j < k \<Longrightarrow> nthCodeUnit bits cp1 (j + 1) = nthCodeUnit bits cp2 (j + 1)) \<Longrightarrow>
   nthCodeUnit bits cp1 (k + 1) \<noteq> nthCodeUnit bits cp2 (k + 1) \<Longrightarrow> i \<le> k \<Longrightarrow> k < i + fuel \<Longrightarrow>
   common_units_loop fuel bits cp1 cp2 i = Some k"
proof (induction fuel arbitrary: i)
  case (Suc fuel)
  then show ?case by (cases "i = k") auto
qed simp

lemma common_code_units_spec:
  assumes "cp1 \<le> 0x10FFFF" "cp2 \<le> 0x10FFFF" "cp1 \<noteq> cp2"
  shows "\<exists>k. common_code_units 8 cp1 cp2 = Some k \<and> k < encoded_length 8 cp1 \<and> k < encoded_length 8 cp2
    \<and> take k (encode 8 cp1) = take k (encode 8 cp2) \<and> encode 8 cp1 ! k \<noteq> encode 8 cp2 ! k"
proof -
  let ?u = "\<lambda>cp i. nthCodeUnit 8 cp (i + 1)"
  have "\<exists>i. i < encoded_length 8 cp1 \<and> i < encoded_length 8 cp2 \<and> ?u cp1 i \<noteq> ?u cp2 i"
  proof (cases "encoded_length 8 cp1 = encoded_length 8 cp2")
    case True
    then have "\<exists>i<encoded_length 8 cp1. encode 8 cp1 ! i \<noteq> encode 8 cp2 ! i"
      using encode_inj[OF assms(1,2)] assms(3) nth_equalityI[of "encode 8 cp1" "encode 8 cp2"] by auto
    with True show ?thesis by (auto simp: nth_encode)
  next
    case False
    then have "?u cp1 0 \<noteq> ?u cp2 0" using first_unit_class[OF assms(1,2)] by auto
    moreover have "0 < encoded_length 8 cp1" "0 < encoded_length 8 cp2" by (simp_all add: encoded_length_def)
    ultimately show ?thesis by blast
  qed
  then obtain k where k: "k < encoded_length 8 cp1" "k < encoded_length 8 cp2" "?u cp1 k \<noteq> ?u cp2 k"
    and least: "\<And>j. j < k \<Longrightarrow> \<not> (j < encoded_length 8 cp1 \<and> j < encoded_length 8 cp2 \<and> ?u cp1 j \<noteq> ?u cp2 j)"
    using exists_least_iff[of "\<lambda>i. i < encoded_length 8 cp1 \<and> i < encoded_length 8 cp2 \<and> ?u cp1 i \<noteq> ?u cp2 i"] by blast
  then have same: "j < k \<Longrightarrow> ?u cp1 j = ?u cp2 j" for j by (meson less_trans)
  have "k < 4" using k(1) by (simp add: encoded_length_def split: if_splits)
  then have "common_code_units 8 cp1 cp2 = Some k"
    unfolding common_code_units_def using assms(3) same k(3)
    by (simp add: common_units_loop_value[where k = k])
  moreover have "take k (encode 8 cp1) = take k (encode 8 cp2)"
    using k same by (intro nth_equalityI) (auto simp: nth_encode)
  ultimately show ?thesis using k by (auto simp: nth_encode)
qed

section \<open>Prefixes\<close>

text \<open>The code points with a given UTF-8 lead byte form the interval the two prefix functions name.\<close>

lemma small_mod:
  "q < 0x20 \<Longrightarrow> (0xC0 + q) mod 0x20 = q" "q < 0x10 \<Longrightarrow> (0xE0 + q) mod 0x10 = q"
  "q < 8 \<Longrightarrow> (0xF0 + q) mod 8 = q" for q :: nat
  using mod_mult_self3[of 6 "0x20" q] mod_mult_self3[of 14 "0x10" q] mod_mult_self3[of 30 8 q] by simp_all

lemma prefix_interval:
  assumes "cp \<le> 0x10FFFF" "0x80 \<le> cp" "0xC2 \<le> b" "b \<le> 0xF4"
  shows "nthCodeUnit 8 cp 1 = b \<longleftrightarrow> minCodePointWithPrefix 8 b \<le> cp \<and> cp \<le> maxCodePointWithPrefix 8 b"
proof -
  have unit: "nthCodeUnit 8 cp 1 = (if cp \<le> 0x7FF then 0xC0 + cp div 0x40
      else if cp \<le> 0xFFFF then 0xE0 + cp div 0x1000 else 0xF0 + cp div 0x40000)"
    using nth_encode[of 0 8 cp] encode_8[OF assms(1)] assms(2) by (simp add: encoded_length_def split: if_splits)
  have small: "cp \<le> 0x7FF \<Longrightarrow> cp div 0x40 < 0x20" "cp \<le> 0xFFFF \<Longrightarrow> cp div 0x1000 < 0x10" by linarith+
  consider "b \<le> 0xDF" | "0xE0 \<le> b" "b \<le> 0xEF" | "0xF0 \<le> b" by linarith
  then show ?thesis
  proof cases
    case 1
    then obtain q where q: "b = 0xC0 + q" "2 \<le> q" "q < 0x20" using assms(3) that[of "b - 0xC0"] by auto
    note [simp] = small_mod(1)[OF q(3)]
    then have min: "minCodePointWithPrefix 8 b = q * 0x40"
      using q 1 by (simp add: minCodePointWithPrefix_def push_bit_eq_mult)
    then have "maxCodePointWithPrefix 8 b = q * 0x40 + 0x3F"
      using 1 or_shifted[of "0x3F" 6 q] by (simp add: maxCodePointWithPrefix_def)
    moreover have "cp div 0x40 = q \<longleftrightarrow> q * 0x40 \<le> cp \<and> cp \<le> q * 0x40 + 0x3F" by linarith
    moreover have "cp \<le> q * 0x40 + 0x3F \<Longrightarrow> cp \<le> 0x7FF" using q(3) by linarith
    ultimately show ?thesis using min q(1,3) small unit by auto
  next
    case 2
    then obtain q where q: "b = 0xE0 + q" "q < 0x10" using that[of "b - 0xE0"] by auto
    note [simp] = small_mod(2)[OF q(2)]
    then have min: "minCodePointWithPrefix 8 b = max (q * 0x1000) 0x800"
      using q 2 by (simp add: minCodePointWithPrefix_def push_bit_eq_mult)
    have "max (q * 0x1000) 0x800 OR 0xFFF = q * 0x1000 + 0xFFF"
    proof (cases "q = 0")
      case True
      then show ?thesis by simp
    next
      case False
      then have "max (q * 0x1000) 0x800 = q * 0x1000" by (simp add: max_def)
      then show ?thesis using or_shifted[of "0xFFF" 12 q] by simp
    qed
    then have "maxCodePointWithPrefix 8 b = q * 0x1000 + 0xFFF"
      using 2 min by (simp add: maxCodePointWithPrefix_def)
    moreover have "cp div 0x1000 = q \<longleftrightarrow> q * 0x1000 \<le> cp \<and> cp \<le> q * 0x1000 + 0xFFF" by linarith
    moreover have "cp \<le> q * 0x1000 + 0xFFF \<Longrightarrow> cp \<le> 0xFFFF" using q(2) by linarith
    moreover have "cp \<le> 0x7FF \<Longrightarrow> 0xC0 + cp div 0x40 < 0xE0" using small by simp
    ultimately show ?thesis using min q(1,2) small unit by auto
  next
    case 3
    then obtain q where q: "b = 0xF0 + q" "q \<le> 4" using assms(4) that[of "b - 0xF0"] by auto
    then have [simp]: "(0xF0 + q) mod 8 = q" by (intro small_mod) simp
    then have min: "minCodePointWithPrefix 8 b = max (q * 0x40000) 0x10000"
      using q 3 by (simp add: minCodePointWithPrefix_def push_bit_eq_mult)
    have "max (q * 0x40000) 0x10000 OR 0x3FFFF = q * 0x40000 + 0x3FFFF"
    proof (cases "q = 0")
      case True
      then show ?thesis by simp
    next
      case False
      then have "max (q * 0x40000) 0x10000 = q * 0x40000" by (simp add: max_def)
      then show ?thesis using or_shifted[of "0x3FFFF" 18 q] by simp
    qed
    then have "maxCodePointWithPrefix 8 b = Orderings.min (q * 0x40000 + 0x3FFFF) 0x10FFFF"
      using 3 min by (simp add: maxCodePointWithPrefix_def)
    moreover have "cp div 0x40000 = q \<longleftrightarrow> q * 0x40000 \<le> cp \<and> cp \<le> q * 0x40000 + 0x3FFFF" by linarith
    moreover have "cp \<le> 0x7FF \<Longrightarrow> 0xC0 + cp div 0x40 < 0xF0" "cp \<le> 0xFFFF \<Longrightarrow> 0xE0 + cp div 0x1000 < 0xF0"
      using small by simp_all
    ultimately show ?thesis using min q(1,2) assms(1) unit by auto
  qed
qed

section \<open>UTF-16\<close>

text \<open>The decoder of RFC 2781, as a specification.\<close>

fun utf16_decode :: "nat list \<Rightarrow> codepoint option" where
  "utf16_decode [a] = (if a \<le> 0xFFFF \<and> \<not> (0xD800 \<le> a \<and> a < 0xE000) then Some a else None)"
| "utf16_decode [a, b] =
     (if 0xD800 \<le> a \<and> a < 0xDC00 \<and> 0xDC00 \<le> b \<and> b < 0xE000
      then Some ((a - 0xD800) * 0x400 + (b - 0xDC00) + 0x10000) else None)"
| "utf16_decode _ = None"

lemma utf16_roundtrip:
  assumes "cp \<le> 0x10FFFF" "\<not> (0xD800 \<le> cp \<and> cp < 0xE000)"
  shows "utf16_decode (encode 16 cp) = Some cp"
proof (cases "cp \<le> 0xFFFF")
  case False
  obtain x where x: "cp = x + 0x10000" "x < 0x100000" using False assms(1) that[of "cp - 0x10000"] by auto
  have "x div 0x400 < 0x400" using x(2) by linarith
  then show ?thesis unfolding encode_16[OF assms(1)] using x div_mult_mod_eq[of x "0x400"] by simp
qed (use assms in \<open>simp add: encode_16\<close>)

text \<open>The code points after the one given that share its lead unit end at \<open>cp | 0x3FF\<close>; the code
  answers \<open>0x10FFFF\<close>.\<close>

lemma utf16_common_lead:
  assumes "0x10000 \<le> cp" "cp \<le> 0x10FFFF" "0x10000 \<le> cp'" "cp' \<le> 0x10FFFF"
  shows "encode 16 cp' ! 0 = encode 16 cp ! 0 \<longleftrightarrow> cp div 0x400 * 0x400 \<le> cp' \<and> cp' \<le> cp div 0x400 * 0x400 + 0x3FF"
proof -
  have "(c - 0x10000) div 0x400 = c div 0x400 - 0x40" if "0x10000 \<le> c" for c :: nat
    using that by linarith
  moreover have "0x40 \<le> c div 0x400" if "0x10000 \<le> c" for c :: nat
    using that by linarith
  ultimately have "encode 16 cp' ! 0 = encode 16 cp ! 0 \<longleftrightarrow> cp' div 0x400 = cp div 0x400"
    using assms by (simp add: encode_16 eq_diff_iff)
  then show ?thesis using div_eq_interval[of cp' 10 cp] by simp
qed

lemma encode_units_bounded:
  assumes "cp \<le> 0x10FFFF"
  shows "\<forall>u \<in> set (encode 8 cp). u < 0x100" "\<forall>u \<in> set (encode 16 cp). u < 0x10000"
proof -
  have "cp \<le> 0x7FF \<Longrightarrow> cp div 0x40 < 0x20" "cp \<le> 0xFFFF \<Longrightarrow> cp div 0x1000 < 0x10" "cp div 0x40000 < 0x8"
    using assms by linarith+
  moreover have "x mod 0x40 < 0x40" "x mod 0x400 < 0x400" for x :: nat by simp_all
  moreover have "(cp - 0x10000) div 0x400 < 0x400" using assms by linarith
  moreover have "0x80 + x mod 0x40 < 0x100" "0xDC00 + x mod 0x400 < 0x10000" for x :: nat
    using calculation(4,5)[of x] by linarith+
  ultimately show "\<forall>u \<in> set (encode 8 cp). u < 0x100" "\<forall>u \<in> set (encode 16 cp). u < 0x10000"
    unfolding encode_8[OF assms] encode_16[OF assms] by auto
qed

end
