(* ===== verification/Transchar.thy ===== *)
theory Transchar imports USet_Insert UTF begin

text \<open>
  Character translation by bit sets, \<open>lib/ucd/utf/transchar.cpp\<close>: for a map between code
  points, the sets of source code points by the bits of the difference, and the numbers of UTF-8
  positions to insert or delete, as bit sets too. The iteration order of the
  \<open>unordered_map\<close> is the order of the list that stands for the map.
\<close>

section \<open>The loops\<close>

datatype XlateMode = XorBit | LiteralBit

type_synonym TranslationMap = "(codepoint \<times> codepoint) list"
type_synonym BitTranslationSets = "unicode_set list"

function push_until :: "nat \<Rightarrow> BitTranslationSets \<Rightarrow> BitTranslationSets" where
  "push_until bt sets = (if length sets \<le> bt then push_until bt (sets @ [UnicodeSet_empty]) else sets)"
  by pat_completeness auto
termination by (relation "measure (\<lambda>(bt, sets). Suc bt - length sets)") auto

declare push_until.simps [simp del]

definition insert_at :: "nat \<Rightarrow> codepoint \<Rightarrow> BitTranslationSets \<Rightarrow> insert_error + BitTranslationSets" where
  "insert_at bt cp sets =
     (let sets1 = push_until bt sets in
      case insert_cp (sets1 ! bt) cp of Inl e \<Rightarrow> Inl e | Inr s \<Rightarrow> Inr (sets1[bt := s]))"

function insert_bits :: "codepoint \<Rightarrow> nat \<Rightarrow> nat \<Rightarrow> BitTranslationSets \<Rightarrow> insert_error + BitTranslationSets" where
  "insert_bits cp diff bt sets =
     (if diff > 0 then
        case (if diff AND 1 = 1 then insert_at bt cp sets else Inr sets) of
          Inl e \<Rightarrow> Inl e
        | Inr sets' \<Rightarrow> insert_bits cp (drop_bit 1 diff) (bt + 1) sets'
      else Inr sets)"
  by pat_completeness auto
termination by (relation "measure (\<lambda>(cp, diff, bt, sets). diff)") (auto simp: drop_bit_eq_div)

declare insert_bits.simps [simp del]

fun translation_loop ::
  "(codepoint \<Rightarrow> codepoint \<Rightarrow> nat) \<Rightarrow> TranslationMap \<Rightarrow> BitTranslationSets \<Rightarrow> insert_error + BitTranslationSets" where
  "translation_loop diff [] sets = Inr sets"
| "translation_loop diff ((cp, cp') # m) sets =
     (case insert_bits cp (diff cp cp') 0 sets of
        Inl e \<Rightarrow> Inl e
      | Inr sets' \<Rightarrow> translation_loop diff m sets')"

definition bit_difference :: "XlateMode \<Rightarrow> codepoint \<Rightarrow> codepoint \<Rightarrow> nat" where
  "bit_difference mode cp cp' = (if mode = XorBit then cp' XOR cp else cp')"

definition ComputeBitTranslationSets :: "TranslationMap \<Rightarrow> XlateMode \<Rightarrow> insert_error + BitTranslationSets" where
  "ComputeBitTranslationSets m mode = translation_loop (bit_difference mode) m []"

text \<open>A map entry that inserts nothing is a difference of 0, for which the loop over the bits does
  nothing.\<close>

definition insertion_difference :: "codepoint \<Rightarrow> codepoint \<Rightarrow> nat" where
  "insertion_difference cp cp' =
     (let l1 = encoded_length 8 cp; l2 = encoded_length 8 cp' in if l2 > l1 then l2 - l1 else 0)"

definition deletion_difference :: "codepoint \<Rightarrow> codepoint \<Rightarrow> nat" where
  "deletion_difference cp cp' =
     (let l1 = encoded_length 8 cp; l2 = encoded_length 8 cp' in if l1 > l2 then l1 - l2 else 0)"

definition ComputeUTF8_insertionBixNum :: "TranslationMap \<Rightarrow> insert_error + BitTranslationSets" where
  "ComputeUTF8_insertionBixNum m = translation_loop insertion_difference m []"

definition ComputeUTF8_deletionBixNum :: "TranslationMap \<Rightarrow> insert_error + BitTranslationSets" where
  "ComputeUTF8_deletionBixNum m = translation_loop deletion_difference m []"

section \<open>The sets as numbers\<close>

definition sets_ok :: "BitTranslationSets \<Rightarrow> bool" where
  "sets_ok sets \<longleftrightarrow> (\<forall>s \<in> set sets. uset_ok s \<and> owned s)"

text \<open>Whether bit \<open>i\<close> is set for a code point, and the number the sets give it.\<close>

definition has_bit :: "BitTranslationSets \<Rightarrow> codepoint \<Rightarrow> nat \<Rightarrow> bool" where
  "has_bit sets cp i \<longleftrightarrow> i < length sets \<and> cp \<in> codepoints (sets ! i)"

fun bixnum_at :: "BitTranslationSets \<Rightarrow> codepoint \<Rightarrow> nat" where
  "bixnum_at [] cp = 0"
| "bixnum_at (s # sets) cp = (if cp \<in> codepoints s then 1 else 0) + 2 * bixnum_at sets cp"

lemma bit_bixnum_at: "bit (bixnum_at sets cp) i \<longleftrightarrow> has_bit sets cp i"
proof (induction sets arbitrary: i)
  case (Cons s sets)
  then show ?case
    by (cases i) (auto simp: has_bit_def bit_0 bit_Suc)
qed (simp add: has_bit_def)

lemma push_until_value: "push_until bt sets = sets @ replicate (Suc bt - length sets) UnicodeSet_empty"
proof (induction bt sets rule: push_until.induct)
  case (1 bt sets)
  show ?case
  proof (cases "length sets \<le> bt")
    case True
    then have "Suc bt - length sets = Suc (bt - length sets)" by simp
    with True 1 show ?thesis by (subst push_until.simps) simp
  qed (simp add: push_until.simps)
qed

lemma push_until_ok:
  "sets_ok sets \<Longrightarrow> sets_ok (push_until bt sets)" "bt < length (push_until bt sets)"
  "length sets \<le> length (push_until bt sets)" "has_bit (push_until bt sets) cp i = has_bit sets cp i"
  by (auto simp: push_until_value sets_ok_def has_bit_def nth_append UnicodeSet_empty_spec canonical_uset_ok)

lemma insert_at_spec:
  assumes "sets_ok sets" "cp \<le> 0x10FFFF"
  obtains sets' where "insert_at bt cp sets = Inr sets'" "sets_ok sets'" "length sets' = max (length sets) (Suc bt)"
    "\<And>x i. has_bit sets' x i \<longleftrightarrow> has_bit sets x i \<or> (x = cp \<and> i = bt)"
proof -
  let ?p = "push_until bt sets"
  note p = push_until_ok(1)[OF assms(1), of bt] push_until_ok(2)[of bt sets]
  then have "uset_ok (?p ! bt)" "owned (?p ! bt)" by (auto simp: sets_ok_def)
  then obtain s where s: "insert_cp (?p ! bt) cp = Inr s" "uset_ok s" "owned s" "codepoints s = insert cp (codepoints (?p ! bt))"
    using insert_cp_spec[OF _ _ assms(2)] by blast
  show ?thesis
  proof (rule that)
    show "insert_at bt cp sets = Inr (?p[bt := s])" by (simp add: insert_at_def s)
    show "sets_ok (?p[bt := s])" using p s set_update_subset_insert[of ?p bt s] by (auto simp: sets_ok_def)
    show "length (?p[bt := s]) = max (length sets) (Suc bt)" by (simp add: push_until_value)
    show "has_bit (?p[bt := s]) x i \<longleftrightarrow> has_bit sets x i \<or> (x = cp \<and> i = bt)" for x i
      using p(2) s(4) push_until_ok(4)[of bt sets x i] by (auto simp: has_bit_def nth_list_update)
  qed
qed

lemma insert_bits_spec:
  assumes "sets_ok sets" "cp \<le> 0x10FFFF"
  shows "\<exists>sets'. insert_bits cp diff bt sets = Inr sets' \<and> sets_ok sets' \<and> length sets \<le> length sets'
    \<and> (\<forall>x i. has_bit sets' x i \<longleftrightarrow> has_bit sets x i \<or> (x = cp \<and> bt \<le> i \<and> bit diff (i - bt)))
    \<and> (length sets < length sets' \<longrightarrow> bt < length sets' \<and> bit diff (length sets' - 1 - bt))"
  using assms
proof (induction diff arbitrary: bt sets rule: less_induct)
  case (less diff)
  show ?case
  proof (cases "diff = 0")
    case True
    then show ?thesis using less.prems by (simp add: insert_bits.simps)
  next
    case False
    obtain sets1 where one: "(if diff AND 1 = 1 then insert_at bt cp sets else Inr sets) = Inr sets1" "sets_ok sets1"
      "length sets1 = (if odd diff then max (length sets) (Suc bt) else length sets)"
      "\<And>x i. has_bit sets1 x i \<longleftrightarrow> has_bit sets x i \<or> (x = cp \<and> i = bt \<and> odd diff)"
    proof (cases "odd diff")
      case True
      obtain sets' where "insert_at bt cp sets = Inr sets'" "sets_ok sets'" "length sets' = max (length sets) (Suc bt)"
        "\<And>x i. has_bit sets' x i \<longleftrightarrow> has_bit sets x i \<or> (x = cp \<and> i = bt)"
        using insert_at_spec[OF less.prems] by blast
      with True show ?thesis by (intro that[of sets']) (auto simp: and_one_eq odd_iff_mod_2_eq_one)
    next
      case False
      with less.prems show ?thesis by (intro that[of sets]) (auto simp: and_one_eq odd_iff_mod_2_eq_one)
    qed
    have "diff div 2 < diff" using False by simp
    from less.IH[OF this one(2) less.prems(2), of "bt + 1"] obtain sets' where two:
      "insert_bits cp (diff div 2) (bt + 1) sets1 = Inr sets'" "sets_ok sets'" "length sets1 \<le> length sets'"
      "\<And>x i. has_bit sets' x i \<longleftrightarrow> has_bit sets1 x i \<or> (x = cp \<and> bt + 1 \<le> i \<and> bit (diff div 2) (i - (bt + 1)))"
      "length sets1 < length sets' \<longrightarrow> bt + 1 < length sets' \<and> bit (diff div 2) (length sets' - 1 - (bt + 1))" by blast
    have bits: "bit diff (i - bt) \<longleftrightarrow> (i = bt \<and> odd diff) \<or> (bt + 1 \<le> i \<and> bit (diff div 2) (i - (bt + 1)))" if "bt \<le> i" for i
    proof (cases "i = bt")
      case False
      with that have "i - bt = Suc (i - (bt + 1))" by simp
      with False that show ?thesis by (simp add: bit_Suc)
    qed (simp add: bit_0)
    have "insert_bits cp diff bt sets = Inr sets'"
      using False one(1) two(1) by (subst insert_bits.simps) (simp add: drop_bit_eq_div)
    moreover have "has_bit sets' x i \<longleftrightarrow> has_bit sets x i \<or> (x = cp \<and> bt \<le> i \<and> bit diff (i - bt))" for x i
      using bits[of i] by (auto simp: one two)
    moreover have "bt < length sets' \<and> bit diff (length sets' - 1 - bt)" if "length sets < length sets'"
    proof (cases "length sets1 < length sets'")
      case True
      with two(5) bits[of "length sets' - 1"] show ?thesis by auto
    next
      case False
      with two(3) that one(3) have "odd diff" "length sets' = Suc bt" by (auto split: if_splits)
      then show ?thesis by (simp add: bit_0)
    qed
    moreover have "length sets \<le> length sets'" using one(3) two(3) by (auto split: if_splits)
    ultimately show ?thesis using two(2) by blast
  qed
qed

lemma translation_loop_spec:
  assumes "sets_ok sets" "\<And>cp cp'. (cp, cp') \<in> set m \<Longrightarrow> cp \<le> 0x10FFFF"
  shows "\<exists>sets'. translation_loop diff m sets = Inr sets' \<and> sets_ok sets' \<and> length sets \<le> length sets'
    \<and> (\<forall>x i. has_bit sets' x i \<longleftrightarrow> has_bit sets x i \<or> (\<exists>x'. (x, x') \<in> set m \<and> bit (diff x x') i))
    \<and> (length sets < length sets' \<longrightarrow> (\<exists>x x'. (x, x') \<in> set m \<and> bit (diff x x') (length sets' - 1)))"
  using assms
proof (induction m arbitrary: sets)
  case (Cons p m)
  obtain cp cp' where p: "p = (cp, cp')" by (cases p)
  have "cp \<le> 0x10FFFF" by (rule Cons.prems(2)[of cp cp']) (simp add: p)
  from insert_bits_spec[OF Cons.prems(1) this, of "diff cp cp'" 0] obtain sets1 where one:
    "insert_bits cp (diff cp cp') 0 sets = Inr sets1" "sets_ok sets1" "length sets \<le> length sets1"
    "\<And>x i. has_bit sets1 x i \<longleftrightarrow> has_bit sets x i \<or> (x = cp \<and> bit (diff cp cp') i)"
    "length sets < length sets1 \<longrightarrow> bit (diff cp cp') (length sets1 - 1)" by auto
  from Cons.IH[OF one(2)] Cons.prems(2) obtain sets' where two:
    "translation_loop diff m sets1 = Inr sets'" "sets_ok sets'" "length sets1 \<le> length sets'"
    "\<And>x i. has_bit sets' x i \<longleftrightarrow> has_bit sets1 x i \<or> (\<exists>x'. (x, x') \<in> set m \<and> bit (diff x x') i)"
    "length sets1 < length sets' \<longrightarrow> (\<exists>x x'. (x, x') \<in> set m \<and> bit (diff x x') (length sets' - 1))"
    by (metis list.set_intros(2))
  have top: "\<exists>x x'. (x, x') \<in> set (p # m) \<and> bit (diff x x') (length sets' - 1)" if "length sets < length sets'"
  proof (cases "length sets1 < length sets'")
    case True
    with two(5) show ?thesis by auto
  next
    case False
    with two(3) that have "length sets1 = length sets'" by simp
    with one(5) that show ?thesis by (auto simp: p)
  qed
  show ?case
  proof (intro exI[of _ sets'] conjI allI impI)
    show "translation_loop diff (p # m) sets = Inr sets'" using one(1) two(1) by (simp add: p)
    show "has_bit sets' x i \<longleftrightarrow> has_bit sets x i \<or> (\<exists>x'. (x, x') \<in> set (p # m) \<and> bit (diff x x') i)" for x i
      unfolding two(4) one(4) by (auto simp: p)
  qed (use one two top in auto)
qed simp

lemma translation_loop_error:
  "(cp, cp') \<in> set m \<Longrightarrow> cp > 0x10FFFF \<Longrightarrow> diff cp cp' \<noteq> 0 \<Longrightarrow> \<exists>e. translation_loop diff m sets = Inl e"
proof (induction m arbitrary: sets)
  case (Cons p m)
  have bits_fail: "d \<noteq> 0 \<Longrightarrow> \<exists>e. insert_bits cp d bt s = Inl e" for d bt s
  proof (induction d arbitrary: bt s rule: less_induct)
    case (less d)
    show ?case
    proof (cases "d AND 1 = 1")
      case True
      then show ?thesis using less.prems Cons.prems(2)
        by (subst insert_bits.simps) (simp add: insert_at_def insert_cp_def Let_def)
    next
      case False
      then have "d div 2 \<noteq> 0" "d div 2 < d" using less.prems by (auto simp: and_one_eq)
      with False less show ?thesis by (subst insert_bits.simps) (simp add: drop_bit_eq_div)
    qed
  qed
  show ?case
  proof (cases "p = (cp, cp')")
    case True
    then show ?thesis using bits_fail[of "diff cp cp'" 0 sets] Cons.prems by auto
  next
    case False
    then show ?thesis using Cons by (cases p) (auto split: sum.splits)
  qed
qed simp

lemma bixnum_unique:
  assumes "\<And>i. has_bit sets cp i = bit (n::nat) i"
  shows "bixnum_at sets cp = n"
  by (rule bit_eqI) (simp add: bit_bixnum_at assms)

text \<open>What the number of a code point is when no code point is translated twice.\<close>

lemma translation_number:
  assumes "distinct (map fst m)" "\<And>cp cp'. (cp, cp') \<in> set m \<Longrightarrow> cp \<le> 0x10FFFF"
  obtains sets where "translation_loop diff m [] = Inr sets" "sets_ok sets"
    "\<And>cp. bixnum_at sets cp = (case map_of m cp of Some cp' \<Rightarrow> diff cp cp' | None \<Rightarrow> 0)"
    "sets \<noteq> [] \<longrightarrow> codepoints (last sets) \<noteq> {}"
proof -
  have "sets_ok []" by (simp add: sets_ok_def)
  have "\<exists>sets. translation_loop diff m [] = Inr sets \<and> sets_ok sets \<and> length ([] :: BitTranslationSets) \<le> length sets
    \<and> (\<forall>x i. has_bit sets x i \<longleftrightarrow> has_bit [] x i \<or> (\<exists>x'. (x, x') \<in> set m \<and> bit (diff x x') i))
    \<and> (length ([] :: BitTranslationSets) < length sets \<longrightarrow> (\<exists>x x'. (x, x') \<in> set m \<and> bit (diff x x') (length sets - 1)))"
    by (rule translation_loop_spec) (use \<open>sets_ok []\<close> assms(2) in auto)
  moreover have "\<not> has_bit [] x i" for x i by (simp add: has_bit_def)
  ultimately obtain sets where s:
    "translation_loop diff m [] = Inr sets" "sets_ok sets"
    "\<And>x i. has_bit sets x i \<longleftrightarrow> (\<exists>x'. (x, x') \<in> set m \<and> bit (diff x x') i)"
    "0 < length sets \<longrightarrow> (\<exists>x x'. (x, x') \<in> set m \<and> bit (diff x x') (length sets - 1))"
    by auto
  have "bixnum_at sets cp = (case map_of m cp of Some cp' \<Rightarrow> diff cp cp' | None \<Rightarrow> 0)" for cp
  proof (rule bixnum_unique)
    fix i
    show "has_bit sets cp i = bit (case map_of m cp of Some cp' \<Rightarrow> diff cp cp' | None \<Rightarrow> 0) i"
    proof (cases "map_of m cp")
      case None
      then have "(cp, x') \<notin> set m" for x' by (auto simp: map_of_eq_None_iff image_iff)
      with None show ?thesis by (simp add: s(3))
    next
      case (Some y)
      then have "(cp, x') \<in> set m \<longleftrightarrow> x' = y" for x'
        using map_of_is_SomeI[OF assms(1), of cp x'] map_of_SomeD[OF Some] Some by auto
      with Some show ?thesis by (simp add: s(3))
    qed
  qed
  moreover have "sets \<noteq> [] \<longrightarrow> codepoints (last sets) \<noteq> {}"
  proof
    assume "sets \<noteq> []"
    with s(4) obtain x x' where "(x, x') \<in> set m" "bit (diff x x') (length sets - 1)" by auto
    then have "has_bit sets x (length sets - 1)" using s(3) by blast
    then have "x \<in> codepoints (last sets)" using \<open>sets \<noteq> []\<close> by (simp add: has_bit_def last_conv_nth)
    then show "codepoints (last sets) \<noteq> {}" by blast
  qed
  ultimately show ?thesis using that s by blast
qed

lemma xor_cancel: "a XOR (b XOR a) = b" for a b :: nat
  by (metis xor.commute xor.left_commute xor_self_eq xor.right_neutral)

lemma length_by_bound:
  assumes "sets \<noteq> [] \<longrightarrow> codepoints (last sets) \<noteq> {}" "\<And>cp. bixnum_at sets cp < 2 ^ n"
  shows "length sets \<le> n"
proof (rule ccontr)
  assume long: "\<not> length sets \<le> n"
  then obtain cp where "cp \<in> codepoints (last sets)" using assms(1) by auto
  with long have "has_bit sets cp (length sets - 1)" by (cases "sets = []") (simp_all add: has_bit_def last_conv_nth)
  then have "bit (bixnum_at sets cp) (length sets - 1)" by (simp add: bit_bixnum_at)
  then have "2 ^ (length sets - 1) \<le> bixnum_at sets cp"
    by (metis bit_iff_odd div_less even_zero linorder_not_less)
  moreover have "(2::nat) ^ n \<le> 2 ^ (length sets - 1)" using long by (intro power_increasing) auto
  ultimately show False using assms(2)[of cp] by linarith
qed

end
