(* ===== verification/UTF_Props.thy ===== *)
theory UTF_Props imports Transchar begin

text \<open>
  The properties of the UTF encoder of \<open>lib/ucd/utf/utf_encoder.cpp\<close> and of the translation
  sets of \<open>lib/ucd/utf/transchar.cpp\<close>. \<open>encode 8 cp\<close> and \<open>encode 16 cp\<close> list
  the code units that \<open>nthCodeUnit\<close> gives; \<open>utf8_decode\<close> and \<open>utf16_decode\<close>
  are decoders after the standards.
\<close>

text \<open>C13: the code units the encoder gives decode, by the decoders of the standards, to the code point
  they were made from: for UTF-8 every code point, for UTF-16 all but the surrogates. There are
  \<open>encoded_length\<close> of them, each of the width of a unit.\<close>

theorem utf_encode_decode:
  assumes "cp \<le> 0x10FFFF"
  shows "utf8_decode (encode 8 cp) = Some cp \<and> (\<forall>u \<in> set (encode 8 cp). u < 0x100)
    \<and> length (encode 8 cp) = encoded_length 8 cp
    \<and> (\<not> (0xD800 \<le> cp \<and> cp < 0xE000) \<longrightarrow> utf16_decode (encode 16 cp) = Some cp)
    \<and> (\<forall>u \<in> set (encode 16 cp). u < 0x10000) \<and> length (encode 16 cp) = encoded_length 16 cp"
  using utf8_roundtrip[OF assms] utf16_roundtrip[OF assms] encode_units_bounded[OF assms] by auto

theorem utf_encode_decode_witness:
  "utf8_decode (encode 8 0x1F600) = Some 0x1F600 \<and> utf16_decode (encode 16 0x1F600) = Some 0x1F600"
  using utf_encode_decode[of "0x1F600"] by simp

text \<open>C14: the bounds the encoder computes for UTF-8. The code points of more than one unit that have
  the length of \<open>cp\<close> and share its first \<open>n\<close> units are exactly those between the two bounds;
  the tests for a low and a high code point after the n-th unit, which look at one neighbour only, decide
  whether the code point is the first or the last of them; and the code points with a given lead unit are
  exactly those between the bounds for the unit.\<close>

theorem utf8_bounds:
  assumes "cp \<le> 0x10FFFF"
  shows "(\<forall>cp' n. cp' \<le> 0x10FFFF \<and> 1 < encoded_length 8 cp \<and> 0 < n \<and> n \<le> encoded_length 8 cp \<longrightarrow>
      (encoded_length 8 cp' = encoded_length 8 cp \<and> take n (encode 8 cp') = take n (encode 8 cp)
        \<longleftrightarrow> minCodePointWithCommonCodeUnits 8 cp n \<le> cp' \<and> cp' \<le> maxCodePointWithCommonCodeUnits 8 cp n))
    \<and> (\<forall>n. 0 < n \<and> n \<le> encoded_length 8 cp \<longrightarrow>
      isLowCodePointAfterNthCodeUnit 8 cp n =
        (\<forall>cp'. cp' < cp \<longrightarrow> \<not> (encoded_length 8 cp' = encoded_length 8 cp \<and> take n (encode 8 cp') = take n (encode 8 cp)))
      \<and> isHighCodePointAfterNthCodeUnit 8 cp n =
        (\<forall>cp'. cp < cp' \<and> cp' \<le> 0x10FFFF \<longrightarrow>
           \<not> (encoded_length 8 cp' = encoded_length 8 cp \<and> take n (encode 8 cp') = take n (encode 8 cp))))
    \<and> (\<forall>b. 0x80 \<le> cp \<and> 0xC2 \<le> b \<and> b \<le> 0xF4 \<longrightarrow>
      (nthCodeUnit 8 cp 1 = b \<longleftrightarrow> minCodePointWithPrefix 8 b \<le> cp \<and> cp \<le> maxCodePointWithPrefix 8 b))"
proof (intro conjI allI impI)
  fix cp' n :: nat
  assume "cp' \<le> 0x10FFFF \<and> 1 < encoded_length 8 cp \<and> 0 < n \<and> n \<le> encoded_length 8 cp"
  then show "encoded_length 8 cp' = encoded_length 8 cp \<and> take n (encode 8 cp') = take n (encode 8 cp)
      \<longleftrightarrow> minCodePointWithCommonCodeUnits 8 cp n \<le> cp' \<and> cp' \<le> maxCodePointWithCommonCodeUnits 8 cp n"
    using common_units_interval[OF assms] by blast
qed (use isLow_iff[OF assms] isHigh_iff[OF assms] prefix_interval[OF assms] in blast)+

theorem utf8_bounds_witness:
  "minCodePointWithCommonCodeUnits 8 0xE9 1 \<le> 0xE9 \<and> 0xE9 \<le> maxCodePointWithCommonCodeUnits 8 0xE9 1
    \<and> minCodePointWithPrefix 8 0xC3 \<le> 0xE9 \<and> 0xE9 \<le> maxCodePointWithPrefix 8 0xC3"
proof -
  have len: "encoded_length 8 0xE9 = 2" by (simp add: encoded_length_def)
  have bounds: "(0xE9 :: nat) \<le> 0x10FFFF" by simp
  have unit: "nthCodeUnit 8 0xE9 1 = 0xC3"
    by (simp add: nthCodeUnit_def encoded_length_def drop_bit_div or_lead(2))
  from conjunct1[OF utf8_bounds[OF bounds], THEN spec, THEN spec, of "0xE9" 1]
    utf8_bounds[OF bounds, THEN conjunct2, THEN conjunct2, THEN spec, of "0xC3"]
  show ?thesis using unit by (simp add: len)
qed

text \<open>C15: the loop that counts the common leading units of two different code points ends, with the
  number of units before the first difference, which lies within both.\<close>

theorem utf8_common_code_units:
  assumes "cp1 \<le> 0x10FFFF" "cp2 \<le> 0x10FFFF" "cp1 \<noteq> cp2"
  shows "\<exists>k. common_code_units 8 cp1 cp2 = Some k \<and> k < encoded_length 8 cp1 \<and> k < encoded_length 8 cp2
    \<and> take k (encode 8 cp1) = take k (encode 8 cp2) \<and> encode 8 cp1 ! k \<noteq> encode 8 cp2 ! k"
  by (rule common_code_units_spec[OF assms])

theorem utf8_common_code_units_witness:
  "\<exists>k. common_code_units 8 0x20AC 0x20AD = Some k \<and> k < 3"
  using utf8_common_code_units[of "0x20AC" "0x20AD"] by (auto simp: encoded_length_def)


lemma translation_sets:
  assumes "distinct (map fst m)" "\<forall>(cp, cp') \<in> set m. cp \<le> UNICODE_MAX"
  shows "\<exists>sets lits. ComputeBitTranslationSets m XorBit = Inr sets \<and> ComputeBitTranslationSets m LiteralBit = Inr lits
    \<and> sets_ok sets \<and> sets_ok lits
    \<and> (\<forall>cp. cp XOR bixnum_at sets cp = (case map_of m cp of Some cp' \<Rightarrow> cp' | None \<Rightarrow> cp))
    \<and> (\<forall>cp. bixnum_at lits cp = (case map_of m cp of Some cp' \<Rightarrow> cp' | None \<Rightarrow> 0))
    \<and> (sets \<noteq> [] \<longrightarrow> codepoints (last sets) \<noteq> {})"
proof -
  have bound: "cp \<le> 0x10FFFF" if "(cp, cp') \<in> set m" for cp cp' using that assms(2) by auto
  obtain sets where s: "translation_loop (bit_difference XorBit) m [] = Inr sets" "sets_ok sets"
    "\<And>cp. bixnum_at sets cp = (case map_of m cp of Some cp' \<Rightarrow> bit_difference XorBit cp cp' | None \<Rightarrow> 0)"
    "sets \<noteq> [] \<longrightarrow> codepoints (last sets) \<noteq> {}"
    by (rule translation_number[OF assms(1), where diff = "bit_difference XorBit"]) (use bound in blast)+
  obtain lits where l: "translation_loop (bit_difference LiteralBit) m [] = Inr lits" "sets_ok lits"
    "\<And>cp. bixnum_at lits cp = (case map_of m cp of Some cp' \<Rightarrow> bit_difference LiteralBit cp cp' | None \<Rightarrow> 0)"
    by (rule translation_number[OF assms(1), where diff = "bit_difference LiteralBit"]) (use bound in blast)+
  have "cp XOR bixnum_at sets cp = (case map_of m cp of Some cp' \<Rightarrow> cp' | None \<Rightarrow> cp)" for cp
    by (auto simp: s(3) bit_difference_def xor_cancel split: option.splits)
  moreover have "bixnum_at lits cp = (case map_of m cp of Some cp' \<Rightarrow> cp' | None \<Rightarrow> 0)" for cp
    by (auto simp: l(3) bit_difference_def split: option.splits)
  ultimately show ?thesis
    using s(1,2,4) l(1,2) unfolding ComputeBitTranslationSets_def by blast
qed

lemma translation_length_bixnums:
  assumes "distinct (map fst m)" "\<forall>(cp, cp') \<in> set m. cp \<le> UNICODE_MAX"
  shows "\<exists>ins del. ComputeUTF8_insertionBixNum m = Inr ins \<and> ComputeUTF8_deletionBixNum m = Inr del
    \<and> (\<forall>cp. let len' = encoded_length 8 (case map_of m cp of Some cp' \<Rightarrow> cp' | None \<Rightarrow> cp) in
         encoded_length 8 cp + bixnum_at ins cp - bixnum_at del cp = len'
         \<and> (bixnum_at ins cp = 0 \<or> bixnum_at del cp = 0) \<and> bixnum_at ins cp \<le> 3 \<and> bixnum_at del cp \<le> 3)
    \<and> length ins \<le> 2 \<and> length del \<le> 2"
proof -
  have bound: "cp \<le> 0x10FFFF" if "(cp, cp') \<in> set m" for cp cp' using that assms(2) by auto
  obtain ins where i: "translation_loop insertion_difference m [] = Inr ins"
    "\<And>cp. bixnum_at ins cp = (case map_of m cp of Some cp' \<Rightarrow> insertion_difference cp cp' | None \<Rightarrow> 0)"
    "ins \<noteq> [] \<longrightarrow> codepoints (last ins) \<noteq> {}"
    by (rule translation_number[OF assms(1), where diff = insertion_difference]) (use bound in blast)+
  obtain del where d: "translation_loop deletion_difference m [] = Inr del"
    "\<And>cp. bixnum_at del cp = (case map_of m cp of Some cp' \<Rightarrow> deletion_difference cp cp' | None \<Rightarrow> 0)"
    "del \<noteq> [] \<longrightarrow> codepoints (last del) \<noteq> {}"
    by (rule translation_number[OF assms(1), where diff = deletion_difference]) (use bound in blast)+
  have small: "insertion_difference cp cp' \<le> 3" "deletion_difference cp cp' \<le> 3" for cp cp'
    by (auto simp: insertion_difference_def deletion_difference_def encoded_length_def)
  then have "bixnum_at ins cp < 4" "bixnum_at del cp < 4" for cp
    by (auto simp: i(2) d(2) less_Suc_eq_le numeral_eq_Suc split: option.splits)
  then have "length ins \<le> 2" "length del \<le> 2"
    using i(3) d(3) length_by_bound[of ins 2] length_by_bound[of del 2] by auto
  moreover have "let len' = encoded_length 8 (case map_of m cp of Some cp' \<Rightarrow> cp' | None \<Rightarrow> cp) in
      encoded_length 8 cp + bixnum_at ins cp - bixnum_at del cp = len'
      \<and> (bixnum_at ins cp = 0 \<or> bixnum_at del cp = 0) \<and> bixnum_at ins cp \<le> 3 \<and> bixnum_at del cp \<le> 3" for cp
    using small[of cp] by (auto simp: i(2) d(2) insertion_difference_def deletion_difference_def Let_def split: option.splits)
  ultimately show ?thesis
    using i(1) d(1) unfolding ComputeUTF8_insertionBixNum_def ComputeUTF8_deletionBixNum_def by blast
qed

text \<open>C17: the bit sets made from a translation map without duplicate sources encode it: the number they
  give a code point is the exclusive or with its translation (its translation in literal mode), and 0
  when it has none, so that the translation can be read back; no set beyond the highest bit that
  occurs is made. The insertion and deletion numbers of the map say by how much the UTF-8 form of a
  code point grows or shrinks, at most 3, and one of the two is 0.\<close>

theorem translation_maps:
  assumes "distinct (map fst m)" "\<forall>(cp, cp') \<in> set m. cp \<le> UNICODE_MAX"
  shows "(\<exists>sets lits. ComputeBitTranslationSets m XorBit = Inr sets \<and> ComputeBitTranslationSets m LiteralBit = Inr lits
    \<and> sets_ok sets \<and> sets_ok lits
    \<and> (\<forall>cp. cp XOR bixnum_at sets cp = (case map_of m cp of Some cp' \<Rightarrow> cp' | None \<Rightarrow> cp))
    \<and> (\<forall>cp. bixnum_at lits cp = (case map_of m cp of Some cp' \<Rightarrow> cp' | None \<Rightarrow> 0))
    \<and> (sets \<noteq> [] \<longrightarrow> codepoints (last sets) \<noteq> {}))
    \<and> (\<exists>ins del. ComputeUTF8_insertionBixNum m = Inr ins \<and> ComputeUTF8_deletionBixNum m = Inr del
    \<and> (\<forall>cp. let len' = encoded_length 8 (case map_of m cp of Some cp' \<Rightarrow> cp' | None \<Rightarrow> cp) in
         encoded_length 8 cp + bixnum_at ins cp - bixnum_at del cp = len'
         \<and> (bixnum_at ins cp = 0 \<or> bixnum_at del cp = 0) \<and> bixnum_at ins cp \<le> 3 \<and> bixnum_at del cp \<le> 3)
    \<and> length ins \<le> 2 \<and> length del \<le> 2)"
  by (rule conjI[OF translation_sets[OF assms] translation_length_bixnums[OF assms]])

theorem translation_maps_witness:
  "(\<exists>sets. ComputeBitTranslationSets [(65, 97), (66, 98)] XorBit = Inr sets \<and> 65 XOR bixnum_at sets 65 = 97)
    \<and> (\<exists>ins. ComputeUTF8_insertionBixNum [(0x41, 0x20AC)] = Inr ins \<and> bixnum_at ins 0x41 \<le> 3)"
proof
  let ?m = "[(65, 97), (66, 98)] :: TranslationMap"
  have "distinct (map fst ?m)" "\<forall>(cp, cp') \<in> set ?m. cp \<le> UNICODE_MAX" by simp_all
  from translation_maps[OF this] obtain sets where s: "ComputeBitTranslationSets ?m XorBit = Inr sets"
    "65 XOR bixnum_at sets 65 = (case map_of ?m 65 of Some cp' \<Rightarrow> cp' | None \<Rightarrow> 65)" by blast
  then show "\<exists>sets. ComputeBitTranslationSets ?m XorBit = Inr sets \<and> 65 XOR bixnum_at sets 65 = 97"
    by (intro exI[of _ sets]) simp
  show "\<exists>ins. ComputeUTF8_insertionBixNum [(0x41, 0x20AC)] = Inr ins \<and> bixnum_at ins 0x41 \<le> 3"
    using translation_maps[of "[(0x41, 0x20AC)]"] by (auto simp: Let_def)
qed

end
