(* ===== verification/RE_Base.thy ===== *)
theory RE_Base imports USet_Intervals "HOL-Library.Monad_Syntax" "HOL-Library.Multiset" "HOL-Library.Signed_Division" begin

text \<open>
  The regular expressions of \<open>include/re/adt\<close>: one datatype for the class hierarchy, the
  classifiers, and the meaning of an expression as the set of its spans in a text.
\<close>

section \<open>Alphabets\<close>

text \<open>\<open>Alphabet\<close> and its subclasses. The code compares alphabets by address; the predefined
  ones differ in name and code, so that here the value is the identity. A multiplexed alphabet has
  its source alphabet and the character classes that its codes tell apart.\<close>

datatype alphabet =
  UnicodeMappableAlphabet string string nat "codepoint list"
| CodeUnitAlphabet string string nat
| MultiplexedAlphabet string alphabet "unicode_set list"

definition Unicode :: alphabet where
  "Unicode = UnicodeMappableAlphabet ''Unicode'' ''U'' UNICODE_MAX []"

definition ASCII :: alphabet where
  "ASCII = UnicodeMappableAlphabet ''ASCII'' ''A'' 0x7F []"

definition ISO_Latin1 :: alphabet where
  "ISO_Latin1 = UnicodeMappableAlphabet ''ISO_Latin1'' ''l1'' 0xFF []"

definition Byte :: alphabet where
  "Byte = CodeUnitAlphabet ''Byte'' ''x8'' 8"

definition UTF8 :: alphabet where
  "UTF8 = CodeUnitAlphabet ''UTF8'' ''u8'' 8"

definition UTF16 :: alphabet where
  "UTF16 = CodeUnitAlphabet ''UTF16'' ''u16'' 16"

lemma alphabet_distinct [simp]:
  "Unicode \<noteq> UTF8" "UTF8 \<noteq> Unicode" "Unicode \<noteq> Byte" "Byte \<noteq> Unicode" "Byte \<noteq> UTF8" "UTF8 \<noteq> Byte"
  by (simp_all add: Unicode_def UTF8_def Byte_def)

text \<open>\<open>toUnicode\<close> reads beyond its vector for a code that is not of the alphabet
  (\<open>None\<close>), and \<open>fromUnicode\<close> reports an error for a code point that has none.\<close>

fun toUnicode :: "alphabet \<Rightarrow> nat \<Rightarrow> codepoint option" where
  "toUnicode (UnicodeMappableAlphabet nm code common aboveCommon) n =
     (if n < common then Some n
      else if n - common < length aboveCommon then Some (aboveCommon ! (n - common)) else None)"
| "toUnicode _ n = None"

fun index_of :: "codepoint \<Rightarrow> codepoint list \<Rightarrow> nat \<Rightarrow> nat option" where
  "index_of cp [] i = None"
| "index_of cp (x # xs) i = (if x = cp then Some i else index_of cp xs (i + 1))"

fun fromUnicode :: "alphabet \<Rightarrow> codepoint \<Rightarrow> nat option" where
  "fromUnicode (UnicodeMappableAlphabet nm code common aboveCommon) cp =
     (if cp < common then Some cp
      else case index_of cp aboveCommon 0 of Some i \<Rightarrow> Some (common + i) | None \<Rightarrow> None)"
| "fromUnicode _ cp = None"

fun getSize :: "alphabet \<Rightarrow> nat" where
  "getSize (UnicodeMappableAlphabet nm code common aboveCommon) = common + length aboveCommon"
| "getSize (CodeUnitAlphabet nm code bits) = 2 ^ bits"
| "getSize (MultiplexedAlphabet nm src sets) = length sets + 1"

section \<open>Expressions\<close>

datatype assertion_kind = LookBehind | LookAhead
datatype assertion_sense = Positive | Negative
datatype group_mode = CaseInsensitiveMode | GraphemeMode | CompatibilityMode
datatype group_sense = On | Off
datatype property_kind = Codepoint | Boundary
datatype property_operator = Eq | NEq

text \<open>The subclasses of \<open>RE\<close>. A pointer that may be null is an \<open>option\<close>: the definition
  of a name and the resolved form of a property expression. The bounds of a repetition are
  \<open>int\<close>s, with \<open>-1\<close> for no upper bound.\<close>

datatype re =
  Alt "re list"
| Any alphabet
| Assertion re assertion_kind assertion_sense
| CC alphabet unicode_set
| Range re re
| Diff re re
| End
| Intersect re re
| Name string string "re option" bool
| PropertyExpression property_kind string property_operator string int "re option"
| Capture string re
| Reference string re nat nat
| Group group_mode re group_sense
| Rep re int int
| Seq "re list"
| Start
| Permute "re list"

abbreviation UNBOUNDED_REP :: int where
  "UNBOUNDED_REP \<equiv> -1"

definition isEmptySet :: "re \<Rightarrow> bool" where
  "isEmptySet r = (case r of Alt rs \<Rightarrow> rs = [] | CC a s \<Rightarrow> is_empty s | _ \<Rightarrow> False)"

definition isEmptySeq :: "re \<Rightarrow> bool" where
  "isEmptySeq r = (case r of Seq rs \<Rightarrow> rs = [] | _ \<Rightarrow> False)"

definition makeEmptySet :: re where
  "makeEmptySet = Alt []"

text \<open>\<open>defined<CC>\<close> and \<open>defCast<CC>\<close>: a class reached through definitions of names.\<close>

fun defCastCC :: "re \<Rightarrow> (alphabet \<times> unicode_set) option" where
  "defCastCC (CC a s) = Some (a, s)"
| "defCastCC (Name ns nm (Some d) ext) = defCastCC d"
| "defCastCC _ = None"

section \<open>Spans\<close>

text \<open>A span is a pair of positions of a text; an expression denotes the set of spans it matches.
  What the code leaves to the context is a parameter: the spans of a symbol of an alphabet and of
  any symbol, the positions of line starts and ends, the meaning of names without definition, of
  unresolved properties, of back references, of group modes and of ranges that are not classes.\<close>

type_synonym spans = "(nat \<times> nat) set"

record sem =
  sym_spans :: "alphabet \<Rightarrow> nat \<Rightarrow> spans"
  any_spans :: "alphabet \<Rightarrow> spans"
  start_at :: "nat set"
  end_at :: "nat set"
  name_spans :: "string \<Rightarrow> string \<Rightarrow> spans"
  prop_spans :: "property_kind \<Rightarrow> string \<Rightarrow> property_operator \<Rightarrow> string \<Rightarrow> spans"
  ref_spans :: "string \<Rightarrow> nat \<Rightarrow> nat \<Rightarrow> spans"
  group_spans :: "group_mode \<Rightarrow> group_sense \<Rightarrow> spans \<Rightarrow> spans"
  range_spans :: "spans \<Rightarrow> spans \<Rightarrow> spans"

definition cc_spans :: "sem \<Rightarrow> alphabet \<Rightarrow> codepoint set \<Rightarrow> spans" where
  "cc_spans c a S = (\<Union>x \<in> S. sym_spans c a x)"

definition seq_spans :: "spans list \<Rightarrow> spans" where
  "seq_spans Rs = foldr (O) Rs Id"

definition rep_counts :: "int \<Rightarrow> int \<Rightarrow> nat set" where
  "rep_counts lb ub = {n. lb \<le> int n \<and> (ub = -1 \<or> int n \<le> ub)}"

definition rep_spans :: "spans \<Rightarrow> nat set \<Rightarrow> spans" where
  "rep_spans R N = (\<Union>n \<in> N. R ^^ n)"

definition look_spans :: "assertion_kind \<Rightarrow> assertion_sense \<Rightarrow> spans \<Rightarrow> spans" where
  "look_spans k s R = {(i, i) | i. ((\<exists>j. (if k = LookAhead then (i, j) else (j, i)) \<in> R) = (s = Positive))}"

fun den :: "sem \<Rightarrow> re \<Rightarrow> spans" where
  "den c (Alt rs) = (\<Union>r \<in> set rs. den c r)"
| "den c (Any a) = any_spans c a"
| "den c (Assertion r k s) = look_spans k s (den c r)"
| "den c (CC a s) = cc_spans c a (codepoints s)"
| "den c (Range lo hi) = range_spans c (den c lo) (den c hi)"
| "den c (Diff l r) = den c l - den c r"
| "den c End = Id_on (end_at c)"
| "den c (Intersect l r) = den c l \<inter> den c r"
| "den c (Name ns nm None ext) = name_spans c ns nm"
| "den c (Name ns nm (Some d) ext) = den c d"
| "den c (PropertyExpression k ident op v code None) = prop_spans c k ident op v"
| "den c (PropertyExpression k ident op v code (Some d)) = den c d"
| "den c (Capture nm r) = den c r"
| "den c (Reference nm r n p) = ref_spans c nm n p"
| "den c (Group m r s) = group_spans c m s (den c r)"
| "den c (Rep r lb ub) = rep_spans (den c r) (rep_counts lb ub)"
| "den c (Seq rs) = seq_spans (map (den c) rs)"
| "den c Start = Id_on (start_at c)"
| "den c (Permute rs) = (\<Union>Rs \<in> {Rs. mset Rs = mset (map (den c) rs)}. seq_spans Rs)"

text \<open>A symbol of an alphabet is not empty, and two symbols have no span in common.\<close>

definition sem_ok :: "sem \<Rightarrow> bool" where
  "sem_ok c \<longleftrightarrow> (\<forall>a x. \<forall>(i, j) \<in> sym_spans c a x. i < j)
     \<and> (\<forall>a x y. x \<noteq> y \<longrightarrow> sym_spans c a x \<inter> sym_spans c a y = {})"

text \<open>The sets of an expression are valid and the bounds of its repetitions in order.\<close>

definition valid_bounds :: "int \<Rightarrow> int \<Rightarrow> bool" where
  "valid_bounds lb ub \<longleftrightarrow> 0 \<le> lb \<and> (ub = -1 \<or> lb \<le> ub)"

fun re_ok :: "re \<Rightarrow> bool" where
  "re_ok (Alt rs) = (\<forall>r \<in> set rs. re_ok r)"
| "re_ok (Assertion r k s) = re_ok r"
| "re_ok (CC a s) = uset_ok s"
| "re_ok (Range lo hi) = (re_ok lo \<and> re_ok hi)"
| "re_ok (Diff l r) = (re_ok l \<and> re_ok r)"
| "re_ok (Intersect l r) = (re_ok l \<and> re_ok r)"
| "re_ok (Name ns nm (Some d) ext) = re_ok d"
| "re_ok (PropertyExpression k ident op v code (Some d)) = re_ok d"
| "re_ok (Capture nm r) = re_ok r"
| "re_ok (Reference nm r n p) = re_ok r"
| "re_ok (Group m r s) = re_ok r"
| "re_ok (Rep r lb ub) = (re_ok r \<and> valid_bounds lb ub)"
| "re_ok (Seq rs) = (\<forall>r \<in> set rs. re_ok r)"
| "re_ok (Permute rs) = (\<forall>r \<in> set rs. re_ok r)"
| "re_ok _ = True"

subsection \<open>Algebra of spans\<close>

lemma seq_spans_simps [simp]:
  "seq_spans [] = Id" "seq_spans (R # Rs) = R O seq_spans Rs" "seq_spans (Rs @ Rs') = seq_spans Rs O seq_spans Rs'"
proof -
  show "seq_spans [] = Id" "seq_spans (R # Rs) = R O seq_spans Rs" by (simp_all add: seq_spans_def)
  show "seq_spans (Rs @ Rs') = seq_spans Rs O seq_spans Rs'"
    by (induction Rs) (simp_all add: seq_spans_def O_assoc)
qed

lemma seq_spans_empty: "{} \<in> set Rs \<Longrightarrow> seq_spans Rs = {}"
  by (induction Rs) auto

lemma cc_spans_simps [simp]:
  "cc_spans c a {} = {}" "cc_spans c a (S \<union> T) = cc_spans c a S \<union> cc_spans c a T"
  by (auto simp: cc_spans_def)

lemma sem_okD:
  assumes "sem_ok c"
  shows "(i, j) \<in> sym_spans c a x \<Longrightarrow> i < j" "p \<in> sym_spans c a x \<Longrightarrow> p \<in> sym_spans c a y \<Longrightarrow> x = y"
proof -
  have less: "\<forall>(i, j) \<in> sym_spans c a x. i < j" and disj: "x \<noteq> y \<longrightarrow> sym_spans c a x \<inter> sym_spans c a y = {}"
    using assms unfolding sem_ok_def by blast+
  show "(i, j) \<in> sym_spans c a x \<Longrightarrow> i < j" using less by auto
  show "p \<in> sym_spans c a x \<Longrightarrow> p \<in> sym_spans c a y \<Longrightarrow> x = y" using disj by auto
qed

lemma cc_spans_inter: "sem_ok c \<Longrightarrow> cc_spans c a (S \<inter> T) = cc_spans c a S \<inter> cc_spans c a T"
  unfolding cc_spans_def by (auto dest: sem_okD(2))

lemma cc_spans_diff: "sem_ok c \<Longrightarrow> cc_spans c a (S - T) = cc_spans c a S - cc_spans c a T"
  unfolding cc_spans_def by (auto dest: sem_okD(2))

lemma cc_spans_nonempty: "sem_ok c \<Longrightarrow> (i, j) \<in> cc_spans c a S \<Longrightarrow> i < j"
  unfolding cc_spans_def by (auto dest: sem_okD(1))

lemma rep_spans_simps [simp]:
  "rep_spans R {} = {}" "rep_spans R {0} = Id" "rep_spans R {Suc 0} = R"
  "rep_spans R (M \<union> N) = rep_spans R M \<union> rep_spans R N" "rep_spans R (\<Union>k \<in> K. F k) = (\<Union>k \<in> K. rep_spans R (F k))"
  by (auto simp: rep_spans_def)

lemma rep_spans_compose: "rep_spans R M O rep_spans R N = rep_spans R {m + n | m n. m \<in> M \<and> n \<in> N}"
proof -
  have "rep_spans R M O rep_spans R N = (\<Union>m \<in> M. \<Union>n \<in> N. R ^^ m O R ^^ n)"
    unfolding rep_spans_def by blast
  also have "\<dots> = (\<Union>m \<in> M. \<Union>n \<in> N. R ^^ (m + n))" by (simp only: relpow_add)
  also have "\<dots> = rep_spans R {m + n | m n. m \<in> M \<and> n \<in> N}" unfolding rep_spans_def by blast
  finally show ?thesis .
qed

lemma rep_spans_power: "rep_spans R M ^^ k = rep_spans R {sum_list ms | ms. length ms = k \<and> set ms \<subseteq> M}"
proof (induction k)
  case (Suc k)
  have "{m + n | m n. m \<in> {sum_list ms | ms. length ms = k \<and> set ms \<subseteq> M} \<and> n \<in> M}
      = {sum_list ms | ms. length ms = Suc k \<and> set ms \<subseteq> M}" (is "?L = ?R")
  proof
    show "?L \<subseteq> ?R"
    proof
      fix x
      assume "x \<in> ?L"
      then obtain ms n where "x = sum_list ms + n" "length ms = k" "set ms \<subseteq> M" "n \<in> M" by blast
      then show "x \<in> ?R" by (intro CollectI exI[of _ "n # ms"]) simp
    qed
    show "?R \<subseteq> ?L"
    proof
      fix x
      assume "x \<in> ?R"
      then obtain n ms where "x = sum_list (n # ms)" "length ms = k" "set (n # ms) \<subseteq> M" by (auto simp: length_Suc_conv)
      then show "x \<in> ?L" by (intro CollectI exI[of _ "sum_list ms"] exI[of _ n]) auto
    qed
  qed
  with Suc show ?case by (simp add: rep_spans_compose)
qed (simp add: rep_spans_def)

lemma rep_spans_empty: "rep_spans {} N = (if 0 \<in> N then Id else {})"
proof -
  have "({} :: spans) ^^ n = (if n = 0 then Id else {})" for n by (cases n) auto
  then show ?thesis by (auto simp: rep_spans_def split: if_splits)
qed

lemma rep_counts_simps:
  "rep_counts 0 0 = {0}" "rep_counts 1 1 = {1}" "0 \<in> rep_counts lb ub \<longleftrightarrow> lb \<le> 0 \<and> (ub = -1 \<or> 0 \<le> ub)"
  by (auto simp: rep_counts_def)

subsection \<open>Classifiers\<close>

lemma is_empty_codepoints: "uset_ok s \<Longrightarrow> is_empty s \<Longrightarrow> codepoints s = {}"
proof -
  assume "uset_ok s" "is_empty s"
  then have "canonical s" by (auto simp: canonical_def canonical_runs_def is_empty_def length_Suc_conv)
  then show ?thesis using \<open>is_empty s\<close> by (simp add: is_empty_iff)
qed

lemma isEmptySeqD: "isEmptySeq r \<Longrightarrow> r = Seq []"
  by (auto simp: isEmptySeq_def split: re.splits)

lemma isEmptySeq_simps [simp]: "isEmptySeq (Seq rs) = (rs = [])"
  by (simp add: isEmptySeq_def)

lemma isEmptySet_den: "re_ok r \<Longrightarrow> isEmptySet r \<Longrightarrow> den c r = {}"
  by (auto simp: isEmptySet_def is_empty_codepoints split: re.splits)

lemma defCastCC_den:
  "re_ok r \<Longrightarrow> defCastCC r = Some (a, s) \<Longrightarrow> den c r = cc_spans c a (codepoints s) \<and> uset_ok s"
  by (induction r rule: defCastCC.induct) auto

end
