(* ===== verification/RE_Make.thy ===== *)
theory RE_Make imports RE_Base begin

text \<open>
  The constructors of \<open>include/re/adt\<close> and \<open>lib/re/adt\<close> that simplify what they build:
  \<open>makeCC\<close>, \<open>makeAlt\<close>, \<open>makeSeq\<close>, \<open>makeRep\<close>, \<open>makeDiff\<close>,
  \<open>makeIntersect\<close>, \<open>makeRange\<close> and \<open>makeAssertion\<close>. A fatal error is
  \<open>None\<close>.
\<close>

section \<open>Character classes\<close>

type_synonym cc_re = "alphabet \<times> unicode_set"

definition makeCC_codepoint :: "codepoint \<Rightarrow> alphabet \<Rightarrow> re" where
  "makeCC_codepoint cp a = CC a (UnicodeSet_singleton cp)"

definition makeCC_range :: "codepoint \<Rightarrow> codepoint \<Rightarrow> alphabet \<Rightarrow> re" where
  "makeCC_range lo hi a = CC a (UnicodeSet_range lo hi)"

definition makeCC2 :: "cc_re \<Rightarrow> cc_re \<Rightarrow> cc_re" where
  "makeCC2 cc1 cc2 =
     (if is_empty (snd cc1) then (fst cc2, copy_construct (snd cc2))
      else if is_empty (snd cc2) then (fst cc1, copy_construct (snd cc1))
      else (fst cc1, move_construct (operator_plus (snd cc1) (snd cc2))))"

definition subtractCC :: "cc_re \<Rightarrow> cc_re \<Rightarrow> cc_re" where
  "subtractCC a b = (fst a, copy_construct (operator_minus (snd a) (snd b)))"

definition intersectCC :: "cc_re \<Rightarrow> cc_re \<Rightarrow> cc_re" where
  "intersectCC a b = (fst a, copy_construct (operator_and (snd a) (snd b)))"

definition of_cc :: "cc_re \<Rightarrow> re" where
  "of_cc cc = CC (fst cc) (snd cc)"

section \<open>Sequences\<close>

fun seq_items :: "re list \<Rightarrow> re list \<Rightarrow> re + re list" where
  "seq_items [] newSeq = Inr newSeq"
| "seq_items (item # items) newSeq =
     (if isEmptySet item then Inl item
      else case item of
          Seq rs \<Rightarrow> seq_items items (newSeq @ rs)
        | _ \<Rightarrow> seq_items items (newSeq @ [item]))"

definition makeSeq :: "re list \<Rightarrow> re" where
  "makeSeq rs =
     (if rs = [] then Seq []
      else case seq_items rs [] of
          Inl item \<Rightarrow> item
        | Inr newSeq \<Rightarrow> if length newSeq = 1 then hd newSeq else Seq newSeq)"

section \<open>Alternatives and repetitions\<close>

text \<open>The variables of \<open>makeAlt\<close>.\<close>

record alt_state =
  CCs :: "cc_re list"
  nullableRE :: "re option"
  newAlt :: "re list"

fun combineCC :: "cc_re list \<Rightarrow> cc_re \<Rightarrow> cc_re list" where
  "combineCC [] cc = [cc]"
| "combineCC (existing # ccs) cc =
     (if fst existing = fst cc then makeCC2 existing cc # ccs else existing # combineCC ccs cc)"

definition note_nullable :: "re \<Rightarrow> alt_state \<Rightarrow> alt_state" where
  "note_nullable r st = (if nullableRE st = None then st\<lparr>nullableRE := Some r\<rparr> else st)"

definition push_alt :: "re \<Rightarrow> alt_state \<Rightarrow> alt_state" where
  "push_alt r st = st\<lparr>newAlt := newAlt st @ [r]\<rparr>"

fun nested_items :: "re list \<Rightarrow> alt_state \<Rightarrow> alt_state" where
  "nested_items [] st = st"
| "nested_items (a # as) st =
     nested_items as
       (case a of
          CC al s \<Rightarrow> st\<lparr>CCs := combineCC (CCs st) (al, s)\<rparr>
        | _ \<Rightarrow> if isEmptySeq a then note_nullable a st else push_alt a st)"

text \<open>\<open>makeAlt\<close> and \<open>makeRep\<close> call each other; the first takes the second as an
  argument.\<close>

definition alt_item :: "(re \<times> int \<times> int \<Rightarrow> re option) \<Rightarrow> re \<Rightarrow> alt_state \<Rightarrow> alt_state option" where
  "alt_item mk r st =
     (case r of
        CC a s \<Rightarrow> Some (st\<lparr>CCs := combineCC (CCs st) (a, s)\<rparr>)
      | Alt rs \<Rightarrow> Some (nested_items rs st)
      | Rep x lb ub \<Rightarrow>
          if lb = 0 then
            (case mk (x, 1, ub) of
               None \<Rightarrow> None
             | Some r' \<Rightarrow> Some (push_alt r' (note_nullable (Seq []) st)))
          else Some (push_alt r st)
      | _ \<Rightarrow> Some (if isEmptySeq r then note_nullable r st else push_alt r st))"

fun alt_items :: "(re \<times> int \<times> int \<Rightarrow> re option) \<Rightarrow> re list \<Rightarrow> alt_state \<Rightarrow> alt_state option" where
  "alt_items mk [] st = Some st"
| "alt_items mk (r # rs) st =
     (case alt_item mk r st of None \<Rightarrow> None | Some st' \<Rightarrow> alt_items mk rs st')"

definition alt_result :: "alt_state \<Rightarrow> re" where
  "alt_result st =
     (let l = newAlt st @ map of_cc (CCs st) @ (case nullableRE st of None \<Rightarrow> [] | Some r \<Rightarrow> [r])
      in if length l = 1 then hd l else Alt l)"

definition makeAlt_with :: "(re \<times> int \<times> int \<Rightarrow> re option) \<Rightarrow> re list \<Rightarrow> re option" where
  "makeAlt_with mk rs =
     (if rs = [] then Some (Alt [])
      else map_option alt_result (alt_items mk rs \<lparr>CCs = [], nullableRE = None, newAlt = []\<rparr>))"

definition ubCombine :: "int \<Rightarrow> int \<Rightarrow> int" where
  "ubCombine h1 h2 = (if h1 = UNBOUNDED_REP \<or> h2 = UNBOUNDED_REP then UNBOUNDED_REP else h1 * h2)"

lemma option_ord_iff: "option_ord a b \<longleftrightarrow> a = None \<or> a = b"
  by (auto simp: flat_ord_def)

lemma alt_items_mono:
  "(\<And>x. option_ord (f x) (g x)) \<Longrightarrow> option_ord (alt_items f rs st) (alt_items g rs st)"
proof (induction rs arbitrary: st)
  case (Cons r rs)
  have "option_ord (alt_item f r st) (alt_item g r st)"
    using Cons.prems unfolding option_ord_iff
    by (auto simp: alt_item_def split: re.splits option.splits) (metis option.distinct(1) option.inject)+
  moreover have "option_ord (alt_items f rs st') (alt_items g rs st')" for st'
    by (rule Cons.IH[OF Cons.prems])
  ultimately show ?case unfolding option_ord_iff by (cases "alt_item f r st"; cases "alt_item g r st") auto
qed (simp add: option_ord_iff)

lemma makeAlt_with_mono [partial_function_mono]:
  "monotone (fun_ord option_ord) option_ord (\<lambda>f. makeAlt_with f rs)"
proof (rule monotoneI)
  fix f g :: "re \<times> int \<times> int \<Rightarrow> re option"
  assume "fun_ord option_ord f g"
  then have "option_ord (alt_items f rs st) (alt_items g rs st)" for st
    by (intro alt_items_mono) (simp only: fun_ord_def)
  then show "option_ord (makeAlt_with f rs) (makeAlt_with g rs)"
    unfolding option_ord_iff makeAlt_with_def by force
qed

partial_function (option) makeRep_rec :: "re \<times> int \<times> int \<Rightarrow> re option" where
  "makeRep_rec args =
     (case args of (r, lb, ub) \<Rightarrow>
        if lb = UNBOUNDED_REP then None
        else if ub \<noteq> UNBOUNDED_REP \<and> ub < lb then None
        else if isEmptySet r then Some r
        else if isEmptySeq r then Some r
        else case r of
            Rep x l u \<Rightarrow>
              if lb = ub then Some (Rep x (l * lb) (ubCombine u ub))
              else if u = UNBOUNDED_REP then
                if l = 0 then Some r
                else if l = 1 then Some (Rep x lb UNBOUNDED_REP)
                else if lb = 0 then Some (Rep r 0 1)
                else Some (Rep x (l * lb) UNBOUNDED_REP)
              else if u > l then
                let n = (u - 2) sdiv (u - l) in
                if lb \<ge> n then Some (Rep x (l * lb) (ubCombine u ub))
                else if ub = UNBOUNDED_REP \<or> ub \<ge> n then
                  Option.bind (makeRep_rec (r, lb, n - 1))
                    (\<lambda>r2. makeAlt_with makeRep_rec [Rep x (n * l) (ubCombine u ub), r2])
                else Some (Rep r lb ub)
              else Some (Rep r lb ub)
          | Assertion _ _ _ \<Rightarrow> Some (if lb > 0 then r else Seq [])
          | _ \<Rightarrow>
              if lb = 0 \<and> ub = 0 then Some (Seq [])
              else if lb = 1 \<and> ub = 1 then Some r
              else Some (Rep r lb ub))"

definition makeRep :: "re \<Rightarrow> int \<Rightarrow> int \<Rightarrow> re option" where
  "makeRep r lb ub = makeRep_rec (r, lb, ub)"

definition makeAlt :: "re list \<Rightarrow> re option" where
  "makeAlt rs = makeAlt_with makeRep_rec rs"

definition unrollFirst :: "re \<Rightarrow> int \<Rightarrow> int \<Rightarrow> re option" where
  "unrollFirst e lb ub =
     (if ub = 0 then Some (Alt [])
      else do {
        reduced \<leftarrow> makeRep e (if lb = 0 then lb else lb - 1) (if ub = UNBOUNDED_REP then ub else ub - 1);
        let unrolled = makeSeq [e, reduced];
        if lb = 0 then makeAlt [makeSeq [], unrolled] else Some unrolled
      })"

definition unrollLast :: "re \<Rightarrow> int \<Rightarrow> int \<Rightarrow> re option" where
  "unrollLast e lb ub =
     (if ub = 0 then Some (Alt [])
      else do {
        reduced \<leftarrow> makeRep e (if lb = 0 then lb else lb - 1) (if ub = UNBOUNDED_REP then ub else ub - 1);
        let unrolled = makeSeq [reduced, e];
        if lb = 0 then makeAlt [makeSeq [], unrolled] else Some unrolled
      })"

section \<open>Difference, intersection, ranges, assertions\<close>

text \<open>Three constructors compare the addresses of their arguments. The comparison is the argument
  \<open>same\<close>; all it has to satisfy is that expressions at one address are equal.\<close>

fun is_Rep0 :: "re \<Rightarrow> bool" where
  "is_Rep0 (Rep x lb ub) = (lb = 0)"
| "is_Rep0 _ = False"

fun makeDiff :: "(re \<Rightarrow> re \<Rightarrow> bool) \<Rightarrow> re \<Rightarrow> re \<Rightarrow> re option" where
  "makeDiff same lh rh =
     (if same lh rh then Some makeEmptySet
      else if isEmptySet rh then Some lh
      else if isEmptySeq lh then
        (if isEmptySeq rh then Some makeEmptySet
         else if is_Rep0 rh then Some makeEmptySet
         else case rh of CC _ _ \<Rightarrow> Some lh | Seq _ \<Rightarrow> Some lh | _ \<Rightarrow> Some (Diff lh rh))
      else if isEmptySet lh then Some lh
      else case lh of
          Diff l r \<Rightarrow> (case makeAlt [r, rh] of None \<Rightarrow> None | Some a \<Rightarrow> makeDiff same l a)
        | _ \<Rightarrow> Some (Diff lh rh))"

declare makeDiff.simps [simp del]

definition makeIntersect :: "(re \<Rightarrow> re \<Rightarrow> bool) \<Rightarrow> re \<Rightarrow> re \<Rightarrow> re" where
  "makeIntersect same lh rh =
     (if same lh rh then lh
      else if isEmptySet lh then lh
      else if isEmptySet rh then rh
      else if isEmptySeq lh then (if is_Rep0 rh then lh else makeEmptySet)
      else if isEmptySeq rh then (if is_Rep0 lh then rh else makeEmptySet)
      else case (defCastCC lh, defCastCC rh) of
          (Some a, Some b) \<Rightarrow>
            if fst a = fst b then of_cc (intersectCC a b) else Intersect lh rh
        | _ \<Rightarrow> Intersect lh rh)"

fun definition_of :: "re \<Rightarrow> re option" where
  "definition_of (Name ns nm d ext) = d"
| "definition_of _ = None"

lemma definition_of_size: "definition_of r = Some d \<Longrightarrow> size d < size r"
  by (cases r) auto

function makeRange :: "(re \<Rightarrow> re \<Rightarrow> bool) \<Rightarrow> re \<Rightarrow> re \<Rightarrow> re option" where
  "makeRange same lo hi =
     (case (lo, hi) of
        (CC al s, CC ah t) \<Rightarrow>
          (case (uset_at s 0, uset_at t 0) of
             (Inr lo_val, Inr hi_val) \<Rightarrow>
               if USet_Query.count s = 1 \<and> USet_Query.count t = 1 \<and> lo_val \<le> hi_val then Some (makeCC_range lo_val hi_val ah) else None
           | _ \<Rightarrow> None)
      | _ \<Rightarrow>
          (case definition_of lo of
             Some d \<Rightarrow> makeRange same d hi
           | None \<Rightarrow>
               (case definition_of hi of
                  Some d \<Rightarrow> makeRange same lo d
                | None \<Rightarrow> if same lo hi then Some lo else Some (Range lo hi))))"
  by pat_completeness auto

termination
  by (relation "measure (\<lambda>(same, lo, hi). size lo + size hi)") (auto dest: definition_of_size)

declare makeRange.simps [simp del]

definition reverseKind :: "assertion_kind \<Rightarrow> assertion_kind" where
  "reverseKind k = (if k = LookAhead then LookBehind else LookAhead)"

definition negateSense :: "assertion_sense \<Rightarrow> assertion_sense" where
  "negateSense s = (if s = Positive then Negative else Positive)"

definition makeAssertion :: "re \<Rightarrow> assertion_kind \<Rightarrow> assertion_sense \<Rightarrow> re" where
  "makeAssertion r k s =
     (if isEmptySet r then (if s = Negative then Seq [] else Alt [])
      else if isEmptySeq r then (if s = Positive then Seq [] else Alt [])
      else Assertion r k s)"

section \<open>Derived expressions\<close>

definition makeComplement :: "(re \<Rightarrow> re \<Rightarrow> bool) \<Rightarrow> re \<Rightarrow> re option" where
  "makeComplement same s = makeDiff same (Any Unicode) s"

definition makeZerowidthComplement :: "(re \<Rightarrow> re \<Rightarrow> bool) \<Rightarrow> re \<Rightarrow> re option" where
  "makeZerowidthComplement same s = makeDiff same (makeSeq []) s"

definition makeWordBoundary :: re where
  "makeWordBoundary = PropertyExpression Boundary ''word'' Eq [] (-1) None"

definition makeWordNonBoundary :: "(re \<Rightarrow> re \<Rightarrow> bool) \<Rightarrow> re option" where
  "makeWordNonBoundary same = makeZerowidthComplement same makeWordBoundary"

definition makeWordBegin :: re where
  "makeWordBegin = makeAssertion (PropertyExpression Codepoint ''word'' Eq [] (-1) None) LookBehind Negative"

definition makeWordEnd :: re where
  "makeWordEnd = makeAssertion (PropertyExpression Codepoint ''word'' Eq [] (-1) None) LookAhead Negative"

definition makeUnicodeBreak :: "re option" where
  "makeUnicodeBreak =
     makeAlt [makeCC_range 0x0A 0x0C Unicode, makeCC_codepoint 0x85 Unicode, makeCC_range 0x2028 0x2029 Unicode,
       makeSeq [makeCC_codepoint 0x0D Unicode, makeAssertion (makeCC_codepoint 0x0A Unicode) LookAhead Negative]]"

definition u32string2re :: "codepoint list \<Rightarrow> re" where
  "u32string2re s = makeSeq (map (\<lambda>c. makeCC_codepoint c Unicode) s)"

section \<open>Matching the empty string, matchable code points\<close>

text \<open>\<open>None\<close> is the use of a name without definition.\<close>

fun matchesEmptyString :: "re \<Rightarrow> bool option"
  and some_matches_empty :: "re list \<Rightarrow> bool option"
  and all_match_empty :: "re list \<Rightarrow> bool option" where
  "matchesEmptyString (Alt rs) = some_matches_empty rs"
| "matchesEmptyString (Seq rs) = all_match_empty rs"
| "matchesEmptyString (Rep x lb ub) = (if lb = 0 then Some True else matchesEmptyString x)"
| "matchesEmptyString Start = Some True"
| "matchesEmptyString End = Some True"
| "matchesEmptyString (Assertion x k s) = Some (s = Negative)"
| "matchesEmptyString (Diff l r) =
     (case matchesEmptyString l of
        Some True \<Rightarrow> map_option Not (matchesEmptyString r)
      | b \<Rightarrow> b)"
| "matchesEmptyString (Intersect l r) =
     (case matchesEmptyString l of
        Some True \<Rightarrow> matchesEmptyString r
      | b \<Rightarrow> b)"
| "matchesEmptyString (Any a) = Some False"
| "matchesEmptyString (CC a s) = Some False"
| "matchesEmptyString (Group m x s) = matchesEmptyString x"
| "matchesEmptyString (Name ns nm d ext) = (case d of None \<Rightarrow> None | Some x \<Rightarrow> matchesEmptyString x)"
| "matchesEmptyString (Capture nm x) = matchesEmptyString x"
| "matchesEmptyString (Range lo hi) = Some False"
| "matchesEmptyString (PropertyExpression k ident op v code d) = Some False"
| "matchesEmptyString (Reference nm x n p) = Some False"
| "matchesEmptyString (Permute rs) = Some False"
| "some_matches_empty [] = Some False"
| "some_matches_empty (r # rs) =
     (case matchesEmptyString r of Some False \<Rightarrow> some_matches_empty rs | b \<Rightarrow> b)"
| "all_match_empty [] = Some True"
| "all_match_empty (r # rs) =
     (case matchesEmptyString r of Some True \<Rightarrow> all_match_empty rs | b \<Rightarrow> b)"

text \<open>\<open>matchableCodepoints\<close>; the loop over a sequence has the flag \<open>pastCC\<close>.\<close>

definition emptyCC :: cc_re where
  "emptyCC = (Unicode, UnicodeSet_empty)"

fun matchableCodepoints :: "re \<Rightarrow> cc_re option"
  and matchable_alts :: "cc_re \<Rightarrow> re list \<Rightarrow> cc_re option"
  and matchable_seq :: "cc_re \<Rightarrow> bool \<Rightarrow> re list \<Rightarrow> cc_re option" where
  "matchableCodepoints (CC a s) = Some (a, s)"
| "matchableCodepoints (Alt rs) = matchable_alts emptyCC rs"
| "matchableCodepoints (Seq rs) = matchable_seq emptyCC False rs"
| "matchableCodepoints (Rep x lb ub) =
     (if lb \<le> 1 then matchableCodepoints x
      else case matchesEmptyString x of
          None \<Rightarrow> None
        | Some b \<Rightarrow> if b then matchableCodepoints x else Some emptyCC)"
| "matchableCodepoints (Diff l r) =
     (case (matchableCodepoints l, matchableCodepoints r) of
        (Some a, Some b) \<Rightarrow> Some (subtractCC a b) | _ \<Rightarrow> None)"
| "matchableCodepoints (Intersect l r) =
     (case (matchableCodepoints l, matchableCodepoints r) of
        (Some a, Some b) \<Rightarrow> Some (intersectCC a b) | _ \<Rightarrow> None)"
| "matchableCodepoints (Any a) = Some (Unicode, UnicodeSet_range 0 0x10FFFF)"
| "matchableCodepoints (Name ns nm d ext) = (case d of None \<Rightarrow> None | Some x \<Rightarrow> matchableCodepoints x)"
| "matchableCodepoints (Assertion x k s) = Some emptyCC"
| "matchableCodepoints (Range lo hi) = Some emptyCC"
| "matchableCodepoints End = Some emptyCC"
| "matchableCodepoints Start = Some emptyCC"
| "matchableCodepoints (PropertyExpression k ident op v code d) = Some emptyCC"
| "matchableCodepoints (Capture nm x) = Some emptyCC"
| "matchableCodepoints (Reference nm x n p) = Some emptyCC"
| "matchableCodepoints (Group m x s) = Some emptyCC"
| "matchableCodepoints (Permute rs) = Some emptyCC"
| "matchable_alts cc [] = Some cc"
| "matchable_alts cc (r # rs) =
     (case matchableCodepoints r of None \<Rightarrow> None | Some cc' \<Rightarrow> matchable_alts (makeCC2 cc cc') rs)"
| "matchable_seq cc pastCC [] = Some cc"
| "matchable_seq cc pastCC (r # rs) =
     (if pastCC then
        (if r = End then matchable_seq cc pastCC rs
         else case matchesEmptyString r of
             None \<Rightarrow> None
           | Some b \<Rightarrow> if b then matchable_seq cc pastCC rs else Some emptyCC)
      else if r = End then Some emptyCC
      else case (matchableCodepoints r, matchesEmptyString r) of
          (Some cc', Some b) \<Rightarrow> matchable_seq (makeCC2 cc cc') (\<not> b) rs
        | _ \<Rightarrow> None)"

end
