(* ===== verification/RE_Rep.thy ===== *)
theory RE_Rep imports RE_Make begin

text \<open>
  What \<open>makeRep\<close> and \<open>makeAlt\<close> denote: the arithmetic of nested bounds, the
  alternatives, and the inputs on which the two end with a fatal error.
\<close>

section \<open>Bounds of nested repetitions\<close>

lemma times_not_minus_one: "0 \<le> u \<Longrightarrow> 0 \<le> k \<Longrightarrow> u * k \<noteq> -1" for u k :: int
  using mult_nonneg_nonneg[of u k] by linarith

lemma rep_counts_iff: "n \<in> rep_counts lb ub \<longleftrightarrow> lb \<le> int n \<and> (ub = -1 \<or> int n \<le> ub)"
  by (simp add: rep_counts_def)

lemma rep_counts_sum:
  assumes "valid_bounds a b" "valid_bounds c d"
  shows "{m + n | m n. m \<in> rep_counts a b \<and> n \<in> rep_counts c d}
    = rep_counts (a + c) (if b = -1 \<or> d = -1 then -1 else b + d)" (is "?L = ?R")
proof
  show "?L \<subseteq> ?R" by (auto simp: rep_counts_iff split: if_splits)
  show "?R \<subseteq> ?L"
  proof
    fix x
    assume x: "x \<in> ?R"
    consider "d = -1" | "d \<noteq> -1" "b = -1" | "d \<noteq> -1" "b \<noteq> -1" by blast
    then show "x \<in> ?L"
    proof cases
      case 1
      with x assms show ?thesis
        by (intro CollectI exI[of _ "nat a"] exI[of _ "x - nat a"]) (auto simp: rep_counts_iff valid_bounds_def)
    next
      case 2
      with x assms show ?thesis
        by (intro CollectI exI[of _ "x - nat c"] exI[of _ "nat c"]) (auto simp: rep_counts_iff valid_bounds_def)
    next
      case 3
      with x assms show ?thesis
        by (intro CollectI exI[of _ "nat (max a (int x - d))"] exI[of _ "x - nat (max a (int x - d))"])
          (auto simp: rep_counts_iff valid_bounds_def)
    qed
  qed
qed

lemma valid_bounds_mult: "valid_bounds l u \<Longrightarrow> valid_bounds (l * int k) (if u = -1 then -1 else u * int k)"
  by (auto simp: valid_bounds_def mult_right_mono)

text \<open>The counts of \<open>k\<close> repetitions, each of them between \<open>l\<close> and \<open>u\<close>.\<close>

definition nested_counts :: "int \<Rightarrow> int \<Rightarrow> nat \<Rightarrow> nat set" where
  "nested_counts l u k = (if k = 0 then {0} else rep_counts (l * int k) (if u = -1 then -1 else u * int k))"

lemma rep_spans_counts_power:
  assumes "valid_bounds l u"
  shows "rep_spans R (rep_counts l u) ^^ k = rep_spans R (nested_counts l u k)"
proof (induction k)
  case (Suc k)
  show ?case
  proof (cases "k = 0")
    case True
    then show ?thesis using assms by (simp add: nested_counts_def)
  next
    case False
    have "valid_bounds (l * int k) (if u = -1 then -1 else u * int k)" by (rule valid_bounds_mult[OF assms])
    note sum = rep_counts_sum[OF this assms]
    have "u \<noteq> -1 \<Longrightarrow> u * int k \<noteq> -1" using assms times_not_minus_one[of u "int k"] by (auto simp: valid_bounds_def)
    then have "{m + n | m n. m \<in> nested_counts l u k \<and> n \<in> rep_counts l u} = nested_counts l u (Suc k)"
      using sum False by (simp add: nested_counts_def algebra_simps)
    then show ?thesis by (simp add: Suc rep_spans_compose)
  qed
qed (simp add: nested_counts_def)

lemma rep_spans_nested:
  assumes "valid_bounds l u"
  shows "rep_spans (rep_spans R (rep_counts l u)) N = rep_spans R (\<Union>k \<in> N. nested_counts l u k)"
  unfolding rep_spans_def[of "rep_spans R (rep_counts l u)"] by (simp add: rep_spans_counts_power[OF assms])

lemma nested_counts_iff:
  assumes "u = -1 \<or> 0 \<le> u"
  shows "x \<in> nested_counts l u k \<longleftrightarrow> (k = 0 \<and> x = 0) \<or> (0 < k \<and> l * int k \<le> int x \<and> (u = -1 \<or> int x \<le> u * int k))"
  using assms times_not_minus_one[of u "int k"] by (auto simp: nested_counts_def rep_counts_iff)

lemma nested_exact:
  assumes "valid_bounds l u" "0 \<le> k" "\<not> (u = -1 \<and> k = 0)"
  shows "(\<Union>j \<in> rep_counts k k. nested_counts l u j) = rep_counts (l * k) (ubCombine u k)"
proof -
  have counts: "rep_counts k k = {nat k}" using assms(2) by (auto simp: rep_counts_iff)
  show ?thesis
  proof (cases "k = 0")
    case True
    with assms(3) show ?thesis by (auto simp: counts nested_counts_def ubCombine_def rep_counts_iff)
  next
    case False
    then show ?thesis using assms(2) by (auto simp: counts nested_counts_def ubCombine_def)
  qed
qed

lemma mult_bound: "0 \<le> l \<Longrightarrow> j \<le> k \<Longrightarrow> l * j \<le> l * k" for l j k :: int
  by (rule mult_left_mono)

lemma nested_unbounded:
  assumes "0 \<le> l" "0 \<le> lb" "ub = -1 \<or> lb < ub"
  shows "(\<Union>j \<in> rep_counts lb ub. nested_counts l (-1) j) =
    (if lb = 0 \<and> 1 < l then {0} \<union> rep_counts l (-1) else rep_counts (l * lb) (-1))" (is "?L = ?R")
proof
  show "?L \<subseteq> ?R"
  proof
    fix x
    assume "x \<in> ?L"
    then obtain j where j: "j \<in> rep_counts lb ub" "x \<in> nested_counts l (-1) j" by blast
    have "l * lb \<le> l * int j"
      using j(1) assms(1) by (intro mult_bound) (auto simp: rep_counts_iff)
    moreover have "0 < j \<Longrightarrow> l * int j \<le> int x \<Longrightarrow> l \<le> int x" using mult_bound[OF assms(1), of 1 "int j"] by simp
    ultimately show "x \<in> ?R" using j assms by (auto simp: nested_counts_iff rep_counts_iff)
  qed
  show "?R \<subseteq> ?L"
  proof
    fix x
    assume x: "x \<in> ?R"
    show "x \<in> ?L"
    proof (cases "lb = 0")
      case True
      then have "0 \<in> rep_counts lb ub" "1 \<in> rep_counts lb ub" using assms(3) by (auto simp: rep_counts_iff)
      moreover have "x \<in> nested_counts l (-1) 0 \<or> x \<in> nested_counts l (-1) 1"
        using x True assms(1) by (auto simp: nested_counts_iff rep_counts_iff split: if_splits)
      ultimately show ?thesis by blast
    next
      case False
      then have "nat lb \<in> rep_counts lb ub" "x \<in> nested_counts l (-1) (nat lb)"
        using x assms by (auto simp: nested_counts_iff rep_counts_iff)
      then show ?thesis by blast
    qed
  qed
qed

text \<open>From \<open>(u - 2) div (u - l)\<close> repetitions on the ranges of counts leave no gap.\<close>

lemma no_gap:
  fixes k l u :: int
  assumes "0 \<le> l" "l < u" "(u - 2) div (u - l) \<le> k"
  shows "(k + 1) * l \<le> k * u + 1"
proof -
  define d where "d = u - l"
  have d: "0 < d" using assms(2) by (simp add: d_def)
  have "u - 2 = (u - 2) div d * d + (u - 2) mod d" by simp
  moreover have "(u - 2) mod d < d" using d by simp
  moreover have "(u - 2) div d * d \<le> k * d" using assms(3) d by (intro mult_right_mono) (auto simp: d_def)
  ultimately have "u - 2 < k * d + d" by linarith
  then show ?thesis by (simp add: d_def algebra_simps)
qed

lemma reach_upper:
  assumes "0 \<le> l" "l < u" "(u - 2) div (u - l) \<le> int m" "int m * l \<le> int x" "x \<le> t * nat u" "m \<le> t"
  shows "\<exists>j. m \<le> j \<and> j \<le> t \<and> int j * l \<le> int x \<and> int x \<le> int j * u"
  using assms(5,6)
proof (induction "t - m" arbitrary: t)
  case 0
  then have "t = m" by simp
  moreover have "int x \<le> int (t * nat u)" using 0(2) by (simp only: of_nat_le_iff)
  ultimately show ?case using assms by (intro exI[of _ m]) simp
next
  case (Suc d)
  then obtain t' where t: "t = Suc t'" "m \<le> t'" "d = t' - m" by (cases t) auto
  show ?case
  proof (cases "x \<le> t' * nat u")
    case True
    then obtain j where "m \<le> j" "j \<le> t'" "int j * l \<le> int x" "int x \<le> int j * u"
      using Suc(1)[of t'] t by auto
    with t show ?thesis by (intro exI[of _ j]) simp
  next
    case False
    then have "t' * nat u + 1 \<le> x" by simp
    then have "int (t' * nat u) + 1 \<le> int x" by linarith
    then have "int t' * u + 1 \<le> int x" using assms(1,2) by simp
    moreover have "(int t' + 1) * l \<le> int t' * u + 1" using no_gap[OF assms(1,2), of "int t'"] assms(3) t(2) by simp
    moreover have "int x \<le> int (t * nat u)" using Suc.prems(1) by (simp only: of_nat_le_iff)
    then have "int x \<le> int t * u" using assms(1,2) by simp
    ultimately show ?thesis using t by (intro exI[of _ t]) (simp add: algebra_simps)
  qed
qed

lemma nested_bounded:
  assumes "0 \<le> l" "l < u" "(u - 2) div (u - l) \<le> lb" "0 \<le> lb" "ub = -1 \<or> lb \<le> ub"
  shows "(\<Union>j \<in> rep_counts lb ub. nested_counts l u j) = rep_counts (l * lb) (ubCombine u ub)" (is "?L = ?R")
proof
  show "?L \<subseteq> ?R"
  proof
    fix x
    assume "x \<in> ?L"
    then obtain j where j: "j \<in> rep_counts lb ub" "x \<in> nested_counts l u j" by blast
    have "l * lb \<le> l * int j" using j(1) assms(1) by (intro mult_bound) (auto simp: rep_counts_iff)
    moreover have "int x \<le> u * int j \<Longrightarrow> int j \<le> ub \<Longrightarrow> int x \<le> u * ub"
      using mult_bound[of u "int j" ub] assms(1,2) by linarith
    ultimately show "x \<in> ?R" using j assms by (auto simp: nested_counts_iff rep_counts_iff ubCombine_def)
  qed
  show "?R \<subseteq> ?L"
  proof
    fix x
    assume x: "x \<in> ?R"
    define t where "t = (if ub = -1 then max x (nat lb) else nat ub)"
    have u: "1 \<le> nat u" using assms(1,2) by simp
    have "x \<le> t * nat u"
    proof (cases "ub = -1")
      case True
      then have "x \<le> t" by (simp add: t_def)
      also have "t \<le> t * nat u" using u by (metis mult_le_mono2 nat_mult_1_right)
      finally show ?thesis .
    next
      case False
      then have "int x \<le> u * ub" using x assms times_not_minus_one[of u ub] by (auto simp: rep_counts_iff ubCombine_def)
      then have "int x \<le> int (nat ub * nat u)" using False assms by (simp add: mult.commute)
      then show ?thesis using False by (simp only: t_def of_nat_le_iff if_False)
    qed
    moreover have "nat lb \<le> t" using assms(5) by (auto simp: t_def)
    moreover have "int (nat lb) * l \<le> int x" using x assms(4) by (simp add: rep_counts_iff mult.commute)
    ultimately obtain j where j: "nat lb \<le> j" "j \<le> t" "int j * l \<le> int x" "int x \<le> int j * u"
      using reach_upper[OF assms(1,2), of "nat lb" x t] assms(3,4) by auto
    have "j \<in> rep_counts lb ub" using j(1,2) assms(4,5) by (auto simp: rep_counts_iff t_def)
    moreover have "x \<in> nested_counts l u j"
      using j(3,4) assms(1,2) by (subst nested_counts_iff) (auto simp: mult.commute)
    ultimately show "x \<in> ?L" by blast
  qed
qed

section \<open>Character classes\<close>

abbreviation cc_den :: "sem \<Rightarrow> cc_re \<Rightarrow> spans" where
  "cc_den c cc \<equiv> cc_spans c (fst cc) (codepoints (snd cc))"

lemma copies [simp]:
  "codepoints (copy_construct s) = codepoints s" "uset_ok (copy_construct s) = uset_ok s"
  "codepoints (move_construct s) = codepoints s" "uset_ok (move_construct s) = uset_ok s"
  by (simp_all add: codepoints_def dense_def uset_ok_def copy_construct_def move_construct_def)

lemma of_cc_simps [simp]:
  "den c (of_cc cc) = cc_den c cc" "re_ok (of_cc cc) = uset_ok (snd cc)"
  by (simp_all add: of_cc_def)

lemma makeCC2_spec:
  assumes "uset_ok (snd cc1)" "uset_ok (snd cc2)"
  shows "uset_ok (snd (makeCC2 cc1 cc2))" "codepoints (snd (makeCC2 cc1 cc2)) = codepoints (snd cc1) \<union> codepoints (snd cc2)"
    "fst cc1 = fst cc2 \<Longrightarrow> fst (makeCC2 cc1 cc2) = fst cc1"
  using assms by (auto simp: makeCC2_def is_empty_codepoints uset_simps uset_intros canonical_uset_ok)

lemma subtractCC_spec:
  assumes "uset_ok (snd a)" "uset_ok (snd b)"
  shows "uset_ok (snd (subtractCC a b))" "fst (subtractCC a b) = fst a"
    "codepoints (snd (subtractCC a b)) = codepoints (snd a) - codepoints (snd b)"
  using assms by (simp_all add: subtractCC_def uset_simps uset_intros canonical_uset_ok)

lemma intersectCC_spec:
  assumes "uset_ok (snd a)" "uset_ok (snd b)"
  shows "uset_ok (snd (intersectCC a b))" "fst (intersectCC a b) = fst a"
    "codepoints (snd (intersectCC a b)) = codepoints (snd a) \<inter> codepoints (snd b)"
  using assms by (simp_all add: intersectCC_def uset_simps uset_intros canonical_uset_ok)

section \<open>Sequences\<close>

lemma seq_items_spec:
  assumes "\<forall>r \<in> set items. re_ok r" "\<forall>r \<in> set acc. re_ok r"
  shows "case seq_items items acc of
      Inl item \<Rightarrow> re_ok item \<and> den c item = {} \<and> seq_spans (map (den c) (acc @ items)) = {}
    | Inr rs \<Rightarrow> (\<forall>r \<in> set rs. re_ok r) \<and> seq_spans (map (den c) rs) = seq_spans (map (den c) (acc @ items))"
  using assms
proof (induction items arbitrary: acc)
  case (Cons item items)
  show ?case
  proof (cases "isEmptySet item")
    case True
    then have "den c item = {}" using Cons.prems by (simp add: isEmptySet_den)
    with True Cons.prems show ?thesis by simp
  next
    case False
    have ok: "\<forall>r \<in> set items. re_ok r" "re_ok item" using Cons.prems by simp_all
    show ?thesis
    proof (cases item)
      case (Seq rs)
      have "\<forall>r \<in> set (acc @ rs). re_ok r" using Seq ok(2) Cons.prems(2) by auto
      from Cons.IH[OF ok(1) this] show ?thesis using False Seq by (simp split: sum.splits)
    qed (insert Cons.IH[OF ok(1), of "acc @ [item]"] False ok(2) Cons.prems(2), auto split: sum.splits)
  qed
qed simp

lemma makeSeq_spec:
  assumes "\<forall>r \<in> set rs. re_ok r"
  shows "re_ok (makeSeq rs)" "den c (makeSeq rs) = seq_spans (map (den c) rs)"
proof -
  have "re_ok (makeSeq rs) \<and> den c (makeSeq rs) = seq_spans (map (den c) rs)"
    using seq_items_spec[OF assms, of "[]" c]
    by (cases "seq_items rs []") (auto simp: makeSeq_def length_Suc_conv)
  then show "re_ok (makeSeq rs)" "den c (makeSeq rs) = seq_spans (map (den c) rs)" by simp_all
qed

section \<open>Alternatives\<close>

text \<open>What \<open>makeAlt\<close> needs of the function it calls for repetitions whose lower bound it
  raises from 0 to 1.\<close>

definition raises_bound :: "(re \<times> int \<times> int \<Rightarrow> re option) \<Rightarrow> sem \<Rightarrow> re \<Rightarrow> bool" where
  "raises_bound mk c r \<longleftrightarrow> (case r of
      Rep x lb ub \<Rightarrow> lb = 0 \<longrightarrow> (\<forall>r'. mk (x, 1, ub) = Some r' \<longrightarrow>
        re_ok r' \<and> Id \<union> den c r' = den c r)
    | _ \<Rightarrow> True)"

definition ccs_den :: "sem \<Rightarrow> cc_re list \<Rightarrow> spans" where
  "ccs_den c ccs = (\<Union>cc \<in> set ccs. cc_den c cc)"

lemma combineCC_spec:
  assumes "\<forall>cc \<in> set ccs. uset_ok (snd cc)" "uset_ok (snd cc)"
  shows "\<forall>cc' \<in> set (combineCC ccs cc). uset_ok (snd cc')" "ccs_den c (combineCC ccs cc) = ccs_den c ccs \<union> cc_den c cc"
proof -
  have "(\<forall>cc' \<in> set (combineCC ccs cc). uset_ok (snd cc')) \<and> ccs_den c (combineCC ccs cc) = ccs_den c ccs \<union> cc_den c cc"
    using assms by (induction ccs) (auto simp: ccs_den_def makeCC2_spec)
  then show "\<forall>cc' \<in> set (combineCC ccs cc). uset_ok (snd cc')" "ccs_den c (combineCC ccs cc) = ccs_den c ccs \<union> cc_den c cc"
    by simp_all
qed

definition alt_state_den :: "sem \<Rightarrow> alt_state \<Rightarrow> spans" where
  "alt_state_den c st = (\<Union>r \<in> set (newAlt st). den c r) \<union> ccs_den c (CCs st)
     \<union> (case nullableRE st of None \<Rightarrow> {} | Some r \<Rightarrow> den c r)"

definition alt_state_ok :: "alt_state \<Rightarrow> bool" where
  "alt_state_ok st \<longleftrightarrow> (\<forall>r \<in> set (newAlt st). re_ok r) \<and> (\<forall>cc \<in> set (CCs st). uset_ok (snd cc))
     \<and> nullableRE st \<in> {None, Some (Seq [])}"

lemma alt_state_steps:
  assumes "alt_state_ok st"
  shows "re_ok r \<Longrightarrow> alt_state_ok (push_alt r st)" "alt_state_den c (push_alt r st) = alt_state_den c st \<union> den c r"
    "alt_state_ok (note_nullable (Seq []) st)" "alt_state_den c (note_nullable (Seq []) st) = alt_state_den c st \<union> Id"
    "uset_ok s \<Longrightarrow> alt_state_ok (st\<lparr>CCs := combineCC (CCs st) (a, s)\<rparr>)"
    "uset_ok s \<Longrightarrow> alt_state_den c (st\<lparr>CCs := combineCC (CCs st) (a, s)\<rparr>) = alt_state_den c st \<union> cc_spans c a (codepoints s)"
  using assms combineCC_spec[of "CCs st" "(a, s)"]
  by (auto simp: alt_state_ok_def alt_state_den_def push_alt_def note_nullable_def)

lemma nested_items_spec:
  assumes "alt_state_ok st" "\<forall>r \<in> set rs. re_ok r"
  shows "alt_state_ok (nested_items rs st) \<and> alt_state_den c (nested_items rs st) = alt_state_den c st \<union> (\<Union>r \<in> set rs. den c r)"
  using assms
proof (induction rs arbitrary: st)
  case (Cons r rs)
  define st' where "st' = (case r of CC al s \<Rightarrow> st\<lparr>CCs := combineCC (CCs st) (al, s)\<rparr>
     | _ \<Rightarrow> if isEmptySeq r then note_nullable r st else push_alt r st)"
  have "alt_state_ok st' \<and> alt_state_den c st' = alt_state_den c st \<union> den c r"
    using alt_state_steps(1,3,5)[OF Cons.prems(1)] alt_state_steps(2,4,6)[OF Cons.prems(1), where c = c] Cons.prems(2) unfolding st'_def
    by (cases r) (auto simp: isEmptySeq_def)
  moreover have "nested_items (r # rs) st = nested_items rs st'" by (simp add: st'_def)
  ultimately show ?case using Cons.IH[of st'] Cons.prems(2) by auto
qed simp

lemma alt_item_spec:
  assumes "alt_state_ok st" "re_ok r" "raises_bound mk c r" "alt_item mk r st = Some st'"
  shows "alt_state_ok st' \<and> alt_state_den c st' = alt_state_den c st \<union> den c r"
proof (cases r)
  case (Rep x lb ub)
  show ?thesis
  proof (cases "lb = 0")
    case True
    with assms(4) Rep obtain r' where r': "mk (x, 1, ub) = Some r'" "st' = push_alt r' (note_nullable (Seq []) st)"
      by (auto simp: alt_item_def split: option.splits)
    with assms(3) Rep True have "re_ok r'" "Id \<union> den c r' = den c r" by (auto simp: raises_bound_def)
    then show ?thesis
      using alt_state_steps(1)[OF alt_state_steps(3)[OF assms(1)]] alt_state_steps(2)[OF alt_state_steps(3)[OF assms(1)], where c = c] alt_state_steps(4)[OF assms(1), where c = c] r'(2) by auto
  next
    case False
    with assms(2,4) Rep alt_state_steps(1)[OF assms(1)] alt_state_steps(2)[OF assms(1), where c = c] show ?thesis by (auto simp: alt_item_def)
  qed
next
  case (Alt rs)
  with assms nested_items_spec[OF assms(1), of rs c] show ?thesis by (auto simp: alt_item_def)
qed (insert assms alt_state_steps(1,3,5)[OF assms(1)] alt_state_steps(2,4,6)[OF assms(1), where c = c], auto simp: alt_item_def isEmptySeq_def split: if_splits)

lemma alt_items_spec:
  assumes "alt_state_ok st" "\<forall>r \<in> set rs. re_ok r \<and> raises_bound mk c r" "alt_items mk rs st = Some st'"
  shows "alt_state_ok st' \<and> alt_state_den c st' = alt_state_den c st \<union> (\<Union>r \<in> set rs. den c r)"
  using assms
proof (induction rs arbitrary: st)
  case (Cons r rs)
  from Cons.prems(3) obtain st1 where st1: "alt_item mk r st = Some st1" "alt_items mk rs st1 = Some st'"
    by (auto split: option.splits)
  with alt_item_spec[OF Cons.prems(1) _ _ st1(1), of c] Cons.IH[of st1] Cons.prems(2) show ?case by auto
qed simp

lemma alt_result_spec:
  assumes "alt_state_ok st"
  shows "re_ok (alt_result st)" "den c (alt_result st) = alt_state_den c st"
proof -
  let ?l = "newAlt st @ map of_cc (CCs st) @ (case nullableRE st of None \<Rightarrow> [] | Some r \<Rightarrow> [r])"
  have "\<forall>r \<in> set ?l. re_ok r" "(\<Union>r \<in> set ?l. den c r) = alt_state_den c st"
    using assms by (auto simp: alt_state_ok_def alt_state_den_def ccs_den_def split: option.splits)
  moreover have "alt_result st = (if length ?l = 1 then hd ?l else Alt ?l)" by (simp add: alt_result_def Let_def)
  moreover have "length ?l = 1 \<Longrightarrow> \<exists>r. ?l = [r]" by (simp only: length_Suc_conv One_nat_def) simp
  ultimately show "re_ok (alt_result st)" "den c (alt_result st) = alt_state_den c st" by fastforce+
qed

lemma makeAlt_with_spec:
  assumes "\<forall>r \<in> set rs. re_ok r \<and> raises_bound mk c r" "makeAlt_with mk rs = Some r'"
  shows "re_ok r'" "den c r' = (\<Union>r \<in> set rs. den c r)"
proof -
  let ?init = "\<lparr>CCs = [], nullableRE = None, newAlt = []\<rparr> :: alt_state"
  have init: "alt_state_ok ?init" "alt_state_den c ?init = {}" by (simp_all add: alt_state_ok_def alt_state_den_def ccs_den_def)
  have "re_ok r' \<and> den c r' = (\<Union>r \<in> set rs. den c r)"
  proof (cases "rs = []")
    case False
    with assms(2) obtain st where "alt_items mk rs ?init = Some st" "r' = alt_result st"
      by (auto simp: makeAlt_with_def)
    with alt_items_spec[OF init(1) assms(1)] alt_result_spec[of st] init(2) show ?thesis by auto
  qed (use assms(2) in \<open>auto simp: makeAlt_with_def\<close>)
  then show "re_ok r'" "den c r' = (\<Union>r \<in> set rs. den c r)" by simp_all
qed

lemma alt_items_total:
  "(\<forall>x ub. Rep x 0 ub \<in> set rs \<longrightarrow> mk (x, 1, ub) \<noteq> None) \<longleftrightarrow> alt_items mk rs st \<noteq> None"
proof (induction rs arbitrary: st)
  case (Cons r rs)
  have one: "alt_item mk r st = None \<longleftrightarrow> (\<exists>x ub. r = Rep x 0 ub \<and> mk (x, 1, ub) = None)" for st
    by (cases r) (auto simp: alt_item_def split: option.splits)
  show ?case
  proof (cases "alt_item mk r st")
    case None
    then show ?thesis using one by auto
  next
    case (Some st')
    then have "\<not> (\<exists>x ub. r = Rep x 0 ub \<and> mk (x, 1, ub) = None)" using one by (metis option.distinct(1))
    with Some Cons[of st'] show ?thesis by auto
  qed
qed simp

lemma makeAlt_with_total:
  "makeAlt_with mk rs = None \<longleftrightarrow> (\<exists>x ub. Rep x 0 ub \<in> set rs \<and> mk (x, 1, ub) = None)"
proof (cases "rs = []")
  case False
  then have "makeAlt_with mk rs = None \<longleftrightarrow> alt_items mk rs \<lparr>CCs = [], nullableRE = None, newAlt = []\<rparr> = None"
    by (simp add: makeAlt_with_def)
  then show ?thesis using alt_items_total[of rs mk "\<lparr>CCs = [], nullableRE = None, newAlt = []\<rparr>"] by metis
qed (simp add: makeAlt_with_def)

section \<open>Repetitions\<close>

text \<open>The inputs on which the result of \<open>makeRep\<close> denotes the repetition: not an empty set
  repeated from 0 on, nor an unbounded repetition repeated exactly 0 times.\<close>

definition rep_sound :: "re \<Rightarrow> int \<Rightarrow> int \<Rightarrow> bool" where
  "rep_sound r lb ub \<longleftrightarrow> \<not> (isEmptySet r \<and> lb = 0) \<and> \<not> (\<exists>x l. r = Rep x l (-1) \<and> lb = 0 \<and> ub = 0)"

text \<open>The inputs that \<open>makeRep\<close> splits in two.\<close>

definition splits_rep :: "re \<Rightarrow> int \<Rightarrow> int \<Rightarrow> bool" where
  "splits_rep r lb ub \<longleftrightarrow> (\<exists>x l u. r = Rep x l u \<and> lb \<noteq> ub \<and> u \<noteq> -1 \<and> l < u
     \<and> lb < (u - 2) div (u - l) \<and> (ub = -1 \<or> (u - 2) div (u - l) \<le> ub))"

lemma sdiv_gap: "0 \<le> l \<Longrightarrow> l < u \<Longrightarrow> (u - 2) sdiv (u - l) = (u - 2) div (u - l)" for l u :: int
proof -
  assume l: "0 \<le> l" "l < u"
  consider "u = 1" "l = 0" | "u = 2" | "2 < u" using l by linarith
  then show ?thesis using l by cases (simp_all add: signed_divide_int_def)
qed

lemma rep_spans_cong:
  assumes "valid_bounds l u" "(\<Union>k \<in> rep_counts lb ub. nested_counts l u k) = N"
  shows "rep_spans (den c (Rep x l u)) (rep_counts lb ub) = rep_spans (den c x) N"
  using assms(2) by (simp add: rep_spans_nested[OF assms(1)])

lemma look_spans_idem:
  assumes "n \<noteq> 0"
  shows "look_spans k s R ^^ n = look_spans k s R"
proof -
  have "look_spans k s R O look_spans k s R = look_spans k s R" by (auto simp: look_spans_def)
  moreover obtain m where "n = Suc m" using assms by (cases n) auto
  moreover have "look_spans k s R ^^ Suc m = look_spans k s R" by (induction m) (simp_all add: calculation(1))
  ultimately show ?thesis by simp
qed

lemma makeRep_not_Rep:
  assumes "re_ok r" "valid_bounds lb ub" "rep_sound r lb ub" "\<And>x l u. r \<noteq> Rep x l u"
  shows "\<exists>r'. makeRep_rec (r, lb, ub) = Some r' \<and> re_ok r' \<and> den c r' = rep_spans (den c r) (rep_counts lb ub)"
proof -
  have b: "lb \<noteq> -1" "\<not> (ub \<noteq> -1 \<and> ub < lb)" "nat lb \<in> rep_counts lb ub" using assms(2) by (auto simp: valid_bounds_def rep_counts_iff)
  consider "isEmptySet r" | "\<not> isEmptySet r" "r = Seq []"
    | x k s where "r = Assertion x k s" | "\<not> isEmptySet r" "r \<noteq> Seq []" "\<And>x k s. r \<noteq> Assertion x k s"
    by blast
  then show ?thesis
  proof cases
    case 1
    then have "lb \<noteq> 0" using assms(3) by (simp add: rep_sound_def)
    then have "0 \<notin> rep_counts lb ub" using assms(2) by (auto simp: valid_bounds_def rep_counts_iff)
    with 1 b assms(1) show ?thesis by (subst makeRep_rec.simps) (simp add: isEmptySet_den rep_spans_empty)
  next
    case 2
    have "(Id :: spans) ^^ n = Id" for n by (induction n) auto
    with 2 b show ?thesis by (subst makeRep_rec.simps) (auto simp: rep_spans_def)
  next
    case 3
    let ?A = "look_spans k s (den c x)"
    have "rep_spans ?A (rep_counts lb ub) = (if 0 < lb then ?A else Id)"
    proof (cases "0 < lb")
      case True
      then have "n \<in> rep_counts lb ub \<Longrightarrow> ?A ^^ n = ?A" for n by (intro look_spans_idem) (auto simp: rep_counts_iff)
      then have "rep_spans ?A (rep_counts lb ub) = (\<Union>n \<in> rep_counts lb ub. ?A)" unfolding rep_spans_def by blast
      with True b(3) show ?thesis by auto
    next
      case False
      then have "0 \<in> rep_counts lb ub" using assms(2) by (auto simp: valid_bounds_def rep_counts_iff)
      then have "Id \<subseteq> rep_spans ?A (rep_counts lb ub)" unfolding rep_spans_def by (metis UN_upper relpow.simps(1))
      moreover have "?A ^^ n \<subseteq> Id" for n
        by (cases "n = 0") (auto simp: look_spans_idem, auto simp: look_spans_def)
      then have "rep_spans ?A (rep_counts lb ub) \<subseteq> Id" unfolding rep_spans_def by blast
      ultimately show ?thesis using False by auto
    qed
    with 3 b assms(1) show ?thesis
      by (subst makeRep_rec.simps) (auto simp: isEmptySet_def isEmptySeq_def)
  next
    case 4
    then have e: "\<not> isEmptySeq r" by (auto dest: isEmptySeqD)
    have "makeRep_rec (r, lb, ub) = Some (if lb = 0 \<and> ub = 0 then Seq [] else if lb = 1 \<and> ub = 1 then r else Rep r lb ub)"
    proof (cases r)
      case (Assertion x k s)
      then show ?thesis using 4(3) by blast
    next
      case (Rep x l u)
      then show ?thesis using assms(4) by blast
    qed (use 4(1) b e in \<open>subst makeRep_rec.simps; simp\<close>)+
    then show ?thesis using assms(1,2) by (auto simp: rep_counts_simps)
  qed
qed

lemma makeRep_direct:
  assumes "re_ok r" "valid_bounds lb ub" "rep_sound r lb ub" "\<not> splits_rep r lb ub"
  shows "\<exists>r'. makeRep_rec (r, lb, ub) = Some r' \<and> re_ok r' \<and> den c r' = rep_spans (den c r) (rep_counts lb ub)"
proof (cases "\<exists>x l u. r = Rep x l u")
  case False
  then show ?thesis using makeRep_not_Rep[OF assms(1-3)] by blast
next
  case True
  then obtain x l u where r: "r = Rep x l u" by blast
  have v: "valid_bounds l u" "re_ok x" "valid_bounds lb ub" using assms(1,2) r by simp_all
  have b: "lb \<noteq> -1" "\<not> (ub \<noteq> -1 \<and> ub < lb)" "\<not> isEmptySet r" "\<not> isEmptySeq r" "0 \<le> lb" "0 \<le> l"
    using v r by (auto simp: valid_bounds_def isEmptySet_def isEmptySeq_def)
  note unfold = makeRep_rec.simps[of "(Rep x l u, lb, ub)"]
  have product: "valid_bounds (l * lb) (ubCombine u ub)" if "ub = -1 \<or> u = -1 \<or> l * lb \<le> u * ub"
    using that v b times_not_minus_one[of u ub] by (auto simp: valid_bounds_def ubCombine_def)
  have ordered: "ub \<noteq> -1 \<Longrightarrow> u \<noteq> -1 \<Longrightarrow> l * lb \<le> u * ub"
    using v by (auto simp: valid_bounds_def intro!: mult_mono)
  then have product: "valid_bounds (l * lb) (ubCombine u ub)" using product by blast
  note eq = rep_spans_cong[OF v(1), of lb ub _ c x]
  have "\<not> (lb \<noteq> ub \<and> u \<noteq> -1 \<and> l < u \<and> lb < (u - 2) div (u - l) \<and> (ub = -1 \<or> (u - 2) div (u - l) \<le> ub))"
    using assms(4) r by (auto simp: splits_rep_def)
  then consider "lb = ub" | "lb \<noteq> ub" "u = -1" | "lb \<noteq> ub" "u \<noteq> -1" "l < u" "(u - 2) div (u - l) \<le> lb"
    | "lb \<noteq> ub" "u \<noteq> -1" "l < u" "lb < (u - 2) div (u - l)" "ub \<noteq> -1" "ub < (u - 2) div (u - l)"
    | "lb \<noteq> ub" "u \<noteq> -1" "\<not> l < u"
    using not_le by blast
  then show ?thesis
  proof cases
    case 1
    then have "\<not> (u = -1 \<and> lb = 0)" using assms(3) r by (auto simp: rep_sound_def)
    then have "(\<Union>k \<in> rep_counts lb ub. nested_counts l u k) = rep_counts (l * lb) (ubCombine u ub)"
      using nested_exact[OF v(1) b(5)] 1 by simp
    from eq[OF this] show ?thesis using 1 r b(1-4) v product by (subst makeRep_rec.simps) simp
  next
    case 2
    have ub: "ub = -1 \<or> lb < ub" using 2(1) v(3) by (auto simp: valid_bounds_def)
    have counts: "(\<Union>k \<in> rep_counts lb ub. nested_counts l u k) =
        (if lb = 0 \<and> 1 < l then {0} \<union> rep_counts l (-1) else rep_counts (l * lb) (-1))"
      using nested_unbounded[OF b(6,5) ub] 2 by simp
    from eq[OF this] consider "l = 0" | "l = 1" | "1 < l" "lb = 0" | "1 < l" "0 < lb" using b(5,6) by linarith
    then show ?thesis
    proof cases
      case 3
      have "rep_spans (den c r) (rep_counts 0 1) = rep_spans (den c x) ({0} \<union> rep_counts l (-1))"
        using rep_spans_cong[OF v(1), of 0 1 _ c x] nested_unbounded[OF b(6), of 0 1] 3 2 r by simp
      with 3 eq[OF counts] show ?thesis using 2 r b(1-4) v
        by (subst makeRep_rec.simps) (simp add: valid_bounds_def)
    qed (use 2 r b v eq[OF counts] in \<open>subst makeRep_rec.simps; auto simp: valid_bounds_def\<close>)+
  next
    case 3
    then have ub: "ub = -1 \<or> lb \<le> ub" using v(3) by (auto simp: valid_bounds_def)
    from eq[OF nested_bounded[OF b(6) 3(3,4) b(5) ub]] show ?thesis
      using 3 r b v product by (simp add: unfold sdiv_gap)
  next
    case 4
    then show ?thesis using r b v by (simp add: unfold sdiv_gap Let_def)
  next
    case 5
    then show ?thesis using r b v by (simp add: unfold)
  qed
qed

subsection \<open>Splitting\<close>

lemma makeRep_unbounded_zero: "makeRep_rec (x, 1, 0) = None"
  by (subst makeRep_rec.simps) simp

text \<open>The facts that the branch rests on: the first part has a positive lower bound, and the second
  part is built without a further split.\<close>

lemma split_parts:
  assumes "re_ok (Rep x l u)" "valid_bounds lb ub" "splits_rep (Rep x l u) lb ub"
  defines "n \<equiv> (u - 2) div (u - l)"
  shows "1 \<le> l" "1 \<le> n" "lb < n" "u \<noteq> -1" "ub = -1 \<or> n \<le> ub" "lb \<noteq> ub"
    "makeRep_rec (Rep x l u, lb, ub) =
       Option.bind (makeRep_rec (Rep x l u, lb, n - 1)) (\<lambda>r2. makeAlt_with makeRep_rec [Rep x (n * l) (ubCombine u ub), r2])"
    "makeRep_rec (Rep x l u, lb, n - 1) = Some (if lb = n - 1 then Rep x (l * lb) (u * lb) else Rep (Rep x l u) lb (n - 1))"
    "rep_spans (den c (Rep x l u)) (rep_counts lb ub) =
       den c (Rep x (n * l) (ubCombine u ub)) \<union> rep_spans (den c (Rep x l u)) (rep_counts lb (n - 1))"
    "re_ok (Rep x (n * l) (ubCombine u ub))"
proof -
  have v: "valid_bounds l u" "0 \<le> l" "0 \<le> lb" using assms(1,2) by (auto simp: valid_bounds_def)
  have s: "lb \<noteq> ub" "u \<noteq> -1" "l < u" "lb < n" "ub = -1 \<or> n \<le> ub"
    using assms(3) by (auto simp: splits_rep_def n_def)
  show "1 \<le> n" using s(4) v(3) by linarith
  show "1 \<le> l"
  proof (rule ccontr)
    assume "\<not> 1 \<le> l"
    then have "l = 0" using v(2) by simp
    then have "n = (u - 2) div u" by (simp add: n_def)
    moreover have "(u - 2) div u \<le> 0"
      using s(3) \<open>l = 0\<close> by (cases "u = 1") (auto simp: div_pos_pos_trivial)
    ultimately show False using \<open>1 \<le> n\<close> by simp
  qed
  have e: "\<not> isEmptySet (Rep x l u)" "\<not> isEmptySeq (Rep x l u)" by (simp_all add: isEmptySet_def isEmptySeq_def)
  have n: "(u - 2) sdiv (u - l) = n" using sdiv_gap[OF v(2) s(3)] by (simp add: n_def)
  show "makeRep_rec (Rep x l u, lb, ub) =
      Option.bind (makeRep_rec (Rep x l u, lb, n - 1)) (\<lambda>r2. makeAlt_with makeRep_rec [Rep x (n * l) (ubCombine u ub), r2])"
    using s v e n by (subst makeRep_rec.simps) (auto simp: Let_def)
  show "makeRep_rec (Rep x l u, lb, n - 1) = Some (if lb = n - 1 then Rep x (l * lb) (u * lb) else Rep (Rep x l u) lb (n - 1))"
    using s v e n \<open>1 \<le> n\<close> by (subst makeRep_rec.simps) (auto simp: Let_def ubCombine_def)
  have parts: "rep_counts lb ub = rep_counts lb (n - 1) \<union> rep_counts n ub"
    using s(4,5) \<open>1 \<le> n\<close> by (auto simp: rep_counts_iff)
  have "rep_spans (den c (Rep x l u)) (rep_counts n ub) = den c (Rep x (n * l) (ubCombine u ub))"
    using rep_spans_cong[OF v(1) nested_bounded[OF v(2) s(3)], of n ub c x] s(5) \<open>1 \<le> n\<close>
    by (simp add: n_def[symmetric] mult.commute)
  then show "rep_spans (den c (Rep x l u)) (rep_counts lb ub) =
      den c (Rep x (n * l) (ubCombine u ub)) \<union> rep_spans (den c (Rep x l u)) (rep_counts lb (n - 1))"
    by (simp only: parts rep_spans_simps(4) Un_commute)
  have "ub \<noteq> -1 \<Longrightarrow> n * l \<le> ub * u" using s \<open>1 \<le> n\<close> v(2) by (auto intro!: mult_mono)
  then show "re_ok (Rep x (n * l) (ubCombine u ub))"
    using assms(1) s v \<open>1 \<le> n\<close> by (auto simp: valid_bounds_def ubCombine_def mult.commute)
qed (use assms(3) in \<open>auto simp: splits_rep_def n_def\<close>)

lemma raises_bound_pos: "(\<And>x ub. r \<noteq> Rep x 0 ub) \<Longrightarrow> raises_bound mk c r"
  by (cases r) (auto simp: raises_bound_def)

text \<open>With a positive lower bound nothing can fail.\<close>

lemma makeRep_pos:
  assumes "re_ok r" "valid_bounds lb ub" "0 < lb"
  shows "\<exists>r'. makeRep_rec (r, lb, ub) = Some r' \<and> re_ok r' \<and> den c r' = rep_spans (den c r) (rep_counts lb ub)"
proof (cases "splits_rep r lb ub")
  case False
  then show ?thesis using makeRep_direct[OF assms(1,2)] assms(3) by (simp add: rep_sound_def)
next
  case True
  then obtain x l u where r: "r = Rep x l u" by (auto simp: splits_rep_def)
  define n where "n = (u - 2) div (u - l)"
  note parts = split_parts[OF assms(1)[unfolded r] assms(2) True[unfolded r], folded n_def]
  let ?r1 = "Rep x (n * l) (ubCombine u ub)"
  let ?r2 = "if lb = n - 1 then Rep x (l * lb) (u * lb) else Rep (Rep x l u) lb (n - 1)"
  have v: "valid_bounds lb (n - 1)" using parts(3) assms(3) by (auto simp: valid_bounds_def)
  have "\<not> splits_rep r lb (n - 1)" using r parts(1-3) by (auto simp: splits_rep_def n_def)
  moreover have "rep_sound r lb (n - 1)" using assms(3) by (simp add: rep_sound_def)
  ultimately obtain r2 where r2': "makeRep_rec (r, lb, n - 1) = Some r2" "re_ok r2" "den c r2 = rep_spans (den c r) (rep_counts lb (n - 1))"
    using makeRep_direct[OF assms(1) v, of c] by blast
  moreover have "r2 = ?r2" using r2'(1) parts(8) r by (metis option.inject)
  ultimately have r2: "re_ok ?r2" "den c ?r2 = rep_spans (den c r) (rep_counts lb (n - 1))" by simp_all
  have "n * l \<noteq> 0" "l * lb \<noteq> 0" using parts(1,2) assms(3) by simp_all
  then have pos: "?r1 \<noteq> Rep y 0 ub'" "?r2 \<noteq> Rep y 0 ub'" for y ub' using assms(3) by auto
  have "makeAlt_with makeRep_rec [?r1, ?r2] \<noteq> None"
  proof
    assume "makeAlt_with makeRep_rec [?r1, ?r2] = None"
    then obtain y ub' where "Rep y 0 ub' \<in> set [?r1, ?r2]" unfolding makeAlt_with_total by blast
    then have "Rep y 0 ub' = ?r1 \<or> Rep y 0 ub' = ?r2" by (simp only: list.set insert_iff empty_iff simp_thms)
    then show False using pos[of y ub'] by metis
  qed
  then obtain r' where r': "makeAlt_with makeRep_rec [?r1, ?r2] = Some r'" by blast
  have "\<forall>r \<in> set [?r1, ?r2]. re_ok r \<and> raises_bound makeRep_rec c r"
    using parts(10) r2(1) raises_bound_pos[OF pos(1)] raises_bound_pos[OF pos(2)] by simp
  from makeAlt_with_spec[OF this r'] have "re_ok r'" "den c r' = den c ?r1 \<union> den c ?r2" by simp_all
  moreover have "makeRep_rec (r, lb, ub) = Some r'" using parts(7,8) r' by (simp add: r)
  ultimately show ?thesis using parts(9)[of c] r2(2) by (simp add: r)
qed

lemma raises_bound_makeRep: "re_ok r \<Longrightarrow> raises_bound makeRep_rec c r"
proof (cases "\<exists>x ub. r = Rep x 0 ub")
  case True
  assume "re_ok r"
  from True obtain x ub where r: "r = Rep x 0 ub" by blast
  with \<open>re_ok r\<close> have x: "re_ok x" "valid_bounds 0 ub" by simp_all
  show ?thesis
  proof (cases "ub = 0")
    case True
    then show ?thesis by (simp add: raises_bound_def r makeRep_unbounded_zero)
  next
    case False
    then have "valid_bounds 1 ub" using x(2) by (auto simp: valid_bounds_def)
    from makeRep_pos[OF x(1) this] obtain r' where r': "makeRep_rec (x, 1, ub) = Some r'" "re_ok r'"
      "den c r' = rep_spans (den c x) (rep_counts 1 ub)" by auto
    have "rep_counts 0 ub = {0} \<union> rep_counts 1 ub" using False x(2) by (auto simp: rep_counts_iff valid_bounds_def)
    then have "den c r = Id \<union> den c r'" using r'(3) by (simp only: r den.simps rep_spans_simps)
    with r' show ?thesis by (simp add: raises_bound_def r)
  qed
qed (auto intro: raises_bound_pos)

lemma makeAlt_spec:
  assumes "\<forall>r \<in> set rs. re_ok r" "makeAlt rs = Some r'"
  shows "re_ok r'" "den c r' = (\<Union>r \<in> set rs. den c r)"
  using makeAlt_with_spec[of rs makeRep_rec c r'] assms raises_bound_makeRep by (auto simp: makeAlt_def)

lemma makeAlt_total:
  assumes "\<forall>r \<in> set rs. re_ok r"
  shows "makeAlt rs = None \<longleftrightarrow> (\<exists>x. Rep x 0 0 \<in> set rs)"
proof -
  have "makeRep_rec (x, 1, ub) = None \<longleftrightarrow> ub = 0" if "Rep x 0 ub \<in> set rs" for x ub
  proof -
    have "re_ok x" "valid_bounds 0 ub" using that assms by auto
    then show ?thesis
      using makeRep_pos[of x 1 ub undefined] makeRep_unbounded_zero[of x] by (cases "ub = 0") (auto simp: valid_bounds_def)
  qed
  then show ?thesis unfolding makeAlt_def makeAlt_with_total by blast
qed

text \<open>The inputs on which the program ends with a fatal error although the bounds are in order: an
  optional or starred repetition whose own bounds leave one gap.\<close>

definition rep_fails :: "re \<Rightarrow> int \<Rightarrow> int \<Rightarrow> bool" where
  "rep_fails r lb ub \<longleftrightarrow> lb = 0 \<and> ub \<noteq> 0
     \<and> (\<exists>x l u. r = Rep x l u \<and> u \<noteq> -1 \<and> l < u \<and> (u - 2) div (u - l) = 1)"

lemma makeRep_spec:
  assumes "re_ok r" "valid_bounds lb ub" "rep_sound r lb ub"
  shows "makeRep r lb ub = None \<longleftrightarrow> rep_fails r lb ub"
    "makeRep r lb ub = Some r' \<Longrightarrow> re_ok r' \<and> den c r' = rep_spans (den c r) (rep_counts lb ub)"
proof -
  have "if rep_fails r lb ub then makeRep r lb ub = None
    else \<exists>r'. makeRep r lb ub = Some r' \<and> re_ok r' \<and> den c r' = rep_spans (den c r) (rep_counts lb ub)"
  proof (cases "splits_rep r lb ub")
    case False
    have "\<not> rep_fails r lb ub"
    proof
      assume "rep_fails r lb ub"
      then obtain x l u where f: "lb = 0" "ub \<noteq> 0" "r = Rep x l u" "u \<noteq> -1" "l < u" "(u - 2) div (u - l) = 1"
        by (auto simp: rep_fails_def)
      moreover have "ub = -1 \<or> 1 \<le> ub" using f(1,2) assms(2) by (auto simp: valid_bounds_def)
      ultimately have "splits_rep r lb ub" unfolding splits_rep_def by (metis zero_less_one)
      with False show False by blast
    qed
    with makeRep_direct[OF assms False, of c] show ?thesis by (simp add: makeRep_def)
  next
    case True
    then obtain x l u where r: "r = Rep x l u" by (auto simp: splits_rep_def)
    define n where "n = (u - 2) div (u - l)"
    note parts = split_parts[OF assms(1)[unfolded r] assms(2) True[unfolded r], folded n_def]
    let ?r1 = "Rep x (n * l) (ubCombine u ub)"
    let ?r2 = "if lb = n - 1 then Rep x (l * lb) (u * lb) else Rep (Rep x l u) lb (n - 1)"
    consider "0 < lb" | "lb = 0" "n = 1" | "lb = 0" "1 < n"
      using parts(2) assms(2) by (fastforce simp: valid_bounds_def)
    then show ?thesis
    proof cases
      case 1
      then show ?thesis using makeRep_pos[OF assms(1,2) 1, of c] by (simp add: rep_fails_def makeRep_def)
    next
      case 2
      have "makeRep_rec (r, lb, ub) = makeAlt [?r1, Rep x 0 0]" using parts(7,8) 2 by (simp add: r makeAlt_def)
      moreover have "makeAlt [?r1, Rep x 0 0] = None"
        unfolding makeAlt_def makeAlt_with_total using makeRep_unbounded_zero by auto
      moreover have "rep_fails r lb ub" using 2 parts(3-6) True r by (auto simp: rep_fails_def n_def splits_rep_def)
      ultimately show ?thesis by (simp add: makeRep_def)
    next
      case 3
      have v: "valid_bounds lb (n - 1)" using 3 by (simp add: valid_bounds_def)
      have "\<not> splits_rep r lb (n - 1)" using r parts(1-3) by (auto simp: splits_rep_def n_def)
      moreover have "rep_sound r lb (n - 1)" using assms(3) 3 by (auto simp: rep_sound_def r)
      ultimately have r2: "re_ok ?r2" "den c ?r2 = rep_spans (den c r) (rep_counts lb (n - 1))"
        using makeRep_direct[OF assms(1) v, of c] parts(8) by (auto simp: r)
      have ok: "\<forall>r \<in> set [?r1, ?r2]. re_ok r" using parts(10) r2(1) by simp
      have "0 < n * l" using parts(1,2) by (simp add: zero_less_mult_iff)
      then have "\<not> (\<exists>x. Rep x 0 0 \<in> set [?r1, ?r2])" using 3 by auto
      then obtain r' where r': "makeAlt [?r1, ?r2] = Some r'" using makeAlt_total[OF ok] by blast
      have "makeRep r lb ub = Some r'" using parts(7,8) r' by (simp add: r makeAlt_def makeRep_def)
      moreover have "\<not> rep_fails r lb ub" using 3 r by (auto simp: rep_fails_def n_def)
      ultimately show ?thesis using makeAlt_spec(1)[OF ok r'] makeAlt_spec(2)[OF ok r', of c] parts(9)[of c] r2(2) by (simp add: r)
    qed
  qed
  then show "makeRep r lb ub = None \<longleftrightarrow> rep_fails r lb ub"
    "makeRep r lb ub = Some r' \<Longrightarrow> re_ok r' \<and> den c r' = rep_spans (den c r) (rep_counts lb ub)"
    by (auto split: if_splits)
qed

end
