(* ===== verification/RE_Lang.thy ===== *)
theory RE_Lang imports RE_Rep begin

text \<open>
  What the other constructors denote, the unrolling of repetitions, and the two analyses that
  come with the expressions: \<open>matchesEmptyString\<close> and \<open>matchableCodepoints\<close>.
\<close>

section \<open>Difference, intersection, assertions\<close>

lemma is_Rep0_Id: "is_Rep0 r \<Longrightarrow> re_ok r \<Longrightarrow> Id \<subseteq> den c r"
proof -
  assume "is_Rep0 r" "re_ok r"
  then obtain x ub where r: "r = Rep x 0 ub" "valid_bounds 0 ub" by (cases r) auto
  then have "0 \<in> rep_counts 0 ub" by (auto simp: rep_counts_iff valid_bounds_def)
  then have "den c x ^^ 0 \<subseteq> rep_spans (den c x) (rep_counts 0 ub)" unfolding rep_spans_def by blast
  then show ?thesis by (simp add: r)
qed

text \<open>\<open>makeDiff\<close> takes a sequence that is not empty not to match the empty string.\<close>

definition diff_sound :: "sem \<Rightarrow> re \<Rightarrow> re \<Rightarrow> bool" where
  "diff_sound c lh rh \<longleftrightarrow> (isEmptySeq lh \<longrightarrow> (\<forall>rs. rh = Seq rs \<longrightarrow> rs = [] \<or> Id \<inter> den c rh = {}))"

lemma makeDiff_step:
  assumes "\<And>a b. same a b \<Longrightarrow> a = b" "re_ok lh" "re_ok rh" "sem_ok c" "diff_sound c lh rh"
    "\<And>l r. lh \<noteq> Diff l r"
  shows "\<exists>r'. makeDiff same lh rh = Some r' \<and> re_ok r' \<and> den c r' = den c lh - den c rh"
proof -
  note unfold = makeDiff.simps[of same lh rh]
  consider "same lh rh" | "\<not> same lh rh" "isEmptySet rh" | "\<not> same lh rh" "\<not> isEmptySet rh" "lh = Seq []"
    | "\<not> same lh rh" "\<not> isEmptySet rh" "lh \<noteq> Seq []" "isEmptySet lh"
    | "\<not> same lh rh" "\<not> isEmptySet rh" "lh \<noteq> Seq []" "\<not> isEmptySet lh" by blast
  then show ?thesis
  proof cases
    case 1
    with assms(1) show ?thesis by (auto simp: unfold makeEmptySet_def)
  next
    case 2
    with assms(2,3) show ?thesis by (simp add: unfold isEmptySet_den)
  next
    case 3
    have cc: "Id \<inter> cc_spans c a S = {}" for a S using cc_spans_nonempty[OF assms(4)] by fastforce
    consider "rh = Seq []" | "is_Rep0 rh" | a s where "rh = CC a s" | rs where "rh = Seq rs" "rs \<noteq> []"
      | "\<And>rs. rh \<noteq> Seq rs" "\<not> is_Rep0 rh" "\<And>a s. rh \<noteq> CC a s" by blast
    then show ?thesis
    proof cases
      case 2
      have "Id \<subseteq> den c rh" by (rule is_Rep0_Id[OF 2 assms(3)])
      then have "Id - den c rh = {}" by blast
      with 2 3 show ?thesis by (subst unfold) (simp add: makeEmptySet_def)
    next
      case (4 rs)
      then have "Id \<inter> den c rh = {}" using assms(5) 3 by (auto simp: diff_sound_def)
      then have "Id - den c rh = Id" by blast
      with 3 4 show ?thesis by (subst unfold) simp
    next
      case 5
      have "makeDiff same lh rh = Some (Diff lh rh)"
      proof (cases rh)
        case (CC a s)
        with 5(3) show ?thesis by blast
      next
        case (Seq rs)
        with 5(1) show ?thesis by blast
      qed (use 3 5(2) in \<open>subst unfold; simp add: isEmptySeq_def\<close>)+
      with assms(2,3) show ?thesis by simp
    next
      case (3 a s)
      have "Id - cc_spans c a (codepoints s) = Id" using cc[of a "codepoints s"] by blast
      with 3 \<open>\<not> same lh rh\<close> \<open>\<not> isEmptySet rh\<close> \<open>lh = Seq []\<close> show ?thesis
        by (subst unfold) (simp add: isEmptySeq_def)
    next
      case 1
      with 3 show ?thesis by (subst unfold) (simp add: makeEmptySet_def)
    qed
  next
    case 4
    then have "\<not> isEmptySeq lh" by (auto dest: isEmptySeqD)
    with 4 assms(2) show ?thesis by (simp add: unfold isEmptySet_den)
  next
    case 5
    then have "\<not> isEmptySeq lh" by (auto dest: isEmptySeqD)
    have "makeDiff same lh rh = Some (Diff lh rh)"
    proof (cases lh)
      case (Diff l r)
      with assms(6) show ?thesis by blast
    qed (use 5 \<open>\<not> isEmptySeq lh\<close> in \<open>subst unfold; simp\<close>)+
    with assms(2,3) show ?thesis by simp
  qed
qed

text \<open>Differences of differences collect the right operands in one alternative. Only a repetition
  \<open>x{0,0}\<close> among them makes that fail.\<close>

fun diff_spine :: "re \<Rightarrow> re" where
  "diff_spine (Diff l r) = diff_spine l"
| "diff_spine r = r"

lemma makeDiff_spec:
  assumes same: "\<And>a b. same a b \<Longrightarrow> a = b" and "sem_ok c"
    and "re_ok lh" "re_ok rh" "diff_spine lh \<noteq> Seq [] \<or> lh = Seq [] \<and> diff_sound c lh rh"
    and "makeDiff same lh rh = Some r'"
  shows "re_ok r' \<and> den c r' = den c lh - den c rh"
proof -
  have step: "re_ok r' \<and> den c r' = den c lh - den c rh"
    if "re_ok lh" "re_ok rh" "diff_spine lh \<noteq> Seq [] \<or> lh = Seq [] \<and> diff_sound c lh rh"
      "makeDiff same lh rh = Some r'" "\<And>l r. lh \<noteq> Diff l r" for lh rh r'
  proof -
    have "diff_spine lh = lh" using that(5) by (cases lh) auto
    then have "diff_sound c lh rh" using that(3) by (auto simp: diff_sound_def dest: isEmptySeqD)
    have "\<exists>r'. makeDiff same lh rh = Some r' \<and> re_ok r' \<and> den c r' = den c lh - den c rh"
      by (rule makeDiff_step; fact same that assms(2) \<open>diff_sound c lh rh\<close>)
    then show ?thesis using that(4) by (metis option.inject)
  qed
  show ?thesis
  using assms(3-)
proof (induction lh arbitrary: rh r')
  case (Diff l r)
  note unfold = makeDiff.simps[of same "Diff l r" rh]
  consider "same (Diff l r) rh" | "\<not> same (Diff l r) rh" "isEmptySet rh" | "\<not> same (Diff l r) rh" "\<not> isEmptySet rh" by blast
  then show ?case
  proof cases
    case 1
    then have "r' = Alt []" using Diff.prems(4) by (simp add: unfold makeEmptySet_def)
    moreover have "Diff l r = rh" by (rule same[OF 1])
    then have "den c (Diff l r) - den c rh = {}" by simp
    ultimately show ?thesis by simp
  next
    case 2
    then have "makeDiff same (Diff l r) rh = Some (Diff l r)" by (simp add: unfold)
    with Diff.prems(4) have r': "r' = Diff l r" by (metis option.inject)
    have "den c rh = {}" using isEmptySet_den[OF Diff.prems(2) 2(2)] .
    with Diff.prems(1) show ?thesis unfolding r' by simp
  next
    case 3
    then obtain a where a: "makeAlt [r, rh] = Some a" "makeDiff same l a = Some r'"
      using Diff.prems(4) by (auto simp: unfold isEmptySet_def isEmptySeq_def split: option.splits)
    have ok: "\<forall>r \<in> set [r, rh]. re_ok r" using Diff.prems(1,2) by simp
    have "diff_spine l \<noteq> Seq []" using Diff.prems(3) by simp
    moreover have "re_ok l" using Diff.prems(1) by simp
    ultimately have "re_ok r' \<and> den c r' = den c l - den c a"
      by (intro Diff.IH(1)[OF _ makeAlt_spec(1)[OF ok a(1)] _ a(2)]) simp_all
    moreover have "den c a = den c r \<union> den c rh" using makeAlt_spec(2)[OF ok a(1), of c] by simp
    ultimately show ?thesis by (simp add: Diff_Un Diff_Int2 set_diff_eq)
  qed
qed (rule step, assumption+, simp (no_asm))+
qed

text \<open>\<open>makeIntersect\<close> takes an expression to match the empty string only when it is a
  repetition from 0 on.\<close>

definition intersect_sound :: "sem \<Rightarrow> re \<Rightarrow> re \<Rightarrow> bool" where
  "intersect_sound c lh rh \<longleftrightarrow> (isEmptySeq lh \<longrightarrow> lh = rh \<or> is_Rep0 rh \<or> Id \<inter> den c rh = {})
     \<and> (isEmptySeq rh \<longrightarrow> lh = rh \<or> is_Rep0 lh \<or> Id \<inter> den c lh = {})"

lemma makeIntersect_spec:
  assumes "\<And>a b. same a b \<Longrightarrow> a = b" "sem_ok c" "re_ok lh" "re_ok rh" "intersect_sound c lh rh"
    and "lh = Seq [] \<and> rh = Seq [] \<longrightarrow> same lh rh"
  shows "re_ok (makeIntersect same lh rh) \<and> den c (makeIntersect same lh rh) = den c lh \<inter> den c rh"
proof -
  consider "same lh rh" | "\<not> same lh rh" "isEmptySet lh" | "\<not> same lh rh" "\<not> isEmptySet lh" "isEmptySet rh"
    | "\<not> same lh rh" "\<not> isEmptySet lh" "\<not> isEmptySet rh" "isEmptySeq lh"
    | "\<not> same lh rh" "\<not> isEmptySet lh" "\<not> isEmptySet rh" "\<not> isEmptySeq lh" "isEmptySeq rh"
    | "\<not> same lh rh" "\<not> isEmptySet lh" "\<not> isEmptySet rh" "\<not> isEmptySeq lh" "\<not> isEmptySeq rh" by blast
  then show ?thesis
  proof cases
    case 1
    then have "lh = rh" by (rule assms(1))
    with 1 assms(3) show ?thesis by (simp add: makeIntersect_def)
  next
    case 4
    then have lh: "lh = Seq []" by (simp add: isEmptySeqD)
    then have "is_Rep0 rh \<or> Id \<inter> den c rh = {}"
      using assms(5,6) 4(1) by (auto simp: intersect_sound_def)
    then show ?thesis
      using 4 lh is_Rep0_Id[OF _ assms(4), of c] assms(3) by (auto simp: makeIntersect_def makeEmptySet_def)
  next
    case 5
    then have rh: "rh = Seq []" by (simp add: isEmptySeqD)
    then have "is_Rep0 lh \<or> Id \<inter> den c lh = {}"
      using assms(5) 5 by (auto simp: intersect_sound_def)
    then show ?thesis
      using 5 rh is_Rep0_Id[OF _ assms(3), of c] assms(4) by (auto simp: makeIntersect_def makeEmptySet_def)
  next
    case 6
    show ?thesis
    proof (cases "\<exists>a b. defCastCC lh = Some a \<and> defCastCC rh = Some b \<and> fst a = fst b")
      case True
      then obtain al s t where cc: "defCastCC lh = Some (al, s)" "defCastCC rh = Some (al, t)" by auto
      note dens = defCastCC_den[OF assms(3) cc(1), of c] defCastCC_den[OF assms(4) cc(2), of c]
      have "makeIntersect same lh rh = of_cc (intersectCC (al, s) (al, t))"
        using 6 cc by (simp add: makeIntersect_def)
      moreover have "uset_ok (snd (intersectCC (al, s) (al, t)))" "fst (intersectCC (al, s) (al, t)) = al"
        "codepoints (snd (intersectCC (al, s) (al, t))) = codepoints s \<inter> codepoints t"
        using intersectCC_spec[of "(al, s)" "(al, t)"] dens by simp_all
      ultimately show ?thesis using dens by (simp add: cc_spans_inter[OF assms(2)])
    next
      case False
      then have "makeIntersect same lh rh = Intersect lh rh"
        using 6 by (auto simp: makeIntersect_def split: option.splits)
      with assms(3,4) show ?thesis by simp
    qed
  qed (use assms(3,4) in \<open>auto simp: makeIntersect_def isEmptySet_den\<close>)
qed

lemma makeAssertion_spec:
  assumes "re_ok r"
  shows "re_ok (makeAssertion r k s)" "den c (makeAssertion r k s) = look_spans k s (den c r)"
proof -
  have "look_spans k s {} = (if s = Negative then Id else {})" "look_spans k s Id = (if s = Positive then Id else {})"
    by (cases s; cases k; auto simp: look_spans_def)+
  then show "den c (makeAssertion r k s) = look_spans k s (den c r)"
    using assms isEmptySet_den[OF assms, of c] by (auto simp: makeAssertion_def dest: isEmptySeqD)
  show "re_ok (makeAssertion r k s)" using assms by (simp add: makeAssertion_def)
qed

section \<open>Unrolling\<close>

lemma rep_spans_step:
  assumes "valid_bounds lb ub" "ub \<noteq> 0"
  shows "rep_spans R (rep_counts lb ub) = (if lb = 0 then Id else {}) \<union>
      R O rep_spans R (rep_counts (if lb = 0 then lb else lb - 1) (if ub = -1 then ub else ub - 1))" (is "_ = ?E \<union> R O ?S")
    "R O rep_spans R N = rep_spans R N O R"
proof -
  let ?N = "rep_counts (if lb = 0 then lb else lb - 1) (if ub = -1 then ub else ub - 1)"
  have "rep_counts lb ub = (if lb = 0 then {0} else {}) \<union> {m + n | m n. m \<in> {1} \<and> n \<in> ?N}"
  proof (rule set_eqI)
    fix x
    show "x \<in> rep_counts lb ub \<longleftrightarrow> x \<in> (if lb = 0 then {0} else {}) \<union> {m + n | m n. m \<in> {1} \<and> n \<in> ?N}"
      using assms by (cases x) (auto simp: rep_counts_iff valid_bounds_def)
  qed
  then have "rep_spans R (rep_counts lb ub) = rep_spans R (if lb = 0 then {0} else {}) \<union> rep_spans R {1} O ?S"
    by (simp only: rep_spans_simps(4) rep_spans_compose)
  then show "rep_spans R (rep_counts lb ub) = ?E \<union> R O ?S" by simp
  show "R O rep_spans R N = rep_spans R N O R"
    using rep_spans_compose[of R "{1}" N] rep_spans_compose[of R N "{1}"] by (simp add: add.commute)
qed

lemma unroll_spec:
  assumes "re_ok e" "valid_bounds lb ub" "ub \<noteq> 0"
    and "rep_sound e (if lb = 0 then lb else lb - 1) (if ub = -1 then ub else ub - 1)"
    and "unrollFirst e lb ub = Some r \<or> unrollLast e lb ub = Some r"
  shows "re_ok r \<and> den c r = den c (Rep e lb ub)"
proof -
  let ?lb = "if lb = 0 then lb else lb - 1" and ?ub = "if ub = -1 then ub else ub - 1"
  have v: "valid_bounds ?lb ?ub" using assms(2,3) by (auto simp: valid_bounds_def)
  obtain d where d: "makeRep e ?lb ?ub = Some d"
    using assms(3,5) by (auto simp: unrollFirst_def unrollLast_def split: bind_splits)
  then have ok: "re_ok d" "den c d = rep_spans (den c e) (rep_counts ?lb ?ub)"
    using makeRep_spec(2)[OF assms(1) v assms(4) d] by simp_all
  define seq where "seq = (if unrollFirst e lb ub = Some r then makeSeq [e, d] else makeSeq [d, e])"
  have seq: "re_ok seq" "den c seq = den c e O rep_spans (den c e) (rep_counts ?lb ?ub)"
    using makeSeq_spec[of "[e, d]"] makeSeq_spec[of "[d, e]"] assms(1) ok rep_spans_step(2)[OF assms(2,3), of "den c e"]
    by (simp_all add: seq_def)
  have r: "(if lb = 0 then makeAlt [makeSeq [], seq] else Some seq) = Some r"
    using assms(3,5) d by (auto simp: unrollFirst_def unrollLast_def seq_def Let_def split: if_splits)
  show ?thesis
  proof (cases "lb = 0")
    case True
    have "\<forall>r \<in> set [makeSeq [], seq]. re_ok r" using seq(1) by (simp add: makeSeq_def)
    from makeAlt_spec(1)[OF this] makeAlt_spec(2)[OF this, of _ c] r True
    show ?thesis using rep_spans_step(1)[OF assms(2,3), of "den c e"] seq(2) by (simp add: makeSeq_def)
  next
    case False
    then show ?thesis using rep_spans_step(1)[OF assms(2,3), of "den c e"] seq r by simp
  qed
qed

section \<open>Matching the empty string\<close>

text \<open>The expressions whose spans the function can know: no assertions, references, properties,
  symbolic ranges, permutations or mode groups, and all names defined.\<close>

fun classical :: "re \<Rightarrow> bool" where
  "classical (Alt rs) = (\<forall>r \<in> set rs. classical r)"
| "classical (Seq rs) = (\<forall>r \<in> set rs. classical r)"
| "classical (Rep x lb ub) = classical x"
| "classical (Diff l r) = (classical l \<and> classical r)"
| "classical (Intersect l r) = (classical l \<and> classical r)"
| "classical (Name ns nm d ext) = (case d of None \<Rightarrow> False | Some x \<Rightarrow> classical x)"
| "classical (Capture nm x) = classical x"
| "classical (CC a s) = True"
| "classical (Any a) = True"
| "classical Start = True"
| "classical End = True"
| "classical _ = False"

text \<open>Every position counts as a start and an end, and a symbol is not empty.\<close>

definition empty_sem :: "sem \<Rightarrow> bool" where
  "empty_sem c \<longleftrightarrow> sem_ok c \<and> start_at c = UNIV \<and> end_at c = UNIV \<and> (\<forall>a. \<forall>(i, j) \<in> any_spans c a. i < j)"

abbreviation forward :: "spans \<Rightarrow> bool" where
  "forward R \<equiv> R \<subseteq> {(i, j). i \<le> j}"

lemma forward_seq: "\<forall>R \<in> set Rs. forward R \<Longrightarrow> forward (seq_spans Rs)"
  by (induction Rs) (fastforce simp: relcomp_unfold)+

lemma forward_power: "forward R \<Longrightarrow> forward (R ^^ n)"
  by (induction n) (fastforce simp: relcomp_unfold)+

lemma forward_den: "empty_sem c \<Longrightarrow> re_ok r \<Longrightarrow> classical r \<Longrightarrow> forward (den c r)"
proof (induction r)
  case (Seq rs)
  then have "\<forall>R \<in> set (map (den c) rs). forward R" by auto
  then show ?case using forward_seq by simp
next
  case (Rep r lb ub)
  then have "forward (den c r ^^ n)" for n by (intro forward_power) simp
  then show ?case by (auto simp: rep_spans_def)
next
  case (CC a s)
  then show ?case using cc_spans_nonempty[of c _ _ a] by (fastforce simp: empty_sem_def)
next
  case (Name ns nm d ext)
  then show ?case by (cases d) auto
next
  case (Any a)
  then show ?case by (fastforce simp: empty_sem_def)
qed fastforce+

lemma forward_comp_empty: "forward R \<Longrightarrow> forward S \<Longrightarrow> (i, i) \<in> R O S \<longleftrightarrow> (i, i) \<in> R \<and> (i, i) \<in> S"
  by (fastforce simp: relcomp_unfold)

lemma forward_seq_empty: "\<forall>R \<in> set Rs. forward R \<Longrightarrow> (i, i) \<in> seq_spans Rs \<longleftrightarrow> (\<forall>R \<in> set Rs. (i, i) \<in> R)"
proof (induction Rs)
  case (Cons R Rs)
  then have "forward (seq_spans Rs)" by (intro forward_seq) simp
  with Cons show ?case by (simp add: forward_comp_empty)
qed simp

lemma forward_power_empty: "forward R \<Longrightarrow> (i, i) \<in> R ^^ n \<longleftrightarrow> n = 0 \<or> (i, i) \<in> R"
proof (induction n)
  case (Suc n)
  then show ?case using forward_comp_empty[OF forward_power[OF Suc.prems] Suc.prems, of i n] by auto
qed simp

lemma list_matches:
  assumes "\<And>r. r \<in> set rs \<Longrightarrow> matchesEmptyString r = Some (p r)"
  shows "some_matches_empty rs = Some (\<exists>r \<in> set rs. p r)" "all_match_empty rs = Some (\<forall>r \<in> set rs. p r)"
proof -
  have "(\<forall>r \<in> set rs. matchesEmptyString r = Some (p r)) \<Longrightarrow>
    some_matches_empty rs = Some (\<exists>r \<in> set rs. p r) \<and> all_match_empty rs = Some (\<forall>r \<in> set rs. p r)"
    by (induction rs) (auto split: option.splits bool.splits)
  with assms show "some_matches_empty rs = Some (\<exists>r \<in> set rs. p r)" "all_match_empty rs = Some (\<forall>r \<in> set rs. p r)"
    by simp_all
qed

lemma matchesEmptyString_value:
  "empty_sem c \<Longrightarrow> re_ok r \<Longrightarrow> classical r \<Longrightarrow> matchesEmptyString r = Some ((i, i) \<in> den c r)"
proof (induction r)
  case (Alt rs)
  then have "\<And>r. r \<in> set rs \<Longrightarrow> matchesEmptyString r = Some ((i, i) \<in> den c r)" by simp
  from list_matches(1)[OF this] show ?case by simp
next
  case (Seq rs)
  then have "\<And>r. r \<in> set rs \<Longrightarrow> matchesEmptyString r = Some ((i, i) \<in> den c r)" by simp
  note all = list_matches(2)[OF this]
  have "\<forall>R \<in> set (map (den c) rs). forward R" using forward_den Seq.prems by simp
  from forward_seq_empty[OF this, of i] show ?case using all by simp
next
  case (Rep x lb ub)
  then have fwd: "forward (den c x)" by (intro forward_den) simp_all
  have v: "valid_bounds lb ub" using Rep.prems by simp
  show ?case
  proof (cases "lb = 0")
    case True
    then have "0 \<in> rep_counts lb ub" using v by (auto simp: rep_counts_iff valid_bounds_def)
    then have "(i, i) \<in> rep_spans (den c x) (rep_counts lb ub)" unfolding rep_spans_def by (metis IdI UN_I relpow.simps(1))
    with True show ?thesis by simp
  next
    case False
    then have "0 \<notin> rep_counts lb ub" "nat lb \<in> rep_counts lb ub" using v by (auto simp: rep_counts_iff valid_bounds_def)
    then have "(i, i) \<in> rep_spans (den c x) (rep_counts lb ub) \<longleftrightarrow> (i, i) \<in> den c x"
      unfolding rep_spans_def by (auto simp: forward_power_empty[OF fwd])
    with False Rep show ?thesis by simp
  qed
next
  case (CC a s)
  then show ?case using cc_spans_nonempty[of c i i a] by (auto simp: empty_sem_def)
next
  case (Name ns nm d ext)
  then show ?case by (cases d) auto
next
  case (Any a)
  then show ?case by (fastforce simp: empty_sem_def)
qed (auto simp: empty_sem_def split: option.splits bool.splits)

end
