(* ===== verification/RE_Plain.thy ===== *)
theory RE_Plain imports RE_Lang begin

text \<open>
  A class of expressions on which the constructors neither fail nor lose spans, closed under the
  constructors: no empty sets, the repetitions \<open>?\<close>, \<open>*\<close>, \<open>+\<close> and \<open>{1,1}\<close>
  only, no differences, intersections, symbolic ranges or negative assertions.
\<close>

definition basic_bounds :: "int \<Rightarrow> int \<Rightarrow> bool" where
  "basic_bounds lb ub \<longleftrightarrow> (lb = 0 \<or> lb = 1) \<and> (ub = 1 \<or> ub = -1)"

fun plain :: "re \<Rightarrow> bool" where
  "plain (Alt rs) = (rs \<noteq> [] \<and> (\<forall>r \<in> set rs. plain r))"
| "plain (Any a) = True"
| "plain (Assertion r k s) = (plain r \<and> s = Positive)"
| "plain (CC a s) = (uset_ok s \<and> codepoints s \<noteq> {})"
| "plain (Range lo hi) = False"
| "plain (Diff l r) = False"
| "plain End = True"
| "plain (Intersect l r) = False"
| "plain (Name ns nm d ext) = (case d of None \<Rightarrow> True | Some x \<Rightarrow> plain x)"
| "plain (PropertyExpression k ident op v code d) = (case d of None \<Rightarrow> True | Some x \<Rightarrow> plain x)"
| "plain (Capture nm r) = plain r"
| "plain (Reference nm r n p) = plain r"
| "plain (Group m r s) = plain r"
| "plain (Rep r lb ub) = (plain r \<and> basic_bounds lb ub)"
| "plain (Seq rs) = (\<forall>r \<in> set rs. plain r)"
| "plain Start = True"
| "plain (Permute rs) = (\<forall>r \<in> set rs. plain r)"

lemma basic_bounds_valid: "basic_bounds lb ub \<Longrightarrow> valid_bounds lb ub"
  by (auto simp: basic_bounds_def valid_bounds_def)

lemma plain_re_ok: "plain r \<Longrightarrow> re_ok r"
proof (induction r)
  case (Name ns nm d ext)
  then show ?case by (cases d) auto
next
  case (PropertyExpression k ident op v code d)
  then show ?case by (cases d) auto
qed (auto simp: basic_bounds_valid)

lemma plain_not_empty: "plain r \<Longrightarrow> \<not> isEmptySet r"
  by (auto simp: isEmptySet_def is_empty_codepoints split: re.splits)

lemma plain_makeSeq:
  assumes "\<forall>r \<in> set rs. plain r"
  shows "plain (makeSeq rs)"
proof -
  have "\<forall>r \<in> set items. plain r \<Longrightarrow> \<forall>r \<in> set acc. plain r \<Longrightarrow>
      \<exists>l. seq_items items acc = Inr l \<and> (\<forall>r \<in> set l. plain r)" for items acc
  proof (induction items arbitrary: acc)
    case (Cons item items)
    have "\<not> isEmptySet item" using Cons.prems(1) by (simp add: plain_not_empty)
    moreover have "\<forall>r \<in> set (case item of Seq rs \<Rightarrow> acc @ rs | _ \<Rightarrow> acc @ [item]). plain r"
      using Cons.prems by (cases item) auto
    ultimately show ?case using Cons.IH[of "case item of Seq rs \<Rightarrow> acc @ rs | _ \<Rightarrow> acc @ [item]"] Cons.prems(1)
      by (cases item) auto
  qed simp
  from this[OF assms, of "[]"] obtain l where "seq_items rs [] = Inr l" "\<forall>r \<in> set l. plain r" by auto
  then show ?thesis by (cases l) (auto simp: makeSeq_def)
qed

text \<open>The states of \<open>makeAlt\<close> on such expressions.\<close>

definition plain_state :: "alt_state \<Rightarrow> bool" where
  "plain_state st \<longleftrightarrow> (\<forall>r \<in> set (newAlt st). plain r) \<and> (\<forall>cc \<in> set (CCs st). plain (of_cc cc))
    \<and> nullableRE st \<in> {None, Some (Seq [])}"

definition live_state :: "alt_state \<Rightarrow> bool" where
  "live_state st \<longleftrightarrow> newAlt st \<noteq> [] \<or> CCs st \<noteq> [] \<or> nullableRE st \<noteq> None"

lemma plain_makeCC2: "plain (of_cc a) \<Longrightarrow> plain (of_cc b) \<Longrightarrow> plain (of_cc (makeCC2 a b))"
  using makeCC2_spec(1,2)[of a b] by (simp add: of_cc_def)

lemma plain_combineCC:
  "\<forall>cc \<in> set ccs. plain (of_cc cc) \<Longrightarrow> plain (of_cc cc') \<Longrightarrow>
   (\<forall>cc \<in> set (combineCC ccs cc'). plain (of_cc cc)) \<and> combineCC ccs cc' \<noteq> []"
proof (induction ccs)
  case (Cons cc ccs)
  then show ?case using plain_makeCC2[of cc cc'] by simp
qed simp

lemma plain_state_steps:
  assumes "plain_state st"
  shows "plain r \<Longrightarrow> plain_state (push_alt r st) \<and> live_state (push_alt r st)"
    "plain_state (note_nullable (Seq []) st) \<and> live_state (note_nullable (Seq []) st)"
    "plain (CC a s) \<Longrightarrow> plain_state (st\<lparr>CCs := combineCC (CCs st) (a, s)\<rparr>) \<and> live_state (st\<lparr>CCs := combineCC (CCs st) (a, s)\<rparr>)"
  using assms plain_combineCC[of "CCs st" "(a, s)"]
  by (auto simp: plain_state_def live_state_def push_alt_def note_nullable_def of_cc_def)

lemma plain_nested_items:
  "plain_state st \<Longrightarrow> \<forall>r \<in> set rs. plain r \<Longrightarrow> rs \<noteq> [] \<or> live_state st \<Longrightarrow>
   plain_state (nested_items rs st) \<and> live_state (nested_items rs st)"
proof (induction rs arbitrary: st)
  case (Cons r rs)
  define st' where "st' = (case r of CC al s \<Rightarrow> st\<lparr>CCs := combineCC (CCs st) (al, s)\<rparr>
     | _ \<Rightarrow> if isEmptySeq r then note_nullable r st else push_alt r st)"
  have "plain_state st' \<and> live_state st'"
    using plain_state_steps[OF Cons.prems(1)] Cons.prems(2) unfolding st'_def
    by (cases r) (auto simp: isEmptySeq_def)
  then have "plain_state (nested_items rs st') \<and> live_state (nested_items rs st')"
    using Cons.IH[of st'] Cons.prems(2) by simp
  then show ?case by (simp add: st'_def)
qed simp

lemma plain_alt_item:
  assumes "plain_state st" "plain r" "\<And>x ub. r = Rep x 0 ub \<Longrightarrow> \<exists>r'. mk (x, 1, ub) = Some r' \<and> plain r'"
  shows "\<exists>st'. alt_item mk r st = Some st' \<and> plain_state st' \<and> live_state st'"
proof (cases r)
  case (Alt rs)
  then show ?thesis using plain_nested_items[OF assms(1)] assms(2) by (simp add: alt_item_def)
next
  case (Rep x lb ub)
  show ?thesis
  proof (cases "lb = 0")
    case True
    then obtain r' where "mk (x, 1, ub) = Some r'" "plain r'" using assms(3) Rep by blast
    then show ?thesis
      using plain_state_steps(1)[of "note_nullable (Seq []) st" r'] plain_state_steps(2)[OF assms(1)] Rep True
      by (simp add: alt_item_def)
  next
    case False
    then show ?thesis using plain_state_steps(1)[OF assms(1,2)] Rep by (simp add: alt_item_def)
  qed
qed (use plain_state_steps[OF assms(1)] assms(2) in \<open>auto simp: alt_item_def isEmptySeq_def\<close>)

lemma plain_alt_items:
  "plain_state st \<Longrightarrow> \<forall>r \<in> set rs. plain r \<Longrightarrow> rs \<noteq> [] \<or> live_state st \<Longrightarrow>
   (\<And>x ub. Rep x 0 ub \<in> set rs \<Longrightarrow> \<exists>r'. mk (x, 1, ub) = Some r' \<and> plain r') \<Longrightarrow>
   \<exists>st'. alt_items mk rs st = Some st' \<and> plain_state st' \<and> live_state st'"
proof (induction rs arbitrary: st)
  case (Cons r rs)
  obtain st1 where "alt_item mk r st = Some st1" "plain_state st1" "live_state st1"
    using plain_alt_item[OF Cons.prems(1), of r mk] Cons.prems(2,4) by auto
  with Cons.IH[of st1] Cons.prems(2,4) show ?case by auto
qed simp

lemma plain_alt_result:
  assumes "plain_state st" "live_state st"
  shows "plain (alt_result st)"
proof -
  let ?l = "newAlt st @ map of_cc (CCs st) @ (case nullableRE st of None \<Rightarrow> [] | Some r \<Rightarrow> [r])"
  have "\<forall>r \<in> set ?l. plain r" "?l \<noteq> []"
    using assms by (auto simp: plain_state_def live_state_def split: option.splits)
  moreover have "alt_result st = (if length ?l = 1 then hd ?l else Alt ?l)" by (simp add: alt_result_def Let_def)
  ultimately show ?thesis by (metis list.set_sel(1) plain.simps(1))
qed

lemma plain_makeAlt_with:
  assumes "\<forall>r \<in> set rs. plain r" "rs \<noteq> []"
    and "\<And>x ub. Rep x 0 ub \<in> set rs \<Longrightarrow> \<exists>r'. mk (x, 1, ub) = Some r' \<and> plain r'"
  shows "\<exists>r'. makeAlt_with mk rs = Some r' \<and> plain r'"
proof -
  have "plain_state \<lparr>CCs = [], nullableRE = None, newAlt = []\<rparr>" by (simp add: plain_state_def)
  from plain_alt_items[OF this assms(1), of mk] assms(2,3) show ?thesis
    by (auto simp: makeAlt_with_def plain_alt_result)
qed

lemma plain_makeRep_rec:
  assumes "plain r" "basic_bounds lb ub"
  shows "\<exists>r'. makeRep_rec (r, lb, ub) = Some r' \<and> plain r'"
proof -
  have e: "\<not> isEmptySet r" "lb \<noteq> -1" "\<not> (ub \<noteq> -1 \<and> ub < lb)" "\<not> (lb = 0 \<and> ub = 0)" "0 \<le> lb"
    using assms by (auto simp: plain_not_empty basic_bounds_def)
  show ?thesis
  proof (cases "\<exists>x l u. r = Rep x l u")
    case False
    consider "r = Seq []" | x k s where "r = Assertion x k s"
      | "r \<noteq> Seq []" "\<And>x k s. r \<noteq> Assertion x k s" by blast
    then show ?thesis
    proof cases
      case 1
      then show ?thesis using e by (subst makeRep_rec.simps) simp
    next
      case 2
      then show ?thesis using e assms(1) by (subst makeRep_rec.simps) (simp add: isEmptySeq_def)
    next
      case 3
      then have "\<not> isEmptySeq r" by (auto dest: isEmptySeqD)
      have "makeRep_rec (r, lb, ub) = Some (if lb = 1 \<and> ub = 1 then r else Rep r lb ub)"
      proof (cases r)
        case (Rep x l u)
        then show ?thesis using False by blast
      next
        case (Assertion x k s)
        then show ?thesis using 3(2) by blast
      qed (use e \<open>\<not> isEmptySeq r\<close> in \<open>subst makeRep_rec.simps, simp\<close>)+
      then show ?thesis using assms by auto
    qed
  next
    case True
    then obtain x l u where r: "r = Rep x l u" by blast
    have x: "plain x" "basic_bounds l u" using assms(1) r by simp_all
    have b: "lb = 0 \<or> lb = 1" "ub = 1 \<or> ub = -1" "l = 0 \<or> l = 1" "u = 1 \<or> u = -1"
      using assms(2) x(2) by (simp_all add: basic_bounds_def)
    have d: "(-1) sdiv (1 :: int) = -1" by (simp add: signed_divide_int_def)
    consider "lb = 1" "ub = 1" | "lb \<noteq> ub" "u = -1" "l = 0" | "lb \<noteq> ub" "u = -1" "l = 1"
      | "lb \<noteq> ub" "u = 1" "l = 0" | "lb \<noteq> ub" "u = 1" "l = 1" using b by auto
    then show ?thesis
    proof cases
      case 4
      have "makeRep_rec (r, lb, ub) = Some (Rep x 0 (ubCombine 1 ub))"
        using 4 e(1-3,5) d unfolding r by (subst makeRep_rec.simps) (simp add: isEmptySeq_def Let_def)
      then show ?thesis using x b(2) by (auto simp: basic_bounds_def ubCombine_def)
    next
      case 1
      then have "makeRep_rec (r, lb, ub) = Some (Rep x l (ubCombine u ub))"
        using e(1) unfolding r by (subst makeRep_rec.simps) (simp add: isEmptySeq_def)
      then show ?thesis using x b 1 by (auto simp: basic_bounds_def ubCombine_def)
    next
      case 2
      then have "makeRep_rec (r, lb, ub) = Some r"
        using e(1-3) unfolding r by (subst makeRep_rec.simps) (simp add: isEmptySeq_def)
      then show ?thesis using assms(1) by simp
    next
      case 3
      then have "makeRep_rec (r, lb, ub) = Some (Rep x lb (-1))"
        using e(1-3) unfolding r by (subst makeRep_rec.simps) (simp add: isEmptySeq_def)
      then show ?thesis using x b by (simp add: basic_bounds_def)
    next
      case 5
      then have "makeRep_rec (r, lb, ub) = Some (Rep r lb ub)"
        using e(1-3) unfolding r by (subst makeRep_rec.simps) (simp add: isEmptySeq_def)
      then show ?thesis using assms by simp
    qed
  qed
qed

lemma plain_makeRep:
  assumes "plain r" "basic_bounds lb ub"
  shows "\<exists>r'. makeRep r lb ub = Some r' \<and> plain r' \<and> (\<forall>c. den c r' = rep_spans (den c r) (rep_counts lb ub))"
proof -
  obtain r' where r': "makeRep r lb ub = Some r'" "plain r'"
    using plain_makeRep_rec[OF assms] by (auto simp: makeRep_def)
  have "rep_sound r lb ub" using assms by (auto simp: rep_sound_def plain_not_empty basic_bounds_def)
  from makeRep_spec(2)[OF plain_re_ok[OF assms(1)] basic_bounds_valid[OF assms(2)] this r'(1)] r' show ?thesis by blast
qed

lemma plain_makeAlt:
  assumes "\<forall>r \<in> set rs. plain r" "rs \<noteq> []"
  shows "\<exists>r'. makeAlt rs = Some r' \<and> plain r' \<and> (\<forall>c. den c r' = (\<Union>r \<in> set rs. den c r))"
proof -
  have "\<exists>r'. makeRep_rec (x, 1, ub) = Some r' \<and> plain r'" if "Rep x 0 ub \<in> set rs" for x ub
    using that assms(1) by (intro plain_makeRep_rec) (auto simp: basic_bounds_def)
  then obtain r' where r': "makeAlt rs = Some r'" "plain r'"
    using plain_makeAlt_with[OF assms] unfolding makeAlt_def by blast
  have "\<forall>r \<in> set rs. re_ok r" using assms(1) plain_re_ok by blast
  from makeAlt_spec(2)[OF this r'(1)] r' show ?thesis by blast
qed

lemma plain_makeAssertion:
  assumes "plain r"
  shows "plain (makeAssertion r k Positive)" "den c (makeAssertion r k Positive) = look_spans k Positive (den c r)"
  using assms makeAssertion_spec(2)[OF plain_re_ok[OF assms(1)]] by (simp_all add: makeAssertion_def plain_not_empty)

end
