(* ===== verification/RE_Transform.thy ===== *)
theory RE_Transform imports RE_Plain begin

text \<open>
  The class \<open>RE_Transformer\<close> of \<open>lib/re/transforms/re_transformer.cpp\<close>: a table of
  virtual methods, the dispatch over it, and the base methods. A subclass is an update of the base
  table.
\<close>

section \<open>Methods\<close>

text \<open>The result of a method: the new expression and whether it is another object than the one
  transformed, or \<open>None\<close> for a fatal error. The code compares addresses to find out whether
  anything changed. A method gets the results of \<open>transform\<close> on the operands; one that does
  not transform an operand ignores its result.\<close>

type_synonym xres = "(re \<times> bool) option"

datatype NameTransformationMode = NoNameTransformation | TransformDefinition

record transformer =
  transformAlt :: "re list \<Rightarrow> xres list \<Rightarrow> xres"
  transformAny :: "alphabet \<Rightarrow> xres"
  transformAssertion :: "re \<Rightarrow> assertion_kind \<Rightarrow> assertion_sense \<Rightarrow> xres \<Rightarrow> xres"
  transformCC :: "alphabet \<Rightarrow> unicode_set \<Rightarrow> xres"
  transformRange :: "re \<Rightarrow> re \<Rightarrow> xres \<Rightarrow> xres \<Rightarrow> xres"
  transformDiff :: "re \<Rightarrow> re \<Rightarrow> xres \<Rightarrow> xres \<Rightarrow> xres"
  transformEnd :: xres
  transformIntersect :: "re \<Rightarrow> re \<Rightarrow> xres \<Rightarrow> xres \<Rightarrow> xres"
  transformName :: "string \<Rightarrow> string \<Rightarrow> re option \<Rightarrow> bool \<Rightarrow> xres \<Rightarrow> xres"
  transformCapture :: "string \<Rightarrow> re \<Rightarrow> xres \<Rightarrow> xres"
  transformReference :: "string \<Rightarrow> re \<Rightarrow> nat \<Rightarrow> nat \<Rightarrow> xres"
  transformGroup :: "group_mode \<Rightarrow> re \<Rightarrow> group_sense \<Rightarrow> xres \<Rightarrow> xres"
  transformRep :: "re \<Rightarrow> int \<Rightarrow> int \<Rightarrow> xres \<Rightarrow> xres"
  transformSeq :: "re list \<Rightarrow> xres list \<Rightarrow> xres"
  transformStart :: xres
  transformPermute :: "re list \<Rightarrow> xres list \<Rightarrow> xres"
  transformPropertyExpression ::
    "property_kind \<Rightarrow> string \<Rightarrow> property_operator \<Rightarrow> string \<Rightarrow> int \<Rightarrow> re option \<Rightarrow> xres \<Rightarrow> xres"

text \<open>\<open>transform\<close>: the dispatch. The operand of a name or property expression without
  definition has no result.\<close>

fun transform :: "transformer \<Rightarrow> re \<Rightarrow> xres" where
  "transform T (Alt rs) = transformAlt T rs (map (transform T) rs)"
| "transform T (Any a) = transformAny T a"
| "transform T (Assertion r k s) = transformAssertion T r k s (transform T r)"
| "transform T (CC a s) = transformCC T a s"
| "transform T (Range lo hi) = transformRange T lo hi (transform T lo) (transform T hi)"
| "transform T (Diff l r) = transformDiff T l r (transform T l) (transform T r)"
| "transform T End = transformEnd T"
| "transform T (Intersect l r) = transformIntersect T l r (transform T l) (transform T r)"
| "transform T (Name ns nm None ext) = transformName T ns nm None ext None"
| "transform T (Name ns nm (Some d) ext) = transformName T ns nm (Some d) ext (transform T d)"
| "transform T (PropertyExpression k ident op v code None) =
     transformPropertyExpression T k ident op v code None None"
| "transform T (PropertyExpression k ident op v code (Some d)) =
     transformPropertyExpression T k ident op v code (Some d) (transform T d)"
| "transform T (Capture nm r) = transformCapture T nm r (transform T r)"
| "transform T (Reference nm r n p) = transformReference T nm r n p"
| "transform T (Group m r s) = transformGroup T m r s (transform T r)"
| "transform T (Rep r lb ub) = transformRep T r lb ub (transform T r)"
| "transform T (Seq rs) = transformSeq T rs (map (transform T) rs)"
| "transform T Start = transformStart T"
| "transform T (Permute rs) = transformPermute T rs (map (transform T) rs)"

definition transformRE :: "transformer \<Rightarrow> re \<Rightarrow> re option" where
  "transformRE T r = map_option fst (transform T r)"

section \<open>The base class\<close>

text \<open>The loop over the elements of a list: the new elements, and whether any has changed.\<close>

fun gather_elems :: "xres list \<Rightarrow> (re list \<times> bool) option" where
  "gather_elems [] = Some ([], False)"
| "gather_elems (x # xs) =
     (case x of
        None \<Rightarrow> None
      | Some (e, ch) \<Rightarrow>
          (case gather_elems xs of None \<Rightarrow> None | Some (es, any) \<Rightarrow> Some (e # es, ch \<or> any)))"

abbreviation changed :: "re option \<Rightarrow> xres" where
  "changed r \<equiv> map_option (\<lambda>r. (r, True)) r"

definition base_transformSeq :: "re list \<Rightarrow> xres list \<Rightarrow> xres" where
  "base_transformSeq rs xs =
     (case gather_elems xs of
        None \<Rightarrow> None
      | Some (elems, any_changed) \<Rightarrow>
          if \<not> any_changed then Some (Seq rs, False) else Some (makeSeq elems, True))"

definition base_transformAlt :: "re list \<Rightarrow> xres list \<Rightarrow> xres" where
  "base_transformAlt rs xs =
     (case gather_elems xs of
        None \<Rightarrow> None
      | Some (elems, any_changed) \<Rightarrow>
          if \<not> any_changed then Some (Alt rs, False) else changed (makeAlt elems))"

definition base_transformPermute :: "re list \<Rightarrow> xres list \<Rightarrow> xres" where
  "base_transformPermute rs xs =
     (case gather_elems xs of
        None \<Rightarrow> None
      | Some (elems, any_changed) \<Rightarrow>
          if \<not> any_changed then Some (Permute rs, False) else Some (Permute elems, True))"

definition base_transformRep :: "re \<Rightarrow> int \<Rightarrow> int \<Rightarrow> xres \<Rightarrow> xres" where
  "base_transformRep r lb ub x =
     (case x of
        None \<Rightarrow> None
      | Some (r', ch) \<Rightarrow> if \<not> ch then Some (Rep r lb ub, False) else changed (makeRep r' lb ub))"

definition base_transformIntersect :: "(re \<Rightarrow> re \<Rightarrow> bool) \<Rightarrow> re \<Rightarrow> re \<Rightarrow> xres \<Rightarrow> xres \<Rightarrow> xres" where
  "base_transformIntersect same l r x y =
     (case (x, y) of
        (Some (l', ch1), Some (r', ch2)) \<Rightarrow>
          if \<not> ch1 \<and> \<not> ch2 then Some (Intersect l r, False) else Some (makeIntersect same l' r', True)
      | _ \<Rightarrow> None)"

definition base_transformDiff :: "(re \<Rightarrow> re \<Rightarrow> bool) \<Rightarrow> re \<Rightarrow> re \<Rightarrow> xres \<Rightarrow> xres \<Rightarrow> xres" where
  "base_transformDiff same l r x y =
     (case (x, y) of
        (Some (l', ch1), Some (r', ch2)) \<Rightarrow>
          if \<not> ch1 \<and> \<not> ch2 then Some (Diff l r, False) else changed (makeDiff same l' r')
      | _ \<Rightarrow> None)"

definition base_transformRange :: "(re \<Rightarrow> re \<Rightarrow> bool) \<Rightarrow> re \<Rightarrow> re \<Rightarrow> xres \<Rightarrow> xres \<Rightarrow> xres" where
  "base_transformRange same lo hi x y =
     (case (x, y) of
        (Some (lo', ch1), Some (hi', ch2)) \<Rightarrow>
          if \<not> ch1 \<and> \<not> ch2 then Some (Range lo hi, False) else changed (makeRange same lo' hi')
      | _ \<Rightarrow> None)"

definition base_transformGroup :: "group_mode \<Rightarrow> re \<Rightarrow> group_sense \<Rightarrow> xres \<Rightarrow> xres" where
  "base_transformGroup m r s x =
     (case x of
        None \<Rightarrow> None
      | Some (r', ch) \<Rightarrow> if \<not> ch then Some (Group m r s, False) else Some (Group m r' s, True))"

definition base_transformAssertion :: "re \<Rightarrow> assertion_kind \<Rightarrow> assertion_sense \<Rightarrow> xres \<Rightarrow> xres" where
  "base_transformAssertion r k s x =
     (case x of
        None \<Rightarrow> None
      | Some (r', ch) \<Rightarrow> if \<not> ch then Some (Assertion r k s, False) else Some (makeAssertion r' k s, True))"

definition base_transformCapture :: "string \<Rightarrow> re \<Rightarrow> xres \<Rightarrow> xres" where
  "base_transformCapture nm r x =
     (case x of
        None \<Rightarrow> None
      | Some (r', ch) \<Rightarrow> if \<not> ch then Some (Capture nm r, False) else Some (Capture nm r', True))"

definition base_transformName :: "NameTransformationMode \<Rightarrow> string \<Rightarrow> string \<Rightarrow> re option \<Rightarrow> bool \<Rightarrow> xres \<Rightarrow> xres" where
  "base_transformName m ns nm d ext x =
     (if m = NoNameTransformation then Some (Name ns nm d ext, False)
      else if d = None then None
      else case x of
          None \<Rightarrow> None
        | Some (t, ch) \<Rightarrow> if \<not> ch then Some (Name ns nm d ext, False) else Some (t, True))"

fun is_Reference :: "re \<Rightarrow> bool" where
  "is_Reference (Reference nm r n p) = True"
| "is_Reference _ = False"

definition base_transformPropertyExpression :: "NameTransformationMode \<Rightarrow>
    property_kind \<Rightarrow> string \<Rightarrow> property_operator \<Rightarrow> string \<Rightarrow> int \<Rightarrow> re option \<Rightarrow> xres \<Rightarrow> xres" where
  "base_transformPropertyExpression m k ident op v code d x =
     (case d of
        None \<Rightarrow> Some (PropertyExpression k ident op v code d, False)
      | Some defn \<Rightarrow>
          if m = TransformDefinition \<or> is_Reference defn then
            (case x of
               None \<Rightarrow> None
             | Some (t, ch) \<Rightarrow> if ch then Some (t, True) else Some (PropertyExpression k ident op v code d, False))
          else Some (PropertyExpression k ident op v code d, False))"

definition RE_Transformer :: "NameTransformationMode \<Rightarrow> (re \<Rightarrow> re \<Rightarrow> bool) \<Rightarrow> transformer" where
  "RE_Transformer m same = \<lparr>
     transformAlt = base_transformAlt,
     transformAny = (\<lambda>a. Some (Any a, False)),
     transformAssertion = base_transformAssertion,
     transformCC = (\<lambda>a s. Some (CC a s, False)),
     transformRange = base_transformRange same,
     transformDiff = base_transformDiff same,
     transformEnd = Some (End, False),
     transformIntersect = base_transformIntersect same,
     transformName = base_transformName m,
     transformCapture = base_transformCapture,
     transformReference = (\<lambda>nm r n p. Some (Reference nm r n p, False)),
     transformGroup = base_transformGroup,
     transformRep = base_transformRep,
     transformSeq = base_transformSeq,
     transformStart = Some (Start, False),
     transformPermute = base_transformPermute,
     transformPropertyExpression = base_transformPropertyExpression m\<rparr>"

lemma RE_Transformer_methods [simp]:
  "transformAlt (RE_Transformer m same) = base_transformAlt"
  "transformAny (RE_Transformer m same) a = Some (Any a, False)"
  "transformAssertion (RE_Transformer m same) = base_transformAssertion"
  "transformCC (RE_Transformer m same) a s = Some (CC a s, False)"
  "transformRange (RE_Transformer m same) = base_transformRange same"
  "transformDiff (RE_Transformer m same) = base_transformDiff same"
  "transformEnd (RE_Transformer m same) = Some (End, False)"
  "transformIntersect (RE_Transformer m same) = base_transformIntersect same"
  "transformName (RE_Transformer m same) = base_transformName m"
  "transformCapture (RE_Transformer m same) = base_transformCapture"
  "transformReference (RE_Transformer m same) nm r n p = Some (Reference nm r n p, False)"
  "transformGroup (RE_Transformer m same) = base_transformGroup"
  "transformRep (RE_Transformer m same) = base_transformRep"
  "transformSeq (RE_Transformer m same) = base_transformSeq"
  "transformStart (RE_Transformer m same) = Some (Start, False)"
  "transformPermute (RE_Transformer m same) = base_transformPermute"
  "transformPropertyExpression (RE_Transformer m same) = base_transformPropertyExpression m"
  by (simp_all add: RE_Transformer_def)

end
