(* ===== verification/RE_Sound.thy ===== *)
theory RE_Sound imports RE_Transform begin

text \<open>
  When a transformer is right: a relation between spans that composition, union and assertions
  respect, laws for the methods over it, and the theorem that the dispatch over lawful methods
  never fails on plain expressions and yields a related plain expression. The base methods satisfy
  the laws.
\<close>

section \<open>Relations between spans\<close>

locale span_union =
  fixes sim :: "spans \<Rightarrow> spans \<Rightarrow> bool"
  assumes union: "(\<And>R S. (R, S) \<in> P \<Longrightarrow> sim R S) \<Longrightarrow> sim (\<Union> (fst ` P)) (\<Union> (snd ` P))"
begin

lemma union_list: "list_all2 sim Rs Ss \<Longrightarrow> sim (\<Union> (set Rs)) (\<Union> (set Ss))"
proof -
  assume sims: "list_all2 sim Rs Ss"
  then have "sim R S" if "(R, S) \<in> set (zip Rs Ss)" for R S
    using that by (auto simp: list_all2_iff)
  from union[of "set (zip Rs Ss)", OF this] show ?thesis
    using list_all2_lengthD[OF sims] by (simp flip: set_map)
qed

end

locale span_relation = span_union sim
  for sim :: "spans \<Rightarrow> spans \<Rightarrow> bool" +
  assumes comp: "sim R S \<Longrightarrow> sim R' S' \<Longrightarrow> sim (R O R') (S O S')"
    and ident: "sim Id Id"
    and look: "sim R S \<Longrightarrow> sim (look_spans k s R) (look_spans k s S)"
begin

lemma power: "sim R S \<Longrightarrow> sim (R ^^ n) (S ^^ n)"
  by (induction n) (auto intro: comp ident)

lemma seq: "list_all2 sim Rs Ss \<Longrightarrow> sim (seq_spans Rs) (seq_spans Ss)"
  by (induction rule: list_all2_induct) (auto intro: comp ident)

lemma rep: "sim R S \<Longrightarrow> sim (rep_spans R N) (rep_spans S N)"
proof -
  assume "sim R S"
  then have "sim A B" if "(A, B) \<in> (\<lambda>n. (R ^^ n, S ^^ n)) ` N" for A B
    using that power by auto
  from union[of "(\<lambda>n. (R ^^ n, S ^^ n)) ` N", OF this] show ?thesis by (simp add: rep_spans_def image_image)
qed

lemma perms:
  assumes "list_all2 sim Rs Ss"
  shows "sim (\<Union>Rs' \<in> {Rs'. mset Rs' = mset Rs}. seq_spans Rs') (\<Union>Ss' \<in> {Ss'. mset Ss' = mset Ss}. seq_spans Ss')"
proof -
  define P where "P = {(seq_spans Rs', seq_spans Ss') | Rs' Ss'. list_all2 sim Rs' Ss' \<and> mset Rs' = mset Rs \<and> mset Ss' = mset Ss}"
  have fst: "fst ` P = seq_spans ` {Rs'. mset Rs' = mset Rs}"
  proof -
    have "\<exists>Ss'. list_all2 sim Rs' Ss' \<and> mset Ss' = mset Ss" if "mset Rs' = mset Rs" for Rs'
      using list_all2_reorder_left_invariance[OF assms that] by blast
    then show ?thesis by (force simp: P_def)
  qed
  have snd: "snd ` P = seq_spans ` {Ss'. mset Ss' = mset Ss}"
  proof -
    have "list_all2 (\<lambda>S R. sim R S) Ss Rs" using assms by (simp add: list_all2_conv_all_nth)
    then have "\<exists>Rs'. list_all2 (\<lambda>S R. sim R S) Ss' Rs' \<and> mset Rs' = mset Rs" if "mset Ss' = mset Ss" for Ss'
      using list_all2_reorder_left_invariance that by blast
    then have "\<exists>Rs'. list_all2 sim Rs' Ss' \<and> mset Rs' = mset Rs" if "mset Ss' = mset Ss" for Ss'
      using that by (fastforce simp: list_all2_conv_all_nth)
    then show ?thesis by (force simp: P_def)
  qed
  have "sim A B" if "(A, B) \<in> P" for A B using that seq by (auto simp: P_def)
  from union[of P, OF this] show ?thesis by (simp only: fst snd)
qed

end

text \<open>A method result that is right: the new expression is plain and its spans are related to those
  of the original; an unchanged result is the original.\<close>

definition xok :: "(spans \<Rightarrow> spans \<Rightarrow> bool) \<Rightarrow> sem \<Rightarrow> sem \<Rightarrow> re \<Rightarrow> xres \<Rightarrow> bool" where
  "xok sim c c' r x \<longleftrightarrow> (\<exists>r' ch. x = Some (r', ch) \<and> plain r' \<and> sim (den c r) (den c' r') \<and> (\<not> ch \<longrightarrow> r' = r))"

lemma xok_unchanged [simp]:
  "xok sim c c' r (Some (r, False)) = (plain r \<and> sim (den c r) (den c' r))"
  "xok sim c c' r (Some (r', True)) = (plain r' \<and> sim (den c r) (den c' r'))"
  by (auto simp: xok_def)

text \<open>The leaves whose meaning the context gives have related spans; the classes are of a kind
  that the methods treat.\<close>

fun leaves_ok :: "(alphabet \<Rightarrow> unicode_set \<Rightarrow> bool) \<Rightarrow> (spans \<Rightarrow> spans \<Rightarrow> bool) \<Rightarrow> sem \<Rightarrow> sem \<Rightarrow> re \<Rightarrow> bool" where
  "leaves_ok ok sim c c' (Alt rs) = (\<forall>r \<in> set rs. leaves_ok ok sim c c' r)"
| "leaves_ok ok sim c c' (Assertion r k s) = leaves_ok ok sim c c' r"
| "leaves_ok ok sim c c' (CC a s) = ok a s"
| "leaves_ok ok sim c c' (Capture nm r) = leaves_ok ok sim c c' r"
| "leaves_ok ok sim c c' (Group m r s) = (leaves_ok ok sim c c' r \<and>
     (\<forall>R S. sim R S \<longrightarrow> sim (group_spans c m s R) (group_spans c' m s S)))"
| "leaves_ok ok sim c c' (Rep r lb ub) = leaves_ok ok sim c c' r"
| "leaves_ok ok sim c c' (Seq rs) = (\<forall>r \<in> set rs. leaves_ok ok sim c c' r)"
| "leaves_ok ok sim c c' (Permute rs) = (\<forall>r \<in> set rs. leaves_ok ok sim c c' r)"
| "leaves_ok ok sim c c' r = sim (den c r) (den c' r)"

lemma leaves_ok_refl: "leaves_ok (\<lambda>a s. True) (=) c c r"
  by (induction r) auto

section \<open>Lawful methods\<close>

locale sound_methods = span_relation sim
  for sim :: "spans \<Rightarrow> spans \<Rightarrow> bool" +
  fixes ok :: "alphabet \<Rightarrow> unicode_set \<Rightarrow> bool" and c c' :: sem and T :: transformer
  assumes alt: "plain (Alt rs) \<Longrightarrow> list_all2 (xok sim c c') rs xs \<Longrightarrow> xok sim c c' (Alt rs) (transformAlt T rs xs)"
    and any: "sim (any_spans c a) (any_spans c' a) \<Longrightarrow> xok sim c c' (Any a) (transformAny T a)"
    and assertion: "plain (Assertion r k s) \<Longrightarrow> xok sim c c' r x \<Longrightarrow> xok sim c c' (Assertion r k s) (transformAssertion T r k s x)"
    and cc: "plain (CC a t) \<Longrightarrow> ok a t \<Longrightarrow> xok sim c c' (CC a t) (transformCC T a t)"
    and end_law: "sim (Id_on (end_at c)) (Id_on (end_at c')) \<Longrightarrow> xok sim c c' End (transformEnd T)"
    and name: "plain (Name ns nm d ext) \<Longrightarrow> sim (den c (Name ns nm d ext)) (den c' (Name ns nm d ext)) \<Longrightarrow>
      xok sim c c' (Name ns nm d ext) (transformName T ns nm d ext x)"
    and property: "plain (PropertyExpression pk ident op v code d) \<Longrightarrow>
      sim (den c (PropertyExpression pk ident op v code d)) (den c' (PropertyExpression pk ident op v code d)) \<Longrightarrow>
      (\<And>r. d = Some r \<Longrightarrow> is_Reference r \<Longrightarrow> x = transform T r) \<Longrightarrow>
      xok sim c c' (PropertyExpression pk ident op v code d) (transformPropertyExpression T pk ident op v code d x)"
    and capture: "plain (Capture nm r) \<Longrightarrow> xok sim c c' r x \<Longrightarrow> xok sim c c' (Capture nm r) (transformCapture T nm r x)"
    and reference: "plain (Reference nm r n p) \<Longrightarrow> sim (ref_spans c nm n p) (ref_spans c' nm n p) \<Longrightarrow>
      xok sim c c' (Reference nm r n p) (transformReference T nm r n p)"
    and group: "plain (Group m r gs) \<Longrightarrow> xok sim c c' r x \<Longrightarrow>
      (\<And>R S. sim R S \<Longrightarrow> sim (group_spans c m gs R) (group_spans c' m gs S)) \<Longrightarrow>
      xok sim c c' (Group m r gs) (transformGroup T m r gs x)"
    and rep_law: "plain (Rep r lb ub) \<Longrightarrow> xok sim c c' r x \<Longrightarrow> xok sim c c' (Rep r lb ub) (transformRep T r lb ub x)"
    and seq_law: "plain (Seq rs) \<Longrightarrow> list_all2 (xok sim c c') rs xs \<Longrightarrow> xok sim c c' (Seq rs) (transformSeq T rs xs)"
    and start: "sim (Id_on (start_at c)) (Id_on (start_at c')) \<Longrightarrow> xok sim c c' Start (transformStart T)"
    and permute: "plain (Permute rs) \<Longrightarrow> list_all2 (xok sim c c') rs xs \<Longrightarrow> xok sim c c' (Permute rs) (transformPermute T rs xs)"
begin

lemma list_xok:
  "(\<And>r. r \<in> set rs \<Longrightarrow> xok sim c c' r (transform T r)) \<Longrightarrow> list_all2 (xok sim c c') rs (map (transform T) rs)"
  by (simp add: list_all2_map2 list_all2_same)

theorem transform_sound: "plain r \<Longrightarrow> leaves_ok ok sim c c' r \<Longrightarrow> xok sim c c' r (transform T r)"
proof (induction r)
  case (Alt rs)
  then show ?case by (simp add: alt list_xok)
next
  case (Seq rs)
  then show ?case by (simp add: seq_law list_xok)
next
  case (Permute rs)
  then show ?case by (simp add: permute list_xok)
next
  case (Name ns nm d ext)
  then show ?case using name[OF Name.prems(1)] by (cases d) auto
next
  case (PropertyExpression k ident op v code d)
  then show ?case using property[OF PropertyExpression.prems(1)] by (cases d) auto
next
  case (Group m r s)
  then show ?case using group[OF Group.prems(1)] by simp
next
  case (Assertion r k s)
  then show ?case using assertion[OF Assertion.prems(1)] by simp
next
  case (Capture nm r)
  then show ?case using capture[OF Capture.prems(1)] by simp
next
  case (Rep r lb ub)
  then show ?case using rep_law[OF Rep.prems(1)] by simp
next
  case (CC a s)
  then show ?case using cc[OF CC.prems(1)] by simp
next
  case (Reference nm r n p)
  then show ?case using reference[OF Reference.prems(1)] by simp
qed (auto intro: any end_law start)

lemma transformRE_sound:
  assumes "plain r" "leaves_ok ok sim c c' r"
  shows "\<exists>r'. transformRE T r = Some r' \<and> plain r' \<and> sim (den c r) (den c' r')"
  using transform_sound[OF assms] by (auto simp: transformRE_def xok_def)

end

section \<open>The base methods are lawful\<close>

lemma gather_elems_xok:
  "list_all2 (xok sim c c') rs xs \<Longrightarrow>
   \<exists>es any. gather_elems xs = Some (es, any) \<and> list_all2 (\<lambda>r e. plain e \<and> sim (den c r) (den c' e)) rs es
     \<and> (\<not> any \<longrightarrow> es = rs)"
  by (induction rule: list_all2_induct) (auto simp: xok_def)

context span_union begin

lemma elems_spans:
  "list_all2 (\<lambda>r e. plain e \<and> sim (den c r) (den c' e)) rs es \<Longrightarrow>
   (\<forall>e \<in> set es. plain e) \<and> list_all2 sim (map (den c) rs) (map (den c') es) \<and> length rs = length es"
  by (induction rule: list_all2_induct) auto

lemma base_alt: "rs \<noteq> [] \<Longrightarrow> list_all2 (xok sim c c') rs xs \<Longrightarrow> xok sim c c' (Alt rs) (base_transformAlt rs xs)"
proof -
  assume "rs \<noteq> []" "list_all2 (xok sim c c') rs xs"
  from gather_elems_xok[OF this(2)] obtain es any where es: "gather_elems xs = Some (es, any)"
    "list_all2 (\<lambda>r e. plain e \<and> sim (den c r) (den c' e)) rs es" "\<not> any \<longrightarrow> es = rs" by blast
  note elems = elems_spans[OF es(2)]
  have sim: "sim (den c (Alt rs)) (\<Union>r \<in> set es. den c' r)" using union_list[OF conjunct1[OF conjunct2[OF elems]]] by simp
  have "es \<noteq> []" using \<open>rs \<noteq> []\<close> elems by auto
  from plain_makeAlt[OF conjunct1[OF elems] this] show ?thesis
    using es sim elems \<open>rs \<noteq> []\<close> by (cases any) (auto simp: base_transformAlt_def xok_def)
qed

lemma base_capture: "xok sim c c' r x \<Longrightarrow> xok sim c c' (Capture nm r) (base_transformCapture nm r x)"
  by (auto simp: xok_def base_transformCapture_def)

lemma base_group:
  "xok sim c c' r x \<Longrightarrow> (\<And>R S. sim R S \<Longrightarrow> sim (group_spans c m s R) (group_spans c' m s S)) \<Longrightarrow>
   xok sim c c' (Group m r s) (base_transformGroup m r s x)"
  by (auto simp: xok_def base_transformGroup_def)

lemma base_name:
  "plain (Name ns nm d ext) \<Longrightarrow> sim (den c (Name ns nm d ext)) (den c' (Name ns nm d ext)) \<Longrightarrow>
   xok sim c c' (Name ns nm d ext) (base_transformName NoNameTransformation ns nm d ext x)"
  by (auto simp: xok_def base_transformName_def)

lemma base_property:
  assumes "plain (PropertyExpression k ident op v code d)"
    and "sim (den c (PropertyExpression k ident op v code d)) (den c' (PropertyExpression k ident op v code d))"
    and "\<And>r. d = Some r \<Longrightarrow> is_Reference r \<Longrightarrow> x = Some (r, False)"
  shows "xok sim c c' (PropertyExpression k ident op v code d)
    (base_transformPropertyExpression NoNameTransformation k ident op v code d x)"
  using assms by (cases d) (auto simp: xok_def base_transformPropertyExpression_def)

end

context span_relation begin

lemma base_seq: "list_all2 (xok sim c c') rs xs \<Longrightarrow> xok sim c c' (Seq rs) (base_transformSeq rs xs)"
proof -
  assume "list_all2 (xok sim c c') rs xs"
  from gather_elems_xok[OF this] obtain es any where es: "gather_elems xs = Some (es, any)"
    "list_all2 (\<lambda>r e. plain e \<and> sim (den c r) (den c' e)) rs es" "\<not> any \<longrightarrow> es = rs" by blast
  note elems = elems_spans[OF es(2)]
  then have ok: "\<forall>e \<in> set es. re_ok e" using plain_re_ok by blast
  have "sim (den c (Seq rs)) (den c' (Seq es))" using seq elems by simp
  then show ?thesis
    using es elems plain_makeSeq[of es] makeSeq_spec(2)[OF ok, of c']
    by (cases any) (auto simp: base_transformSeq_def xok_def)
qed

lemma base_permute: "list_all2 (xok sim c c') rs xs \<Longrightarrow> xok sim c c' (Permute rs) (base_transformPermute rs xs)"
proof -
  assume "list_all2 (xok sim c c') rs xs"
  from gather_elems_xok[OF this] obtain es any where es: "gather_elems xs = Some (es, any)"
    "list_all2 (\<lambda>r e. plain e \<and> sim (den c r) (den c' e)) rs es" "\<not> any \<longrightarrow> es = rs" by blast
  note elems = elems_spans[OF es(2)]
  have "sim (den c (Permute rs)) (den c' (Permute es))"
    unfolding den.simps by (rule perms[OF conjunct1[OF conjunct2[OF elems]]])
  then show ?thesis using es elems by (cases any) (auto simp: base_transformPermute_def xok_def)
qed

lemma base_rep: "basic_bounds lb ub \<Longrightarrow> xok sim c c' r x \<Longrightarrow> xok sim c c' (Rep r lb ub) (base_transformRep r lb ub x)"
proof -
  assume bounds: "basic_bounds lb ub" and "xok sim c c' r x"
  then obtain r' ch where r': "x = Some (r', ch)" "plain r'" "sim (den c r) (den c' r')" "\<not> ch \<longrightarrow> r' = r"
    by (auto simp: xok_def)
  from plain_makeRep[OF r'(2) bounds] rep[OF r'(3), of "rep_counts lb ub"] show ?thesis
    using r' bounds by (cases ch) (auto simp: base_transformRep_def xok_def)
qed

lemma base_assertion:
  "s = Positive \<Longrightarrow> xok sim c c' r x \<Longrightarrow> xok sim c c' (Assertion r k s) (base_transformAssertion r k s x)"
proof -
  assume "s = Positive" "xok sim c c' r x"
  then obtain r' ch where r': "x = Some (r', ch)" "plain r'" "sim (den c r) (den c' r')" "\<not> ch \<longrightarrow> r' = r" and s: "s = Positive"
    by (auto simp: xok_def)
  then show ?thesis
    using plain_makeAssertion[OF r'(2)] look[OF r'(3)] by (cases ch) (auto simp: base_transformAssertion_def xok_def)
qed

lemmas base_laws = base_seq base_alt base_permute base_rep base_assertion base_capture base_group base_name base_property

end

section \<open>Equality of spans\<close>

interpretation same_spans: span_relation "(=)"
proof unfold_locales
  show "(\<And>R S. (R, S) \<in> P \<Longrightarrow> R = S) \<Longrightarrow> \<Union> (fst ` P) = \<Union> (snd ` P)" for P :: "(spans \<times> spans) set"
    by (auto simp: image_iff) (metis fst_conv snd_conv)+
qed auto

context span_relation begin

text \<open>A base table whose method for classes is replaced is lawful as soon as that method is.\<close>

lemma base_table:
  assumes "\<And>a t. plain (CC a t) \<Longrightarrow> ok a t \<Longrightarrow> xok sim c c' (CC a t) (cc a t)"
  shows "sound_methods sim ok c c' (RE_Transformer NoNameTransformation same\<lparr>transformCC := cc\<rparr>)"
proof (unfold_locales, goal_cases)
  case (4 a t)
  then show ?case using assms by simp
next
  case (7 pk ident op v code d x)
  have "x = Some (r, False)" if "d = Some r" "is_Reference r" for r
    using 7(3)[OF that] that(2) by (cases r) auto
  then show ?case using base_property[OF 7(1,2)] by simp
qed (simp_all add: base_seq base_alt base_permute base_rep base_assertion base_capture base_group base_name)

end

text \<open>The base class alone changes nothing.\<close>

interpretation identity: sound_methods "(=)" "\<lambda>a s. True" c c "RE_Transformer NoNameTransformation same"
proof -
  have "RE_Transformer NoNameTransformation same\<lparr>transformCC := \<lambda>a s. Some (CC a s, False)\<rparr>
      = RE_Transformer NoNameTransformation same"
    by (simp add: RE_Transformer_def)
  then show "sound_methods (=) (\<lambda>a s. True) c c (RE_Transformer NoNameTransformation same)"
    using same_spans.base_table[where cc = "\<lambda>a s. Some (CC a s, False)" and ok = "\<lambda>a s. True" and same = same
        and c = c and c' = c] by simp
qed

end
