(* ===== verification/RE_UTF8.thy ===== *)
theory RE_UTF8 imports RE_Sound UTF begin

text \<open>
  \<open>lib/re/transforms/to_utf8.cpp\<close>: the transformation of classes of code points to
  expressions over the bytes of their UTF-8 encodings.
\<close>

section \<open>Names of classes\<close>

fun getName :: "alphabet \<Rightarrow> string" where
  "getName (UnicodeMappableAlphabet nm code common aboveCommon) = nm"
| "getName (CodeUnitAlphabet nm code bits) = nm"
| "getName (MultiplexedAlphabet nm src sets) = nm"

text \<open>Output of a number in base 16.\<close>

definition hex_digit :: "nat \<Rightarrow> char" where
  "hex_digit n = char_of (if n < 10 then 48 + n else 87 + n)"

fun hex :: "nat \<Rightarrow> string" where
  "hex n = (if n < 16 then [hex_digit n] else hex (n div 16) @ [hex_digit (n mod 16)])"

declare hex.simps [simp del]

fun interval_names :: "char \<Rightarrow> interval list \<Rightarrow> string" where
  "interval_names separator [] = []"
| "interval_names separator ((lo, hi) # ivs) =
     separator # (if lo = hi then hex lo else hex lo @ ''_'' @ hex hi) @ interval_names CHR '','' ivs"

definition canonicalName :: "alphabet \<Rightarrow> unicode_set \<Rightarrow> string" where
  "canonicalName a s = getName a @ interval_names CHR ''_'' (intervals s)"

section \<open>The transformer\<close>

partial_function (option) rangeCodeUnits :: "codepoint \<Rightarrow> codepoint \<Rightarrow> nat \<Rightarrow> nat \<Rightarrow> re option" where
  "rangeCodeUnits lo hi index lgth =
     (let hunit = nthCodeUnit 8 hi index; lunit = nthCodeUnit 8 lo index in
      if index = lgth then Some (makeCC_range lunit hunit UTF8)
      else if hunit = lunit then
        do { r \<leftarrow> rangeCodeUnits lo hi (index + 1) lgth; Some (makeSeq [makeCC_codepoint hunit UTF8, r]) }
      else
        let suffix_mask = push_bit ((lgth - index) * 6) 1 - 1 in
        if hi AND suffix_mask \<noteq> suffix_mask then
          let hi_floor = and_not hi suffix_mask in
          do { r1 \<leftarrow> rangeCodeUnits hi_floor hi index lgth;
               r2 \<leftarrow> rangeCodeUnits lo (hi_floor - 1) index lgth;
               makeAlt [r1, r2] }
        else if lo AND suffix_mask \<noteq> 0 then
          let low_ceil = lo OR suffix_mask in
          do { r1 \<leftarrow> rangeCodeUnits (low_ceil + 1) hi index lgth;
               r2 \<leftarrow> rangeCodeUnits lo low_ceil index lgth;
               makeAlt [r1, r2] }
        else
          do { r \<leftarrow> rangeCodeUnits lo hi (index + 1) lgth; Some (makeSeq [makeCC_range lunit hunit UTF8, r]) })"

lemma max_codepoint_lengths:
  assumes "encoded_length 8 lo < encoded_length 8 hi"
  defines "m \<equiv> max_codepoint_of_length 8 (encoded_length 8 lo)"
  shows "encoded_length 8 m = encoded_length 8 lo" "encoded_length 8 (m + 1) = encoded_length 8 lo + 1" "lo \<le> m" "m < hi"
  using assms by (auto simp: encoded_length_def max_codepoint_of_length_def split: if_splits)

function rangeToUTF8 :: "codepoint \<Rightarrow> codepoint \<Rightarrow> re option" where
  "rangeToUTF8 lo hi =
     (let min_lgth = encoded_length 8 lo; max_lgth = encoded_length 8 hi in
      if min_lgth < max_lgth then
        let m = max_codepoint_of_length 8 min_lgth in
        do { r1 \<leftarrow> rangeToUTF8 lo m; r2 \<leftarrow> rangeToUTF8 (m + 1) hi; makeAlt [r1, r2] }
      else rangeCodeUnits lo hi 1 max_lgth)"
  by pat_completeness auto

termination
  by (relation "measure (\<lambda>(lo, hi). encoded_length 8 hi - encoded_length 8 lo)")
    (use max_codepoint_lengths in auto)

declare rangeToUTF8.simps [simp del]

fun ranges_to_utf8 :: "interval list \<Rightarrow> re list option" where
  "ranges_to_utf8 [] = Some []"
| "ranges_to_utf8 ((lo, hi) # ivs) =
     do { r \<leftarrow> rangeToUTF8 lo hi; alt \<leftarrow> ranges_to_utf8 ivs; Some (r # alt) }"

definition utf8_transformCC :: "bool \<Rightarrow> alphabet \<Rightarrow> unicode_set \<Rightarrow> xres" where
  "utf8_transformCC mInternalNaming a s =
     (if a \<noteq> Unicode then Some (CC a s, False)
      else do {
        alt \<leftarrow> ranges_to_utf8 (intervals s);
        xfrmd \<leftarrow> makeAlt alt;
        Some (if mInternalNaming then Name [] (canonicalName a s) (Some xfrmd) False else xfrmd, True)
      })"

definition UTF8_Transformer :: "bool \<Rightarrow> (re \<Rightarrow> re \<Rightarrow> bool) \<Rightarrow> transformer" where
  "UTF8_Transformer mInternalNaming same =
     RE_Transformer NoNameTransformation same\<lparr>transformCC := utf8_transformCC mInternalNaming\<rparr>"

definition toUTF8 :: "bool \<Rightarrow> (re \<Rightarrow> re \<Rightarrow> bool) \<Rightarrow> re \<Rightarrow> re option" where
  "toUTF8 useInternalNaming same r = transformRE (UTF8_Transformer useInternalNaming same) r"

section \<open>The units of a code point\<close>

definition sextets :: "nat \<Rightarrow> nat \<Rightarrow> nat \<Rightarrow> nat" where
  "sextets lgth n cp = cp div 64 ^ (lgth - n)"

definition lead_unit :: "nat \<Rightarrow> nat" where
  "lead_unit lgth = (if lgth = 1 then 0 else if lgth = 2 then 0xC0 else if lgth = 3 then 0xE0 else 0xF0)"

lemma unit_value:
  assumes "cp \<le> 0x10FFFF" "encoded_length 8 cp = lgth" "0 < n" "n \<le> lgth"
  shows "nthCodeUnit 8 cp n = (if n = 1 then lead_unit lgth + sextets lgth 1 cp else 0x80 + sextets lgth n cp mod 64)"
proof -
  have "nthCodeUnit 8 cp n = encode 8 cp ! (n - 1)" using nth_encode[of "n - 1" 8 cp] assms by simp
  also have "\<dots> = (if n = 1 then lead_unit lgth + sextets lgth 1 cp else 0x80 + sextets lgth n cp mod 64)"
  proof (cases cp rule: encoded_length_cases)
    case 1
    then show ?thesis using assms by (simp add: encode_8 lead_unit_def sextets_def)
  next
    case 2
    then consider "n = 1" | "n = 2" using assms by linarith
    then show ?thesis using 2 assms by cases (simp_all add: encode_8 lead_unit_def sextets_def)
  next
    case 3
    then consider "n = 1" | "n = 2" | "n = 3" using assms by linarith
    then show ?thesis using 3 assms by cases (simp_all add: encode_8 lead_unit_def sextets_def)
  next
    case 4
    then consider "n = 1" | "n = 2" | "n = 3" | "n = 4" using assms by linarith
    then show ?thesis using 4 assms by cases (simp_all add: encode_8 lead_unit_def sextets_def)
  qed
  finally show ?thesis .
qed

lemma between_length:
  "encoded_length 8 lo = lgth \<Longrightarrow> encoded_length 8 hi = lgth \<Longrightarrow> lo \<le> cp \<Longrightarrow> cp \<le> hi \<Longrightarrow> encoded_length 8 cp = lgth"
  using encoded_length_mono[of lo cp] encoded_length_mono[of cp hi] by simp

lemma mod_image:
  fixes a b :: nat
  assumes "a \<le> b" "a div 64 = b div 64 \<or> (a mod 64 = 0 \<and> b mod 64 = 63)"
  shows "(\<lambda>q. q mod 64) ` {a..b} = {a mod 64..b mod 64}"
proof
  have split: "q = q div 64 * 64 + q mod 64" for q :: nat by simp
  have bound: "q mod 64 \<le> 63" for q :: nat using mod_less_divisor[of 64 q] by linarith
  show "(\<lambda>q. q mod 64) ` {a..b} \<subseteq> {a mod 64..b mod 64}"
  proof (intro image_subsetI)
    fix q
    assume q: "q \<in> {a..b}"
    show "q mod 64 \<in> {a mod 64..b mod 64}"
    proof (cases "a div 64 = b div 64")
      case True
      moreover have "a div 64 \<le> q div 64" "q div 64 \<le> b div 64" using q by (auto intro: div_le_mono)
      ultimately have "q div 64 = a div 64" by linarith
      with True split[of a] split[of b] split[of q] have "a mod 64 \<le> q mod 64 \<longleftrightarrow> a \<le> q" "q mod 64 \<le> b mod 64 \<longleftrightarrow> q \<le> b"
        by linarith+
      with q show ?thesis by simp
    next
      case False
      then show ?thesis using assms(2) bound[of q] by simp
    qed
  qed
  show "{a mod 64..b mod 64} \<subseteq> (\<lambda>q. q mod 64) ` {a..b}"
  proof
    fix m
    assume m: "m \<in> {a mod 64..b mod 64}"
    let ?q = "a div 64 * 64 + m"
    have "m \<le> 63" using m bound[of b] by simp
    then have "?q mod 64 = m" by simp
    moreover have "a \<le> ?q" using m split[of a] unfolding atLeastAtMost_iff by linarith
    moreover have "?q \<le> b"
    proof -
      have "a div 64 \<le> b div 64" using assms(1) by (rule div_le_mono)
      then have "a div 64 * 64 \<le> b div 64 * 64" by simp
      then show ?thesis using m split[of b] unfolding atLeastAtMost_iff by linarith
    qed
    ultimately show "m \<in> (\<lambda>q. q mod 64) ` {a..b}" by (intro image_eqI[of _ _ ?q]) simp_all
  qed
qed

section \<open>Ranges of equal length\<close>

definition utf8_block :: "codepoint \<Rightarrow> codepoint \<Rightarrow> nat \<Rightarrow> nat \<Rightarrow> bool" where
  "utf8_block lo hi index lgth \<longleftrightarrow> 1 \<le> index \<and> index \<le> lgth \<and> lo \<le> hi \<and> hi \<le> 0x10FFFF
     \<and> encoded_length 8 lo = lgth \<and> encoded_length 8 hi = lgth
     \<and> (index = 1 \<or> sextets lgth index lo div 64 = sextets lgth index hi div 64
        \<or> (lo mod 64 ^ (lgth - index + 1) = 0 \<and> hi mod 64 ^ (lgth - index + 1) = 64 ^ (lgth - index + 1) - 1))"

definition suffixes :: "codepoint \<Rightarrow> codepoint \<Rightarrow> nat \<Rightarrow> nat list set" where
  "suffixes lo hi index = (\<lambda>cp. drop (index - 1) (encode 8 cp)) ` {lo..hi}"

definition units_spans :: "sem \<Rightarrow> nat list \<Rightarrow> spans" where
  "units_spans c us = seq_spans (map (sym_spans c UTF8) us)"

definition words_spans :: "sem \<Rightarrow> nat list set \<Rightarrow> spans" where
  "words_spans c W = (\<Union>w \<in> W. units_spans c w)"

lemma words_spans_simps [simp]:
  "words_spans c (V \<union> W) = words_spans c V \<union> words_spans c W"
  "words_spans c ((\<lambda>u. [u]) ` U) = cc_spans c UTF8 U"
  "words_spans c (\<Union>(f ` S)) = (\<Union>x \<in> S. words_spans c (f x))"
  by (auto simp: words_spans_def units_spans_def cc_spans_def)

lemma words_spans_Cons:
  "words_spans c {u # w | u w. u \<in> U \<and> w \<in> W} = cc_spans c UTF8 U O words_spans c W"
proof -
  have "words_spans c {u # w | u w. u \<in> U \<and> w \<in> W} = (\<Union>u \<in> U. \<Union>w \<in> W. sym_spans c UTF8 u O units_spans c w)"
    by (force simp: words_spans_def units_spans_def)
  also have "\<dots> = cc_spans c UTF8 U O words_spans c W" unfolding cc_spans_def words_spans_def by blast
  finally show ?thesis .
qed

lemma suffix_Cons:
  assumes "encoded_length 8 cp = lgth" "1 \<le> index" "index \<le> lgth"
  shows "drop (index - 1) (encode 8 cp) = nthCodeUnit 8 cp index # drop index (encode 8 cp)"
  using assms Cons_nth_drop_Suc[of "index - 1" "encode 8 cp"] nth_encode[of "index - 1" 8 cp] by simp

lemma sextet_mod:
  assumes "a mod 64 ^ j = b mod 64 ^ j" "k < j"
  shows "a div 64 ^ k mod 64 = b div 64 ^ k mod (64 :: nat)"
proof -
  have digit: "x div 64 ^ k mod 64 = x mod 64 ^ j mod 64 ^ (k + 1) div 64 ^ k" for x :: nat
  proof -
    have "64 ^ (k + 1) dvd (64 ^ j :: nat)" using assms(2) by (intro le_imp_power_dvd) simp
    then have "x mod 64 ^ j mod 64 ^ (k + 1) = x mod (64 ^ k * 64)" by (simp add: mod_mod_cancel mult.commute)
    then show ?thesis by (simp add: mod_mult2_eq)
  qed
  show ?thesis unfolding digit[of a] digit[of b] assms(1) ..
qed

lemma tail_units:
  assumes "encoded_length 8 cp = lgth" "encoded_length 8 cp' = lgth" "cp \<le> 0x10FFFF" "cp' \<le> 0x10FFFF" "1 \<le> index"
    and "cp mod 64 ^ (lgth - index) = cp' mod 64 ^ (lgth - index)"
  shows "drop index (encode 8 cp) = drop index (encode 8 cp')"
proof (rule nth_equalityI)
  fix i
  assume i: "i < length (drop index (encode 8 cp))"
  define n where "n = index + i + 1"
  have n: "1 < n" "n \<le> lgth" using i assms(1,5) by (simp_all add: n_def)
  have "sextets lgth n cp mod 64 = sextets lgth n cp' mod 64"
    unfolding sextets_def by (rule sextet_mod[OF assms(6)]) (use n in \<open>simp add: n_def\<close>)
  then have "nthCodeUnit 8 cp n = nthCodeUnit 8 cp' n"
    using unit_value[OF assms(3,1), of n] unit_value[OF assms(4,2), of n] n by simp
  then show "drop index (encode 8 cp) ! i = drop index (encode 8 cp') ! i"
    using n nth_encode[of "index + i" 8 cp] nth_encode[of "index + i" 8 cp'] assms(1,2) by (simp add: n_def)
qed (simp add: assms)

subsection \<open>The suffixes of a block\<close>

definition unit_of :: "nat \<Rightarrow> nat \<Rightarrow> nat \<Rightarrow> nat" where
  "unit_of index lgth q = (if index = 1 then lead_unit lgth + q else 0x80 + q mod 64)"

lemma block_unit:
  assumes "utf8_block lo hi index lgth" "lo \<le> cp" "cp \<le> hi"
  shows "nthCodeUnit 8 cp index = unit_of index lgth (sextets lgth index cp)" "encoded_length 8 cp = lgth" "cp \<le> 0x10FFFF"
proof -
  show len: "encoded_length 8 cp = lgth" "cp \<le> 0x10FFFF"
    using assms between_length[of lo lgth hi cp] by (simp_all add: utf8_block_def)
  show "nthCodeUnit 8 cp index = unit_of index lgth (sextets lgth index cp)"
    using unit_value[OF len(2,1), of index] assms(1) by (auto simp: unit_of_def utf8_block_def)
qed

lemma power_split: "index \<le> lgth \<Longrightarrow> 64 ^ (lgth - index + 1) = 64 ^ (lgth - index) * (64 :: nat)"
  by (simp add: mult.commute)

lemma block_sextets:
  assumes "utf8_block lo hi index lgth"
  defines "qlo \<equiv> sextets lgth index lo" and "qhi \<equiv> sextets lgth index hi"
  shows "qlo \<le> qhi" "index = 1 \<or> qlo div 64 = qhi div 64 \<or> (qlo mod 64 = 0 \<and> qhi mod 64 = 63)"
proof -
  let ?K = "64 ^ (lgth - index) :: nat"
  show "qlo \<le> qhi" using assms by (auto simp: utf8_block_def sextets_def intro: div_le_mono)
  have digit: "x div ?K mod 64 = x mod (?K * 64) div ?K" for x by (simp add: mod_mult2_eq)
  have top: "(?K * 64 - 1) div ?K = 63" by (intro div_nat_eqI) simp_all
  show "index = 1 \<or> qlo div 64 = qhi div 64 \<or> (qlo mod 64 = 0 \<and> qhi mod 64 = 63)"
    using assms(1) power_split[of index lgth] top
    by (auto simp: utf8_block_def qlo_def qhi_def sextets_def digit mult.commute)
qed

lemma unit_image:
  assumes "a \<le> b" "index = 1 \<or> a div 64 = b div 64 \<or> (a mod 64 = 0 \<and> b mod 64 = 63)"
  shows "unit_of index lgth ` {a..b} = {unit_of index lgth a..unit_of index lgth b}"
proof (cases "index = 1")
  case True
  then show ?thesis by (simp add: unit_of_def add.commute[of "lead_unit lgth"] image_add_atLeastAtMost')
next
  case False
  then have "unit_of index lgth ` {a..b} = (\<lambda>q. q + 0x80) ` (\<lambda>q. q mod 64) ` {a..b}"
    by (simp add: unit_of_def image_image add.commute)
  also have "(\<lambda>q. q mod 64) ` {a..b} = {a mod 64..b mod 64}" using assms(2) False by (intro mod_image[OF assms(1)]) blast
  also have "(\<lambda>q. q + 0x80) ` \<dots> = {a mod 64 + 0x80..b mod 64 + 0x80}" by (rule image_add_atLeastAtMost')
  finally show ?thesis using False by (simp add: unit_of_def add.commute)
qed

lemma sextets_image:
  assumes "lo \<le> hi"
  shows "sextets lgth index ` {lo..hi} = {sextets lgth index lo..sextets lgth index hi}"
proof
  let ?K = "64 ^ (lgth - index) :: nat"
  show "sextets lgth index ` {lo..hi} \<subseteq> {sextets lgth index lo..sextets lgth index hi}"
    by (auto simp: sextets_def intro: div_le_mono)
  show "{sextets lgth index lo..sextets lgth index hi} \<subseteq> sextets lgth index ` {lo..hi}"
  proof
    fix q
    assume q: "q \<in> {sextets lgth index lo..sextets lgth index hi}"
    show "q \<in> sextets lgth index ` {lo..hi}"
    proof (cases "q = sextets lgth index lo")
      case False
      then have "lo div ?K < q" "q \<le> hi div ?K" using q by (simp_all add: sextets_def)
      then have "lo < q * ?K" "q * ?K \<le> hi" by (simp_all add: div_less_iff_less_mult less_eq_div_iff_mult_less_eq)
      then show ?thesis by (intro image_eqI[of _ _ "q * ?K"]) (simp_all add: sextets_def)
    qed (use assms in auto)
  qed
qed

lemma block_units_image:
  assumes "utf8_block lo hi index lgth"
  shows "(\<lambda>cp. nthCodeUnit 8 cp index) ` {lo..hi} = {nthCodeUnit 8 lo index..nthCodeUnit 8 hi index}"
proof -
  have "lo \<le> hi" using assms by (simp add: utf8_block_def)
  have "(\<lambda>cp. nthCodeUnit 8 cp index) ` {lo..hi} = unit_of index lgth ` sextets lgth index ` {lo..hi}"
    unfolding image_image by (rule image_cong) (simp_all add: block_unit(1)[OF assms])
  also have "\<dots> = {unit_of index lgth (sextets lgth index lo)..unit_of index lgth (sextets lgth index hi)}"
    using unit_image[OF block_sextets[OF assms]] by (simp add: sextets_image[OF \<open>lo \<le> hi\<close>])
  finally show ?thesis using block_unit(1)[OF assms] \<open>lo \<le> hi\<close> by simp
qed

lemma unit_in_byte: "cp \<le> 0x10FFFF \<Longrightarrow> 1 \<le> n \<Longrightarrow> n \<le> encoded_length 8 cp \<Longrightarrow> nthCodeUnit 8 cp n < 0x100"
  using encode_units_bounded(1)[of cp] nth_encode[of "n - 1" 8 cp] nth_mem[of "n - 1" "encode 8 cp"] by fastforce

lemma block_unit_range:
  assumes "utf8_block lo hi index lgth"
  shows "nthCodeUnit 8 lo index \<le> nthCodeUnit 8 hi index" "nthCodeUnit 8 hi index < 0x100"
proof -
  have "{nthCodeUnit 8 lo index..nthCodeUnit 8 hi index} \<noteq> {}"
    unfolding block_units_image[OF assms, symmetric] using assms by (simp add: utf8_block_def)
  then show "nthCodeUnit 8 lo index \<le> nthCodeUnit 8 hi index" by simp
  show "nthCodeUnit 8 hi index < 0x100" using assms by (intro unit_in_byte) (simp_all add: utf8_block_def)
qed

lemma suffixes_last:
  assumes "utf8_block lo hi lgth lgth"
  shows "suffixes lo hi lgth = (\<lambda>u. [u]) ` {nthCodeUnit 8 lo lgth..nthCodeUnit 8 hi lgth}"
proof -
  have "drop (lgth - 1) (encode 8 cp) = [nthCodeUnit 8 cp lgth]" if "cp \<in> {lo..hi}" for cp
    using block_unit(2)[OF assms, of cp] that assms suffix_Cons[of cp lgth lgth] by (simp add: utf8_block_def)
  then have "suffixes lo hi lgth = (\<lambda>u. [u]) ` (\<lambda>cp. nthCodeUnit 8 cp lgth) ` {lo..hi}"
    unfolding suffixes_def image_image by (intro image_cong) simp_all
  then show ?thesis using block_units_image[OF assms] by simp
qed

text \<open>Blocks with one value of the current unit.\<close>

lemma suffixes_equal:
  assumes "utf8_block lo hi index lgth" "index < lgth" "nthCodeUnit 8 hi index = nthCodeUnit 8 lo index"
  shows "suffixes lo hi index = {u # w | u w. u \<in> {nthCodeUnit 8 hi index} \<and> w \<in> suffixes lo hi (index + 1)}"
    "utf8_block lo hi (index + 1) lgth"
proof -
  have unit: "nthCodeUnit 8 cp index = nthCodeUnit 8 hi index" if "cp \<in> {lo..hi}" for cp
    using block_units_image[OF assms(1)] assms(3) that by auto
  have "drop (index - 1) (encode 8 cp) = nthCodeUnit 8 hi index # drop index (encode 8 cp)" if "cp \<in> {lo..hi}" for cp
    using block_unit(2)[OF assms(1), of cp] that assms(1,2) suffix_Cons[of cp lgth index] unit[OF that]
    by (simp add: utf8_block_def)
  then show "suffixes lo hi index = {u # w | u w. u \<in> {nthCodeUnit 8 hi index} \<and> w \<in> suffixes lo hi (index + 1)}"
    unfolding suffixes_def by force
  have b: "1 \<le> index" "lo \<le> hi" using assms(1) by (simp_all add: utf8_block_def)
  have "sextets lgth index lo = sextets lgth index hi"
  proof -
    have "unit_of index lgth (sextets lgth index hi) = unit_of index lgth (sextets lgth index lo)"
      using assms(3) block_unit(1)[OF assms(1)] b by simp
    then show ?thesis
      using block_sextets[OF assms(1)] by (auto simp: unit_of_def split: if_splits) (metis div_mult_mod_eq)
  qed
  moreover have "sextets lgth (index + 1) cp div 64 = sextets lgth index cp" for cp
  proof -
    have "(64 :: nat) ^ (lgth - (index + 1)) * 64 = 64 ^ (lgth - index)"
      using assms(2) power_split[of "index + 1" lgth] by (simp add: Suc_diff_Suc)
    then show ?thesis by (simp add: sextets_def flip: div_mult2_eq)
  qed
  ultimately show "utf8_block lo hi (index + 1) lgth"
    using assms(1,2) by (simp add: utf8_block_def)
qed

text \<open>Blocks cut below or above the code points with the last or first value of the current unit.\<close>

lemma block_cut:
  assumes "utf8_block lo hi index lgth" "lo < m" "m \<le> hi"
    and "index = 1 \<or> sextets lgth index lo div 64 = sextets lgth index hi div 64"
  shows "utf8_block m hi index lgth" "utf8_block lo (m - 1) index lgth"
    "suffixes lo hi index = suffixes m hi index \<union> suffixes lo (m - 1) index"
proof -
  have len: "encoded_length 8 m = lgth" "encoded_length 8 (m - 1) = lgth"
    using block_unit(2)[OF assms(1)] assms(2,3) by simp_all
  have "sextets lgth index lo \<le> sextets lgth index (m - 1)" "sextets lgth index (m - 1) \<le> sextets lgth index m"
    "sextets lgth index m \<le> sextets lgth index hi"
    using assms(2,3) by (auto simp: sextets_def intro!: div_le_mono)
  then have "sextets lgth index lo div 64 \<le> sextets lgth index (m - 1) div 64"
    "sextets lgth index (m - 1) div 64 \<le> sextets lgth index m div 64" "sextets lgth index m div 64 \<le> sextets lgth index hi div 64"
    by (simp_all add: div_le_mono)
  with assms(4) have eqs: "index = 1 \<or> sextets lgth index m div 64 = sextets lgth index hi div 64"
    "index = 1 \<or> sextets lgth index lo div 64 = sextets lgth index (m - 1) div 64" by linarith+
  have b: "1 \<le> index" "index \<le> lgth" "hi \<le> 0x10FFFF" "encoded_length 8 lo = lgth" "encoded_length 8 hi = lgth"
    using assms(1) by (simp_all add: utf8_block_def)
  show "utf8_block m hi index lgth" unfolding utf8_block_def using b len eqs(1) assms(3) by blast
  have "lo \<le> m - 1" "m - 1 \<le> 0x10FFFF" using assms(2,3) b(3) by linarith+
  then show "utf8_block lo (m - 1) index lgth" unfolding utf8_block_def using b len eqs(2) by blast
  have "{lo..hi} = {m..hi} \<union> {lo..m - 1}" using assms(2,3) by auto
  then show "suffixes lo hi index = suffixes m hi index \<union> suffixes lo (m - 1) index"
    by (simp add: suffixes_def image_Un)
qed

lemma block_distinct:
  assumes "utf8_block lo hi index lgth" "nthCodeUnit 8 hi index \<noteq> nthCodeUnit 8 lo index"
  shows "sextets lgth index lo < sextets lgth index hi"
proof -
  have "lo \<le> hi" using assms(1) by (simp add: utf8_block_def)
  then show ?thesis
    using assms(2) block_unit(1)[OF assms(1)] block_sextets(1)[OF assms(1)] by (auto simp: le_less)
qed

lemma digits_between:
  fixes K lo hi a b :: nat
  assumes "0 < K" "lo mod K = 0" "hi mod K = K - 1" "lo \<le> a" "a \<le> hi"
  shows "lo \<le> a div K * K + b mod K" "a div K * K + b mod K \<le> hi"
proof -
  have "lo div K * K \<le> a div K * K" "a div K * K \<le> hi div K * K"
    using assms(4,5) by (simp_all add: div_le_mono mult_le_mono1)
  moreover have "b mod K < K" using assms(1) by simp
  ultimately show "lo \<le> a div K * K + b mod K" "a div K * K + b mod K \<le> hi"
    using assms(2,3) div_mult_mod_eq[of lo K] div_mult_mod_eq[of hi K] by linarith+
qed

text \<open>A block whose code points run through all values of the units after the current one.\<close>

lemma suffixes_full:
  assumes "utf8_block lo hi index lgth" "index < lgth"
    and full: "lo mod 64 ^ (lgth - index) = 0" "hi mod 64 ^ (lgth - index) = 64 ^ (lgth - index) - 1"
  shows "suffixes lo hi index =
      {u # w | u w. u \<in> {nthCodeUnit 8 lo index..nthCodeUnit 8 hi index} \<and> w \<in> suffixes lo hi (index + 1)}"
    "utf8_block lo hi (index + 1) lgth"
proof -
  let ?K = "64 ^ (lgth - index) :: nat"
  have b: "1 \<le> index" "lo \<le> hi" "hi \<le> 0x10FFFF" using assms(1) by (simp_all add: utf8_block_def)
  have head: "drop (index - 1) (encode 8 cp) = nthCodeUnit 8 cp index # drop index (encode 8 cp)" if "cp \<in> {lo..hi}" for cp
    using block_unit(2)[OF assms(1), of cp] that assms(1,2) suffix_Cons[of cp lgth index] by (simp add: utf8_block_def)
  have mix: "\<exists>cp \<in> {lo..hi}. nthCodeUnit 8 cp index = nthCodeUnit 8 cp1 index \<and> drop index (encode 8 cp) = drop index (encode 8 cp2)"
    if "cp1 \<in> {lo..hi}" "cp2 \<in> {lo..hi}" for cp1 cp2
  proof
    define cp where "cp = cp1 div ?K * ?K + cp2 mod ?K"
    have q: "cp div ?K = cp1 div ?K" "cp mod ?K = cp2 mod ?K" by (simp_all add: cp_def)
    have cp: "cp \<in> {lo..hi}" unfolding cp_def using digits_between[OF _ full, of cp1 cp2] that(1) by simp
    show "cp \<in> {lo..hi}" by fact
    have "nthCodeUnit 8 cp index = nthCodeUnit 8 cp1 index"
      using block_unit(1)[OF assms(1), of cp] block_unit(1)[OF assms(1), of cp1] cp that q by (simp add: sextets_def)
    moreover have "drop index (encode 8 cp) = drop index (encode 8 cp2)"
      using cp that block_unit(2,3)[OF assms(1)] b(1) q(2) by (intro tail_units) simp_all
    ultimately show "nthCodeUnit 8 cp index = nthCodeUnit 8 cp1 index \<and> drop index (encode 8 cp) = drop index (encode 8 cp2)" by blast
  qed
  show "suffixes lo hi index =
      {u # w | u w. u \<in> {nthCodeUnit 8 lo index..nthCodeUnit 8 hi index} \<and> w \<in> suffixes lo hi (index + 1)}" (is "?L = ?R")
  proof
    show "?L \<subseteq> ?R"
      using head by (auto simp: suffixes_def simp flip: block_units_image[OF assms(1)])
    show "?R \<subseteq> ?L"
    proof
      fix v
      assume "v \<in> ?R"
      then obtain cp1 cp2 where cps: "cp1 \<in> {lo..hi}" "cp2 \<in> {lo..hi}" and v: "v = nthCodeUnit 8 cp1 index # drop index (encode 8 cp2)"
        by (auto simp: suffixes_def simp flip: block_units_image[OF assms(1)])
      from mix[OF cps] obtain cp where "cp \<in> {lo..hi}" "v = drop (index - 1) (encode 8 cp)" using head v by auto
      then show "v \<in> ?L" by (auto simp: suffixes_def)
    qed
  qed
  have "lgth - (index + 1) + 1 = lgth - index" using assms(2) by simp
  then show "utf8_block lo hi (index + 1) lgth" using assms by (simp add: utf8_block_def)
qed

section \<open>The transformer is right\<close>

definition utf8_ok :: "re option \<Rightarrow> nat list set \<Rightarrow> bool" where
  "utf8_ok x W \<longleftrightarrow> (\<exists>r. x = Some r \<and> plain r \<and> (\<forall>c. den c r = words_spans c W))"

lemma utf8_ok_alt:
  assumes "utf8_ok x V" "utf8_ok y W"
  shows "utf8_ok (do { r1 \<leftarrow> x; r2 \<leftarrow> y; makeAlt [r1, r2] }) (V \<union> W)"
proof -
  obtain r1 r2 where r: "x = Some r1" "y = Some r2" "plain r1" "plain r2"
    "\<And>c. den c r1 = words_spans c V" "\<And>c. den c r2 = words_spans c W"
    using assms by (auto simp: utf8_ok_def)
  have "\<forall>r \<in> set [r1, r2]. plain r" "[r1, r2] \<noteq> []" using r by simp_all
  from plain_makeAlt[OF this] r show ?thesis by (auto simp: utf8_ok_def)
qed

lemma utf8_ok_seq:
  assumes "utf8_ok x W" "plain (CC UTF8 s)" "codepoints s = U"
  shows "utf8_ok (do { r \<leftarrow> x; Some (makeSeq [CC UTF8 s, r]) }) {u # w | u w. u \<in> U \<and> w \<in> W}"
proof -
  obtain r where r: "x = Some r" "plain r" "\<And>c. den c r = words_spans c W" using assms by (auto simp: utf8_ok_def)
  have "\<forall>e \<in> set [CC UTF8 s, r]. plain e" "\<forall>e \<in> set [CC UTF8 s, r]. re_ok e" using assms(2) r plain_re_ok[of r] by auto
  from plain_makeSeq[OF this(1)] makeSeq_spec(2)[OF this(2)] r assms(3) show ?thesis
    by (auto simp: utf8_ok_def words_spans_Cons)
qed

lemma byte_range:
  assumes "lo \<le> hi" "hi < 0x100"
  shows "plain (makeCC_range lo hi UTF8)" "codepoints (UnicodeSet_range lo hi) = {lo..hi}"
  using UnicodeSet_range_spec[of lo hi] assms by (auto simp: makeCC_range_def)

lemma byte_single: "u < 0x100 \<Longrightarrow> plain (makeCC_codepoint u UTF8) \<and> codepoints (UnicodeSet_singleton u) = {u}"
  using UnicodeSet_singleton_spec[of u] by (auto simp: makeCC_codepoint_def canonical_uset_ok)

lemma top_digit: "hi mod (K * 64) = K * 64 - 1 \<Longrightarrow> 0 < K \<Longrightarrow> hi mod K = K - 1" for hi K :: nat
proof -
  assume top: "hi mod (K * 64) = K * 64 - 1" and "0 < K"
  have "hi mod K = hi mod (K * 64) mod K" by (simp add: mod_mod_cancel)
  also have "K * 64 - 1 = K - 1 + K * 63" using \<open>0 < K\<close> by simp
  then have "hi mod (K * 64) mod K = (K - 1) mod K" unfolding top by (simp only: mod_mult_self2)
  also have "\<dots> = K - 1" using \<open>0 < K\<close> by simp
  finally show ?thesis .
qed

lemma zero_digit: "lo mod (K * 64) = 0 \<Longrightarrow> lo mod K = 0" for lo K :: nat
  using mod_mod_cancel[of K "K * 64" lo] by simp

lemma rangeCodeUnits_spec: "utf8_block lo hi index lgth \<Longrightarrow> utf8_ok (rangeCodeUnits lo hi index lgth) (suffixes lo hi index)"
proof (induction "(lgth - index) * 0x110000 + (hi - lo)" arbitrary: lo hi index rule: less_induct)
  case less
  note block = less.prems
  let ?K = "64 ^ (lgth - index) :: nat" and ?hunit = "nthCodeUnit 8 hi index" and ?lunit = "nthCodeUnit 8 lo index"
  have b: "1 \<le> index" "index \<le> lgth" "lo \<le> hi" "hi \<le> 0x10FFFF" using block by (simp_all add: utf8_block_def)
  note units = block_unit_range[OF block]
  have size: "hi' - lo' < hi - lo \<Longrightarrow> (lgth - index) * 0x110000 + (hi' - lo') < (lgth - index) * 0x110000 + (hi - lo)" for lo' hi'
    by simp
  have pow: "2 ^ ((lgth - index) * 6) = ?K" using power_mult[of "2 :: nat" 6 "lgth - index"] by (simp add: mult.commute)
  then have mask: "push_bit ((lgth - index) * 6) 1 - 1 = ?K - 1" by (simp add: push_bit_of_1)
  have ops: "cp AND (?K - 1) = cp mod ?K" "and_not cp (?K - 1) = cp div ?K * ?K" "cp OR (?K - 1) = cp div ?K * ?K + (?K - 1)" for cp
    using and_low_mask[of cp "(lgth - index) * 6"] and_not_low[of cp "(lgth - index) * 6"] or_low[of cp "(lgth - index) * 6"]
    by (simp_all add: pow)
  let ?floor = "hi div ?K * ?K" and ?ceil = "lo div ?K * ?K + (?K - 1)"
  have unfold: "rangeCodeUnits lo hi index lgth =
     (if index = lgth then Some (makeCC_range ?lunit ?hunit UTF8)
      else if ?hunit = ?lunit then
        do { r \<leftarrow> rangeCodeUnits lo hi (index + 1) lgth; Some (makeSeq [makeCC_codepoint ?hunit UTF8, r]) }
      else if hi mod ?K \<noteq> ?K - 1 then
        do { r1 \<leftarrow> rangeCodeUnits ?floor hi index lgth; r2 \<leftarrow> rangeCodeUnits lo (?floor - 1) index lgth; makeAlt [r1, r2] }
      else if lo mod ?K \<noteq> 0 then
        do { r1 \<leftarrow> rangeCodeUnits (?ceil + 1) hi index lgth; r2 \<leftarrow> rangeCodeUnits lo ?ceil index lgth; makeAlt [r1, r2] }
      else do { r \<leftarrow> rangeCodeUnits lo hi (index + 1) lgth; Some (makeSeq [makeCC_range ?lunit ?hunit UTF8, r]) })"
    by (subst rangeCodeUnits.simps) (simp only: mask ops Let_def)
  consider (last) "index = lgth" | (equal) "index < lgth" "?hunit = ?lunit"
    | (low) "index < lgth" "?hunit \<noteq> ?lunit" "hi mod ?K \<noteq> ?K - 1"
    | (high) "index < lgth" "?hunit \<noteq> ?lunit" "hi mod ?K = ?K - 1" "lo mod ?K \<noteq> 0"
    | (full) "index < lgth" "?hunit \<noteq> ?lunit" "hi mod ?K = ?K - 1" "lo mod ?K = 0"
    using b(2) by linarith
  then show ?case
  proof cases
    case last
    with suffixes_last[of lo hi lgth] block byte_range[OF units] show ?thesis
      unfolding unfold by (auto simp: utf8_ok_def makeCC_range_def)
  next
    case equal
    note eq = suffixes_equal[OF block equal]
    have "(lgth - (index + 1)) * 0x110000 + (hi - lo) < (lgth - index) * 0x110000 + (hi - lo)" using equal(1) by simp
    from less.hyps[OF this eq(2)] have "utf8_ok (rangeCodeUnits lo hi (index + 1) lgth) (suffixes lo hi (index + 1))" .
    from utf8_ok_seq[OF this, of "UnicodeSet_singleton ?hunit" "{?hunit}"] byte_single[OF units(2)]
    have "utf8_ok (do { r \<leftarrow> rangeCodeUnits lo hi (index + 1) lgth; Some (makeSeq [makeCC_codepoint ?hunit UTF8, r]) })
        (suffixes lo hi index)"
      by (simp only: makeCC_codepoint_def eq(1))
    with equal show ?thesis by (simp add: unfold)
  next
    case low
    have less: "sextets lgth index lo < sextets lgth index hi" by (rule block_distinct[OF block low(2)])
    have cut: "lo < ?floor" "?floor \<le> hi"
      using less by (simp_all add: sextets_def div_less_iff_less_mult)
    have same: "index = 1 \<or> sextets lgth index lo div 64 = sextets lgth index hi div 64"
    proof -
      have "hi mod 64 ^ (lgth - index + 1) \<noteq> 64 ^ (lgth - index + 1) - 1"
        unfolding power_split[OF b(2)] using top_digit[of hi ?K] low(3) by auto
      then show ?thesis using block unfolding utf8_block_def by blast
    qed
    note parts = block_cut[OF block cut same]
    have "utf8_ok (rangeCodeUnits ?floor hi index lgth) (suffixes ?floor hi index)"
      using cut by (intro less.hyps size parts) linarith
    moreover have "utf8_ok (rangeCodeUnits lo (?floor - 1) index lgth) (suffixes lo (?floor - 1) index)"
      using cut by (intro less.hyps size parts) linarith
    ultimately show ?thesis
      using utf8_ok_alt low unfolding unfold parts(3) by simp
  next
    case high
    have less: "sextets lgth index lo < sextets lgth index hi" by (rule block_distinct[OF block high(2)])
    let ?m = "lo div ?K * ?K + (?K - 1) + 1"
    have m: "?m = (lo div ?K + 1) * ?K" using zero_less_power[of "64 :: nat" "lgth - index"] by simp
    have "(lo div ?K + 1) * ?K \<le> hi div ?K * ?K" using less by (intro mult_le_mono1) (simp add: sextets_def)
    also have "\<dots> \<le> hi" by simp
    finally have cut: "lo < ?m" "?m \<le> hi"
      unfolding m using dividend_less_div_times[of ?K lo] by (simp_all add: add.commute)
    have same: "index = 1 \<or> sextets lgth index lo div 64 = sextets lgth index hi div 64"
    proof -
      have "lo mod 64 ^ (lgth - index + 1) \<noteq> 0"
        unfolding power_split[OF b(2)] using zero_digit[of lo ?K] high(4) by blast
      then show ?thesis using block unfolding utf8_block_def by argo
    qed
    note parts = block_cut[OF block cut same]
    have "utf8_ok (rangeCodeUnits ?m hi index lgth) (suffixes ?m hi index)"
      using cut by (intro less.hyps size parts) linarith
    moreover have "utf8_ok (rangeCodeUnits lo (?m - 1) index lgth) (suffixes lo (?m - 1) index)"
      using cut by (intro less.hyps size parts) linarith
    moreover have "?m - 1 = ?ceil" by simp
    ultimately show ?thesis
      using utf8_ok_alt[of "rangeCodeUnits ?m hi index lgth" _ "rangeCodeUnits lo (?m - 1) index lgth"] high
      unfolding unfold parts(3) by simp
  next
    case full
    note eq = suffixes_full[OF block full(1,4,3)]
    have "(lgth - (index + 1)) * 0x110000 + (hi - lo) < (lgth - index) * 0x110000 + (hi - lo)" using full(1) by simp
    from less.hyps[OF this eq(2)] have "utf8_ok (rangeCodeUnits lo hi (index + 1) lgth) (suffixes lo hi (index + 1))" .
    from utf8_ok_seq[OF this, of "UnicodeSet_range ?lunit ?hunit" "{?lunit..?hunit}"] byte_range[OF units]
    have "utf8_ok (do { r \<leftarrow> rangeCodeUnits lo hi (index + 1) lgth; Some (makeSeq [makeCC_range ?lunit ?hunit UTF8, r]) })
        (suffixes lo hi index)"
      by (simp only: makeCC_range_def eq(1))
    with full show ?thesis by (simp add: unfold)
  qed
qed

lemma rangeToUTF8_spec:
  "lo \<le> hi \<Longrightarrow> hi \<le> 0x10FFFF \<Longrightarrow> utf8_ok (rangeToUTF8 lo hi) (encode 8 ` {lo..hi})"
proof (induction lo hi rule: rangeToUTF8.induct)
  case (1 lo hi)
  show ?case
  proof (cases "encoded_length 8 lo < encoded_length 8 hi")
    case True
    note m = max_codepoint_lengths[OF True]
    let ?m = "max_codepoint_of_length 8 (encoded_length 8 lo)"
    have low: "utf8_ok (rangeToUTF8 lo ?m) (encode 8 ` {lo..?m})"
      using m(3,4) "1.prems"(2) by (intro "1.IH"(1)[OF refl refl True refl]) linarith+
    then obtain r1 where "rangeToUTF8 lo ?m = Some r1" by (auto simp: utf8_ok_def)
    then have "utf8_ok (rangeToUTF8 (?m + 1) hi) (encode 8 ` {?m + 1..hi})"
      using m(4) "1.prems"(2) by (intro "1.IH"(2)[OF refl refl True refl]) simp_all
    note parts = low this
    from utf8_ok_alt[OF parts] have "utf8_ok (rangeToUTF8 lo hi) (encode 8 ` {lo..?m} \<union> encode 8 ` {?m + 1..hi})"
      using True by (subst rangeToUTF8.simps) (simp add: Let_def)
    moreover have "{lo..hi} = {lo..?m} \<union> {?m + 1..hi}" using m(3,4) by auto
    ultimately show ?thesis by (simp add: image_Un)
  next
    case False
    then have "encoded_length 8 lo = encoded_length 8 hi" using encoded_length_mono[OF "1.prems"(1)] by simp
    then have "utf8_block lo hi 1 (encoded_length 8 hi)"
      using "1.prems" by (auto simp: utf8_block_def encoded_length_def)
    from rangeCodeUnits_spec[OF this] False show ?thesis
      by (subst rangeToUTF8.simps) (simp add: suffixes_def Let_def)
  qed
qed

lemma ranges_to_utf8_spec:
  "\<forall>(lo, hi) \<in> set ivs. lo \<le> hi \<and> hi \<le> 0x10FFFF \<Longrightarrow>
   \<exists>alt. ranges_to_utf8 ivs = Some alt \<and> length alt = length ivs \<and> (\<forall>r \<in> set alt. plain r)
     \<and> (\<forall>c. (\<Union>r \<in> set alt. den c r) = words_spans c (encode 8 ` interval_members ivs))"
proof (induction ivs)
  case Nil
  then show ?case by (simp add: words_spans_def interval_members_def)
next
  case (Cons iv ivs)
  obtain lo hi where iv: "iv = (lo, hi)" by (cases iv)
  with Cons obtain alt where alt: "ranges_to_utf8 ivs = Some alt" "length alt = length ivs" "\<forall>r \<in> set alt. plain r"
    "\<And>c. (\<Union>r \<in> set alt. den c r) = words_spans c (encode 8 ` interval_members ivs)" by auto
  from rangeToUTF8_spec[of lo hi] Cons.prems iv obtain r where
    r: "rangeToUTF8 lo hi = Some r" "plain r" "\<And>c. den c r = words_spans c (encode 8 ` {lo..hi})"
    by (auto simp: utf8_ok_def)
  have "interval_members (iv # ivs) = {lo..hi} \<union> interval_members ivs" by (simp add: interval_members_def iv)
  then show ?case using alt r by (intro exI[of _ "r # alt"]) (simp add: iv image_Un)
qed

lemma intervals_from_bounds: "intervals_from b ivs \<Longrightarrow> (lo, hi) \<in> set ivs \<Longrightarrow> lo \<le> hi \<and> hi \<le> UNICODE_MAX"
  by (induction b ivs rule: intervals_from.induct) auto

lemma transformCC_spec:
  assumes "plain (CC Unicode s)"
  shows "\<exists>r. utf8_transformCC naming Unicode s = Some (r, True) \<and> plain r
    \<and> (\<forall>c. den c r = words_spans c (encode 8 ` codepoints s))"
proof -
  have ok: "uset_ok s" "codepoints s \<noteq> {}" using assms by simp_all
  have "\<forall>(lo, hi) \<in> set (intervals s). lo \<le> hi \<and> hi \<le> 0x10FFFF"
    using intervals_from_bounds[OF separated_from[OF intervals_spec(1)[OF ok(1)]]] by auto
  from ranges_to_utf8_spec[OF this] obtain alt where alt: "ranges_to_utf8 (intervals s) = Some alt"
    "length alt = length (intervals s)" "\<forall>r \<in> set alt. plain r"
    "\<And>c. (\<Union>r \<in> set alt. den c r) = words_spans c (encode 8 ` codepoints s)"
    unfolding intervals_spec(2)[OF ok(1)] by blast
  have "intervals s \<noteq> []" using ok(2) intervals_spec(2)[OF ok(1)] by (auto simp: interval_members_def)
  then have "alt \<noteq> []" using alt(2) by auto
  from plain_makeAlt[OF alt(3) this] alt(1,4) show ?thesis by (auto simp: utf8_transformCC_def)
qed

end
