(* ===== verification/RE_Text.thy ===== *)
theory RE_Text imports RE_UTF8 begin

text \<open>
  Expressions over concrete texts. A text of code points and the bytes of its UTF-8 form give two
  meanings to an expression; the transformation to UTF-8 relates them.
\<close>

section \<open>Texts\<close>

text \<open>The spans that the context supplies, at positions of the text of code points.\<close>

record externals =
  ext_names :: "string \<Rightarrow> string \<Rightarrow> spans"
  ext_props :: "property_kind \<Rightarrow> string \<Rightarrow> property_operator \<Rightarrow> string \<Rightarrow> spans"
  ext_refs :: "string \<Rightarrow> nat \<Rightarrow> nat \<Rightarrow> spans"

definition list_syms :: "nat list \<Rightarrow> nat \<Rightarrow> spans" where
  "list_syms xs x = {(i, i + 1) | i. i < length xs \<and> xs ! i = x}"

definition line_starts :: "nat list \<Rightarrow> nat set" where
  "line_starts xs = {i. i = 0 \<or> i \<le> length xs \<and> xs ! (i - 1) = 0x0A}"

definition line_ends :: "nat list \<Rightarrow> nat set" where
  "line_ends xs = {i. i = length xs \<or> i < length xs \<and> xs ! i = 0x0A}"

text \<open>The spans of a text over an alphabet; \<open>pos\<close> translates the positions of the externals
  and of the symbols that \<open>.\<close> matches.\<close>

definition text_sem :: "alphabet \<Rightarrow> nat list \<Rightarrow> (nat \<Rightarrow> nat) \<Rightarrow> nat \<Rightarrow> externals \<Rightarrow> sem" where
  "text_sem a xs pos n e = \<lparr>
     sym_spans = (\<lambda>b x. if b = a then list_syms xs x else {}),
     any_spans = (\<lambda>b. if b = Unicode then {(pos k, pos (k + 1)) | k. k < n} else {}),
     start_at = line_starts xs, end_at = line_ends xs,
     name_spans = (\<lambda>ns nm. map_prod pos pos ` ext_names e ns nm),
     prop_spans = (\<lambda>k i op v. map_prod pos pos ` ext_props e k i op v),
     ref_spans = (\<lambda>nm i p. map_prod pos pos ` ext_refs e nm i p),
     group_spans = (\<lambda>m s R. R), range_spans = (\<lambda>R S. {})\<rparr>"

definition unicode_text :: "externals \<Rightarrow> codepoint list \<Rightarrow> sem" where
  "unicode_text e w = text_sem Unicode w id (length w) e"

definition utf8_bytes :: "codepoint list \<Rightarrow> nat list" where
  "utf8_bytes w = concat (map (encode 8) w)"

text \<open>The byte position of the \<open>k\<close>-th code point; beyond the text both count on.\<close>

definition byte_pos :: "codepoint list \<Rightarrow> nat \<Rightarrow> nat" where
  "byte_pos w k = length (utf8_bytes (take k w)) + (k - length w)"

definition utf8_text :: "externals \<Rightarrow> codepoint list \<Rightarrow> sem" where
  "utf8_text e w = text_sem UTF8 (utf8_bytes w) (byte_pos w) (length w) e"

section \<open>Byte positions\<close>

lemma utf8_bytes_simps [simp]:
  "utf8_bytes [] = []" "utf8_bytes (cp # w) = encode 8 cp @ utf8_bytes w" "utf8_bytes (v @ w) = utf8_bytes v @ utf8_bytes w"
  by (simp_all add: utf8_bytes_def)

lemma encoded_length_pos: "0 < encoded_length 8 cp"
  by (simp add: encoded_length_def)

lemma byte_pos_Suc:
  "byte_pos w (Suc k) = byte_pos w k + (if k < length w then encoded_length 8 (w ! k) else 1)"
  by (simp add: byte_pos_def take_Suc_conv_app_nth Suc_diff_le)

lemma byte_pos_0 [simp]: "byte_pos w 0 = 0" and byte_pos_length [simp]: "byte_pos w (length w) = length (utf8_bytes w)"
  by (simp_all add: byte_pos_def)

lemma byte_pos_less: "strict_mono (byte_pos w)"
  unfolding strict_mono_Suc_iff by (simp add: byte_pos_Suc encoded_length_pos)

lemma byte_pos_eq [simp]: "byte_pos w k = byte_pos w l \<longleftrightarrow> k = l"
  by (simp add: strict_mono_eq[OF byte_pos_less])

lemma drop_byte_pos: "k \<le> length w \<Longrightarrow> drop (byte_pos w k) (utf8_bytes w) = utf8_bytes (drop k w)"
proof -
  assume "k \<le> length w"
  have "utf8_bytes w = utf8_bytes (take k w) @ utf8_bytes (drop k w)" by (simp flip: utf8_bytes_simps(3))
  then show ?thesis using \<open>k \<le> length w\<close> by (simp add: byte_pos_def)
qed

lemma drop_at_code_point:
  "k < length w \<Longrightarrow> drop (byte_pos w k) (utf8_bytes w) = encode 8 (w ! k) @ utf8_bytes (drop (Suc k) w)"
  by (simp add: drop_byte_pos flip: Cons_nth_drop_Suc)

lemma byte_at:
  assumes "k < length w" "i < encoded_length 8 (w ! k)"
  shows "utf8_bytes w ! (byte_pos w k + i) = encode 8 (w ! k) ! i" "byte_pos w k + i < length (utf8_bytes w)"
proof -
  have "byte_pos w (Suc k) \<le> byte_pos w (length w)" using assms(1) by (simp only: strict_mono_less_eq[OF byte_pos_less])
  then show len: "byte_pos w k + i < length (utf8_bytes w)" using assms by (simp add: byte_pos_Suc)
  have "utf8_bytes w ! (byte_pos w k + i) = drop (byte_pos w k) (utf8_bytes w) ! i" using len by simp
  also have "\<dots> = encode 8 (w ! k) ! i" using assms by (simp add: drop_at_code_point nth_append)
  finally show "utf8_bytes w ! (byte_pos w k + i) = encode 8 (w ! k) ! i" .
qed

text \<open>Every position up to the end is inside the bytes of one code point.\<close>

lemma position_cases:
  obtains k where "i = byte_pos w k" | k d where "k < length w" "0 < d" "d < encoded_length 8 (w ! k)" "i = byte_pos w k + d"
proof -
  have "\<exists>k. byte_pos w k \<le> i \<and> i < byte_pos w (Suc k)"
  proof (induction i)
    case 0
    have "byte_pos w 0 \<le> 0 \<and> 0 < byte_pos w (Suc 0)" by (simp add: byte_pos_Suc encoded_length_pos del: One_nat_def)
    then show ?case by blast
  next
    case (Suc i)
    then obtain k where k: "byte_pos w k \<le> i" "i < byte_pos w (Suc k)" by blast
    show ?case
    proof (cases "Suc i < byte_pos w (Suc k)")
      case False
      then have "byte_pos w (Suc k) = Suc i" using k by simp
      moreover have "byte_pos w (Suc k) < byte_pos w (Suc (Suc k))" by (simp only: strict_mono_less[OF byte_pos_less] lessI)
      ultimately show ?thesis by (metis le_refl)
    qed (use k in \<open>auto intro: exI[of _ k]\<close>)
  qed
  then obtain k where k: "byte_pos w k \<le> i" "i < byte_pos w (Suc k)" by blast
  show thesis
  proof (cases "i = byte_pos w k")
    case False
    then have "k < length w" using k by (simp add: byte_pos_Suc split: if_splits)
    then show thesis using k False by (intro that(2)[of k "i - byte_pos w k"]) (simp_all add: byte_pos_Suc)
  qed (rule that(1))
qed

section \<open>Encoded code points\<close>

definition continuation :: "nat \<Rightarrow> bool" where
  "continuation b \<longleftrightarrow> 0x80 \<le> b \<and> b < 0xC0"

lemma continuation_units:
  assumes "cp \<le> 0x10FFFF"
  shows "\<not> continuation (encode 8 cp ! 0)" "0 < d \<Longrightarrow> d < encoded_length 8 cp \<Longrightarrow> continuation (encode 8 cp ! d)"
proof -
  show "\<not> continuation (encode 8 cp ! 0)" using encode_8[OF assms] by (auto simp: continuation_def split: if_splits)
  assume "0 < d" "d < encoded_length 8 cp"
  then have "encode 8 cp ! d = 0x80 + sextets (encoded_length 8 cp) (d + 1) cp mod 64"
    using nth_encode[of d 8 cp] unit_value[OF assms refl, of "d + 1"] by simp
  moreover have "x mod 64 < 64" for x :: nat by simp
  ultimately show "continuation (encode 8 cp ! d)" unfolding continuation_def by simp
qed

lemma encode_prefix_free:
  assumes "take (length (encode 8 cp)) (encode 8 cp' @ rest) = encode 8 cp" "cp \<le> 0x10FFFF" "cp' \<le> 0x10FFFF"
  shows "cp = cp'"
proof -
  have "(encode 8 cp' @ rest) ! 0 = take (length (encode 8 cp)) (encode 8 cp' @ rest) ! 0"
    using encoded_length_pos[of cp] by (intro nth_take[symmetric]) simp
  then have "(encode 8 cp' @ rest) ! 0 = encode 8 cp ! 0" unfolding assms(1) .
  then have "nthCodeUnit 8 cp 1 = nthCodeUnit 8 cp' 1"
    using nth_encode[of 0 8 cp] nth_encode[of 0 8 cp'] encoded_length_pos by (simp add: nth_append)
  from first_unit_class[OF assms(2,3) this] have "encode 8 cp' = encode 8 cp" using assms(1) by simp
  then show ?thesis using encode_inj assms(2,3) by auto
qed

lemma newline_units:
  assumes "cp \<le> 0x10FFFF"
  shows "encode 8 cp ! 0 = 0x0A \<longleftrightarrow> cp = 0x0A" "encode 8 cp ! (encoded_length 8 cp - 1) = 0x0A \<longleftrightarrow> cp = 0x0A"
  by (cases cp rule: encoded_length_cases; use assms in \<open>auto simp: encode_8\<close>)+

section \<open>Spans of bytes and of code points\<close>

definition utf8_sim :: "codepoint list \<Rightarrow> spans \<Rightarrow> spans \<Rightarrow> bool" where
  "utf8_sim w R S \<longleftrightarrow> (\<forall>i j. (i, j) \<in> S \<longrightarrow> ((\<exists>k. i = byte_pos w k) \<longleftrightarrow> (\<exists>l. j = byte_pos w l)))
     \<and> (\<forall>k l. (byte_pos w k, byte_pos w l) \<in> S \<longleftrightarrow> (k, l) \<in> R)"

interpretation utf8: span_relation "utf8_sim w"
proof
  show "utf8_sim w (\<Union> (fst ` P)) (\<Union> (snd ` P))" if "\<And>R S. (R, S) \<in> P \<Longrightarrow> utf8_sim w R S" for P
    using that unfolding utf8_sim_def by (fastforce simp: image_iff)
  show "utf8_sim w (R O R') (S O S')" if "utf8_sim w R S" "utf8_sim w R' S'" for R S R' S'
    unfolding utf8_sim_def
  proof (intro conjI allI impI)
    show "(\<exists>k. i = byte_pos w k) \<longleftrightarrow> (\<exists>l. j = byte_pos w l)" if span: "(i, j) \<in> S O S'" for i j
    proof -
      from span obtain m where "(i, m) \<in> S" "(m, j) \<in> S'" by blast
      then have "(\<exists>k. i = byte_pos w k) \<longleftrightarrow> (\<exists>l. m = byte_pos w l)" "(\<exists>k. m = byte_pos w k) \<longleftrightarrow> (\<exists>l. j = byte_pos w l)"
        using \<open>utf8_sim w R S\<close> \<open>utf8_sim w R' S'\<close> unfolding utf8_sim_def by blast+
      then show ?thesis by simp
    qed
    show "(byte_pos w k, byte_pos w l) \<in> S O S' \<longleftrightarrow> (k, l) \<in> R O R'" for k l
    proof
      assume "(byte_pos w k, byte_pos w l) \<in> S O S'"
      then obtain m where m: "(byte_pos w k, m) \<in> S" "(m, byte_pos w l) \<in> S'" by blast
      then obtain m' where "m = byte_pos w m'" using \<open>utf8_sim w R S\<close> unfolding utf8_sim_def by blast
      with m show "(k, l) \<in> R O R'" using that by (auto simp: utf8_sim_def)
    next
      assume "(k, l) \<in> R O R'"
      then obtain m where "(k, m) \<in> R" "(m, l) \<in> R'" by blast
      then have "(byte_pos w k, byte_pos w m) \<in> S" "(byte_pos w m, byte_pos w l) \<in> S'" using that by (simp_all add: utf8_sim_def)
      then show "(byte_pos w k, byte_pos w l) \<in> S O S'" by blast
    qed
  qed
  show "utf8_sim w Id Id" by (auto simp: utf8_sim_def)
  show "utf8_sim w (look_spans k s R) (look_spans k s S)" if "utf8_sim w R S" for k s R S
  proof -
    have "(\<exists>j. (byte_pos w i, j) \<in> S) \<longleftrightarrow> (\<exists>j. (i, j) \<in> R)" "(\<exists>j. (j, byte_pos w i) \<in> S) \<longleftrightarrow> (\<exists>j. (j, i) \<in> R)" for i
      using that unfolding utf8_sim_def by metis+
    moreover have "(a, b) \<in> look_spans k s X \<longleftrightarrow> a = b \<and> (\<exists>j. (if k = LookAhead then (a, j) else (j, a)) \<in> X) = (s = Positive)" for a b X
      by (auto simp: look_spans_def)
    ultimately show ?thesis unfolding utf8_sim_def by (cases k) simp_all
  qed
qed

lemma utf8_sim_image: "utf8_sim w (map_prod id id ` R) (map_prod (byte_pos w) (byte_pos w) ` R)"
  by (force simp: utf8_sim_def)

lemma utf8_sim_Id_on: "(\<And>k. byte_pos w k \<in> B \<longleftrightarrow> k \<in> A) \<Longrightarrow> utf8_sim w (Id_on A) (Id_on B)"
  by (auto simp: utf8_sim_def)

lemma units_spans_text: "units_spans (utf8_text e w) us = {(i, i + length us) | i. take (length us) (drop i (utf8_bytes w)) = us}"
proof -
  have "seq_spans (map (list_syms xs) us) = {(i, i + length us) | i. take (length us) (drop i xs) = us}" for xs
  proof (induction us)
    case (Cons u us)
    have "take (Suc (length us)) (drop i xs) = u # us \<longleftrightarrow>
        i < length xs \<and> xs ! i = u \<and> take (length us) (drop (Suc i) xs) = us" for i
      by (cases "i < length xs") (auto simp flip: Cons_nth_drop_Suc)
    with Cons show ?case by (auto simp: list_syms_def)
  qed auto
  then show ?thesis by (simp add: units_spans_def utf8_text_def text_sem_def)
qed

lemma utf8_sim_class:
  assumes "\<forall>cp \<in> set w. cp \<le> 0x10FFFF" "\<forall>cp \<in> S. cp \<le> 0x10FFFF"
  shows "utf8_sim w (cc_spans (unicode_text e w) Unicode S) (words_spans (utf8_text e w) (encode 8 ` S))"
proof -
  have span: "\<exists>k < length w. i = byte_pos w k \<and> j = byte_pos w (Suc k) \<and> w ! k \<in> S"
    if span: "(i, j) \<in> words_spans (utf8_text e w) (encode 8 ` S)" for i j
  proof -
    obtain cp where cp: "cp \<in> S" "take (length (encode 8 cp)) (drop i (utf8_bytes w)) = encode 8 cp" "j = i + encoded_length 8 cp"
      using span by (auto simp: words_spans_def units_spans_text)
    have first: "drop i (utf8_bytes w) ! 0 = encode 8 cp ! 0" "i < length (utf8_bytes w)"
    proof -
      have "drop i (utf8_bytes w) ! 0 = take (length (encode 8 cp)) (drop i (utf8_bytes w)) ! 0"
        using encoded_length_pos[of cp] by (intro nth_take[symmetric]) simp
      then show "drop i (utf8_bytes w) ! 0 = encode 8 cp ! 0" unfolding cp(2) .
      show "i < length (utf8_bytes w)" using arg_cong[OF cp(2), of length] encoded_length_pos[of cp] by simp
    qed
    show ?thesis
    proof (cases rule: position_cases[of i w])
      case (1 k)
      then have k: "k < length w" using first(2) by (simp flip: byte_pos_length add: strict_mono_less[OF byte_pos_less])
      then have "cp = w ! k"
        using encode_prefix_free[of cp "w ! k"] cp(1,2) assms by (simp add: 1 drop_at_code_point)
      then show ?thesis using 1 k cp by (intro exI[of _ k]) (simp add: byte_pos_Suc)
    next
      case (2 k d)
      then have "continuation (drop i (utf8_bytes w) ! 0)"
        using byte_at[OF 2(1,3)] continuation_units(2)[of "w ! k" d] assms(1) first(2) by simp
      then show ?thesis using first(1) continuation_units(1)[of cp] cp(1) assms(2) by simp
    qed
  qed
  have encoded: "(byte_pos w k, byte_pos w (Suc k)) \<in> words_spans (utf8_text e w) (encode 8 ` S)" if "k < length w" "w ! k \<in> S" for k
    using that by (auto simp: words_spans_def units_spans_text byte_pos_Suc drop_at_code_point intro!: bexI[of _ "w ! k"])
  have "(k, l) \<in> cc_spans (unicode_text e w) Unicode S \<longleftrightarrow> k < length w \<and> l = Suc k \<and> w ! k \<in> S" for k l
    by (auto simp: cc_spans_def unicode_text_def text_sem_def list_syms_def)
  moreover have "(byte_pos w k, byte_pos w l) \<in> words_spans (utf8_text e w) (encode 8 ` S) \<longleftrightarrow> k < length w \<and> l = Suc k \<and> w ! k \<in> S" for k l
    using span[of "byte_pos w k" "byte_pos w l"] encoded[of k] by auto
  ultimately show ?thesis unfolding utf8_sim_def using span by blast
qed

lemma utf8_sim_lines:
  assumes "\<forall>cp \<in> set w. cp \<le> 0x10FFFF"
  shows "byte_pos w k \<in> line_starts (utf8_bytes w) \<longleftrightarrow> k \<in> line_starts w"
    "byte_pos w k \<in> line_ends (utf8_bytes w) \<longleftrightarrow> k \<in> line_ends w"
proof -
  have in_text: "byte_pos w k \<le> length (utf8_bytes w) \<longleftrightarrow> k \<le> length w" "byte_pos w k < length (utf8_bytes w) \<longleftrightarrow> k < length w" for k
    by (simp_all flip: byte_pos_length add: strict_mono_less_eq[OF byte_pos_less] strict_mono_less[OF byte_pos_less])
  have "utf8_bytes w ! byte_pos w k = 0x0A \<longleftrightarrow> w ! k = 0x0A" if "k < length w" for k
    using that byte_at(1)[of k w 0] newline_units(1)[of "w ! k"] assms by (simp add: encoded_length_pos)
  then show "byte_pos w k \<in> line_ends (utf8_bytes w) \<longleftrightarrow> k \<in> line_ends w"
    using byte_pos_eq[of w k "length w"] by (auto simp: line_ends_def in_text)
  show "byte_pos w k \<in> line_starts (utf8_bytes w) \<longleftrightarrow> k \<in> line_starts w"
  proof (cases k)
    case (Suc m)
    have "utf8_bytes w ! (byte_pos w k - 1) = 0x0A \<longleftrightarrow> w ! m = 0x0A" if "m < length w"
      using that byte_at(1)[of m w "encoded_length 8 (w ! m) - 1"] newline_units(2)[of "w ! m"] assms encoded_length_pos[of "w ! m"]
      by (simp add: Suc byte_pos_Suc)
    moreover have "byte_pos w k \<noteq> 0" using byte_pos_eq[of w k 0] Suc by simp
    ultimately show ?thesis using Suc by (auto simp: line_starts_def in_text)
  qed (simp add: line_starts_def)
qed

section \<open>The transformation to UTF-8\<close>

text \<open>Expressions over Unicode whose names and properties are external.\<close>

fun over_unicode :: "re \<Rightarrow> bool" where
  "over_unicode (Alt rs) = (\<forall>r \<in> set rs. over_unicode r)"
| "over_unicode (Seq rs) = (\<forall>r \<in> set rs. over_unicode r)"
| "over_unicode (Permute rs) = (\<forall>r \<in> set rs. over_unicode r)"
| "over_unicode (Assertion r k s) = over_unicode r"
| "over_unicode (Capture nm r) = over_unicode r"
| "over_unicode (Group m r s) = over_unicode r"
| "over_unicode (Rep r lb ub) = over_unicode r"
| "over_unicode (CC a s) = (a = Unicode)"
| "over_unicode (Name ns nm d ext) = (d = None)"
| "over_unicode (PropertyExpression k ident op v code d) = (d = None)"
| "over_unicode (Diff l r) = False"
| "over_unicode (Intersect l r) = False"
| "over_unicode (Range l r) = False"
| "over_unicode (Any a) = (a = Unicode)"
| "over_unicode r = True"

lemma leaves_utf8:
  assumes "\<forall>cp \<in> set w. cp \<le> 0x10FFFF"
  shows "over_unicode r \<Longrightarrow> leaves_ok (\<lambda>a s. a = Unicode) (utf8_sim w) (unicode_text e w) (utf8_text e w) r"
proof (induction r)
  case (Any a)
  then show ?case by (auto simp: unicode_text_def utf8_text_def text_sem_def utf8_sim_def)
next
  case Start
  then show ?case using utf8_sim_lines(1)[OF assms]
    by (simp add: unicode_text_def utf8_text_def text_sem_def utf8_sim_Id_on)
next
  case End
  then show ?case using utf8_sim_lines(2)[OF assms]
    by (simp add: unicode_text_def utf8_text_def text_sem_def utf8_sim_Id_on)
next
  case (Name ns nm d ext)
  then show ?case by (simp add: unicode_text_def utf8_text_def text_sem_def utf8_sim_image)
next
  case (PropertyExpression k ident op v code d)
  then show ?case by (simp add: unicode_text_def utf8_text_def text_sem_def utf8_sim_image)
next
  case (Reference nm r n p)
  then show ?case by (simp add: unicode_text_def utf8_text_def text_sem_def utf8_sim_image)
next
  case (Group m r s)
  then show ?case by (simp add: unicode_text_def utf8_text_def text_sem_def)
qed auto

lemma toUTF8_spec:
  assumes "plain r" "over_unicode r" "\<forall>cp \<in> set w. cp \<le> 0x10FFFF"
  shows "\<exists>r'. toUTF8 naming same r = Some r' \<and> plain r' \<and> utf8_sim w (den (unicode_text e w) r) (den (utf8_text e w) r')"
proof -
  have "sound_methods (utf8_sim w) (\<lambda>a s. a = Unicode) (unicode_text e w) (utf8_text e w) (UTF8_Transformer naming same)"
    unfolding UTF8_Transformer_def
  proof (rule utf8.base_table)
    fix a t
    assume t: "plain (CC a t)" "a = Unicode"
    then obtain r where r: "utf8_transformCC naming Unicode t = Some (r, True)" "plain r"
      "\<And>c. den c r = words_spans c (encode 8 ` codepoints t)" using transformCC_spec[of t naming] by auto
    have "\<forall>cp \<in> codepoints t. cp \<le> 0x10FFFF" using codepoints_le_max[of t] t(1) by fastforce
    from utf8_sim_class[OF assms(3) this] r t(2)
    show "xok (utf8_sim w) (unicode_text e w) (utf8_text e w) (CC a t) (utf8_transformCC naming a t)" by simp
  qed
  from sound_methods.transformRE_sound[OF this assms(1) leaves_utf8[OF assms(3,2)]]
  show ?thesis by (simp add: toUTF8_def)
qed

end
