(* ===== verification/RE_Validate.thy ===== *)
theory RE_Validate imports RE_Lang begin

text \<open>
  The visitors that answer a question about an expression: \<open>isNullable\<close>, and the class
  \<open>RE_Validator\<close> of \<open>lib/re/analysis/validation.cpp\<close> with its subclasses.
\<close>

section \<open>Nullability\<close>

fun isNullable :: "re \<Rightarrow> bool" where
  "isNullable (Seq rs) = (\<forall>r \<in> set rs. isNullable r)"
| "isNullable (Alt rs) = (\<exists>r \<in> set rs. isNullable r)"
| "isNullable (Rep r lb ub) = (lb = 0 \<or> isNullable r)"
| "isNullable (Diff l r) = False"
| "isNullable (Intersect l r) = (isNullable l \<and> isNullable r)"
| "isNullable (Group m r s) = isNullable r"
| "isNullable _ = False"

text \<open>A mode group that keeps what matches the empty string.\<close>

definition groups_keep_empty :: "sem \<Rightarrow> bool" where
  "groups_keep_empty c \<longleftrightarrow> (\<forall>m s R. Id \<subseteq> R \<longrightarrow> Id \<subseteq> group_spans c m s R)"

lemma seq_spans_Id: "\<forall>R \<in> set Rs. Id \<subseteq> R \<Longrightarrow> Id \<subseteq> seq_spans Rs"
  by (induction Rs) auto

lemma rep_spans_Id: "Id \<subseteq> R \<Longrightarrow> valid_bounds lb ub \<Longrightarrow> Id \<subseteq> rep_spans R (rep_counts lb ub)"
proof -
  assume R: "Id \<subseteq> R" "valid_bounds lb ub"
  have "Id \<subseteq> R ^^ n" for n using R(1) by (induction n) auto
  moreover have "nat lb \<in> rep_counts lb ub" using R(2) by (auto simp: rep_counts_iff valid_bounds_def)
  ultimately show ?thesis unfolding rep_spans_def by blast
qed

lemma isNullable_sound:
  assumes "groups_keep_empty c"
  shows "re_ok r \<Longrightarrow> isNullable r \<Longrightarrow> Id \<subseteq> den c r"
proof (induction r)
  case (Seq rs)
  then show ?case using seq_spans_Id[of "map (den c) rs"] by simp
next
  case (Alt rs)
  then show ?case by auto
next
  case (Rep r lb ub)
  show ?case
  proof (cases "lb = 0")
    case True
    then have "0 \<in> rep_counts lb ub" using Rep.prems(1) by (auto simp: rep_counts_iff valid_bounds_def)
    then have "den c r ^^ 0 \<subseteq> den c (Rep r lb ub)" unfolding den.simps rep_spans_def by blast
    then show ?thesis by simp
  next
    case False
    then show ?thesis using Rep rep_spans_Id[of "den c r" lb ub] by simp
  qed
next
  case (Group m r s)
  then show ?case using assms by (simp add: groups_keep_empty_def)
qed auto

section \<open>Validators\<close>

text \<open>What to do with a name: \<open>None\<close> of the code is \<open>NoNameProcessing\<close>.\<close>

datatype NameProcessingMode = NoNameProcessing | RequireDefinition | ProcessDefinition | ProcessRequired

text \<open>The virtual methods. A method gets the parts of the node and the results for its operands;
  \<open>None\<close> is the fatal error for a name without definition. A method that leaves its loop early
  ignores the results of the operands it does not reach.\<close>

type_synonym vres = "bool option"

record validator =
  validateName :: "string \<Rightarrow> string \<Rightarrow> re option \<Rightarrow> vres \<Rightarrow> vres"
  validateStart :: vres
  validateEnd :: vres
  validateAny :: "alphabet \<Rightarrow> vres"
  validateCC :: "alphabet \<Rightarrow> unicode_set \<Rightarrow> vres"
  validateSeq :: "vres list \<Rightarrow> vres"
  validateAlt :: "vres list \<Rightarrow> vres"
  validateRep :: "vres \<Rightarrow> vres"
  validateIntersect :: "vres \<Rightarrow> vres \<Rightarrow> vres"
  validateDiff :: "vres \<Rightarrow> vres \<Rightarrow> vres"
  validateRange :: "vres \<Rightarrow> vres \<Rightarrow> vres"
  validateGroup :: "vres \<Rightarrow> vres"
  validateAssertion :: "vres \<Rightarrow> vres"
  validateCapture :: "vres \<Rightarrow> vres"
  validateReference :: "nat \<Rightarrow> vres"
  validatePermute :: "vres list \<Rightarrow> vres"
  validatePropertyExpression :: "re option \<Rightarrow> vres \<Rightarrow> vres"

fun validate :: "validator \<Rightarrow> re \<Rightarrow> vres" where
  "validate V (Alt rs) = validateAlt V (map (validate V) rs)"
| "validate V (Any a) = validateAny V a"
| "validate V (Assertion r k s) = validateAssertion V (validate V r)"
| "validate V (CC a s) = validateCC V a s"
| "validate V (Range lo hi) = validateRange V (validate V lo) (validate V hi)"
| "validate V (Diff l r) = validateDiff V (validate V l) (validate V r)"
| "validate V End = validateEnd V"
| "validate V (Intersect l r) = validateIntersect V (validate V l) (validate V r)"
| "validate V (Name ns nm None ext) = validateName V ns nm None None"
| "validate V (Name ns nm (Some d) ext) = validateName V ns nm (Some d) (validate V d)"
| "validate V (Capture nm r) = validateCapture V (validate V r)"
| "validate V (Reference nm r n p) = validateReference V p"
| "validate V (Group m r s) = validateGroup V (validate V r)"
| "validate V (Rep r lb ub) = validateRep V (validate V r)"
| "validate V (Seq rs) = validateSeq V (map (validate V) rs)"
| "validate V Start = validateStart V"
| "validate V (Permute rs) = validatePermute V (map (validate V) rs)"
| "validate V (PropertyExpression k ident op v code None) = validatePropertyExpression V None None"
| "validate V (PropertyExpression k ident op v code (Some d)) = validatePropertyExpression V (Some d) (validate V d)"

text \<open>\<open>a && b\<close>, and the loop that stops at the first \<open>false\<close>.\<close>

definition and_then :: "vres \<Rightarrow> vres \<Rightarrow> vres" where
  "and_then x y = (case x of None \<Rightarrow> None | Some b \<Rightarrow> if b then y else Some False)"

definition or_else :: "vres \<Rightarrow> vres \<Rightarrow> vres" where
  "or_else x y = (case x of None \<Rightarrow> None | Some b \<Rightarrow> if b then Some True else y)"

fun all_valid :: "vres list \<Rightarrow> vres" where
  "all_valid [] = Some True"
| "all_valid (x # xs) = and_then x (all_valid xs)"

definition base_validateName :: "NameProcessingMode \<Rightarrow> string \<Rightarrow> string \<Rightarrow> re option \<Rightarrow> vres \<Rightarrow> vres" where
  "base_validateName m ns nm d x =
     (if m = NoNameProcessing then Some True
      else if d = None then (if m = ProcessDefinition then Some False else None)
      else x)"

definition base_validatePropertyExpression :: "NameProcessingMode \<Rightarrow> re option \<Rightarrow> vres \<Rightarrow> vres" where
  "base_validatePropertyExpression m d x =
     (if m = NoNameProcessing then Some True
      else if d = None then (if m = ProcessDefinition then Some False else None)
      else x)"

definition RE_Validator :: "NameProcessingMode \<Rightarrow> validator" where
  "RE_Validator m = \<lparr>
     validateName = base_validateName m,
     validateStart = Some True,
     validateEnd = Some True,
     validateAny = (\<lambda>a. Some True),
     validateCC = (\<lambda>a s. Some True),
     validateSeq = all_valid,
     validateAlt = all_valid,
     validateRep = (\<lambda>x. x),
     validateIntersect = and_then,
     validateDiff = and_then,
     validateRange = and_then,
     validateGroup = (\<lambda>x. x),
     validateAssertion = (\<lambda>x. x),
     validateCapture = (\<lambda>x. x),
     validateReference = (\<lambda>p. Some True),
     validatePermute = all_valid,
     validatePropertyExpression = base_validatePropertyExpression m\<rparr>"

definition validateNamesDefined :: "re \<Rightarrow> vres" where
  "validateNamesDefined r = validate (RE_Validator RequireDefinition) r"

definition AlphabetValidator :: "alphabet \<Rightarrow> validator" where
  "AlphabetValidator a = RE_Validator RequireDefinition\<lparr>validateCC := \<lambda>b s. Some (b = a)\<rparr>"

definition validateAlphabet :: "alphabet \<Rightarrow> re \<Rightarrow> vres" where
  "validateAlphabet a r = validate (AlphabetValidator a) r"

definition AssertionFreeValidator :: validator where
  "AssertionFreeValidator = RE_Validator RequireDefinition\<lparr>
     validateAssertion := \<lambda>x. Some False, validateStart := Some False, validateEnd := Some False,
     validatePropertyExpression := \<lambda>d x. Some True\<rparr>"

definition validateAssertionFree :: "re \<Rightarrow> vres" where
  "validateAssertionFree r = validate AssertionFreeValidator r"

definition ZeroWidthValidator :: validator where
  "ZeroWidthValidator = RE_Validator RequireDefinition\<lparr>
     validateName := \<lambda>ns nm d x. if d = None then Some False else x,
     validateAssertion := \<lambda>x. Some True,
     validateAny := \<lambda>a. Some False,
     validateCC := \<lambda>a s. Some False,
     validateRange := \<lambda>x y. Some False,
     validateDiff := \<lambda>x y. x,
     validateIntersect := or_else\<rparr>"

definition isZeroWidth :: "re \<Rightarrow> vres" where
  "isZeroWidth r = validate ZeroWidthValidator r"

definition ReferenceFree :: validator where
  "ReferenceFree = RE_Validator RequireDefinition\<lparr>validateReference := \<lambda>p. Some False\<rparr>"

definition hasReference :: "re \<Rightarrow> vres" where
  "hasReference r = map_option Not (validate ReferenceFree r)"

text \<open>Whether a property is one of code points is asked of the generated property tables.\<close>

definition CodepointReferenceFree :: "(nat \<Rightarrow> bool) \<Rightarrow> validator" where
  "CodepointReferenceFree is_codepoint_property =
     RE_Validator RequireDefinition\<lparr>validateReference := \<lambda>p. Some (\<not> is_codepoint_property p)\<rparr>"

definition hasCodepointReference :: "(nat \<Rightarrow> bool) \<Rightarrow> re \<Rightarrow> vres" where
  "hasCodepointReference is_codepoint_property r = map_option Not (validate (CodepointReferenceFree is_codepoint_property) r)"

definition StartFreeValidator :: validator where
  "StartFreeValidator = RE_Validator ProcessDefinition\<lparr>validateStart := Some False\<rparr>"

definition anyStartAnchor :: "re \<Rightarrow> vres" where
  "anyStartAnchor r = map_option Not (validate StartFreeValidator r)"

definition EndFreeValidator :: validator where
  "EndFreeValidator = RE_Validator ProcessDefinition\<lparr>validateEnd := Some False\<rparr>"

definition anyEndAnchor :: "re \<Rightarrow> vres" where
  "anyEndAnchor r = map_option Not (validate EndFreeValidator r)"

section \<open>Sound validators\<close>

lemma and_then_True [simp]: "and_then x y = Some True \<longleftrightarrow> x = Some True \<and> y = Some True"
  by (auto simp: and_then_def split: option.splits if_splits)

lemma or_else_True [simp]: "or_else x y = Some True \<longleftrightarrow> x = Some True \<or> x = Some False \<and> y = Some True"
  by (auto simp: or_else_def split: option.splits if_splits)

lemma all_valid_True [simp]: "all_valid xs = Some True \<longleftrightarrow> (\<forall>x \<in> set xs. x = Some True)"
  by (induction xs) auto

text \<open>A validator is sound for a property of expressions when each of its methods accepts only nodes
  with the property, given that the operands it has accepted have it.\<close>

locale sound_validator =
  fixes V :: validator and P :: "re \<Rightarrow> bool"
  assumes name: "validateName V ns nm d x = Some True \<Longrightarrow> (\<And>r. d = Some r \<Longrightarrow> x = Some True \<Longrightarrow> P r) \<Longrightarrow> P (Name ns nm d ext)"
    and start: "validateStart V = Some True \<Longrightarrow> P Start"
    and end_law: "validateEnd V = Some True \<Longrightarrow> P End"
    and any: "validateAny V a = Some True \<Longrightarrow> P (Any a)"
    and cc: "validateCC V a s = Some True \<Longrightarrow> P (CC a s)"
    and seq: "validateSeq V xs = Some True \<Longrightarrow> list_all2 (\<lambda>r x. x = Some True \<longrightarrow> P r) rs xs \<Longrightarrow> P (Seq rs)"
    and alt: "validateAlt V xs = Some True \<Longrightarrow> list_all2 (\<lambda>r x. x = Some True \<longrightarrow> P r) rs xs \<Longrightarrow> P (Alt rs)"
    and rep: "validateRep V x = Some True \<Longrightarrow> (x = Some True \<longrightarrow> P r) \<Longrightarrow> P (Rep r lb ub)"
    and intersect: "validateIntersect V x y = Some True \<Longrightarrow> (x = Some True \<longrightarrow> P l) \<Longrightarrow> (y = Some True \<longrightarrow> P r) \<Longrightarrow> P (Intersect l r)"
    and diff: "validateDiff V x y = Some True \<Longrightarrow> (x = Some True \<longrightarrow> P l) \<Longrightarrow> (y = Some True \<longrightarrow> P r) \<Longrightarrow> P (Diff l r)"
    and range_law: "validateRange V x y = Some True \<Longrightarrow> (x = Some True \<longrightarrow> P l) \<Longrightarrow> (y = Some True \<longrightarrow> P r) \<Longrightarrow> P (Range l r)"
    and group: "validateGroup V x = Some True \<Longrightarrow> (x = Some True \<longrightarrow> P r) \<Longrightarrow> P (Group m r gs)"
    and assertion: "validateAssertion V x = Some True \<Longrightarrow> (x = Some True \<longrightarrow> P r) \<Longrightarrow> P (Assertion r k as)"
    and capture: "validateCapture V x = Some True \<Longrightarrow> (x = Some True \<longrightarrow> P r) \<Longrightarrow> P (Capture nm r)"
    and reference: "validateReference V p = Some True \<Longrightarrow> P (Reference nm r n p)"
    and permute: "validatePermute V xs = Some True \<Longrightarrow> list_all2 (\<lambda>r x. x = Some True \<longrightarrow> P r) rs xs \<Longrightarrow> P (Permute rs)"
    and property: "validatePropertyExpression V d x = Some True \<Longrightarrow> (\<And>r. d = Some r \<Longrightarrow> x = Some True \<Longrightarrow> P r) \<Longrightarrow>
      P (PropertyExpression pk ident op v code d)"
begin

theorem validate_sound: "validate V r = Some True \<Longrightarrow> P r"
proof (induction r)
  case (Alt rs)
  then show ?case using alt[of "map (validate V) rs" rs] by (simp add: list_all2_map2 list_all2_same)
next
  case (Seq rs)
  then show ?case using seq[of "map (validate V) rs" rs] by (simp add: list_all2_map2 list_all2_same)
next
  case (Permute rs)
  then show ?case using permute[of "map (validate V) rs" rs] by (simp add: list_all2_map2 list_all2_same)
next
  case (Name ns nm d ext)
  show ?case
  proof (cases d)
    case None
    then show ?thesis using Name name[of ns nm None None ext] by simp
  next
    case (Some r)
    then show ?thesis using Name name[of ns nm d "validate V r" ext] by auto
  qed
next
  case (PropertyExpression k ident op v code d)
  show ?case
  proof (cases d)
    case None
    then show ?thesis using PropertyExpression property[of None None] by simp
  next
    case (Some r)
    then show ?thesis using PropertyExpression property[of d "validate V r"] by auto
  qed
next
  case (Rep r lb ub)
  then show ?case using rep[of "validate V r"] by simp
next
  case (Intersect l r)
  then show ?case using intersect[of "validate V l" "validate V r"] by simp
next
  case (Diff l r)
  then show ?case using diff[of "validate V l" "validate V r"] by simp
next
  case (Range l r)
  then show ?case using range_law[of "validate V l" "validate V r"] by simp
next
  case (Group m r s)
  then show ?case using group[of "validate V r"] by simp
next
  case (Assertion r k s)
  then show ?case using assertion[of "validate V r"] by simp
next
  case (Capture nm r)
  then show ?case using capture[of "validate V r"] by simp
qed (simp_all add: start end_law any cc reference)

end

lemma list_operands:
  "\<forall>x \<in> set xs. x = Some True \<Longrightarrow> list_all2 (\<lambda>r x. x = Some True \<longrightarrow> P r) rs xs \<Longrightarrow> \<forall>r \<in> set rs. P r"
  by (rotate_tac, induction rule: list_all2_induct) auto

lemma RE_Validator_methods [simp]:
  "validateName (RE_Validator m) = base_validateName m" "validateStart (RE_Validator m) = Some True"
  "validateEnd (RE_Validator m) = Some True" "validateAny (RE_Validator m) a = Some True" "validateCC (RE_Validator m) a s = Some True"
  "validateSeq (RE_Validator m) = all_valid" "validateAlt (RE_Validator m) = all_valid" "validateRep (RE_Validator m) x = x"
  "validateIntersect (RE_Validator m) = and_then" "validateDiff (RE_Validator m) = and_then" "validateRange (RE_Validator m) = and_then"
  "validateGroup (RE_Validator m) x = x" "validateAssertion (RE_Validator m) x = x" "validateCapture (RE_Validator m) x = x"
  "validateReference (RE_Validator m) p = Some True" "validatePermute (RE_Validator m) = all_valid"
  "validatePropertyExpression (RE_Validator m) = base_validatePropertyExpression m"
  by (simp_all add: RE_Validator_def)

lemma base_validate_defined:
  "base_validateName m ns nm d x = Some True \<Longrightarrow> m \<noteq> NoNameProcessing \<Longrightarrow> \<exists>r. d = Some r \<and> x = Some True"
  "base_validatePropertyExpression m d x = Some True \<Longrightarrow> m \<noteq> NoNameProcessing \<Longrightarrow> \<exists>r. d = Some r \<and> x = Some True"
  by (auto simp: base_validateName_def base_validatePropertyExpression_def split: if_splits)

lemma den_lists:
  "\<forall>r \<in> set rs. den c r = den c' r \<Longrightarrow> map (den c) rs = map (den c') rs"
  by simp

subsection \<open>What an accepted expression does not depend on\<close>

text \<open>Two contexts agree on an expression when it has the same spans in both.\<close>

definition agree :: "sem \<Rightarrow> sem \<Rightarrow> re \<Rightarrow> bool" where
  "agree c c' r \<longleftrightarrow> den c r = den c' r"

text \<open>Agreement passes from the operands to every node that is no leaf, when the contexts give modes and
  ranges the same meaning.\<close>

lemma agree_nodes:
  assumes "group_spans c = group_spans c'" "range_spans c = range_spans c'"
  shows "\<forall>r \<in> set rs. agree c c' r \<Longrightarrow> agree c c' (Seq rs)" "\<forall>r \<in> set rs. agree c c' r \<Longrightarrow> agree c c' (Alt rs)"
    "\<forall>r \<in> set rs. agree c c' r \<Longrightarrow> agree c c' (Permute rs)" "agree c c' r \<Longrightarrow> agree c c' (Rep r lb ub)"
    "agree c c' l \<Longrightarrow> agree c c' r \<Longrightarrow> agree c c' (Intersect l r)" "agree c c' l \<Longrightarrow> agree c c' r \<Longrightarrow> agree c c' (Diff l r)"
    "agree c c' l \<Longrightarrow> agree c c' r \<Longrightarrow> agree c c' (Range l r)" "agree c c' r \<Longrightarrow> agree c c' (Group m r g)"
    "agree c c' r \<Longrightarrow> agree c c' (Assertion r k s)" "agree c c' r \<Longrightarrow> agree c c' (Capture nm r)"
    "agree c c' r \<Longrightarrow> agree c c' (Name ns nm (Some r) ext)" "agree c c' r \<Longrightarrow> agree c c' (PropertyExpression pk i op v code (Some r))"
  using assms den_lists[of rs c c'] by (simp_all add: agree_def del: map_eq_conv)

lemmas agree_leaves = agree_def[of _ _ "Any _"] agree_def[of _ _ "CC _ _"] agree_def[of _ _ Start] agree_def[of _ _ End]
  agree_def[of _ _ "Reference _ _ _ _"] agree_def[of _ _ "Name _ _ None _"] agree_def[of _ _ "PropertyExpression _ _ _ _ _ None"]

interpretation start_free: sound_validator StartFreeValidator "agree c (c\<lparr>start_at := S\<rparr>)"
  by unfold_locales (auto simp: StartFreeValidator_def agree_nodes agree_leaves cc_spans_def dest!: list_operands base_validate_defined)

interpretation end_free: sound_validator EndFreeValidator "agree c (c\<lparr>end_at := S\<rparr>)"
  by unfold_locales (auto simp: EndFreeValidator_def agree_nodes agree_leaves cc_spans_def dest!: list_operands base_validate_defined)

interpretation names_defined: sound_validator "RE_Validator RequireDefinition" "agree c (c\<lparr>name_spans := N, prop_spans := P\<rparr>)"
  by unfold_locales (auto simp: agree_nodes agree_leaves cc_spans_def dest!: list_operands base_validate_defined)

interpretation one_alphabet: sound_validator "AlphabetValidator a" "agree c (c\<lparr>sym_spans := f(a := sym_spans c a)\<rparr>)"
  by unfold_locales (auto simp: AlphabetValidator_def agree_nodes agree_leaves cc_spans_def dest!: list_operands base_validate_defined)

interpretation reference_free: sound_validator ReferenceFree "agree c (c\<lparr>ref_spans := f\<rparr>)"
  by unfold_locales (auto simp: ReferenceFree_def agree_nodes agree_leaves cc_spans_def dest!: list_operands base_validate_defined)

subsection \<open>Expressions of zero width\<close>

definition zero_width :: "sem \<Rightarrow> re \<Rightarrow> bool" where
  "zero_width c r \<longleftrightarrow> (\<forall>m s R. R \<subseteq> Id \<longrightarrow> group_spans c m s R \<subseteq> Id) \<and> (\<forall>nm n p. ref_spans c nm n p \<subseteq> Id) \<longrightarrow> den c r \<subseteq> Id"

lemma seq_spans_zero: "\<forall>R \<in> set Rs. R \<subseteq> Id \<Longrightarrow> seq_spans Rs \<subseteq> Id"
  by (induction Rs) auto

lemma rep_spans_zero: "R \<subseteq> Id \<Longrightarrow> rep_spans R N \<subseteq> Id"
proof -
  assume R: "R \<subseteq> Id"
  have "R ^^ n \<subseteq> Id" for n using R by (induction n) auto
  then show ?thesis unfolding rep_spans_def by blast
qed

lemma zero_width_lists:
  assumes "\<forall>r \<in> set rs. zero_width c r"
  shows "zero_width c (Seq rs)" "zero_width c (Alt rs)" "zero_width c (Permute rs)"
proof -
  show "zero_width c (Seq rs)" using assms seq_spans_zero[of "map (den c) rs"] by (simp add: zero_width_def)
  show "zero_width c (Alt rs)" using assms by (auto simp: zero_width_def)
  have "seq_spans Rs \<subseteq> Id" if "\<forall>r \<in> set rs. den c r \<subseteq> Id" "mset Rs = mset (map (den c) rs)" for Rs
    using that seq_spans_zero[of Rs] mset_eq_setD[OF that(2)] by simp
  then show "zero_width c (Permute rs)" using assms by (simp add: zero_width_def UN_subset_iff)
qed

interpretation zero_width: sound_validator ZeroWidthValidator "zero_width c"
proof unfold_locales
  fix xs :: "vres list" and rs
  assume "list_all2 (\<lambda>r x. x = Some True \<longrightarrow> zero_width c r) rs xs"
  note operands = list_operands[OF _ this]
  show "validateSeq ZeroWidthValidator xs = Some True \<Longrightarrow> zero_width c (Seq rs)"
    "validateAlt ZeroWidthValidator xs = Some True \<Longrightarrow> zero_width c (Alt rs)"
    "validatePermute ZeroWidthValidator xs = Some True \<Longrightarrow> zero_width c (Permute rs)"
    using operands zero_width_lists by (simp_all add: ZeroWidthValidator_def)
next
  show "zero_width c (Rep r lb ub)" if "validateRep ZeroWidthValidator x = Some True" "x = Some True \<longrightarrow> zero_width c r" for x r lb ub
    using that rep_spans_zero by (auto simp: ZeroWidthValidator_def zero_width_def)
qed (auto simp: ZeroWidthValidator_def zero_width_def look_spans_def base_validatePropertyExpression_def split: if_splits)

text \<open>A back reference passes the test although it need not have zero width.\<close>

lemma zero_width_reference: "isZeroWidth (Reference nm r n p) = Some True"
  by (simp add: isZeroWidth_def ZeroWidthValidator_def)

end
