(* ===== verification/RE_Length.thy ===== *)
theory RE_Length imports RE_Text RE_Validate begin

text \<open>
  The lengths of matches: \<open>getLengthRange\<close>, \<open>isUnicodeUnitLength\<close>,
  \<open>isFixedLength\<close> and \<open>minMatchLength\<close> of \<open>lib/re/analysis/re_analysis.cpp\<close>.
\<close>

section \<open>Machine integers\<close>

text \<open>Lengths are 32-bit \<open>int\<close>s. Where the code multiplies or adds without a test, the model
  wraps around, as the compiled code does; the language leaves an overflow undefined.\<close>

definition INT_MAX :: int where
  "INT_MAX = 2147483647"

definition int32 :: "int \<Rightarrow> int" where
  "int32 x = (x + 2147483648) mod 4294967296 - 2147483648"

lemma int32_id: "0 \<le> x \<Longrightarrow> x \<le> INT_MAX \<Longrightarrow> int32 x = x"
  by (simp add: int32_def INT_MAX_def)

section \<open>The length range\<close>

type_synonym length_range = "int \<times> int"

definition source_alphabet :: "alphabet \<Rightarrow> alphabet" where
  "source_alphabet a = (case a of MultiplexedAlphabet nm src sets \<Rightarrow> src | _ \<Rightarrow> a)"

definition is_code_unit :: "alphabet \<Rightarrow> bool" where
  "is_code_unit a = (case a of CodeUnitAlphabet nm code bits \<Rightarrow> True | _ \<Rightarrow> False)"

definition class_lengths :: "alphabet \<Rightarrow> alphabet \<Rightarrow> unicode_set \<Rightarrow> length_range option" where
  "class_lengths idx a s =
     (let al = source_alphabet a in
      if is_code_unit al then Some (1, 1)
      else if idx = al then Some (1, 1)
      else if idx = UTF8 \<and> al = Unicode then
        (case (front s, uset_back s) of
           (Inr f, Inr b) \<Rightarrow> Some (int (encoded_length 8 (fst f)), int (encoded_length 8 (snd b)))
         | _ \<Rightarrow> None)
      else Some (1, INT_MAX))"

definition any_lengths :: "alphabet \<Rightarrow> alphabet \<Rightarrow> length_range" where
  "any_lengths idx a = (if idx = a then (1, 1) else if idx = UTF8 then (1, 4) else (1, INT_MAX))"

definition min_max :: "length_range \<Rightarrow> length_range \<Rightarrow> length_range" where
  "min_max p q = (min (fst p) (fst q), max (snd p) (snd q))"

definition add_saturating :: "int \<Rightarrow> int \<Rightarrow> int" where
  "add_saturating a b = (if b < int32 (INT_MAX - a) then int32 (a + b) else INT_MAX)"

definition add_ranges :: "length_range \<Rightarrow> length_range \<Rightarrow> length_range" where
  "add_ranges p q = (add_saturating (fst p) (fst q), add_saturating (snd p) (snd q))"

definition rep_lengths :: "int \<Rightarrow> int \<Rightarrow> length_range \<Rightarrow> length_range" where
  "rep_lengths lb ub p =
     (if lb \<noteq> UNBOUNDED_REP \<and> fst p < INT_MAX then int32 (fst p * lb) else INT_MAX,
      if ub \<noteq> UNBOUNDED_REP \<and> snd p < INT_MAX then int32 (snd p * ub) else INT_MAX)"

fun getLengthRange :: "alphabet \<Rightarrow> re \<Rightarrow> length_range option"
  and alt_lengths :: "alphabet \<Rightarrow> length_range \<Rightarrow> re list \<Rightarrow> length_range option"
  and seq_lengths :: "alphabet \<Rightarrow> length_range \<Rightarrow> re list \<Rightarrow> length_range option" where
  "getLengthRange idx (Alt rs) = alt_lengths idx (INT_MAX, 0) rs"
| "getLengthRange idx (Seq rs) = seq_lengths idx (0, 0) rs"
| "getLengthRange idx (Rep r lb ub) = map_option (rep_lengths lb ub) (getLengthRange idx r)"
| "getLengthRange idx (Assertion r k s) = Some (0, 0)"
| "getLengthRange idx Start = Some (0, 0)"
| "getLengthRange idx End = Some (0, 0)"
| "getLengthRange idx (Diff l r) = getLengthRange idx l"
| "getLengthRange idx (Intersect l r) =
     do { r1 \<leftarrow> getLengthRange idx l; r2 \<leftarrow> getLengthRange idx r; Some (max (fst r1) (fst r2), min (snd r1) (snd r2)) }"
| "getLengthRange idx (CC a s) = class_lengths idx a s"
| "getLengthRange idx (Any a) = Some (any_lengths idx a)"
| "getLengthRange idx (PropertyExpression k ident op v code d) =
     (if k = Boundary then Some (0, 0)
      else if idx = Unicode then Some (1, 1)
      else case d of
          Some r \<Rightarrow> getLengthRange idx r
        | None \<Rightarrow> Some (if idx = UTF8 then (1, 4) else (1, INT_MAX)))"
| "getLengthRange idx (Name ns nm d ext) = (case d of Some r \<Rightarrow> getLengthRange idx r | None \<Rightarrow> Some (0, INT_MAX))"
| "getLengthRange idx (Capture nm r) = getLengthRange idx r"
| "getLengthRange idx (Reference nm r n p) = getLengthRange idx r"
| "getLengthRange idx (Range lo hi) = Some (0, INT_MAX)"
| "getLengthRange idx (Group m r s) = Some (0, INT_MAX)"
| "getLengthRange idx (Permute rs) = Some (0, INT_MAX)"
| "alt_lengths idx p [] = Some p"
| "alt_lengths idx p (r # rs) = do { q \<leftarrow> getLengthRange idx r; alt_lengths idx (min_max p q) rs }"
| "seq_lengths idx p [] = Some p"
| "seq_lengths idx p (r # rs) = do { q \<leftarrow> getLengthRange idx r; seq_lengths idx (add_ranges p q) rs }"

section \<open>Other lengths\<close>

fun isUnicodeUnitLength :: "re \<Rightarrow> bool"
  and unit_sequence :: "bool \<Rightarrow> re list \<Rightarrow> bool" where
  "isUnicodeUnitLength (Alt rs) = (\<forall>r \<in> set rs. isUnicodeUnitLength r)"
| "isUnicodeUnitLength (Seq rs) = unit_sequence False rs"
| "isUnicodeUnitLength (Rep r lb ub) = (lb = 1 \<and> ub = 1 \<and> isUnicodeUnitLength r)"
| "isUnicodeUnitLength (Assertion r k s) = False"
| "isUnicodeUnitLength (Diff l r) = (isUnicodeUnitLength l \<and> isUnicodeUnitLength r)"
| "isUnicodeUnitLength (Intersect l r) = (isUnicodeUnitLength l \<and> isUnicodeUnitLength r)"
| "isUnicodeUnitLength (Any a) = True"
| "isUnicodeUnitLength (CC a s) = (\<not> is_empty s)"
| "isUnicodeUnitLength (Name ns nm d ext) = (case d of Some r \<Rightarrow> isUnicodeUnitLength r | None \<Rightarrow> False)"
| "isUnicodeUnitLength (Capture nm r) = isUnicodeUnitLength r"
| "isUnicodeUnitLength (Reference nm r n p) = isUnicodeUnitLength r"
| "isUnicodeUnitLength (PropertyExpression k ident op v code d) = (k \<noteq> Boundary)"
| "isUnicodeUnitLength _ = False"
| "unit_sequence seen [] = seen"
| "unit_sequence seen (e # es) =
     (case e of
        Assertion r k s \<Rightarrow> unit_sequence seen es
      | _ \<Rightarrow> \<not> seen \<and> isUnicodeUnitLength e \<and> unit_sequence True es)"

text \<open>\<open>None\<close> is the use of a name without definition, and that of the bounds of an invalid
  set.\<close>

fun isFixedLength :: "re \<Rightarrow> bool option"
  and all_fixed :: "re list \<Rightarrow> bool option" where
  "isFixedLength (Alt rs) = map_option (\<lambda>p. fst p = snd p) (getLengthRange Unicode (Alt rs))"
| "isFixedLength (Seq rs) = all_fixed rs"
| "isFixedLength (Rep r lb ub) = (if lb = ub then isFixedLength r else Some False)"
| "isFixedLength (Diff l r) = isFixedLength l"
| "isFixedLength (Intersect l r) = or_else (isFixedLength l) (isFixedLength r)"
| "isFixedLength (Group m r s) = isFixedLength r"
| "isFixedLength (Name ns nm d ext) = (case d of Some r \<Rightarrow> isFixedLength r | None \<Rightarrow> None)"
| "isFixedLength (Capture nm r) = isFixedLength r"
| "isFixedLength (Reference nm r n p) = isFixedLength r"
| "isFixedLength (CC a s) = Some True"
| "isFixedLength (Any a) = Some True"
| "isFixedLength Start = Some True"
| "isFixedLength End = Some True"
| "isFixedLength (Range lo hi) = Some True"
| "isFixedLength (Assertion r k s) = Some True"
| "isFixedLength (PropertyExpression k ident op v code d) = Some True"
| "isFixedLength (Permute rs) = Some True"
| "all_fixed [] = Some True"
| "all_fixed (r # rs) = and_then (isFixedLength r) (all_fixed rs)"

fun minMatchLength :: "re \<Rightarrow> int option"
  and min_of_lengths :: "int \<Rightarrow> re list \<Rightarrow> int option"
  and sum_of_lengths :: "int \<Rightarrow> re list \<Rightarrow> int option" where
  "minMatchLength (Alt rs) = min_of_lengths INT_MAX rs"
| "minMatchLength (Seq rs) = sum_of_lengths 0 rs"
| "minMatchLength (Rep r lb ub) = (if lb = 0 then Some 0 else map_option (\<lambda>n. int32 (lb * n)) (minMatchLength r))"
| "minMatchLength (Assertion r k s) = Some 0"
| "minMatchLength (Diff l r) = minMatchLength l"
| "minMatchLength (Intersect l r) = do { m \<leftarrow> minMatchLength l; n \<leftarrow> minMatchLength r; Some (min m n) }"
| "minMatchLength (Any a) = Some 1"
| "minMatchLength (CC a s) = Some 1"
| "minMatchLength (Name ns nm d ext) = (case d of Some r \<Rightarrow> minMatchLength r | None \<Rightarrow> None)"
| "minMatchLength (Capture nm r) = minMatchLength r"
| "minMatchLength (Reference nm r n p) = minMatchLength r"
| "minMatchLength Start = Some 0"
| "minMatchLength End = Some 0"
| "minMatchLength (Range lo hi) = Some 0"
| "minMatchLength (PropertyExpression k ident op v code d) = Some 0"
| "minMatchLength (Group m r s) = Some 0"
| "minMatchLength (Permute rs) = Some 0"
| "min_of_lengths m [] = Some m"
| "min_of_lengths m (r # rs) = do { n \<leftarrow> minMatchLength r; min_of_lengths (min m n) rs }"
| "sum_of_lengths m [] = Some m"
| "sum_of_lengths m (r # rs) = do { n \<leftarrow> minMatchLength r; sum_of_lengths (int32 (m + n)) rs }"

definition FixedUTF8Validator :: validator where
  "FixedUTF8Validator = RE_Validator RequireDefinition\<lparr>
     validateCC := \<lambda>a s. let al = source_alphabet a in
       if al = Unicode then
         (case (front s, uset_back s) of
            (Inr f, Inr b) \<Rightarrow> Some (encoded_length 8 (fst f) = encoded_length 8 (snd b))
          | _ \<Rightarrow> None)
       else Some (al = UTF8 \<or> al = Byte),
     validateAny := \<lambda>a. Some (a = UTF8),
     validateName := \<lambda>ns nm d x. Some False,
     validatePropertyExpression := \<lambda>d x. Some False\<rparr>"

definition validateFixedUTF8 :: "re \<Rightarrow> vres" where
  "validateFixedUTF8 r = validate FixedUTF8Validator r"

section \<open>Length ranges bound the spans\<close>

text \<open>The expressions on which no multiplication overflows. A repetition that may be empty must not have
  an operand that is too long for an \<open>int\<close>, or that matches nothing; back references are
  measured by their captures, and resolved boundaries not at all.\<close>

fun measurable :: "alphabet \<Rightarrow> re \<Rightarrow> bool" where
  "measurable idx (Alt rs) = (\<forall>r \<in> set rs. measurable idx r)"
| "measurable idx (Seq rs) = (\<forall>r \<in> set rs. measurable idx r)"
| "measurable idx (Permute rs) = (\<forall>r \<in> set rs. measurable idx r)"
| "measurable idx (Assertion r k s) = True"
| "measurable idx (Range lo hi) = True"
| "measurable idx (Diff l r) = measurable idx l"
| "measurable idx (Intersect l r) = (measurable idx l \<and> measurable idx r)"
| "measurable idx (Name ns nm d ext) = (case d of None \<Rightarrow> True | Some r \<Rightarrow> measurable idx r)"
| "measurable idx (PropertyExpression k ident op v code d) =
     (case d of None \<Rightarrow> True | Some r \<Rightarrow> k = Codepoint \<and> idx \<noteq> Unicode \<and> measurable idx r)"
| "measurable idx (Capture nm r) = measurable idx r"
| "measurable idx (Reference nm r n p) = False"
| "measurable idx (Group m r s) = measurable idx r"
| "measurable idx (Rep r lb ub) = (measurable idx r \<and>
     (case getLengthRange idx r of None \<Rightarrow> True | Some (lo, hi) \<Rightarrow>
        lo < INT_MAX \<and> lo * lb \<le> INT_MAX \<and> (ub = UNBOUNDED_REP \<or> hi = INT_MAX \<or> hi * ub \<le> INT_MAX)))"
| "measurable idx r = True"

definition within :: "(nat \<Rightarrow> nat) \<Rightarrow> length_range \<Rightarrow> spans \<Rightarrow> bool" where
  "within pos p R \<longleftrightarrow> 0 \<le> fst p \<and> fst p \<le> INT_MAX \<and> 0 \<le> snd p \<and> snd p \<le> INT_MAX \<and>
     (\<forall>(k, l) \<in> R. k \<le> l \<and> fst p \<le> int (pos l) - int (pos k) \<and> (snd p = INT_MAX \<or> int (pos l) - int (pos k) \<le> snd p))"

lemma withinD:
  assumes "within pos p R"
  shows "0 \<le> fst p" "fst p \<le> INT_MAX" "0 \<le> snd p" "snd p \<le> INT_MAX"
    "(k, l) \<in> R \<Longrightarrow> k \<le> l" "(k, l) \<in> R \<Longrightarrow> fst p \<le> int (pos l) - int (pos k)"
    "(k, l) \<in> R \<Longrightarrow> snd p \<noteq> INT_MAX \<Longrightarrow> int (pos l) - int (pos k) \<le> snd p"
  using assms unfolding within_def by blast+

lemma withinI:
  assumes "0 \<le> lo" "lo \<le> INT_MAX" "0 \<le> hi" "hi \<le> INT_MAX"
    and "\<And>k l. (k, l) \<in> R \<Longrightarrow> k \<le> l \<and> lo \<le> int (pos l) - int (pos k) \<and> (hi = INT_MAX \<or> int (pos l) - int (pos k) \<le> hi)"
  shows "within pos (lo, hi) R"
  using assms unfolding within_def by auto

lemma within_mono: "within pos p R \<Longrightarrow> S \<subseteq> R \<Longrightarrow> within pos p S"
  unfolding within_def by blast

lemma within_zero: "R \<subseteq> Id \<Longrightarrow> within pos (0, 0) R"
  by (rule withinI) (auto simp: INT_MAX_def)

lemma within_Un: "within pos p R \<Longrightarrow> within pos q S \<Longrightarrow> within pos (min_max p q) (R \<union> S)"
proof -
  assume w: "within pos p R" "within pos q S"
  note p = withinD[OF w(1)] and q = withinD[OF w(2)]
  have bounds: "min (fst p) (fst q) \<le> fst p" "min (fst p) (fst q) \<le> fst q" "snd p \<le> max (snd p) (snd q)" "snd q \<le> max (snd p) (snd q)"
    by simp_all
  show ?thesis unfolding min_max_def
  proof (rule withinI)
    fix k l
    assume "(k, l) \<in> R \<union> S"
    then show "k \<le> l \<and> min (fst p) (fst q) \<le> int (pos l) - int (pos k)
      \<and> (max (snd p) (snd q) = INT_MAX \<or> int (pos l) - int (pos k) \<le> max (snd p) (snd q))"
    proof
      assume "(k, l) \<in> R"
      then show ?thesis using p(4) q(4) p(5-7)[of k l] bounds by linarith
    next
      assume "(k, l) \<in> S"
      then show ?thesis using p(4) q(4) q(5-7)[of k l] bounds by linarith
    qed
  qed (use p q in auto)
qed

lemma add_saturating_value:
  "0 \<le> a \<Longrightarrow> a \<le> INT_MAX \<Longrightarrow> 0 \<le> b \<Longrightarrow> b \<le> INT_MAX \<Longrightarrow> add_saturating a b = min (a + b) INT_MAX"
  using int32_id[of "INT_MAX - a"] int32_id[of "a + b"] by (auto simp: add_saturating_def)

lemma within_comp:
  assumes "within pos p R" "within pos q S"
  shows "within pos (add_ranges p q) (R O S)"
proof -
  note p = withinD[OF assms(1)] and q = withinD[OF assms(2)]
  have "k \<le> l \<and> min (fst p + fst q) INT_MAX \<le> int (pos l) - int (pos k)
      \<and> (min (snd p + snd q) INT_MAX = INT_MAX \<or> int (pos l) - int (pos k) \<le> min (snd p + snd q) INT_MAX)"
    if "(k, l) \<in> R O S" for k l
  proof -
    from that obtain m where m: "(k, m) \<in> R" "(m, l) \<in> S" by blast
    have "snd p \<noteq> INT_MAX \<and> snd q \<noteq> INT_MAX" if "snd p + snd q < INT_MAX" using that p(3) q(3) by linarith
    then show ?thesis using p(5-7)[OF m(1)] q(5-7)[OF m(2)] by linarith
  qed
  then show ?thesis
    unfolding add_ranges_def add_saturating_value[OF p(1,2) q(1,2)] add_saturating_value[OF p(3,4) q(3,4)]
    using p(1-4) q(1-4) by (intro withinI) auto
qed

lemma within_power:
  assumes "within pos (lo, hi) R" "(k, l) \<in> R ^^ n"
  shows "k \<le> l \<and> int n * lo \<le> int (pos l) - int (pos k) \<and> (hi = INT_MAX \<or> int (pos l) - int (pos k) \<le> int n * hi)"
  using assms(2)
proof (induction n arbitrary: l)
  case (Suc n)
  then obtain m where m: "(k, m) \<in> R ^^ n" "(m, l) \<in> R" by auto
  note step = withinD(5-7)[OF assms(1) m(2), unfolded fst_conv snd_conv] and IH = Suc.IH[OF m(1)]
  have "int (Suc n) * lo = int n * lo + lo" "int (Suc n) * hi = int n * hi + hi" by (simp_all add: algebra_simps)
  then show ?case using step IH by linarith
qed simp

lemma within_rep:
  assumes w: "within pos (lo, hi) R" and "valid_bounds lb ub"
    and fit: "lo < INT_MAX" "lo * lb \<le> INT_MAX" "ub = -1 \<or> hi = INT_MAX \<or> hi * ub \<le> INT_MAX"
  shows "within pos (rep_lengths lb ub (lo, hi)) (rep_spans R (rep_counts lb ub))"
proof -
  note p = withinD(1-4)[OF w, unfolded fst_conv snd_conv]
  have b: "0 \<le> lb" "lb \<noteq> -1" "ub = -1 \<or> 0 \<le> ub" using assms(2) by (auto simp: valid_bounds_def)
  define top where "top = (if ub = -1 \<or> hi = INT_MAX then INT_MAX else hi * ub)"
  have "rep_lengths lb ub (lo, hi) = (lo * lb, top)"
    using b p fit int32_id[of "lo * lb"] int32_id[of "hi * ub"] by (auto simp: rep_lengths_def top_def)
  moreover have "within pos (lo * lb, top) (rep_spans R (rep_counts lb ub))"
  proof (rule withinI)
    show "0 \<le> lo * lb" "lo * lb \<le> INT_MAX" "0 \<le> top" "top \<le> INT_MAX"
      using b p fit by (auto simp: top_def INT_MAX_def)
    fix k l
    assume "(k, l) \<in> rep_spans R (rep_counts lb ub)"
    then obtain n where n: "lb \<le> int n" "ub = -1 \<or> int n \<le> ub" "(k, l) \<in> R ^^ n" by (auto simp: rep_spans_def rep_counts_iff)
    have "lo * lb \<le> int n * lo" using mult_left_mono[OF n(1) p(1)] by (simp add: mult.commute)
    moreover have "int n * hi \<le> top \<or> top = INT_MAX"
      using n(2) mult_left_mono[of "int n" ub hi] p(3) by (auto simp: top_def mult.commute)
    ultimately show "k \<le> l \<and> lo * lb \<le> int (pos l) - int (pos k) \<and> (top = INT_MAX \<or> int (pos l) - int (pos k) \<le> top)"
      using within_power[OF w n(3)] by (auto simp: top_def split: if_splits)
  qed
  ultimately show ?thesis by simp
qed

text \<open>A way to measure spans by the symbols of an indexing alphabet.\<close>

locale length_index =
  fixes idx :: alphabet and c :: sem and pos :: "nat \<Rightarrow> nat"
  assumes mono: "k \<le> l \<Longrightarrow> pos k \<le> pos l"
    and class_law: "uset_ok s \<Longrightarrow> class_lengths idx a s = Some p \<Longrightarrow> within pos p (cc_spans c a (codepoints s))"
    and any_law: "within pos (any_lengths idx a) (any_spans c a)"
    and name_law: "(k, l) \<in> name_spans c ns nm \<Longrightarrow> k \<le> l"
    and boundary_law: "prop_spans c Boundary ident op v \<subseteq> Id"
    and property_law: "within pos (if idx = Unicode then (1, 1) else if idx = UTF8 then (1, 4) else (1, INT_MAX)) (prop_spans c Codepoint ident op v)"
    and group_law: "\<forall>(k, l) \<in> R. k \<le> l \<Longrightarrow> (k, l) \<in> group_spans c m g R \<Longrightarrow> k \<le> l"
    and range_law: "(k, l) \<in> range_spans c R S \<Longrightarrow> k \<le> l"
begin

lemma within_any_length: "(\<And>k l. (k, l) \<in> R \<Longrightarrow> k \<le> l) \<Longrightarrow> within pos (0, INT_MAX) R"
  by (rule withinI) (use mono in \<open>auto simp: INT_MAX_def\<close>)

lemma alt_within:
  "(\<And>r q. r \<in> set rs \<Longrightarrow> getLengthRange idx r = Some q \<Longrightarrow> within pos q (den c r)) \<Longrightarrow>
   alt_lengths idx p rs = Some p' \<Longrightarrow> within pos p R \<Longrightarrow> within pos p' (R \<union> (\<Union>r \<in> set rs. den c r))"
proof (induction rs arbitrary: p R)
  case (Cons r rs)
  from Cons.prems(2) obtain q where q: "getLengthRange idx r = Some q" "alt_lengths idx (min_max p q) rs = Some p'"
    by (auto split: bind_splits)
  have "within pos q (den c r)" using Cons.prems(1) q(1) by simp
  from Cons.IH[OF _ q(2) within_Un[OF Cons.prems(3) this]] Cons.prems(1) show ?case by (simp add: Un_assoc)
qed simp

lemma seq_within:
  "(\<And>r q. r \<in> set rs \<Longrightarrow> getLengthRange idx r = Some q \<Longrightarrow> within pos q (den c r)) \<Longrightarrow>
   seq_lengths idx p rs = Some p' \<Longrightarrow> within pos p R \<Longrightarrow> within pos p' (R O seq_spans (map (den c) rs))"
proof (induction rs arbitrary: p R)
  case (Cons r rs)
  from Cons.prems(2) obtain q where q: "getLengthRange idx r = Some q" "seq_lengths idx (add_ranges p q) rs = Some p'"
    by (auto split: bind_splits)
  have "within pos q (den c r)" using Cons.prems(1) q(1) by simp
  from Cons.IH[OF _ q(2) within_comp[OF Cons.prems(3) this]] Cons.prems(1) show ?case by (simp add: O_assoc)
qed simp

lemma permute_forward:
  assumes "\<And>R. R \<in> set Rs \<Longrightarrow> forward R" "mset Rs' = mset Rs"
  shows "forward (seq_spans Rs')"
  using assms mset_eq_setD[OF assms(2)] forward_seq[of Rs'] by auto

text \<open>The forms whose range is \<open>(0, INT_MAX)\<close> have spans that go forward, whatever the operands.\<close>

lemma range_sound:
  "re_ok r \<Longrightarrow> measurable idx r \<Longrightarrow> forward (den c r) \<and> (\<forall>p. getLengthRange idx r = Some p \<longrightarrow> within pos p (den c r))"
proof (induction r)
  case (Alt rs)
  have IH: "within pos q (den c r)" if "r \<in> set rs" "getLengthRange idx r = Some q" for r q
    using Alt that by (cases q) auto
  have "within pos (INT_MAX, 0) {}" by (rule withinI) (auto simp: INT_MAX_def)
  from alt_within[OF IH _ this, of rs] Alt show ?case by fastforce
next
  case (Seq rs)
  have IH: "within pos q (den c r)" if "r \<in> set rs" "getLengthRange idx r = Some q" for r q
    using Seq that by (cases q) auto
  from seq_within[OF IH _ within_zero[of Id], of rs] forward_seq[of "map (den c) rs"] Seq show ?case by simp
next
  case (Permute rs)
  have "forward R" if "R \<in> set (map (den c) rs)" for R using that Permute by auto
  from permute_forward[of "map (den c) rs", OF this] have "forward (den c (Permute rs))" by auto
  then show ?case using within_any_length[of "den c (Permute rs)"] by auto
next
  case (Rep r lb ub)
  then have "forward (den c r ^^ n)" for n by (intro forward_power) simp
  then have "forward (den c (Rep r lb ub))" by (auto simp: rep_spans_def)
  moreover have "within pos p (den c (Rep r lb ub))" if "getLengthRange idx (Rep r lb ub) = Some p" for p
  proof -
    from that obtain lo hi where q: "getLengthRange idx r = Some (lo, hi)" "p = rep_lengths lb ub (lo, hi)" by auto
    with Rep show ?thesis using within_rep[of pos lo hi "den c r" lb ub] by simp
  qed
  ultimately show ?case by blast
next
  case (Assertion r k s)
  have "den c (Assertion r k s) \<subseteq> Id" by (auto simp: look_spans_def)
  then show ?case using within_zero by auto
next
  case (Diff l r)
  then show ?case using within_mono[of pos _ "den c l" "den c l - den c r"] by auto
next
  case (Intersect l r)
  have "within pos (max (fst p1) (fst p2), min (snd p1) (snd p2)) (R \<inter> S)" if "within pos p1 R" "within pos p2 S" for p1 p2 R S
    using that by (intro withinI) (auto simp: max_def min_def dest: withinD)
  then show ?case using Intersect by (auto split: bind_splits)
next
  case (Name ns nm d ext)
  show ?case
  proof (cases d)
    case None
    then show ?thesis using name_law within_any_length[of "name_spans c ns nm"] by auto
  next
    case (Some x)
    then show ?thesis using Name by simp
  qed
next
  case (PropertyExpression k ident op v code d)
  show ?case
  proof (cases d)
    case None
    have "forward (prop_spans c Codepoint ident op v)" using withinD(5)[OF property_law] by auto
    then show ?thesis
      using None property_law[of ident op v] boundary_law[of ident op v] within_zero[OF boundary_law]
      by (cases k) (auto split: if_splits)
  next
    case (Some x)
    then show ?thesis using PropertyExpression by auto
  qed
next
  case (Group m r g)
  have "forward (den c (Group m r g))" using Group group_law[of "den c r" _ _ m g] by auto
  then show ?case using within_any_length[of "den c (Group m r g)"] by auto
next
  case (Range lo hi)
  have "forward (den c (Range lo hi))" using range_law by auto
  then show ?case using within_any_length[of "den c (Range lo hi)"] by auto
next
  case (CC a s)
  have "class_lengths idx a s \<noteq> None" if "uset_ok s" "codepoints s \<noteq> {}"
    using front_spec(1)[OF that] uset_back_spec(1)[OF that] by (simp add: class_lengths_def Let_def)
  moreover have "forward (cc_spans c a (codepoints s))" if "class_lengths idx a s = Some p" "uset_ok s" for p
    using withinD(5)[OF class_law[OF that(2,1)]] by auto
  ultimately show ?case using CC class_law[of s a] by (cases "codepoints s = {}") auto
next
  case (Any a)
  show ?case using any_law[of a] withinD(5)[OF any_law[of a]] by auto
next
  case Start
  then show ?case using within_zero[of "Id_on (start_at c)"] by auto
next
  case End
  then show ?case using within_zero[of "Id_on (end_at c)"] by auto
qed simp_all

end

text \<open>The range is computed for every expression with valid sets.\<close>

fun classes_nonempty :: "re \<Rightarrow> bool" where
  "classes_nonempty (CC a s) = (uset_ok s \<and> codepoints s \<noteq> {})"
| "classes_nonempty (Alt rs) = (\<forall>r \<in> set rs. classes_nonempty r)"
| "classes_nonempty (Seq rs) = (\<forall>r \<in> set rs. classes_nonempty r)"
| "classes_nonempty (Rep r lb ub) = classes_nonempty r"
| "classes_nonempty (Diff l r) = classes_nonempty l"
| "classes_nonempty (Intersect l r) = (classes_nonempty l \<and> classes_nonempty r)"
| "classes_nonempty (PropertyExpression k ident op v code d) = (case d of None \<Rightarrow> True | Some r \<Rightarrow> classes_nonempty r)"
| "classes_nonempty (Name ns nm d ext) = (case d of None \<Rightarrow> True | Some r \<Rightarrow> classes_nonempty r)"
| "classes_nonempty (Capture nm r) = classes_nonempty r"
| "classes_nonempty (Reference nm r n p) = classes_nonempty r"
| "classes_nonempty _ = True"

lemma getLengthRange_total: "classes_nonempty r \<Longrightarrow> \<exists>p. getLengthRange idx r = Some p"
proof (induction r)
  case (Alt rs)
  have "(\<And>r. r \<in> set rs \<Longrightarrow> \<exists>p. getLengthRange idx r = Some p) \<Longrightarrow> \<exists>p'. alt_lengths idx p rs = Some p'" for p rs
  proof (induction rs arbitrary: p)
    case (Cons r rs)
    then obtain q where "getLengthRange idx r = Some q" by (meson list.set_intros(1))
    with Cons show ?case by simp
  qed simp
  with Alt show ?case by simp
next
  case (Seq rs)
  have "(\<And>r. r \<in> set rs \<Longrightarrow> \<exists>p. getLengthRange idx r = Some p) \<Longrightarrow> \<exists>p'. seq_lengths idx p rs = Some p'" for p rs
  proof (induction rs arbitrary: p)
    case (Cons r rs)
    then obtain q where "getLengthRange idx r = Some q" by (meson list.set_intros(1))
    with Cons show ?case by simp
  qed simp
  with Seq show ?case by simp
next
  case (CC a s)
  then show ?case using front_spec(1)[of s] uset_back_spec(1)[of s] by (simp add: class_lengths_def Let_def)
next
  case (Name ns nm d ext)
  then show ?case by (cases d) auto
next
  case (PropertyExpression k ident op v code d)
  then show ?case by (cases d) auto
qed auto

section \<open>Measuring texts\<close>

text \<open>External spans that go forward, with properties of one code point and boundaries of none.\<close>

definition good_externals :: "externals \<Rightarrow> bool" where
  "good_externals e \<longleftrightarrow> (\<forall>ns nm. forward (ext_names e ns nm)) \<and> (\<forall>i op v. ext_props e Boundary i op v \<subseteq> Id)
     \<and> (\<forall>i op v. ext_props e Codepoint i op v \<subseteq> {(k, Suc k) | k. True})"

definition no_externals :: externals where
  "no_externals = \<lparr>ext_names = \<lambda>_ _. {}, ext_props = \<lambda>_ _ _ _. {}, ext_refs = \<lambda>_ _ _. {}\<rparr>"

lemma good_no_externals: "good_externals no_externals"
  by (simp add: good_externals_def no_externals_def)

lemma class_lengths_bounds:
  assumes "class_lengths idx a s = Some p"
  shows "0 \<le> fst p" "fst p \<le> INT_MAX" "0 \<le> snd p" "snd p \<le> INT_MAX"
proof -
  have four: "int (encoded_length 8 cp) \<le> INT_MAX" for cp by (simp add: encoded_length_def INT_MAX_def)
  then show "0 \<le> fst p" "fst p \<le> INT_MAX" "0 \<le> snd p" "snd p \<le> INT_MAX"
    using assms by (auto simp: class_lengths_def Let_def INT_MAX_def split: if_splits sum.splits)
qed

lemma unicode_lengths:
  assumes "good_externals e"
  shows "length_index Unicode (unicode_text e w) id"
proof
  have unit: "within id (1, 1) R" "within id (1, INT_MAX) R" if "R \<subseteq> {(k, Suc k) | k. True}" for R
    using that by (intro withinI; force simp: INT_MAX_def)+
  have no_code_unit: "\<not> is_code_unit Unicode" "source_alphabet Unicode = Unicode" "Unicode \<noteq> UTF8"
    by (simp_all add: is_code_unit_def source_alphabet_def Unicode_def UTF8_def)
  show "within id p (cc_spans (unicode_text e w) a (codepoints s))" if "class_lengths Unicode a s = Some p" for a s p
  proof -
    have "cc_spans (unicode_text e w) a (codepoints s) \<subseteq> {(k, Suc k) | k. True}"
      by (auto simp: cc_spans_def unicode_text_def text_sem_def list_syms_def)
    moreover have "p = (1, 1) \<or> p = (1, INT_MAX)" using that by (auto simp: class_lengths_def Let_def UTF8_def Unicode_def split: if_splits)
    ultimately show ?thesis using unit by blast
  qed
  show "within id (any_lengths Unicode a) (any_spans (unicode_text e w) a)" for a
  proof -
    have "any_spans (unicode_text e w) a \<subseteq> {(k, Suc k) | k. True}" by (auto simp: unicode_text_def text_sem_def)
    from unit[OF this] have "within id (1, 1) (any_spans (unicode_text e w) a)" "within id (1, INT_MAX) (any_spans (unicode_text e w) a)" .
    moreover have "any_lengths Unicode a = (1, 1) \<or> any_lengths Unicode a = (1, INT_MAX)"
      using no_code_unit(3) unfolding any_lengths_def by presburger
    ultimately show ?thesis by metis
  qed
  show "(k, l) \<in> name_spans (unicode_text e w) ns nm \<Longrightarrow> k \<le> l" for k l ns nm
    using assms(1) unfolding good_externals_def by (fastforce simp: unicode_text_def text_sem_def)
  show "prop_spans (unicode_text e w) Boundary ident op v \<subseteq> Id" for ident op v
  proof -
    have "ext_props e Boundary ident op v \<subseteq> Id" using assms(1) unfolding good_externals_def by blast
    then show ?thesis by (auto simp: unicode_text_def text_sem_def)
  qed
  show "within id (if Unicode = Unicode then (1, 1) else if Unicode = UTF8 then (1, 4) else (1, INT_MAX))
      (prop_spans (unicode_text e w) Codepoint ident op v)" for ident op v
  proof -
    have "ext_props e Codepoint ident op v \<subseteq> {(k, Suc k) | k. True}" using assms(1) unfolding good_externals_def by blast
    then have "prop_spans (unicode_text e w) Codepoint ident op v \<subseteq> {(k, Suc k) | k. True}"
      by (auto simp: unicode_text_def text_sem_def)
    from unit(1)[OF this] show ?thesis by simp
  qed
qed (auto simp: unicode_text_def text_sem_def)

text \<open>Byte lengths of the spans of code points.\<close>

lemma utf8_lengths:
  assumes "good_externals e"
  shows "length_index UTF8 (unicode_text e w) (byte_pos w)"
proof
  show "k \<le> l \<Longrightarrow> byte_pos w k \<le> byte_pos w l" for k l by (simp add: strict_mono_less_eq[OF byte_pos_less])
  have step: "byte_pos w (Suc k) = byte_pos w k + (if k < length w then encoded_length 8 (w ! k) else 1)" for k
    by (rule byte_pos_Suc)
  have four: "encoded_length 8 cp \<le> 4" "1 \<le> encoded_length 8 cp" for cp by (simp_all add: encoded_length_def)
  have unit: "within (byte_pos w) (1, 4) R" "within (byte_pos w) (1, INT_MAX) R" if "R \<subseteq> {(k, Suc k) | k. True}" for R
    using that four by (intro withinI; force simp: step INT_MAX_def)+
  show "within (byte_pos w) p (cc_spans (unicode_text e w) a (codepoints s))"
    if ok: "uset_ok s" and p: "class_lengths UTF8 a s = Some p" for a s p
  proof (cases "a = Unicode \<and> codepoints s \<noteq> {}")
    case False
    then have "cc_spans (unicode_text e w) a (codepoints s) = {}" by (auto simp: cc_spans_def unicode_text_def text_sem_def)
    then show ?thesis using class_lengths_bounds[OF p] unfolding within_def by simp
  next
    case True
    have "source_alphabet Unicode = Unicode" "\<not> is_code_unit Unicode" by (simp_all add: source_alphabet_def is_code_unit_def Unicode_def)
    then have p: "p = (int (encoded_length 8 (Min (codepoints s))), int (encoded_length 8 (Max (codepoints s))))"
      using p True front_spec[OF ok] uset_back_spec[OF ok] by (simp add: class_lengths_def)
    have span: "k \<le> l \<and> int (encoded_length 8 (Min (codepoints s))) \<le> int (byte_pos w l) - int (byte_pos w k)
        \<and> (int (encoded_length 8 (Max (codepoints s))) = INT_MAX
          \<or> int (byte_pos w l) - int (byte_pos w k) \<le> int (encoded_length 8 (Max (codepoints s))))"
      if "(k, l) \<in> cc_spans (unicode_text e w) a (codepoints s)" for k l
    proof -
      have k: "k < length w" "l = Suc k" "w ! k \<in> codepoints s"
        using that by (auto simp: cc_spans_def unicode_text_def text_sem_def list_syms_def split: if_splits)
      then have "Min (codepoints s) \<le> w ! k" "w ! k \<le> Max (codepoints s)" using finite_codepoints[of s] by simp_all
      from encoded_length_mono[OF this(1)] encoded_length_mono[OF this(2)] k(1,2) show ?thesis by (simp add: step)
    qed
    note bounds = class_lengths_bounds[OF that(2), unfolded p fst_conv snd_conv]
    show ?thesis unfolding p by (rule withinI[OF bounds span])
  qed
  show "within (byte_pos w) (any_lengths UTF8 a) (any_spans (unicode_text e w) a)" for a
  proof (cases "a = Unicode")
    case True
    moreover have "any_spans (unicode_text e w) a \<subseteq> {(k, Suc k) | k. True}" by (auto simp: unicode_text_def text_sem_def)
    ultimately show ?thesis using unit(1) by (simp add: any_lengths_def)
  next
    case False
    then show ?thesis by (auto simp: within_def any_lengths_def unicode_text_def text_sem_def INT_MAX_def)
  qed
  show "(k, l) \<in> name_spans (unicode_text e w) ns nm \<Longrightarrow> k \<le> l" for k l ns nm
    using assms(1) unfolding good_externals_def by (fastforce simp: unicode_text_def text_sem_def)
  show "prop_spans (unicode_text e w) Boundary ident op v \<subseteq> Id" for ident op v
  proof -
    have "ext_props e Boundary ident op v \<subseteq> Id" using assms(1) unfolding good_externals_def by blast
    then show ?thesis by (auto simp: unicode_text_def text_sem_def)
  qed
  show "within (byte_pos w) (if UTF8 = Unicode then (1, 1) else if UTF8 = UTF8 then (1, 4) else (1, INT_MAX))
      (prop_spans (unicode_text e w) Codepoint ident op v)" for ident op v
  proof -
    have "ext_props e Codepoint ident op v \<subseteq> {(k, Suc k) | k. True}" using assms(1) unfolding good_externals_def by blast
    then have "prop_spans (unicode_text e w) Codepoint ident op v \<subseteq> {(k, Suc k) | k. True}"
      by (auto simp: unicode_text_def text_sem_def)
    from unit(1)[OF this] show ?thesis by simp
  qed
qed (auto simp: unicode_text_def text_sem_def)

interpretation unicode_index: length_index Unicode "unicode_text no_externals w" id
  by (rule unicode_lengths[OF good_no_externals])

interpretation utf8_index: length_index UTF8 "unicode_text no_externals w" "byte_pos w"
  by (rule utf8_lengths[OF good_no_externals])

section \<open>Unit and fixed lengths\<close>

text \<open>Expressions without back references, permutations and resolved properties; alternatives that
  are all too long for an \<open>int\<close> look as if they had one length.\<close>

fun direct :: "re \<Rightarrow> bool" where
  "direct (Alt rs) = ((\<forall>r \<in> set rs. direct r) \<and> getLengthRange Unicode (Alt rs) \<noteq> Some (INT_MAX, INT_MAX))"
| "direct (Seq rs) = (\<forall>r \<in> set rs. direct r)"
| "direct (Permute rs) = False"
| "direct (Diff l r) = direct l"
| "direct (Intersect l r) = (direct l \<and> direct r)"
| "direct (Name ns nm d ext) = (case d of None \<Rightarrow> True | Some r \<Rightarrow> direct r)"
| "direct (PropertyExpression k ident op v code d) = (d = None)"
| "direct (Capture nm r) = direct r"
| "direct (Reference nm r n p) = False"
| "direct (Group m r s) = direct r"
| "direct (Rep r lb ub) = direct r"
| "direct r = True"

abbreviation steps :: "nat \<Rightarrow> spans" where
  "steps n \<equiv> {(k, k + n) | k. True}"

lemma steps_zero: "R \<subseteq> steps 0 \<longleftrightarrow> R \<subseteq> Id"
  by auto

lemma steps_comp: "R \<subseteq> steps m \<Longrightarrow> S \<subseteq> steps n \<Longrightarrow> R O S \<subseteq> steps (m + n)"
  by fastforce

lemma text_leaves:
  assumes "good_externals e"
  shows "cc_spans (unicode_text e w) a S \<subseteq> steps 1" "any_spans (unicode_text e w) a \<subseteq> steps 1"
    "prop_spans (unicode_text e w) Codepoint ident op v \<subseteq> steps 1" "prop_spans (unicode_text e w) Boundary ident op v \<subseteq> steps 0"
proof -
  show "cc_spans (unicode_text e w) a S \<subseteq> steps 1" "any_spans (unicode_text e w) a \<subseteq> steps 1"
    by (auto simp: cc_spans_def unicode_text_def text_sem_def list_syms_def)
  have "ext_props e Boundary ident op v \<subseteq> Id" "ext_props e Codepoint ident op v \<subseteq> {(k, Suc k) | k. True}"
    using assms(1) unfolding good_externals_def by blast+
  then show "prop_spans (unicode_text e w) Codepoint ident op v \<subseteq> steps 1" "prop_spans (unicode_text e w) Boundary ident op v \<subseteq> steps 0"
    by (auto simp: unicode_text_def text_sem_def)
qed

lemma unit_sequence_sound:
  assumes "\<And>r. r \<in> set rs \<Longrightarrow> isUnicodeUnitLength r \<Longrightarrow> den c r \<subseteq> steps 1"
  shows "unit_sequence seen rs \<Longrightarrow> seq_spans (map (den c) rs) \<subseteq> steps (if seen then 0 else 1)"
  using assms
proof (induction rs arbitrary: seen)
  case (Cons r rs)
  show ?case
  proof (cases "\<exists>x k s. r = Assertion x k s")
    case True
    then have "den c r \<subseteq> steps 0" by (auto simp: look_spans_def)
    moreover have "seq_spans (map (den c) rs) \<subseteq> steps (if seen then 0 else 1)"
      using Cons.prems True by (intro Cons.IH) auto
    ultimately show ?thesis using steps_comp[of "den c r" 0] by simp
  next
    case False
    then have u: "\<not> seen" "isUnicodeUnitLength r" "unit_sequence True rs" using Cons.prems(1) by (cases r; simp)+
    then have "den c r \<subseteq> steps 1" "seq_spans (map (den c) rs) \<subseteq> steps 0" using Cons.prems(2) Cons.IH[of True] by simp_all
    from steps_comp[OF this] u(1) show ?thesis by simp
  qed
qed auto

lemma unit_length_sound:
  assumes "good_externals e"
  shows "direct r \<Longrightarrow> isUnicodeUnitLength r \<Longrightarrow> den (unicode_text e w) r \<subseteq> steps 1"
proof (induction r)
  case (Seq rs)
  then show ?case using unit_sequence_sound[of rs "unicode_text e w" False] by simp
next
  case (Rep r lb ub)
  then have "rep_counts lb ub = {1}" "den (unicode_text e w) r \<subseteq> steps 1" by (auto simp: rep_counts_def)
  then show ?case by simp
next
  case (Name ns nm d ext)
  then show ?case by (cases d) auto
next
  case (PropertyExpression k ident op v code d)
  then show ?case using text_leaves(3)[OF assms] by (cases k) auto
next
  case (CC a s)
  then show ?case using text_leaves(1)[OF assms] by simp
next
  case (Any a)
  then show ?case using text_leaves(2)[OF assms] by simp
qed auto

lemma fixed_sequence:
  assumes "\<And>r. r \<in> set rs \<Longrightarrow> isFixedLength r = Some True \<Longrightarrow> \<exists>n. den c r \<subseteq> steps n"
  shows "all_fixed rs = Some True \<Longrightarrow> \<exists>n. seq_spans (map (den c) rs) \<subseteq> steps n"
  using assms
proof (induction rs)
  case Nil
  have "Id \<subseteq> steps 0" by auto
  then show ?case by auto
next
  case (Cons r rs)
  then obtain m n where "den c r \<subseteq> steps m" "seq_spans (map (den c) rs) \<subseteq> steps n" by fastforce
  from steps_comp[OF this] show ?case by auto
qed

lemma fixed_power: "R \<subseteq> steps n \<Longrightarrow> R ^^ k \<subseteq> steps (k * n)"
proof (induction k)
  case (Suc k)
  from steps_comp[OF Suc.IH[OF Suc.prems] Suc.prems] show ?case by (simp add: add.commute)
qed auto

lemma fixed_length_sound:
  assumes "good_externals e"
  shows "re_ok r \<Longrightarrow> measurable Unicode r \<Longrightarrow> direct r \<Longrightarrow> isFixedLength r = Some True \<Longrightarrow> \<exists>n. den (unicode_text e w) r \<subseteq> steps n"
proof (induction r)
  case (Alt rs)
  then obtain p where p: "getLengthRange Unicode (Alt rs) = Some p" "fst p = snd p" by auto
  from length_index.range_sound[OF unicode_lengths[OF assms] Alt.prems(1,2)] p(1)
  have w: "within id p (den (unicode_text e w) (Alt rs))" by blast
  show ?case
  proof -
    have "snd p \<noteq> INT_MAX" using Alt.prems(3) p by (cases p) auto
    then have "den (unicode_text e w) (Alt rs) \<subseteq> steps (nat (fst p))"
      using withinD(5-7)[OF w] withinD(1)[OF w] p(2) by (force simp: nat_le_iff le_nat_iff)
    then show ?thesis by blast
  qed
next
  case (Seq rs)
  then show ?case using fixed_sequence[of rs "unicode_text e w"] by simp
next
  case (Rep r lb ub)
  then obtain n where "den (unicode_text e w) r \<subseteq> steps n" "lb = ub" by (auto split: if_splits)
  moreover have "0 \<le> lb" using Rep.prems(1) by (auto simp: valid_bounds_def)
  ultimately have "rep_counts lb ub = {nat lb}" by (auto simp: rep_counts_def)
  then show ?case using fixed_power[of "den (unicode_text e w) r" n "nat lb"] \<open>den (unicode_text e w) r \<subseteq> steps n\<close> by (auto simp: rep_spans_def)
next
  case (Intersect l r)
  then show ?case by (fastforce simp: le_infI1 le_infI2)
next
  case (Diff l r)
  then show ?case by auto
next
  case (Name ns nm d ext)
  then show ?case by (cases d) auto
next
  case (PropertyExpression k ident op v code d)
  then have "den (unicode_text e w) (PropertyExpression k ident op v code d) \<subseteq> steps (if k = Codepoint then 1 else 0)"
    using text_leaves(3,4)[OF assms] by (cases k) auto
  then show ?case by blast
next
  case (CC a s)
  have "den (unicode_text e w) (CC a s) \<subseteq> steps 1" using text_leaves(1)[OF assms] by simp
  then show ?case by blast
next
  case (Any a)
  have "den (unicode_text e w) (Any a) \<subseteq> steps 1" using text_leaves(2)[OF assms] by simp
  then show ?case by blast
next
  case (Group m r s)
  then show ?case by (auto simp: unicode_text_def text_sem_def)
next
  case (Range lo hi)
  then show ?case by (auto simp: unicode_text_def text_sem_def)
next
  case (Assertion r k s)
  have "den (unicode_text e w) (Assertion r k s) \<subseteq> steps 0" by (auto simp: look_spans_def)
  then show ?case by blast
next
  case Start
  have "den (unicode_text e w) Start \<subseteq> steps 0" by auto
  then show ?case by blast
next
  case End
  have "den (unicode_text e w) End \<subseteq> steps 0" by auto
  then show ?case by blast
qed auto

end
