(* ===== verification/RE_Pass.thy ===== *)
theory RE_Pass imports RE_Length RE_Sound begin

text \<open>
  Passes over expressions, each a subclass of \<open>RE_Transformer\<close>, that is, an update of its
  table: \<open>resolve_diffs.cpp\<close>, \<open>re_star_normal.cpp\<close>, \<open>remove_nullable.cpp\<close>,
  \<open>variable_alt_promotion.cpp\<close>, \<open>assertion_transformations.cpp\<close>,
  \<open>exclude_CC.cpp\<close> and the removal of captures of \<open>re_simplifier.cpp\<close>, all in
  \<open>lib/re/transforms\<close>. A method that returns an operand or a new expression returns another
  object, whence the flag.
\<close>

abbreviation base_class :: "(re \<Rightarrow> re \<Rightarrow> bool) \<Rightarrow> transformer" where
  "base_class \<equiv> RE_Transformer NoNameTransformation"

section \<open>Differences of classes\<close>

definition resolve_transformDiff :: "re \<Rightarrow> re \<Rightarrow> xres \<Rightarrow> xres \<Rightarrow> xres" where
  "resolve_transformDiff l r x y =
     (case (defCastCC l, defCastCC r) of
        (Some a, Some b) \<Rightarrow> if fst a = fst b then Some (of_cc (subtractCC a b), True) else Some (Diff l r, False)
      | _ \<Rightarrow> Some (Diff l r, False))"

definition DiffResolver :: "(re \<Rightarrow> re \<Rightarrow> bool) \<Rightarrow> transformer" where
  "DiffResolver same = base_class same\<lparr>transformDiff := resolve_transformDiff\<rparr>"

definition resolveDiffs :: "(re \<Rightarrow> re \<Rightarrow> bool) \<Rightarrow> re \<Rightarrow> re option" where
  "resolveDiffs same r = transformRE (DiffResolver same) r"

section \<open>Star normal form\<close>

fun star_items :: "re list \<Rightarrow> re list" where
  "star_items [] = []"
| "star_items (r # rs) =
     (case r of
        Rep x lb ub \<Rightarrow> if lb = 0 then x # star_items rs else star_items rs
      | _ \<Rightarrow> if isEmptySeq r then star_items rs else r # star_items rs)"

definition star_rule :: "re \<Rightarrow> xres" where
  "star_rule e =
     (case e of
        Seq rs \<Rightarrow> if isNullable e then changed (makeAlt (star_items rs)) else Some (e, False)
      | _ \<Rightarrow> Some (e, False))"

definition star_transformRep :: "re \<Rightarrow> int \<Rightarrow> int \<Rightarrow> xres \<Rightarrow> xres" where
  "star_transformRep r lb ub x =
     (case x of
        None \<Rightarrow> None
      | Some (e, ch) \<Rightarrow>
          (case (if lb = 0 \<and> ub = UNBOUNDED_REP then star_rule e else Some (e, False)) of
             None \<Rightarrow> None
           | Some (e', ch') \<Rightarrow> if \<not> ch \<and> \<not> ch' then Some (Rep r lb ub, False) else changed (makeRep e' lb ub)))"

definition RE_Star_Normal :: "(re \<Rightarrow> re \<Rightarrow> bool) \<Rightarrow> transformer" where
  "RE_Star_Normal same = base_class same\<lparr>transformRep := star_transformRep\<rparr>"

definition convertToStarNormalForm :: "(re \<Rightarrow> re \<Rightarrow> bool) \<Rightarrow> re \<Rightarrow> re option" where
  "convertToStarNormalForm same r = transformRE (RE_Star_Normal same) r"

section \<open>Nullable prefixes and suffixes\<close>

text \<open>The loop over the leading nullable elements: the first result that is not, with its flag, and
  the elements behind it. The code reads past the end if there is none (\<open>None\<close>).\<close>

fun skip_nullable :: "re list \<Rightarrow> xres list \<Rightarrow> (re \<times> bool \<times> re list) option" where
  "skip_nullable (r # rs) (x # xs) =
     (case x of
        None \<Rightarrow> None
      | Some (e, ch) \<Rightarrow> if isNullable e then skip_nullable rs xs else Some (e, ch, rs))"
| "skip_nullable rs xs = None"

definition prefix_transformSeq :: "re list \<Rightarrow> xres list \<Rightarrow> xres" where
  "prefix_transformSeq rs xs =
     (if isNullable (Seq rs) then Some (Seq rs, False)
      else case skip_nullable rs xs of
          None \<Rightarrow> None
        | Some (e, ch, rest) \<Rightarrow>
            if length rest + 1 = length rs \<and> \<not> ch then Some (Seq rs, False) else Some (makeSeq (e # rest), True))"

definition prefix_transformRep :: "re \<Rightarrow> int \<Rightarrow> int \<Rightarrow> xres \<Rightarrow> xres" where
  "prefix_transformRep r lb ub x =
     (if lb = 0 \<or> isNullable r then Some (makeSeq [], True)
      else case x of
          None \<Rightarrow> None
        | Some (s, ch) \<Rightarrow>
            if \<not> ch \<and> lb = ub then Some (Rep r lb ub, False)
            else if lb = 1 then Some (s, True)
            else if lb = 2 then Some (makeSeq [s, r], True)
            else map_option (\<lambda>t. (makeSeq [s, t], True)) (makeRep r (lb - 1) (lb - 1)))"

definition keep_Assertion :: "re \<Rightarrow> assertion_kind \<Rightarrow> assertion_sense \<Rightarrow> xres \<Rightarrow> xres" where
  "keep_Assertion r k s x = Some (Assertion r k s, False)"

definition NullablePrefixRemover :: "(re \<Rightarrow> re \<Rightarrow> bool) \<Rightarrow> transformer" where
  "NullablePrefixRemover same = base_class same\<lparr>
     transformSeq := prefix_transformSeq, transformRep := prefix_transformRep, transformAssertion := keep_Assertion\<rparr>"

definition removeNullablePrefix :: "(re \<Rightarrow> re \<Rightarrow> bool) \<Rightarrow> re \<Rightarrow> re option" where
  "removeNullablePrefix same r = transformRE (NullablePrefixRemover same) r"

definition suffix_transformSeq :: "re list \<Rightarrow> xres list \<Rightarrow> xres" where
  "suffix_transformSeq rs xs =
     (if isNullable (Seq rs) then Some (Seq rs, False)
      else case skip_nullable (rev rs) (rev xs) of
          None \<Rightarrow> None
        | Some (e, ch, rest) \<Rightarrow>
            if length rest + 1 = length rs \<and> \<not> ch then Some (Seq rs, False) else Some (makeSeq (rev rest @ [e]), True))"

definition suffix_transformRep :: "re \<Rightarrow> int \<Rightarrow> int \<Rightarrow> xres \<Rightarrow> xres" where
  "suffix_transformRep r lb ub x =
     (if lb = 0 \<or> isNullable r then Some (makeSeq [], True)
      else case x of
          None \<Rightarrow> None
        | Some (s, ch) \<Rightarrow>
            if \<not> ch \<and> lb = ub then Some (Rep r lb ub, False)
            else if lb = 1 then Some (s, True)
            else if lb = 2 then Some (makeSeq [r, s], True)
            else map_option (\<lambda>t. (makeSeq [t, s], True)) (makeRep r (lb - 1) (lb - 1)))"

definition NullableSuffixRemover :: "(re \<Rightarrow> re \<Rightarrow> bool) \<Rightarrow> transformer" where
  "NullableSuffixRemover same = base_class same\<lparr>
     transformSeq := suffix_transformSeq, transformRep := suffix_transformRep, transformAssertion := keep_Assertion\<rparr>"

definition removeNullableSuffix :: "(re \<Rightarrow> re \<Rightarrow> bool) \<Rightarrow> re \<Rightarrow> re option" where
  "removeNullableSuffix same r = transformRE (NullableSuffixRemover same) r"

section \<open>Zero bounds and empty matches\<close>

definition bound_transformRep :: "re \<Rightarrow> int \<Rightarrow> int \<Rightarrow> xres \<Rightarrow> xres" where
  "bound_transformRep r lb ub x =
     (if lb > 0 then Some (Rep r lb ub, False)
      else Option.bind (makeRep r 1 ub) (\<lambda>r'. changed (makeAlt [makeSeq [], r'])))"

definition ZeroBoundElimination :: "NameTransformationMode \<Rightarrow> (re \<Rightarrow> re \<Rightarrow> bool) \<Rightarrow> transformer" where
  "ZeroBoundElimination m same = RE_Transformer m same\<lparr>
     transformRep := bound_transformRep, transformAssertion := keep_Assertion\<rparr>"

definition zeroBoundElimination :: "NameTransformationMode \<Rightarrow> (re \<Rightarrow> re \<Rightarrow> bool) \<Rightarrow> re \<Rightarrow> re option" where
  "zeroBoundElimination m same r = transformRE (ZeroBoundElimination m same) r"

definition nonempty_transformName :: "string \<Rightarrow> string \<Rightarrow> re option \<Rightarrow> bool \<Rightarrow> xres \<Rightarrow> xres" where
  "nonempty_transformName ns nm d ext x =
     (if d = None then None
      else map_option (\<lambda>(e, ch). if ch then (e, True) else (Name ns nm d ext, False)) x)"

definition nonempty_transformRep :: "re \<Rightarrow> int \<Rightarrow> int \<Rightarrow> xres \<Rightarrow> xres" where
  "nonempty_transformRep r lb ub x =
     (case x of
        None \<Rightarrow> None
      | Some (s, ch) \<Rightarrow>
          if \<not> ch \<and> 1 \<le> lb then Some (Rep r lb ub, False)
          else if ub = 1 then Some (s, True)
          else changed (makeRep s (if lb = 0 then 1 else lb) ub))"

definition nonempty_transformAlt :: "re list \<Rightarrow> xres list \<Rightarrow> xres" where
  "nonempty_transformAlt rs xs =
     (case gather_elems xs of
        None \<Rightarrow> None
      | Some (es, any_changed) \<Rightarrow>
          let elems = filter (\<lambda>e. \<not> isEmptySet e) es in
          if \<not> any_changed then Some (Alt rs, False)
          else if length elems = 1 then Some (hd elems, True)
          else changed (makeAlt elems))"

text \<open>The loop over the elements, with those before the current one.\<close>

fun nonempty_alts :: "re list \<Rightarrow> re list \<Rightarrow> xres list \<Rightarrow> re list option" where
  "nonempty_alts before (r # rs) (x # xs) =
     (case x of
        None \<Rightarrow> None
      | Some (e, ch) \<Rightarrow>
          map_option (\<lambda>alts. if isEmptySet e then alts else makeSeq (before @ [e] @ rs) # alts)
            (nonempty_alts (before @ [r]) rs xs))"
| "nonempty_alts before rs xs = Some []"

definition nonempty_transformSeq :: "re list \<Rightarrow> xres list \<Rightarrow> xres" where
  "nonempty_transformSeq rs xs =
     (case getLengthRange Unicode (Seq rs) of
        None \<Rightarrow> None
      | Some (lo, hi) \<Rightarrow>
          if lo > 0 then Some (Seq rs, False)
          else if hi = 0 then changed (makeAlt [])
          else Option.bind (nonempty_alts [] rs xs)
                 (\<lambda>alts. if length alts = 1 then Some (hd alts, True) else changed (makeAlt alts)))"

definition RemoveEmptyTransformer :: "(re \<Rightarrow> re \<Rightarrow> bool) \<Rightarrow> transformer" where
  "RemoveEmptyTransformer same = base_class same\<lparr>
     transformName := nonempty_transformName, transformRep := nonempty_transformRep,
     transformAlt := nonempty_transformAlt, transformSeq := nonempty_transformSeq,
     transformAssertion := \<lambda>r k s x. changed (makeAlt []),
     transformStart := changed (makeAlt []), transformEnd := changed (makeAlt [])\<rparr>"

definition emptyMatchElimination :: "(re \<Rightarrow> re \<Rightarrow> bool) \<Rightarrow> re \<Rightarrow> re option" where
  "emptyMatchElimination same r = transformRE (RemoveEmptyTransformer same) r"

section \<open>Alternatives of fixed length\<close>

text \<open>\<open>fixedLengthAlts\<close> is a \<open>std::map\<close>: here the list of its entries in the order of
  the keys.\<close>

fun factor_insert :: "int \<Rightarrow> re \<Rightarrow> (int \<times> re list) list \<Rightarrow> (int \<times> re list) list" where
  "factor_insert k e [] = [(k, [e])]"
| "factor_insert k e ((k', es) # groups) =
     (if k = k' then (k', es @ [e]) # groups
      else if k < k' then (k, [e]) # (k', es) # groups
      else (k', es) # factor_insert k e groups)"

fun factor_alts :: "alphabet \<Rightarrow> re list \<Rightarrow> re list \<Rightarrow> (int \<times> re list) list \<Rightarrow>
    (re list \<times> (int \<times> re list) list) option" where
  "factor_alts idx [] newAlts groups = Some (newAlts, groups)"
| "factor_alts idx (e # es) newAlts groups =
     (case getLengthRange idx e of
        None \<Rightarrow> None
      | Some (lo, hi) \<Rightarrow>
          if lo = hi then factor_alts idx es newAlts (factor_insert lo e groups)
          else factor_alts idx es (newAlts @ [e]) groups)"

definition group_alt :: "re list \<Rightarrow> re option" where
  "group_alt es = (if length es = 1 then Some (hd es) else makeAlt es)"

definition LengthFactorAlts :: "alphabet \<Rightarrow> re list \<Rightarrow> re list option" where
  "LengthFactorAlts idx alts = do {
     (newAlts, groups) \<leftarrow> factor_alts idx alts [] [];
     fixed \<leftarrow> those (map (\<lambda>g. group_alt (snd g)) groups);
     Some (newAlts @ fixed)
   }"

definition distribute :: "re list \<Rightarrow> re \<Rightarrow> re list" where
  "distribute a1 AoS_tail =
     (case AoS_tail of
        Alt ts \<Rightarrow> concat (map (\<lambda>a. map (\<lambda>t. makeSeq [a, t]) ts) a1)
      | _ \<Rightarrow> map (\<lambda>a. makeSeq [a, AoS_tail]) a1)"

fun SeqOfAlt2AltOfSeq :: "re list list \<Rightarrow> re option" where
  "SeqOfAlt2AltOfSeq [] = Some (makeSeq [])"
| "SeqOfAlt2AltOfSeq (a1 # SofA) =
     (case SeqOfAlt2AltOfSeq SofA of
        None \<Rightarrow> None
      | Some AoS_tail \<Rightarrow> group_alt (distribute a1 AoS_tail))"

definition alternatives :: "alphabet \<Rightarrow> re \<Rightarrow> re list option" where
  "alternatives idx e = (case e of Alt alts \<Rightarrow> LengthFactorAlts idx alts | _ \<Rightarrow> Some [e])"

definition promote_transformSeq :: "alphabet \<Rightarrow> re list \<Rightarrow> xres list \<Rightarrow> xres" where
  "promote_transformSeq idx rs xs =
     Option.bind (those (map (alternatives idx) rs)) (\<lambda>altGroups. changed (SeqOfAlt2AltOfSeq altGroups))"

definition VariableAltPromotor :: "alphabet \<Rightarrow> (re \<Rightarrow> re \<Rightarrow> bool) \<Rightarrow> transformer" where
  "VariableAltPromotor idx same = base_class same\<lparr>transformSeq := promote_transformSeq idx\<rparr>"

definition variableAltPromotion :: "alphabet \<Rightarrow> (re \<Rightarrow> re \<Rightarrow> bool) \<Rightarrow> re \<Rightarrow> re option" where
  "variableAltPromotion idx same r = transformRE (VariableAltPromotor idx same) r"

section \<open>Lookahead at the end\<close>

definition last_transformSeq :: "re list \<Rightarrow> xres list \<Rightarrow> xres" where
  "last_transformSeq rs xs =
     (if rs = [] then Some (Seq rs, False)
      else map_option (\<lambda>(t, ch). if \<not> ch then (Seq rs, False) else (makeSeq (butlast rs @ [t]), True)) (last xs))"

definition promote_transformAssertion :: "re \<Rightarrow> assertion_kind \<Rightarrow> assertion_sense \<Rightarrow> xres \<Rightarrow> xres" where
  "promote_transformAssertion r k s x =
     (if k = LookAhead \<and> s = Positive then map_option (\<lambda>(t, ch). (t, True)) x
      else Some (Assertion r k s, False))"

definition FinalLookaheadPromotion :: "(re \<Rightarrow> re \<Rightarrow> bool) \<Rightarrow> transformer" where
  "FinalLookaheadPromotion same = base_class same\<lparr>
     transformSeq := last_transformSeq,
     transformDiff := \<lambda>l r x y. Some (Diff l r, False),
     transformRep := \<lambda>r lb ub x. Some (Rep r lb ub, False),
     transformAssertion := promote_transformAssertion\<rparr>"

definition lookaheadPromotion :: "(re \<Rightarrow> re \<Rightarrow> bool) \<Rightarrow> re \<Rightarrow> re option" where
  "lookaheadPromotion same r = transformRE (FinalLookaheadPromotion same) r"

section \<open>Captures without references\<close>

text \<open>\<open>ReferenceCollector\<close>: the names of the references that \<open>RE_Inspector\<close> visits. It
  does not enter names, property expressions and references. That it skips what its set of visited
  expressions holds already does not matter, as expressions of equal keys have equal references.\<close>

fun inspect_references :: "re \<Rightarrow> string list" where
  "inspect_references (Alt rs) = concat (map inspect_references rs)"
| "inspect_references (Seq rs) = concat (map inspect_references rs)"
| "inspect_references (Permute rs) = concat (map inspect_references rs)"
| "inspect_references (Assertion r k s) = inspect_references r"
| "inspect_references (Range lo hi) = inspect_references lo @ inspect_references hi"
| "inspect_references (Diff l r) = inspect_references l @ inspect_references r"
| "inspect_references (Intersect l r) = inspect_references l @ inspect_references r"
| "inspect_references (Capture nm r) = inspect_references r"
| "inspect_references (Group m r s) = inspect_references r"
| "inspect_references (Rep r lb ub) = inspect_references r"
| "inspect_references (Reference nm r n p) = [nm]"
| "inspect_references _ = []"

definition unneeded_transformCapture :: "string list \<Rightarrow> string \<Rightarrow> re \<Rightarrow> xres \<Rightarrow> xres" where
  "unneeded_transformCapture refs nm r x =
     map_option (\<lambda>(t, ch).
       if nm \<notin> set refs then (t, True) else if ch then (Capture nm t, True) else (Capture nm r, False)) x"

definition UnneededCaptureRemoval :: "string list \<Rightarrow> (re \<Rightarrow> re \<Rightarrow> bool) \<Rightarrow> transformer" where
  "UnneededCaptureRemoval refs same = base_class same\<lparr>transformCapture := unneeded_transformCapture refs\<rparr>"

definition removeUnneededCaptures :: "(re \<Rightarrow> re \<Rightarrow> bool) \<Rightarrow> re \<Rightarrow> re option" where
  "removeUnneededCaptures same r = transformRE (UnneededCaptureRemoval (inspect_references r) same) r"

section \<open>Excluding a class\<close>

definition exclude_transformCC :: "cc_re \<Rightarrow> alphabet \<Rightarrow> unicode_set \<Rightarrow> xres" where
  "exclude_transformCC excluded a s =
     (if a \<noteq> fst excluded then Some (CC a s, False)
      else if subset s (snd excluded) then changed (makeAlt [])
      else if intersects (snd excluded) s then Some (of_cc (subtractCC (a, s) excluded), True)
      else Some (CC a s, False))"

definition exclude_transformName :: "(re \<Rightarrow> re \<Rightarrow> bool) \<Rightarrow> cc_re \<Rightarrow>
    string \<Rightarrow> string \<Rightarrow> re option \<Rightarrow> bool \<Rightarrow> xres \<Rightarrow> xres" where
  "exclude_transformName same excluded ns nm d ext x =
     (case d of
        None \<Rightarrow> changed (makeDiff same (Name ns nm d ext) (of_cc excluded))
      | Some (Any a) \<Rightarrow> changed (makeDiff same (Name ns nm d ext) (of_cc excluded))
      | Some defn \<Rightarrow> map_option (\<lambda>(t, ch). if ch then (t, True) else (Name ns nm d ext, False)) x)"

definition exclude_transformPropertyExpression ::
    "property_kind \<Rightarrow> string \<Rightarrow> property_operator \<Rightarrow> string \<Rightarrow> int \<Rightarrow> re option \<Rightarrow> xres \<Rightarrow> xres" where
  "exclude_transformPropertyExpression k ident op v code d x =
     (if d = None then Some (PropertyExpression k ident op v code d, False)
      else map_option (\<lambda>(t, ch). if ch then (t, True) else (PropertyExpression k ident op v code d, False)) x)"

definition exclude_transformAssertion :: "bool \<Rightarrow> re \<Rightarrow> assertion_kind \<Rightarrow> assertion_sense \<Rightarrow> xres \<Rightarrow> xres" where
  "exclude_transformAssertion processAsserted r k s x =
     (if \<not> processAsserted then Some (Assertion r k s, False)
      else map_option (\<lambda>(t, ch). if ch then (makeAssertion t k s, True) else (Assertion r k s, False)) x)"

definition CC_Remover :: "cc_re \<Rightarrow> bool \<Rightarrow> (re \<Rightarrow> re \<Rightarrow> bool) \<Rightarrow> transformer" where
  "CC_Remover excluded processAsserted same = base_class same\<lparr>
     transformCC := exclude_transformCC excluded,
     transformAny := \<lambda>a. changed (makeDiff same (Any a) (of_cc excluded)),
     transformName := exclude_transformName same excluded,
     transformPropertyExpression := exclude_transformPropertyExpression,
     transformAssertion := exclude_transformAssertion processAsserted\<rparr>"

definition exclude_CC :: "cc_re \<Rightarrow> bool \<Rightarrow> (re \<Rightarrow> re \<Rightarrow> bool) \<Rightarrow> re \<Rightarrow> re option" where
  "exclude_CC excluded processAsserted same r = transformRE (CC_Remover excluded processAsserted same) r"

end
