(* ===== verification/RE_Pass_Sound.thy ===== *)
theory RE_Pass_Sound imports RE_Pass begin

text \<open>
  The passes that keep the spans of every expression: a pass is right when each of its methods is
  right on the results for the operands, and the methods it inherits are.
\<close>

section \<open>Proofs by the methods of a node\<close>

text \<open>The operands that the dispatch hands to the methods, and one step of the dispatch.\<close>

fun parts :: "re \<Rightarrow> re list" where
  "parts (Alt rs) = rs"
| "parts (Assertion r k s) = [r]"
| "parts (Range lo hi) = [lo, hi]"
| "parts (Diff l r) = [l, r]"
| "parts (Intersect l r) = [l, r]"
| "parts (Name ns nm d ext) = (case d of None \<Rightarrow> [] | Some r \<Rightarrow> [r])"
| "parts (PropertyExpression k ident op v code d) = (case d of None \<Rightarrow> [] | Some r \<Rightarrow> [r])"
| "parts (Capture nm r) = [r]"
| "parts (Group m r s) = [r]"
| "parts (Rep r lb ub) = [r]"
| "parts (Seq rs) = rs"
| "parts (Permute rs) = rs"
| "parts _ = []"

lemma parts_size: "p \<in> set (parts r) \<Longrightarrow> size p < size r"
proof -
  have list: "p \<in> set rs \<Longrightarrow> size p < Suc (size_list size rs)" for rs
    by (simp add: less_Suc_eq_le size_list_estimation')
  show "p \<in> set (parts r) \<Longrightarrow> size p < size r"
    by (cases r) (auto split: option.splits dest: list)
qed

fun visit :: "transformer \<Rightarrow> (re \<Rightarrow> xres) \<Rightarrow> re \<Rightarrow> xres" where
  "visit T f (Alt rs) = transformAlt T rs (map f rs)"
| "visit T f (Any a) = transformAny T a"
| "visit T f (Assertion r k s) = transformAssertion T r k s (f r)"
| "visit T f (CC a s) = transformCC T a s"
| "visit T f (Range lo hi) = transformRange T lo hi (f lo) (f hi)"
| "visit T f (Diff l r) = transformDiff T l r (f l) (f r)"
| "visit T f End = transformEnd T"
| "visit T f (Intersect l r) = transformIntersect T l r (f l) (f r)"
| "visit T f (Name ns nm d ext) = transformName T ns nm d ext (Option.bind d f)"
| "visit T f (PropertyExpression k ident op v code d) =
     transformPropertyExpression T k ident op v code d (Option.bind d f)"
| "visit T f (Capture nm r) = transformCapture T nm r (f r)"
| "visit T f (Reference nm r n p) = transformReference T nm r n p"
| "visit T f (Group m r s) = transformGroup T m r s (f r)"
| "visit T f (Rep r lb ub) = transformRep T r lb ub (f r)"
| "visit T f (Seq rs) = transformSeq T rs (map f rs)"
| "visit T f Start = transformStart T"
| "visit T f (Permute rs) = transformPermute T rs (map f rs)"

lemma transform_visit: "transform T r = visit T (transform T) r"
  by (cases "(T, r)" rule: transform.cases) simp_all

text \<open>\<open>src\<close> is the class of expressions, closed under operands, and \<open>ok\<close> relates one
  of them to the result of the pass.\<close>

locale pass =
  fixes src :: "re \<Rightarrow> bool" and ok :: "re \<Rightarrow> xres \<Rightarrow> bool" and T :: transformer
  assumes operand: "src r \<Longrightarrow> p \<in> set (parts r) \<Longrightarrow> src p"
    and node: "src r \<Longrightarrow> (\<And>p. p \<in> set (parts r) \<Longrightarrow> ok p (transform T p)) \<Longrightarrow> ok r (visit T (transform T) r)"
begin

theorem transform_ok: "src r \<Longrightarrow> ok r (transform T r)"
proof (induction r rule: measure_induct_rule[of size])
  case (less r)
  have "ok p (transform T p)" if "p \<in> set (parts r)" for p
    using less.IH[OF parts_size[OF that] operand[OF less.prems that]] .
  from node[OF less.prems this] show ?case by (simp flip: transform_visit)
qed

end

section \<open>Inherited methods\<close>

text \<open>What a node needs besides its operands to be plain.\<close>

fun plain_node :: "re \<Rightarrow> bool" where
  "plain_node (Alt rs) = (rs \<noteq> [])"
| "plain_node (Assertion r k s) = (s = Positive)"
| "plain_node (CC a s) = (uset_ok s \<and> codepoints s \<noteq> {})"
| "plain_node (Range lo hi) = False"
| "plain_node (Diff l r) = False"
| "plain_node (Intersect l r) = False"
| "plain_node (Name ns nm d ext) = (case d of None \<Rightarrow> True | Some x \<Rightarrow> plain x)"
| "plain_node (PropertyExpression k ident op v code d) = (case d of None \<Rightarrow> True | Some x \<Rightarrow> plain x)"
| "plain_node (Reference nm r n p) = plain r"
| "plain_node (Rep r lb ub) = basic_bounds lb ub"
| "plain_node r = True"

lemma plain_parts: "plain r \<longleftrightarrow> plain_node r \<and> (\<forall>p \<in> set (parts r). plain p)"
  by (cases r) (auto split: option.splits)

definition groups_respect :: "(spans \<Rightarrow> spans \<Rightarrow> bool) \<Rightarrow> sem \<Rightarrow> bool" where
  "groups_respect sim c \<longleftrightarrow> (\<forall>m s R S. sim R S \<longrightarrow> sim (group_spans c m s R) (group_spans c m s S))"

lemma groups_respect_eq [simp]: "groups_respect (=) c"
  by (simp add: groups_respect_def)

text \<open>The nodes whose spans are not composed of those of several operands.\<close>

fun composite :: "re \<Rightarrow> bool" where
  "composite (Seq rs) = True"
| "composite (Rep r lb ub) = True"
| "composite (Assertion r k s) = True"
| "composite (Permute rs) = True"
| "composite r = False"

context span_union begin

lemma base_visit_union:
  assumes refl: "\<And>R. sim R R" and "groups_respect sim c" "plain_node r" "\<not> composite r"
    and operands: "\<And>p. p \<in> set (parts r) \<Longrightarrow> xok sim c c p (f p)"
  shows "xok sim c c r (visit (base_class same) f r)"
proof (cases r)
  case (Alt rs)
  then have "list_all2 (xok sim c c) rs (map f rs)" using operands by (simp add: list_all2_map2 list_all2_same)
  then show ?thesis using base_alt[of rs c c "map f rs"] assms(3) Alt by simp
next
  case (PropertyExpression k ident op v code d)
  then show ?thesis using assms(3) operands refl
    by (cases d) (auto simp: base_transformPropertyExpression_def xok_def)
next
  case (Name ns nm d ext)
  then show ?thesis using assms(3) refl base_name by (cases d) simp_all
next
  case (Group m x s)
  then show ?thesis using assms(2) operands base_group[of c c x "f x" m s] by (simp add: groups_respect_def)
next
  case (Capture nm x)
  then show ?thesis using operands base_capture[of c c x "f x" nm] by simp
qed (use assms in \<open>simp_all\<close>)

end

context span_relation begin

lemma base_visit:
  assumes refl: "\<And>R. sim R R" and "groups_respect sim c" "plain_node r"
    and operands: "\<And>p. p \<in> set (parts r) \<Longrightarrow> xok sim c c p (f p)"
  shows "xok sim c c r (visit (base_class same) f r)"
proof (cases "composite r")
  case True
  have list: "list_all2 (xok sim c c) rs (map f rs)" if "parts r = rs" for rs
    using operands that by (simp add: list_all2_map2 list_all2_same)
  show ?thesis
  proof (cases r)
    case (Seq rs)
    then show ?thesis using base_seq list by simp
  next
    case (Permute rs)
    then show ?thesis using base_permute list by simp
  next
    case (Rep x lb ub)
    then show ?thesis using base_rep[of lb ub c c x "f x"] assms(3) operands by simp
  next
    case (Assertion x k s)
    then show ?thesis using base_assertion[of s c c x "f x" k] assms(3) operands by simp
  qed (use True in simp_all)
next
  case False
  then show ?thesis using base_visit_union[OF refl assms(2,3)] operands by blast
qed

end

lemmas same_visit = same_spans.base_visit[OF refl groups_respect_eq]

abbreviation keeps :: "sem \<Rightarrow> re \<Rightarrow> xres \<Rightarrow> bool" where
  "keeps c \<equiv> xok (=) c c"

text \<open>A pass with its own method for one kind of node.\<close>

lemma keeps_result:
  "keeps c r (transform T r) \<Longrightarrow> \<exists>r'. transformRE T r = Some r' \<and> plain r' \<and> den c r' = den c r"
  by (auto simp: xok_def transformRE_def)

section \<open>Differences\<close>

text \<open>Plain expressions, and differences of classes that leave some symbol.\<close>

fun resolvable :: "re \<Rightarrow> bool" where
  "resolvable (Diff l r) = (plain l \<and> plain r \<and>
     (case (defCastCC l, defCastCC r) of
        (Some a, Some b) \<Rightarrow> fst a = fst b \<and> \<not> codepoints (snd a) \<subseteq> codepoints (snd b)
      | _ \<Rightarrow> False))"
| "resolvable (Alt rs) = (rs \<noteq> [] \<and> (\<forall>r \<in> set rs. resolvable r))"
| "resolvable (Seq rs) = (\<forall>r \<in> set rs. resolvable r)"
| "resolvable (Permute rs) = (\<forall>r \<in> set rs. resolvable r)"
| "resolvable (Rep r lb ub) = (resolvable r \<and> basic_bounds lb ub)"
| "resolvable (Assertion r k s) = (resolvable r \<and> s = Positive)"
| "resolvable (Capture nm r) = resolvable r"
| "resolvable (Group m r s) = resolvable r"
| "resolvable r = plain r"

lemma plain_resolvable: "plain r \<Longrightarrow> resolvable r"
  by (induction r) auto

lemma resolve_spec:
  assumes "sem_ok c" "resolvable (Diff l r)"
  shows "keeps c (Diff l r) (resolve_transformDiff l r x y)"
proof -
  obtain u v where "defCastCC l = Some u" "defCastCC r = Some v" "fst u = fst v"
      "\<not> codepoints (snd u) \<subseteq> codepoints (snd v)"
    using assms(2) unfolding resolvable.simps by (cases "defCastCC l"; cases "defCastCC r") simp_all
  then obtain a s t where cc: "defCastCC l = Some (a, s)" "defCastCC r = Some (a, t)" "\<not> codepoints s \<subseteq> codepoints t"
    by (cases u; cases v) simp
  have ok: "re_ok l" "re_ok r" using assms(2) plain_re_ok by simp_all
  note dens = defCastCC_den[OF ok(1) cc(1), of c] defCastCC_den[OF ok(2) cc(2), of c]
  have diff: "uset_ok (snd (subtractCC (a, s) (a, t)))" "fst (subtractCC (a, s) (a, t)) = a"
    "codepoints (snd (subtractCC (a, s) (a, t))) = codepoints s - codepoints t"
    using subtractCC_spec[of "(a, s)" "(a, t)"] dens by simp_all
  have "resolve_transformDiff l r x y = Some (of_cc (subtractCC (a, s) (a, t)), True)"
    by (simp add: resolve_transformDiff_def cc)
  then show ?thesis using diff dens cc(3) by (auto simp: of_cc_def cc_spans_diff[OF assms(1)])
qed

lemma resolvable_parts: "resolvable r \<Longrightarrow> p \<in> set (parts r) \<Longrightarrow> resolvable p"
  by (cases r) (auto split: option.splits intro: plain_resolvable)

lemma resolvable_node: "resolvable r \<Longrightarrow> (\<And>a b. r \<noteq> Diff a b) \<Longrightarrow> plain_node r"
  by (cases r) (auto split: option.splits)

interpretation diff_resolver: pass "\<lambda>r. sem_ok c \<and> resolvable r" "keeps c" "DiffResolver same"
proof unfold_locales
  fix r
  assume src: "sem_ok c \<and> resolvable r"
  assume ops: "\<And>p. p \<in> set (parts r) \<Longrightarrow> keeps c p (transform (DiffResolver same) p)"
  show "keeps c r (visit (DiffResolver same) (transform (DiffResolver same)) r)"
  proof (cases "\<exists>a b. r = Diff a b")
    case True
    then obtain a b where r: "r = Diff a b" by blast
    from resolve_spec[of c a b] src show ?thesis by (simp add: r DiffResolver_def)
  next
    case False
    then have "keeps c r (visit (base_class same) (transform (DiffResolver same)) r)"
      using same_visit[of r c "transform (DiffResolver same)"] resolvable_node src ops by blast
    then show ?thesis using False by (cases r) (simp_all add: DiffResolver_def)
  qed
qed (use resolvable_parts in blast)

lemma resolveDiffs_spec:
  "sem_ok c \<Longrightarrow> resolvable r \<Longrightarrow> \<exists>r'. resolveDiffs same r = Some r' \<and> plain r' \<and> den c r' = den c r"
  unfolding resolveDiffs_def using diff_resolver.transform_ok[of c r same] by (blast intro: keeps_result)

section \<open>Zero bounds\<close>

lemma rep_counts_zero: "ub = 1 \<or> ub = -1 \<Longrightarrow> rep_counts 0 ub = {0} \<union> rep_counts 1 ub"
  by (auto simp: rep_counts_iff)

lemma bound_spec:
  assumes "plain (Rep r lb ub)"
  shows "keeps c (Rep r lb ub) (bound_transformRep r lb ub x)"
proof (cases "lb > 0")
  case False
  have b: "lb = 0" "ub = 1 \<or> ub = -1" and r: "plain r" using assms False by (auto simp: basic_bounds_def)
  then have "basic_bounds 1 ub" by (simp add: basic_bounds_def)
  from plain_makeRep[OF r this] obtain r' where r': "makeRep r 1 ub = Some r'" "plain r'"
    "den c r' = rep_spans (den c r) (rep_counts 1 ub)" by blast
  have e: "\<forall>r \<in> set [makeSeq [], r']. plain r" "den c (makeSeq []) = Id" using r'(2) by (simp_all add: makeSeq_def)
  from plain_makeAlt[OF e(1)] obtain r'' where r'': "makeAlt [makeSeq [], r'] = Some r''" "plain r''"
    "den c r'' = (\<Union>r \<in> set [makeSeq [], r']. den c r)" by blast
  have "den c (Rep r lb ub) = Id \<union> rep_spans (den c r) (rep_counts 1 ub)"
    unfolding den.simps b(1) rep_counts_zero[OF b(2)] rep_spans_simps ..
  also have "\<dots> = den c r''" unfolding r''(3) using e(2) r'(3) by simp
  finally show ?thesis using r' r'' b by (simp add: bound_transformRep_def)
qed (use assms in \<open>simp add: bound_transformRep_def\<close>)

lemma plain_operand: "plain r \<Longrightarrow> p \<in> set (parts r) \<Longrightarrow> plain p"
  and plain_nodeD: "plain r \<Longrightarrow> plain_node r"
  using plain_parts[of r] by blast+

lemma zero_bound_node:
  assumes "plain r" "\<And>p. p \<in> set (parts r) \<Longrightarrow> keeps c p (f p)"
  shows "keeps c r (visit (ZeroBoundElimination NoNameTransformation same) f r)"
proof -
  have base: "keeps c r (visit (base_class same) f r)"
    using same_visit[OF plain_nodeD[OF assms(1)]] assms(2) by blast
  show ?thesis
  proof (cases r)
    case (Rep x lb ub)
    then show ?thesis using bound_spec assms(1) by (simp add: ZeroBoundElimination_def)
  next
    case (Assertion x k s)
    then show ?thesis using assms(1) by (simp add: ZeroBoundElimination_def keep_Assertion_def)
  qed (use base in \<open>simp_all add: ZeroBoundElimination_def\<close>)
qed

interpretation zero_bound: pass plain "keeps c" "ZeroBoundElimination NoNameTransformation same"
proof unfold_locales
  show "keeps c r (visit (ZeroBoundElimination NoNameTransformation same) (transform (ZeroBoundElimination NoNameTransformation same)) r)"
    if "plain r" "\<And>p. p \<in> set (parts r) \<Longrightarrow> keeps c p (transform (ZeroBoundElimination NoNameTransformation same) p)" for r
    by (rule zero_bound_node[of r c "transform (ZeroBoundElimination NoNameTransformation same)" same, OF that])
qed (rule plain_operand)

lemma zeroBoundElimination_spec:
  "plain r \<Longrightarrow> \<exists>r'. zeroBoundElimination NoNameTransformation same r = Some r' \<and> plain r' \<and> den c r' = den c r"
  unfolding zeroBoundElimination_def using zero_bound.transform_ok[of r c same] by (blast intro: keeps_result)

section \<open>Captures\<close>

lemma unneeded_node:
  assumes "plain r" "\<And>p. p \<in> set (parts r) \<Longrightarrow> keeps c p (f p)"
  shows "keeps c r (visit (UnneededCaptureRemoval refs same) f r)"
proof -
  have base: "keeps c r (visit (base_class same) f r)"
    using same_visit[OF plain_nodeD[OF assms(1)]] assms(2) by blast
  show ?thesis
  proof (cases r)
    case (Capture nm x)
    then have "keeps c x (f x)" using assms(2) by simp
    then obtain x' ch where "f x = Some (x', ch)" "plain x'" "den c x' = den c x" "\<not> ch \<longrightarrow> x' = x"
      by (auto simp: xok_def)
    then show ?thesis
      by (cases "nm \<in> set refs"; cases ch) (simp_all add: Capture UnneededCaptureRemoval_def unneeded_transformCapture_def)
  qed (use base in \<open>simp_all add: UnneededCaptureRemoval_def\<close>)
qed

interpretation unneeded: pass plain "keeps c" "UnneededCaptureRemoval refs same"
proof unfold_locales
  show "keeps c r (visit (UnneededCaptureRemoval refs same) (transform (UnneededCaptureRemoval refs same)) r)"
    if "plain r" "\<And>p. p \<in> set (parts r) \<Longrightarrow> keeps c p (transform (UnneededCaptureRemoval refs same) p)" for r
    by (rule unneeded_node[of r c "transform (UnneededCaptureRemoval refs same)" refs same, OF that])
qed (rule plain_operand)

lemma removeUnneededCaptures_spec:
  "plain r \<Longrightarrow> \<exists>r'. removeUnneededCaptures same r = Some r' \<and> plain r' \<and> den c r' = den c r"
  unfolding removeUnneededCaptures_def using unneeded.transform_ok[of r c] by (blast intro: keeps_result)

section \<open>Star normal form\<close>

text \<open>What \<open>star_rule\<close> needs of a nullable sequence: it drops the repetitions with a positive
  lower bound, and if nothing is left its result is the empty set.\<close>

definition star_safe :: "re list \<Rightarrow> bool" where
  "star_safe rs \<longleftrightarrow> star_items rs \<noteq> [] \<and> (\<forall>r \<in> set rs. case r of Rep x lb ub \<Rightarrow> lb = 0 | _ \<Rightarrow> True)"

lemma star_items_plain: "\<forall>r \<in> set rs. plain r \<Longrightarrow> \<forall>r \<in> set (star_items rs). plain r"
  by (induction rs) (auto split: re.split)

lemma star_item_cases:
  assumes "\<forall>r \<in> set rs. case r of Rep x lb ub \<Rightarrow> lb = 0 | _ \<Rightarrow> True" "\<forall>r \<in> set rs. plain r"
  shows "e \<in> set (star_items rs) \<Longrightarrow> \<exists>r \<in> set rs. den c e \<subseteq> den c r"
    "r \<in> set rs \<Longrightarrow> den c r \<subseteq> (\<Union>e \<in> set (star_items rs). den c e)\<^sup>*"
proof -
  have unit: "1 \<in> rep_counts 0 ub" if "basic_bounds 0 ub" for ub
    using that by (auto simp: basic_bounds_def rep_counts_iff)
  have powers: "rep_spans R N \<subseteq> R\<^sup>*" for R :: spans and N by (auto simp: rep_spans_def relpow_imp_rtrancl)
  show "e \<in> set (star_items rs) \<Longrightarrow> \<exists>r \<in> set rs. den c e \<subseteq> den c r" using assms
  proof (induction rs)
    case (Cons r rs)
    show ?case
    proof (cases "\<exists>x lb ub. r = Rep x lb ub")
      case True
      then obtain x ub where r: "r = Rep x 0 ub" using Cons.prems(2) by auto
      have "den c x \<subseteq> den c r" using unit[of ub] Cons.prems(3) by (auto simp: r rep_spans_def intro!: bexI[of _ 1])
      then show ?thesis using Cons r by auto
    next
      case False
      then have "e = r \<or> e \<in> set (star_items rs)" using Cons.prems(1) by (cases r) (auto split: if_splits)
      then show ?thesis using Cons by auto
    qed
  qed simp
  show "r \<in> set rs \<Longrightarrow> den c r \<subseteq> (\<Union>e \<in> set (star_items rs). den c e)\<^sup>*" using assms
  proof (induction rs)
    case (Cons r' rs)
    have mono: "(\<Union>e \<in> set (star_items rs). den c e)\<^sup>* \<subseteq> (\<Union>e \<in> set (star_items (r' # rs)). den c e)\<^sup>*"
      by (rule rtrancl_mono) (auto split: re.split)
    have "den c r' \<subseteq> (\<Union>e \<in> set (star_items (r' # rs)). den c e)\<^sup>*"
    proof (cases "\<exists>x lb ub. r' = Rep x lb ub")
      case True
      then obtain x ub where r: "r' = Rep x 0 ub" using Cons.prems(2) by auto
      have "(den c x)\<^sup>* \<subseteq> (\<Union>e \<in> set (star_items (r' # rs)). den c e)\<^sup>*" by (rule rtrancl_mono) (auto simp: r)
      then show ?thesis using powers[of "den c x"] by (auto simp: r)
    next
      case False
      show ?thesis
      proof (cases "isEmptySeq r'")
        case True
        then show ?thesis by (auto dest!: isEmptySeqD)
      next
        case no: False
        with False have "r' \<in> set (star_items (r' # rs))" by (cases r') auto
        then show ?thesis by blast
      qed
    qed
    moreover have "den c r \<subseteq> (\<Union>e \<in> set (star_items rs). den c e)\<^sup>*" if "r \<in> set rs"
      using Cons.IH[OF that] Cons.prems by simp
    ultimately show ?case using Cons.prems(1) mono by (metis order_trans set_ConsD)
  qed simp
qed

lemma rep_spans_star: "rep_spans R (rep_counts 0 (-1)) = R\<^sup>*"
  by (auto simp: rep_spans_def rep_counts_iff rtrancl_is_UN_relpow)

lemma star_of_sequence:
  assumes "groups_keep_empty c" "isNullable (Seq rs)" "star_safe rs" "\<forall>r \<in> set rs. plain r"
  shows "(\<Union>e \<in> set (star_items rs). den c e)\<^sup>* = (den c (Seq rs))\<^sup>*"
proof -
  have ids: "Id \<subseteq> den c r" if "r \<in> set rs" for r
    using isNullable_sound[OF assms(1) plain_re_ok, of r] assms(2,4) that by simp
  have item: "den c r \<subseteq> den c (Seq rs)" if "r \<in> set rs" for r
  proof -
    obtain us vs where rs: "rs = us @ r # vs" using \<open>r \<in> set rs\<close> by (auto dest: split_list)
    have "Id \<subseteq> seq_spans (map (den c) us)" "Id \<subseteq> seq_spans (map (den c) vs)"
      using ids[unfolded rs] by (force intro!: seq_spans_Id)+
    then have "Id O (den c r O Id) \<subseteq> seq_spans (map (den c) us) O (den c r O seq_spans (map (den c) vs))"
      by (intro relcomp_mono order_refl)
    then show ?thesis by (simp add: rs)
  qed
  have safe: "\<forall>r \<in> set rs. case r of Rep x lb ub \<Rightarrow> lb = 0 | _ \<Rightarrow> True" using assms(3) by (simp add: star_safe_def)
  note items = star_item_cases[OF safe assms(4), of _ c]
  have "seq_spans Rs \<subseteq> Q\<^sup>*" if "\<forall>R \<in> set Rs. R \<subseteq> Q\<^sup>*" for Rs and Q :: spans
    using that by (induction Rs) (auto intro: rtrancl_trans)
  from this[of "map (den c) rs" "\<Union>e \<in> set (star_items rs). den c e"]
  have "den c (Seq rs) \<subseteq> (\<Union>e \<in> set (star_items rs). den c e)\<^sup>*" using items(2) by simp
  moreover have "(\<Union>e \<in> set (star_items rs). den c e) \<subseteq> den c (Seq rs)" using items(1) item by blast
  ultimately show ?thesis by (rule rtrancl_subset[symmetric, rotated])
qed

lemma plain_star_rule:
  assumes "groups_keep_empty c" "plain e" "case e of Seq rs \<Rightarrow> isNullable e \<longrightarrow> star_safe rs | _ \<Rightarrow> True"
  shows "\<exists>e' ch. star_rule e = Some (e', ch) \<and> plain e' \<and> (den c e')\<^sup>* = (den c e)\<^sup>* \<and> (\<not> ch \<longrightarrow> e' = e)"
proof (cases "\<exists>rs. e = Seq rs \<and> isNullable e")
  case True
  then obtain rs where rs: "e = Seq rs" "isNullable (Seq rs)" by blast
  then have plain: "\<forall>r \<in> set rs. plain r" and safe: "star_safe rs" using assms(2,3) by simp_all
  from plain_makeAlt[OF star_items_plain[OF plain]] safe obtain e' where e': "makeAlt (star_items rs) = Some e'" "plain e'"
    "den c e' = (\<Union>r \<in> set (star_items rs). den c r)" by (auto simp: star_safe_def)
  have "star_rule e = Some (e', True)" using rs e'(1) by (simp add: star_rule_def)
  moreover have "(den c e')\<^sup>* = (den c e)\<^sup>*" using star_of_sequence[OF assms(1) rs(2) safe plain] by (simp only: e'(3) rs(1))
  ultimately show ?thesis using e'(2) by blast
next
  case False
  then have "star_rule e = Some (e, False)" by (cases e) (auto simp: star_rule_def)
  then show ?thesis using assms(2) by (intro exI[of _ e] exI[of _ False]) simp
qed

text \<open>Every starred sequence that the pass meets is safe.\<close>

fun star_lossless :: "(re \<Rightarrow> re \<Rightarrow> bool) \<Rightarrow> re \<Rightarrow> bool" where
  "star_lossless same (Rep r lb ub) = (star_lossless same r \<and>
     (case transform (RE_Star_Normal same) r of
        Some (Seq rs, ch) \<Rightarrow> lb = 0 \<and> ub = -1 \<and> isNullable (Seq rs) \<longrightarrow> star_safe rs
      | _ \<Rightarrow> True))"
| "star_lossless same (Alt rs) = (\<forall>r \<in> set rs. star_lossless same r)"
| "star_lossless same (Seq rs) = (\<forall>r \<in> set rs. star_lossless same r)"
| "star_lossless same (Permute rs) = (\<forall>r \<in> set rs. star_lossless same r)"
| "star_lossless same (Assertion r k s) = star_lossless same r"
| "star_lossless same (Capture nm r) = star_lossless same r"
| "star_lossless same (Group m r s) = star_lossless same r"
| "star_lossless same (Name ns nm d ext) = (case d of None \<Rightarrow> True | Some r \<Rightarrow> star_lossless same r)"
| "star_lossless same (PropertyExpression k ident op v code d) = (case d of None \<Rightarrow> True | Some r \<Rightarrow> star_lossless same r)"
| "star_lossless same r = True"

lemma star_spec:
  assumes "groups_keep_empty c" "plain (Rep r lb ub)" "star_lossless same (Rep r lb ub)"
    and "keeps c r (transform (RE_Star_Normal same) r)"
  shows "keeps c (Rep r lb ub) (star_transformRep r lb ub (transform (RE_Star_Normal same) r))"
proof -
  obtain e ch where e: "transform (RE_Star_Normal same) r = Some (e, ch)" "plain e" "den c e = den c r" "\<not> ch \<longrightarrow> e = r"
    using assms(4) by (auto simp: xok_def)
  have bounds: "basic_bounds lb ub" using assms(2) by simp
  let ?star = "if lb = 0 \<and> ub = -1 then star_rule e else Some (e, False)"
  have "\<exists>e' ch'. ?star = Some (e', ch') \<and> plain e' \<and> (\<not> ch' \<longrightarrow> e' = e)
      \<and> rep_spans (den c e') (rep_counts lb ub) = rep_spans (den c e) (rep_counts lb ub)"
  proof (cases "lb = 0 \<and> ub = -1")
    case True
    have "case e of Seq rs \<Rightarrow> isNullable e \<longrightarrow> star_safe rs | _ \<Rightarrow> True"
      using assms(3) e(1) True by (cases e) auto
    from plain_star_rule[OF assms(1) e(2) this] True show ?thesis by (auto simp: rep_spans_star)
  qed (use e(2) in auto)
  then obtain e' ch' where e': "?star = Some (e', ch')" "plain e'" "\<not> ch' \<longrightarrow> e' = e"
    "rep_spans (den c e') (rep_counts lb ub) = rep_spans (den c e) (rep_counts lb ub)" by blast
  from plain_makeRep[OF e'(2) bounds] obtain r' where r': "makeRep e' lb ub = Some r'" "plain r'"
    "den c r' = rep_spans (den c e') (rep_counts lb ub)" by blast
  have "star_transformRep r lb ub (Some (e, ch)) = (if \<not> ch \<and> \<not> ch' then Some (Rep r lb ub, False) else Some (r', True))"
    by (simp add: star_transformRep_def e'(1) r'(1))
  then show ?thesis using assms(2) e(1,3) e'(4) r' by (cases "\<not> ch \<and> \<not> ch'") simp_all
qed

lemma star_parts: "star_lossless same r \<Longrightarrow> p \<in> set (parts r) \<Longrightarrow> plain r \<Longrightarrow> star_lossless same p"
  by (cases r) (auto split: option.splits)

lemma star_node:
  assumes "groups_keep_empty c" "plain r" "star_lossless same r"
    and operands: "\<And>p. p \<in> set (parts r) \<Longrightarrow> keeps c p (transform (RE_Star_Normal same) p)"
  shows "keeps c r (visit (RE_Star_Normal same) (transform (RE_Star_Normal same)) r)"
proof -
  have base: "keeps c r (visit (base_class same) (transform (RE_Star_Normal same)) r)"
    using same_visit[OF plain_nodeD[OF assms(2)]] operands by blast
  have visits: "visit (RE_Star_Normal same) f r =
      (case r of Rep x lb ub \<Rightarrow> star_transformRep x lb ub (f x) | _ \<Rightarrow> visit (base_class same) f r)" for f
    by (cases r) (simp_all add: RE_Star_Normal_def)
  show ?thesis
  proof (cases "\<exists>x lb ub. r = Rep x lb ub")
    case True
    then obtain x lb ub where r: "r = Rep x lb ub" by blast
    then have "keeps c x (transform (RE_Star_Normal same) x)" using operands by simp
    from star_spec[OF assms(1) assms(2,3)[unfolded r] this] show ?thesis unfolding visits by (simp add: r)
  next
    case False
    with base show ?thesis unfolding visits by (cases r) simp_all
  qed
qed

interpretation star: pass "\<lambda>r. groups_keep_empty c \<and> plain r \<and> star_lossless same r" "keeps c" "RE_Star_Normal same"
  by unfold_locales (use plain_operand star_parts star_node in blast)+

lemma convertToStarNormalForm_spec:
  "groups_keep_empty c \<Longrightarrow> plain r \<Longrightarrow> star_lossless same r \<Longrightarrow>
   \<exists>r'. convertToStarNormalForm same r = Some r' \<and> plain r' \<and> den c r' = den c r"
  unfolding convertToStarNormalForm_def using star.transform_ok[of c r same] by (blast intro: keeps_result)

section \<open>Alternatives of fixed length\<close>

abbreviation spans_of :: "sem \<Rightarrow> re list \<Rightarrow> spans" where
  "spans_of c rs \<equiv> (\<Union>r \<in> set rs. den c r)"

definition plain_list :: "re list \<Rightarrow> bool" where
  "plain_list rs \<longleftrightarrow> rs \<noteq> [] \<and> (\<forall>r \<in> set rs. plain r)"

lemma plain_measured: "plain r \<Longrightarrow> \<exists>lo hi. getLengthRange idx r = Some (lo, hi)"
proof -
  have "plain r \<Longrightarrow> classes_nonempty r"
  proof (induction r)
    case (Name ns nm d ext)
    then show ?case by (cases d) auto
  next
    case (PropertyExpression k ident op v code d)
    then show ?case by (cases d) auto
  qed auto
  then show "plain r \<Longrightarrow> \<exists>lo hi. getLengthRange idx r = Some (lo, hi)" using getLengthRange_total[of r idx] by auto
qed

lemma group_alt_spec:
  "plain_list es \<Longrightarrow> \<exists>r. group_alt es = Some r \<and> plain r \<and> (\<forall>c. den c r = spans_of c es)"
proof (cases "length es = 1")
  case True
  then show "plain_list es \<Longrightarrow> ?thesis" by (auto simp: group_alt_def plain_list_def length_Suc_conv)
next
  case False
  then show "plain_list es \<Longrightarrow> ?thesis" using plain_makeAlt[of es] by (auto simp: group_alt_def plain_list_def)
qed

definition members_of :: "(int \<times> re list) list \<Rightarrow> re set" where
  "members_of groups = (\<Union>g \<in> set groups. set (snd g))"

lemma factor_insert_spec:
  "members_of (factor_insert k e groups) = insert e (members_of groups)"
  "\<forall>g \<in> set groups. snd g \<noteq> [] \<Longrightarrow> \<forall>g \<in> set (factor_insert k e groups). snd g \<noteq> []"
  by (induction k e groups rule: factor_insert.induct) (auto simp: members_of_def)

lemma factor_alts_spec:
  "\<forall>r \<in> set es. plain r \<Longrightarrow> \<forall>g \<in> set groups. snd g \<noteq> [] \<Longrightarrow>
   \<exists>newAlts' groups'. factor_alts idx es newAlts groups = Some (newAlts', groups')
     \<and> set newAlts' \<union> members_of groups' = set newAlts \<union> members_of groups \<union> set es \<and> (\<forall>g \<in> set groups'. snd g \<noteq> [])"
proof (induction es arbitrary: newAlts groups)
  case (Cons e es)
  obtain lo hi where range: "getLengthRange idx e = Some (lo, hi)" using plain_measured[of e idx] Cons.prems(1) by auto
  show ?case
  proof (cases "lo = hi")
    case True
    from Cons.IH[of "factor_insert lo e groups" newAlts] factor_insert_spec[where k = lo and e = e and groups = groups] Cons.prems
    show ?thesis by (simp add: range True)
  next
    case False
    from Cons.IH[of groups "newAlts @ [e]"] Cons.prems show ?thesis by (simp add: range False)
  qed
qed auto

lemma those_groups:
  "\<forall>g \<in> set groups. plain_list (snd g) \<Longrightarrow>
   \<exists>fixed. those (map (\<lambda>g. group_alt (snd g)) groups) = Some fixed \<and> (\<forall>r \<in> set fixed. plain r)
     \<and> (\<forall>c. spans_of c fixed = (\<Union>r \<in> members_of groups. den c r)) \<and> length fixed = length groups"
proof (induction groups)
  case (Cons g groups)
  obtain r where r: "group_alt (snd g) = Some r" "plain r" "\<forall>c. den c r = spans_of c (snd g)"
    using group_alt_spec[of "snd g"] Cons.prems by auto
  from Cons r show ?case by (auto simp: members_of_def)
qed (simp add: members_of_def)

lemma LengthFactorAlts_spec:
  assumes "plain_list alts"
  shows "\<exists>l. LengthFactorAlts idx alts = Some l \<and> plain_list l \<and> (\<forall>c. spans_of c l = spans_of c alts)"
proof -
  have plain: "\<forall>r \<in> set alts. plain r" "alts \<noteq> []" using assms by (simp_all add: plain_list_def)
  obtain newAlts groups where f: "factor_alts idx alts [] [] = Some (newAlts, groups)"
    "set newAlts \<union> members_of groups = set alts" "\<forall>g \<in> set groups. snd g \<noteq> []"
    using factor_alts_spec[OF plain(1), of "[]" idx "[]"] by (auto simp: members_of_def)
  have "\<forall>g \<in> set groups. plain_list (snd g)" using f(2,3) plain(1) by (auto simp: plain_list_def members_of_def)
  from those_groups[OF this] obtain fixed where fixed: "those (map (\<lambda>g. group_alt (snd g)) groups) = Some fixed"
    "\<forall>r \<in> set fixed. plain r" "\<forall>c. spans_of c fixed = (\<Union>r \<in> members_of groups. den c r)" "length fixed = length groups" by blast
  have "spans_of c (newAlts @ fixed) = spans_of c alts" for c
  proof -
    have "spans_of c (newAlts @ fixed) = (\<Union>r \<in> set newAlts \<union> members_of groups. den c r)" using fixed(3) by simp
    then show ?thesis by (simp only: f(2))
  qed
  moreover have "plain_list (newAlts @ fixed)"
    using f(2) fixed(2,4) plain by (auto simp: plain_list_def members_of_def)
  ultimately show ?thesis using f(1) fixed(1) by (simp add: LengthFactorAlts_def)
qed

lemma alternatives_spec:
  assumes "plain e"
  shows "\<exists>l. alternatives idx e = Some l \<and> plain_list l \<and> (\<forall>c. spans_of c l = den c e)"
proof (cases "\<exists>alts. e = Alt alts")
  case True
  then obtain alts where e: "e = Alt alts" by blast
  then show ?thesis using LengthFactorAlts_spec[of alts idx] assms by (simp add: alternatives_def plain_list_def)
next
  case False
  then have "alternatives idx e = Some [e]" by (cases e) (simp_all add: alternatives_def)
  then show ?thesis using assms by (simp add: plain_list_def)
qed

lemma distribute_spec:
  assumes "plain_list a1" "plain t"
  shows "plain_list (distribute a1 t) \<and> (\<forall>c. spans_of c (distribute a1 t) = spans_of c a1 O den c t)"
proof -
  have pair: "plain (makeSeq [a, b])" "den c (makeSeq [a, b]) = den c a O den c b" if "plain a" "plain b" for a b c
    using that plain_makeSeq[of "[a, b]"] makeSeq_spec(2)[of "[a, b]" c] plain_re_ok by simp_all
  have a1: "plain a" if "a \<in> set a1" for a using assms(1) that by (simp add: plain_list_def)
  show ?thesis
  proof (cases "\<exists>ts. t = Alt ts")
    case True
    then obtain ts where t: "t = Alt ts" "ts \<noteq> []" "\<And>x. x \<in> set ts \<Longrightarrow> plain x" using assms(2) by auto
    have "plain_list (distribute a1 t)"
      using assms(1) a1 t(2,3) pair(1) by (auto simp: plain_list_def distribute_def t(1) neq_Nil_conv)
    moreover have "spans_of c (distribute a1 t) = spans_of c a1 O den c t" for c
    proof -
      have "spans_of c (distribute a1 t) = (\<Union>a \<in> set a1. \<Union>b \<in> set ts. den c (makeSeq [a, b]))"
        by (simp add: distribute_def t(1))
      also have "\<dots> = (\<Union>a \<in> set a1. \<Union>b \<in> set ts. den c a O den c b)" using pair(2) a1 t(3) by simp
      finally show ?thesis by (auto simp: t(1))
    qed
    ultimately show ?thesis by blast
  next
    case False
    then have d: "distribute a1 t = map (\<lambda>a. makeSeq [a, t]) a1" by (cases t) (simp_all add: distribute_def)
    have "spans_of c (distribute a1 t) = (\<Union>a \<in> set a1. den c a O den c t)" for c
      using pair(2)[OF a1 assms(2)] by (simp add: d)
    then show ?thesis using assms(1) pair(1)[OF a1 assms(2)] by (auto simp: d plain_list_def)
  qed
qed

lemma SeqOfAlt2AltOfSeq_spec:
  "\<forall>g \<in> set SofA. plain_list g \<Longrightarrow>
   \<exists>r. SeqOfAlt2AltOfSeq SofA = Some r \<and> plain r \<and> (\<forall>c. den c r = seq_spans (map (spans_of c) SofA))"
proof (induction SofA)
  case (Cons a1 SofA)
  then obtain t where t: "SeqOfAlt2AltOfSeq SofA = Some t" "plain t" "\<forall>c. den c t = seq_spans (map (spans_of c) SofA)" by auto
  have "plain_list a1" using Cons.prems by simp
  note d = distribute_spec[OF this t(2)]
  from group_alt_spec[OF conjunct1[OF d]] obtain r where "group_alt (distribute a1 t) = Some r" "plain r"
    "\<forall>c. den c r = spans_of c (distribute a1 t)" by blast
  then show ?case using d t by simp
qed (simp add: makeSeq_def)

lemma promote_spec:
  assumes "plain (Seq rs)"
  shows "keeps c (Seq rs) (promote_transformSeq idx rs xs)"
proof -
  have "\<exists>gs. those (map (alternatives idx) rs) = Some gs \<and> (\<forall>g \<in> set gs. plain_list g)
      \<and> map (spans_of c) gs = map (den c) rs" if "\<forall>r \<in> set rs. plain r" for rs
    using that
  proof (induction rs)
    case (Cons r rs)
    then show ?case using alternatives_spec[of r idx] by auto
  qed simp
  from this[of rs] assms obtain gs where gs: "those (map (alternatives idx) rs) = Some gs" "\<forall>g \<in> set gs. plain_list g"
    "map (spans_of c) gs = map (den c) rs" by auto
  from SeqOfAlt2AltOfSeq_spec[OF gs(2)] gs show ?thesis by (auto simp: promote_transformSeq_def)
qed

lemma promote_node:
  assumes "plain r" "\<And>p. p \<in> set (parts r) \<Longrightarrow> keeps c p (f p)"
  shows "keeps c r (visit (VariableAltPromotor idx same) f r)"
proof -
  have base: "keeps c r (visit (base_class same) f r)"
    using same_visit[OF plain_nodeD[OF assms(1)]] assms(2) by blast
  show ?thesis
  proof (cases r)
    case (Seq rs)
    then show ?thesis using promote_spec assms(1) by (simp add: VariableAltPromotor_def del: plain.simps)
  qed (use base in \<open>simp_all add: VariableAltPromotor_def\<close>)
qed

interpretation promotor: pass plain "keeps c" "VariableAltPromotor idx same"
proof unfold_locales
  show "keeps c r (visit (VariableAltPromotor idx same) (transform (VariableAltPromotor idx same)) r)"
    if "plain r" "\<And>p. p \<in> set (parts r) \<Longrightarrow> keeps c p (transform (VariableAltPromotor idx same) p)" for r
    by (rule promote_node[of r c "transform (VariableAltPromotor idx same)" idx same, OF that])
qed (rule plain_operand)

lemma variableAltPromotion_spec:
  "plain r \<Longrightarrow> \<exists>r'. variableAltPromotion idx same r = Some r' \<and> plain r' \<and> den c r' = den c r"
  unfolding variableAltPromotion_def using promotor.transform_ok[of r c idx same] by (blast intro: keeps_result)

end
