(* ===== verification/RE_Pass_Safe.thy ===== *)
theory RE_Pass_Safe imports RE_Pass_Sound begin

text \<open>
  Passes that may fail: what holds of the result if there is one, for all valid expressions. The laws of
  the base methods are those of \<open>RE_Sound\<close> without the restriction to plain expressions.
\<close>

section \<open>Results that are right if there are any\<close>

definition safe :: "(spans \<Rightarrow> spans \<Rightarrow> bool) \<Rightarrow> sem \<Rightarrow> sem \<Rightarrow> re \<Rightarrow> xres \<Rightarrow> bool" where
  "safe sim c c' r x \<longleftrightarrow>
     (case x of None \<Rightarrow> True | Some (r', ch) \<Rightarrow> re_ok r' \<and> sim (den c r) (den c' r') \<and> (\<not> ch \<longrightarrow> r' = r))"

lemma safe_simps [simp]:
  "safe sim c c' r None"
  "safe sim c c' r (Some (r', ch)) = (re_ok r' \<and> sim (den c r) (den c' r') \<and> (\<not> ch \<longrightarrow> r' = r))"
  by (simp_all add: safe_def)

lemma gather_elems_safe:
  "list_all2 (safe sim c c') rs xs \<Longrightarrow> gather_elems xs = Some (es, any) \<Longrightarrow>
   (\<forall>e \<in> set es. re_ok e) \<and> list_all2 sim (map (den c) rs) (map (den c') es) \<and> (\<not> any \<longrightarrow> es = rs)"
proof (induction arbitrary: es any rule: list_all2_induct)
  case (Cons r rs x xs)
  then obtain e ch es' any' where "x = Some (e, ch)" "gather_elems xs = Some (es', any')" "es = e # es'" "any = (ch \<or> any')"
    by (auto split: option.splits prod.splits)
  with Cons show ?case by auto
qed simp

context span_union begin

lemma safe_alt:
  assumes "re_ok (Alt rs)" "list_all2 (safe sim c c') rs xs"
  shows "safe sim c c' (Alt rs) (base_transformAlt rs xs)"
proof (cases "gather_elems xs")
  case (Some p)
  obtain es any where p: "gather_elems xs = Some (es, any)" using Some by (cases p) simp
  note elems = gather_elems_safe[OF assms(2) p]
  have sim: "sim (den c (Alt rs)) (\<Union>e \<in> set es. den c' e)" using union_list[OF conjunct1[OF conjunct2[OF elems]]] by simp
  show ?thesis
  proof (cases "any \<and> makeAlt es \<noteq> None")
    case True
    then obtain r' where r': "makeAlt es = Some r'" by blast
    from makeAlt_spec[OF conjunct1[OF elems] r'] sim show ?thesis using p True r' by (simp add: base_transformAlt_def)
  next
    case False
    then show ?thesis using p sim elems assms(1) by (cases any) (auto simp: base_transformAlt_def)
  qed
qed (simp add: base_transformAlt_def)

text \<open>The kinds of node where operands are neither composed nor compared.\<close>

lemma safe_visit:
  assumes refl: "\<And>R. sim R R" and "groups_respect sim c" "re_ok r" "\<not> composite r"
    and "\<And>a b. r \<noteq> Diff a b" "\<And>a b. r \<noteq> Intersect a b" "\<And>a b. r \<noteq> Range a b"
    and operands: "\<And>p. p \<in> set (parts r) \<Longrightarrow> safe sim c c p (f p)"
  shows "safe sim c c r (visit (base_class same) f r)"
proof (cases r)
  case (Alt rs)
  then have "list_all2 (safe sim c c) rs (map f rs)" using operands by (simp add: list_all2_map2 list_all2_same)
  then show ?thesis using safe_alt[of rs c c "map f rs"] assms(3) Alt by simp
next
  case (PropertyExpression k ident op v code d)
  then show ?thesis using assms(3) operands refl
    by (cases d; cases "f (the d)") (auto simp: base_transformPropertyExpression_def)
next
  case (Name ns nm d ext)
  then show ?thesis using assms(3) refl by (cases d) (simp_all add: base_transformName_def)
next
  case (Group m x s)
  then show ?thesis using assms(2,3) operands refl
    by (cases "f x") (auto simp: base_transformGroup_def groups_respect_def)
next
  case (Capture nm x)
  then show ?thesis using assms(3) operands refl by (cases "f x") (auto simp: base_transformCapture_def)
qed (use assms in \<open>simp_all\<close>)

end

context span_relation begin

lemma safe_seq:
  assumes "re_ok (Seq rs)" "list_all2 (safe sim c c') rs xs"
  shows "safe sim c c' (Seq rs) (base_transformSeq rs xs)"
proof (cases "gather_elems xs")
  case (Some p)
  obtain es any where p: "gather_elems xs = Some (es, any)" using Some by (cases p) simp
  note elems = gather_elems_safe[OF assms(2) p]
  have "sim (den c (Seq rs)) (den c' (Seq es))" using seq elems by simp
  then show ?thesis using makeSeq_spec[OF conjunct1[OF elems]] elems p assms(1)
    by (cases any) (auto simp: base_transformSeq_def)
qed (simp add: base_transformSeq_def)

lemma safe_permute:
  assumes "re_ok (Permute rs)" "list_all2 (safe sim c c') rs xs"
  shows "safe sim c c' (Permute rs) (base_transformPermute rs xs)"
proof (cases "gather_elems xs")
  case (Some p)
  obtain es any where p: "gather_elems xs = Some (es, any)" using Some by (cases p) simp
  note elems = gather_elems_safe[OF assms(2) p]
  have "sim (den c (Permute rs)) (den c' (Permute es))"
    unfolding den.simps using perms elems by blast
  then show ?thesis using elems p assms(1)
    by (cases any) (auto simp: base_transformPermute_def simp del: den.simps)
qed (simp add: base_transformPermute_def)

lemma safe_rep:
  assumes "re_ok (Rep r lb ub)" "safe sim c c' r x" "\<And>r' ch. x = Some (r', ch) \<Longrightarrow> rep_sound r' lb ub"
  shows "safe sim c c' (Rep r lb ub) (base_transformRep r lb ub x)"
proof (cases x)
  case (Some p)
  obtain r' ch where p: "x = Some (r', ch)" using Some by (cases p) simp
  have r': "re_ok r'" "sim (den c r) (den c' r')" "\<not> ch \<longrightarrow> r' = r" using assms(2) p by simp_all
  have b: "valid_bounds lb ub" using assms(1) by simp
  from makeRep_spec(2)[OF r'(1) b assms(3)[OF p]] rep[OF r'(2), of "rep_counts lb ub"] r' p assms(1) show ?thesis
    by (cases ch; cases "makeRep r' lb ub") (auto simp: base_transformRep_def)
qed (simp add: base_transformRep_def)

lemma safe_assertion:
  assumes "re_ok r" "safe sim c c' r x"
  shows "safe sim c c' (Assertion r k s) (base_transformAssertion r k s x)"
proof (cases x)
  case (Some p)
  obtain r' ch where p: "x = Some (r', ch)" using Some by (cases p) simp
  have r': "re_ok r'" "sim (den c r) (den c' r')" "\<not> ch \<longrightarrow> r' = r" using assms(2) p by simp_all
  from makeAssertion_spec[OF r'(1)] look[OF r'(2)] r' p assms(1) show ?thesis
    by (cases ch) (auto simp: base_transformAssertion_def)
qed (simp add: base_transformAssertion_def)

end

text \<open>Differences of the spans themselves.\<close>

lemma safe_diff:
  assumes "\<And>a b. same a b \<Longrightarrow> a = b" "sem_ok c'" "re_ok (Diff l r)"
    and "safe (=) c c' l x" "safe (=) c c' r y" "\<And>l' ch. x = Some (l', ch) \<Longrightarrow> diff_spine l' \<noteq> Seq []"
  shows "safe (=) c c' (Diff l r) (base_transformDiff same l r x y)"
proof (cases "x = None \<or> y = None")
  case False
  then obtain l' ch r' ch' where p: "x = Some (l', ch)" "y = Some (r', ch')" by auto
  have l': "re_ok l'" "den c l = den c' l'" "\<not> ch \<longrightarrow> l' = l" and r': "re_ok r'" "den c r = den c' r'" "\<not> ch' \<longrightarrow> r' = r"
    using assms(4,5) p by simp_all
  show ?thesis
  proof (cases "(\<not> ch \<and> \<not> ch') \<or> makeDiff same l' r' = None")
    case True
    then show ?thesis using p l' r' assms(3) by (auto simp: base_transformDiff_def)
  next
    case False
    then obtain d where d: "makeDiff same l' r' = Some d" by blast
    from makeDiff_spec[OF assms(1,2) l'(1) r'(1) disjI1[OF assms(6)[OF p(1)]] d] d p False l'(2) r'(2)
    show ?thesis by (auto simp: base_transformDiff_def)
  qed
qed (auto simp: base_transformDiff_def split: option.split)

lemma re_ok_operand: "re_ok r \<Longrightarrow> p \<in> set (parts r) \<Longrightarrow> re_ok p"
  by (cases r; auto split: option.splits)

lemma safe_result:
  assumes "safe sim c c' r (transform T r)" "plain r \<Longrightarrow> transform T r \<noteq> None"
  shows "case transformRE T r of None \<Rightarrow> \<not> plain r | Some r' \<Rightarrow> re_ok r' \<and> sim (den c r) (den c' r')"
  using assms by (cases "transform T r") (auto simp: transformRE_def)

end
