(* ===== verification/RE_Pass_Ends.thy ===== *)
theory RE_Pass_Ends imports RE_Pass_Safe begin

text \<open>
  The passes that keep one end of the matches: the removal of nullable prefixes keeps where matches
  end, that of nullable suffixes and the promotion of final lookahead where they begin.
\<close>

text \<open>Expressions without permutations, differences, intersections and symbolic ranges, whose base
  methods transform each operand.\<close>

fun ends_separate :: "re \<Rightarrow> bool" where
  "ends_separate (Alt rs) = (\<forall>r \<in> set rs. ends_separate r)"
| "ends_separate (Seq rs) = (\<forall>r \<in> set rs. ends_separate r)"
| "ends_separate (Permute rs) = False"
| "ends_separate (Range lo hi) = False"
| "ends_separate (Diff l r) = False"
| "ends_separate (Intersect l r) = False"
| "ends_separate (Assertion r k s) = ends_separate r"
| "ends_separate (Name ns nm d ext) = (case d of None \<Rightarrow> True | Some r \<Rightarrow> ends_separate r)"
| "ends_separate (PropertyExpression k ident op v code d) = (case d of None \<Rightarrow> True | Some r \<Rightarrow> ends_separate r)"
| "ends_separate (Capture nm r) = ends_separate r"
| "ends_separate (Group m r s) = ends_separate r"
| "ends_separate (Rep r lb ub) = ends_separate r"
| "ends_separate r = True"

lemma ends_separate_operand: "ends_separate r \<Longrightarrow> p \<in> set (parts r) \<Longrightarrow> ends_separate p"
  by (cases r) (auto split: option.splits)

section \<open>Ends of compositions\<close>

abbreviation same_ends :: "spans \<Rightarrow> spans \<Rightarrow> bool" where
  "same_ends R S \<equiv> Relation.Range R = Relation.Range S"

abbreviation same_starts :: "spans \<Rightarrow> spans \<Rightarrow> bool" where
  "same_starts R S \<equiv> Domain R = Domain S"

interpretation ends: span_union same_ends
proof unfold_locales
  show "same_ends (\<Union> (fst ` P)) (\<Union> (snd ` P))" if "\<And>R S. (R, S) \<in> P \<Longrightarrow> same_ends R S" for P
  proof -
    have "(\<Union>p \<in> P. Relation.Range (fst p)) = (\<Union>p \<in> P. Relation.Range (snd p))" using that by force
    then show ?thesis by (simp add: Range_Union)
  qed
qed

interpretation starts: span_union same_starts
proof unfold_locales
  show "same_starts (\<Union> (fst ` P)) (\<Union> (snd ` P))" if "\<And>R S. (R, S) \<in> P \<Longrightarrow> same_starts R S" for P
  proof -
    have "(\<Union>p \<in> P. Domain (fst p)) = (\<Union>p \<in> P. Domain (snd p))" using that by force
    then show ?thesis by (simp add: Domain_Union)
  qed
qed

lemma Range_comp: "Relation.Range (R O S) = S `` Relation.Range R"
  by auto

lemma Domain_comp: "Domain (R O S) = R\<inverse> `` Domain S"
  by auto

lemma seq_ends:
  "\<forall>U \<in> set Us. Relation.Range U = UNIV \<Longrightarrow> same_ends R E \<Longrightarrow>
   same_ends (seq_spans (Us @ R # Vs)) (seq_spans (E # Vs))"
proof -
  assume all: "\<forall>U \<in> set Us. Relation.Range U = UNIV" and same: "same_ends R E"
  from all have "Relation.Range (seq_spans Us) = UNIV"
    by (induction Us rule: rev_induct) (auto simp: Range_comp Image_def)
  then have "Relation.Range (seq_spans Us O R) = Relation.Range E"
    unfolding Range_comp same[symmetric] by auto
  then show ?thesis by (simp add: Range_comp flip: O_assoc)
qed

lemma converse_seq: "(seq_spans Rs)\<inverse> = seq_spans (rev (map converse Rs))"
  by (induction Rs) (simp_all add: converse_relcomp)

lemma seq_starts:
  assumes "\<forall>U \<in> set Us. Domain U = UNIV" "same_starts R E"
  shows "same_starts (seq_spans (Vs @ R # Us)) (seq_spans (Vs @ [E]))"
proof -
  have "same_ends (seq_spans (rev (map converse Us) @ R\<inverse> # rev (map converse Vs)))
      (seq_spans (E\<inverse> # rev (map converse Vs)))"
    using assms by (intro seq_ends) simp_all
  then have "same_ends ((seq_spans (Vs @ R # Us))\<inverse>) ((seq_spans (Vs @ [E]))\<inverse>)" by (simp only: converse_seq) simp
  then show ?thesis by simp
qed

lemma rep_ends:
  assumes "valid_bounds lb ub"
  shows "Relation.Range (rep_spans R (rep_counts lb ub)) = Relation.Range (R ^^ nat lb)"
    "Domain (rep_spans R (rep_counts lb ub)) = Domain (R ^^ nat lb)"
proof -
  have more: "nat lb \<le> n" if "n \<in> rep_counts lb ub" for n
    using assms that by (auto simp: rep_counts_iff valid_bounds_def)
  have mem: "nat lb \<in> rep_counts lb ub" using assms by (auto simp: rep_counts_iff valid_bounds_def)
  have "Relation.Range (R ^^ n) \<subseteq> Relation.Range (R ^^ nat lb) \<and> Domain (R ^^ n) \<subseteq> Domain (R ^^ nat lb)"
    if n: "n \<in> rep_counts lb ub" for n
  proof -
    obtain k where "n = k + nat lb" using more[OF n] by (metis add.commute le_Suc_ex)
    then have "R ^^ n = R ^^ k O R ^^ nat lb" "R ^^ n = R ^^ nat lb O R ^^ k" by (metis relpow_add add.commute)+
    moreover have "Relation.Range (A O B) \<subseteq> Relation.Range B" "Domain (A O B) \<subseteq> Domain A" for A B :: spans by auto
    ultimately show ?thesis by metis
  qed
  with mem show "Relation.Range (rep_spans R (rep_counts lb ub)) = Relation.Range (R ^^ nat lb)"
    "Domain (rep_spans R (rep_counts lb ub)) = Domain (R ^^ nat lb)"
    unfolding rep_spans_def by (blast intro!: equalityI)+
qed

lemma nullable_ends:
  assumes "groups_keep_empty c" "re_ok r" "isNullable r"
  shows "Relation.Range (den c r) = UNIV" "Domain (den c r) = UNIV"
  using isNullable_sound[OF assms] by blast+

section \<open>Nullable prefixes\<close>

text \<open>What the loop over nullable elements skips.\<close>

lemma skip_nullable_spec:
  "list_all2 (safe sim c c) rs xs \<Longrightarrow> skip_nullable rs xs = Some (e, ch, rest) \<Longrightarrow>
   \<exists>us r. rs = us @ r # rest \<and> safe sim c c r (Some (e, ch)) \<and> \<not> isNullable e
     \<and> (\<forall>u \<in> set us. \<exists>e'. re_ok e' \<and> isNullable e' \<and> sim (den c u) (den c e'))"
proof (induction rule: list_all2_induct)
  case (Cons r rs x xs)
  obtain e1 ch1 where x: "x = Some (e1, ch1)" using Cons.prems by (auto split: option.splits)
  show ?case
  proof (cases "isNullable e1")
    case False
    then show ?thesis using Cons.prems Cons.hyps(1) x by (intro exI[of _ "[]"] exI[of _ r]) auto
  next
    case True
    then have "skip_nullable rs xs = Some (e, ch, rest)" using Cons.prems x by simp
    from Cons.IH[OF this] obtain us r' where us: "rs = us @ r' # rest" "safe sim c c r' (Some (e, ch))" "\<not> isNullable e"
      "\<forall>u \<in> set us. \<exists>e'. re_ok e' \<and> isNullable e' \<and> sim (den c u) (den c e')" by blast
    have "\<exists>e'. re_ok e' \<and> isNullable e' \<and> sim (den c r) (den c e')" using Cons.hyps(1) x True by auto
    with us show ?thesis by (intro exI[of _ "r # us"] exI[of _ r']) auto
  qed
qed simp

lemma prefix_seq:
  assumes "groups_keep_empty c" "re_ok (Seq rs)" "list_all2 (safe same_ends c c) rs xs"
  shows "safe same_ends c c (Seq rs) (prefix_transformSeq rs xs)"
proof (cases "isNullable (Seq rs) \<or> skip_nullable rs xs = None")
  case False
  then obtain e ch rest where skip: "skip_nullable rs xs = Some (e, ch, rest)" by (cases "skip_nullable rs xs") auto
  from skip_nullable_spec[OF assms(3) skip] obtain us r where us: "rs = us @ r # rest"
    "safe same_ends c c r (Some (e, ch))" "\<forall>u \<in> set us. \<exists>e'. re_ok e' \<and> isNullable e' \<and> same_ends (den c u) (den c e')" by blast
  have "\<forall>U \<in> set (map (den c) us). Relation.Range U = UNIV" using us(3) nullable_ends(1)[OF assms(1)] by auto
  from seq_ends[OF this] us(2) have "same_ends (den c (Seq rs)) (seq_spans (map (den c) (e # rest)))" by (simp add: us(1))
  moreover have ok: "\<forall>r \<in> set (e # rest). re_ok r" using us(1,2) assms(2) by simp
  ultimately have "re_ok (makeSeq (e # rest)) \<and> same_ends (den c (Seq rs)) (den c (makeSeq (e # rest)))"
    using makeSeq_spec[OF ok] by simp
  then show ?thesis using False skip assms(2) by (simp add: prefix_transformSeq_def)
qed (use assms(2) in \<open>auto simp: prefix_transformSeq_def\<close>)

text \<open>A repetition begins and ends where its least number of copies does.\<close>

lemma least_copies: "valid_bounds lb ub \<Longrightarrow> lb \<noteq> 0 \<Longrightarrow> \<exists>k. nat lb = Suc k \<and> k = nat lb - 1"
  by (intro exI[of _ "nat lb - 1"]) (auto simp: valid_bounds_def)

lemma other_copies:
  assumes "valid_bounds lb ub" "lb \<noteq> 0" "lb \<noteq> 1" "re_ok r"
  shows "\<exists>t. makeRep r (lb - 1) (lb - 1) = Some t \<and> re_ok t \<and> den c t = den c r ^^ (nat lb - 1)"
proof -
  have b: "valid_bounds (lb - 1) (lb - 1)" "0 < lb - 1" using assms(1-3) by (auto simp: valid_bounds_def)
  have "rep_counts (lb - 1) (lb - 1) = {nat lb - 1}" using b(2) by (auto simp: rep_counts_iff)
  then show ?thesis using makeRep_pos[OF assms(4) b, of c] by (auto simp: makeRep_def rep_spans_def)
qed

lemma prefix_rep:
  assumes "groups_keep_empty c" "re_ok (Rep r lb ub)" "safe same_ends c c r x"
  shows "safe same_ends c c (Rep r lb ub) (prefix_transformRep r lb ub x)"
proof (cases "lb = 0 \<or> isNullable r")
  case True
  then have "Relation.Range (den c (Rep r lb ub)) = UNIV" using nullable_ends(1)[OF assms(1,2)] by simp
  then show ?thesis using True by (simp add: prefix_transformRep_def makeSeq_def)
next
  case False
  have r: "re_ok r" "valid_bounds lb ub" using assms(2) by simp_all
  show ?thesis
  proof (cases x)
    case (Some p)
    then obtain s ch where x: "x = Some (s, ch)" by (cases p) simp
    with assms(3) have s: "re_ok s" "same_ends (den c r) (den c s)" "\<not> ch \<longrightarrow> s = r" by simp_all
    obtain k where k: "nat lb = Suc k" "k = nat lb - 1" using least_copies[OF r(2)] False by blast
    have power: "same_ends (den c (Rep r lb ub)) (den c s O den c r ^^ k)"
      using s(2) unfolding den.simps rep_ends(1)[OF r(2)] k(1) by (simp add: relpow_commute[symmetric] Range_comp)
    consider "\<not> ch \<and> lb = ub" | "\<not> (\<not> ch \<and> lb = ub)" "lb = 1" | "\<not> (\<not> ch \<and> lb = ub)" "lb = 2"
      | "\<not> (\<not> ch \<and> lb = ub)" "lb \<noteq> 1" "lb \<noteq> 2" by blast
    then show ?thesis
    proof cases
      case 1
      then show ?thesis using False x assms(2) by (simp add: prefix_transformRep_def)
    next
      case 2
      then have "k = 0" using k by simp
      with power show ?thesis using False x 2 s(1) by (auto simp: prefix_transformRep_def)
    next
      case 3
      then have "k = 1" using k by simp
      with power show ?thesis using False x 3 s(1) r(1) makeSeq_spec[of "[s, r]"] by (auto simp: prefix_transformRep_def)
    next
      case 4
      from other_copies[OF r(2) _ 4(2) r(1), of c] False obtain t where t: "makeRep r (lb - 1) (lb - 1) = Some t" "re_ok t"
        "den c t = den c r ^^ (nat lb - 1)" by blast
      with power show ?thesis using False x 4 s(1) makeSeq_spec[of "[s, t]"] k(2) by (auto simp: prefix_transformRep_def)
    qed
  qed (use False in \<open>simp add: prefix_transformRep_def\<close>)
qed

lemma prefix_node:
  assumes "groups_keep_empty c" "groups_respect same_ends c" "re_ok r" "ends_separate r"
    and operands: "\<And>p. p \<in> set (parts r) \<Longrightarrow> safe same_ends c c p (f p)"
  shows "safe same_ends c c r (visit (NullablePrefixRemover same) f r)"
proof (cases "composite r")
  case True
  then show ?thesis
  proof (cases r)
    case (Seq rs)
    then have "list_all2 (safe same_ends c c) rs (map f rs)" using operands by (simp add: list_all2_map2 list_all2_same)
    then show ?thesis using prefix_seq[OF assms(1), of rs "map f rs"] assms(3) by (simp add: Seq NullablePrefixRemover_def)
  next
    case (Rep x lb ub)
    then show ?thesis using prefix_rep[OF assms(1), of x lb ub "f x"] assms(3) operands by (simp add: NullablePrefixRemover_def)
  next
    case (Assertion x k s)
    then show ?thesis using assms(3) by (simp add: NullablePrefixRemover_def keep_Assertion_def)
  qed (use assms(4) in simp_all)
next
  case False
  have "safe same_ends c c r (visit (base_class same) f r)"
    using assms(4) by (intro ends.safe_visit[OF refl assms(2,3) False] operands) auto
  moreover have "visit (NullablePrefixRemover same) f r = visit (base_class same) f r"
    using False by (cases r) (simp_all add: NullablePrefixRemover_def)
  ultimately show ?thesis by simp
qed

interpretation prefix: pass "\<lambda>r. groups_keep_empty c \<and> groups_respect same_ends c \<and> re_ok r \<and> ends_separate r"
  "safe same_ends c c" "NullablePrefixRemover same"
proof unfold_locales
  show "safe same_ends c c r (visit (NullablePrefixRemover same) (transform (NullablePrefixRemover same)) r)"
    if "groups_keep_empty c \<and> groups_respect same_ends c \<and> re_ok r \<and> ends_separate r"
      "\<And>p. p \<in> set (parts r) \<Longrightarrow> safe same_ends c c p (transform (NullablePrefixRemover same) p)" for r
    using prefix_node[of c r "transform (NullablePrefixRemover same)" same] that by blast
qed (use re_ok_operand ends_separate_operand in blast)

section \<open>Nullable suffixes\<close>

lemma suffix_seq:
  assumes "groups_keep_empty c" "re_ok (Seq rs)" "list_all2 (safe same_starts c c) rs xs"
  shows "safe same_starts c c (Seq rs) (suffix_transformSeq rs xs)"
proof (cases "isNullable (Seq rs) \<or> skip_nullable (rev rs) (rev xs) = None")
  case False
  then obtain e ch rest where skip: "skip_nullable (rev rs) (rev xs) = Some (e, ch, rest)"
    by (cases "skip_nullable (rev rs) (rev xs)") auto
  have "list_all2 (safe same_starts c c) (rev rs) (rev xs)" using assms(3) by simp
  from skip_nullable_spec[OF this skip] obtain us r where us: "rev rs = us @ r # rest"
    "safe same_starts c c r (Some (e, ch))" "\<forall>u \<in> set us. \<exists>e'. re_ok e' \<and> isNullable e' \<and> same_starts (den c u) (den c e')" by blast
  have rs: "rs = rev rest @ r # rev us" using us(1) by (metis rev_append rev_rev_ident rev.simps(2) append_assoc append_Cons append_Nil)
  have "\<forall>U \<in> set (map (den c) (rev us)). Domain U = UNIV" using us(3) nullable_ends(2)[OF assms(1)] by auto
  from seq_starts[OF this] us(2)
  have "same_starts (den c (Seq rs)) (seq_spans (map (den c) (rev rest @ [e])))" by (simp add: rs)
  moreover have ok: "\<forall>r \<in> set (rev rest @ [e]). re_ok r" using us(2) assms(2) by (auto simp: rs)
  ultimately have "re_ok (makeSeq (rev rest @ [e])) \<and> same_starts (den c (Seq rs)) (den c (makeSeq (rev rest @ [e])))"
    using makeSeq_spec[OF ok] by simp
  then show ?thesis using False skip assms(2) by (simp add: suffix_transformSeq_def)
qed (use assms(2) in \<open>auto simp: suffix_transformSeq_def\<close>)

lemma suffix_rep:
  assumes "groups_keep_empty c" "re_ok (Rep r lb ub)" "safe same_starts c c r x"
  shows "safe same_starts c c (Rep r lb ub) (suffix_transformRep r lb ub x)"
proof (cases "lb = 0 \<or> isNullable r")
  case True
  then have "Domain (den c (Rep r lb ub)) = UNIV" using nullable_ends(2)[OF assms(1,2)] by simp
  then show ?thesis using True by (simp add: suffix_transformRep_def makeSeq_def)
next
  case False
  have r: "re_ok r" "valid_bounds lb ub" using assms(2) by simp_all
  show ?thesis
  proof (cases x)
    case (Some p)
    then obtain s ch where x: "x = Some (s, ch)" by (cases p) simp
    with assms(3) have s: "re_ok s" "same_starts (den c r) (den c s)" "\<not> ch \<longrightarrow> s = r" by simp_all
    obtain k where k: "nat lb = Suc k" "k = nat lb - 1" using least_copies[OF r(2)] False by blast
    have power: "same_starts (den c (Rep r lb ub)) (den c r ^^ k O den c s)"
      using s(2) unfolding den.simps rep_ends(2)[OF r(2)] k(1) by (simp add: Domain_comp)
    consider "\<not> ch \<and> lb = ub" | "\<not> (\<not> ch \<and> lb = ub)" "lb = 1" | "\<not> (\<not> ch \<and> lb = ub)" "lb = 2"
      | "\<not> (\<not> ch \<and> lb = ub)" "lb \<noteq> 1" "lb \<noteq> 2" by blast
    then show ?thesis
    proof cases
      case 1
      then show ?thesis using False x assms(2) by (simp add: suffix_transformRep_def)
    next
      case 2
      then have "k = 0" using k by simp
      with power show ?thesis using False x 2 s(1) by (auto simp: suffix_transformRep_def)
    next
      case 3
      then have "k = 1" using k by simp
      with power show ?thesis using False x 3 s(1) r(1) makeSeq_spec[of "[r, s]"] by (auto simp: suffix_transformRep_def)
    next
      case 4
      from other_copies[OF r(2) _ 4(2) r(1), of c] False obtain t where t: "makeRep r (lb - 1) (lb - 1) = Some t" "re_ok t"
        "den c t = den c r ^^ (nat lb - 1)" by blast
      with power show ?thesis using False x 4 s(1) makeSeq_spec[of "[t, s]"] k(2) by (auto simp: suffix_transformRep_def)
    qed
  qed (use False in \<open>simp add: suffix_transformRep_def\<close>)
qed

lemma suffix_node:
  assumes "groups_keep_empty c" "groups_respect same_starts c" "re_ok r" "ends_separate r"
    and operands: "\<And>p. p \<in> set (parts r) \<Longrightarrow> safe same_starts c c p (f p)"
  shows "safe same_starts c c r (visit (NullableSuffixRemover same) f r)"
proof (cases "composite r")
  case True
  then show ?thesis
  proof (cases r)
    case (Seq rs)
    then have "list_all2 (safe same_starts c c) rs (map f rs)" using operands by (simp add: list_all2_map2 list_all2_same)
    then show ?thesis using suffix_seq[OF assms(1), of rs "map f rs"] assms(3) by (simp add: Seq NullableSuffixRemover_def)
  next
    case (Rep x lb ub)
    then show ?thesis using suffix_rep[OF assms(1), of x lb ub "f x"] assms(3) operands by (simp add: NullableSuffixRemover_def)
  next
    case (Assertion x k s)
    then show ?thesis using assms(3) by (simp add: NullableSuffixRemover_def keep_Assertion_def)
  qed (use assms(4) in simp_all)
next
  case False
  have "safe same_starts c c r (visit (base_class same) f r)"
    using assms(4) by (intro starts.safe_visit[OF refl assms(2,3) False] operands) auto
  moreover have "visit (NullableSuffixRemover same) f r = visit (base_class same) f r"
    using False by (cases r) (simp_all add: NullableSuffixRemover_def)
  ultimately show ?thesis by simp
qed

interpretation suffix: pass "\<lambda>r. groups_keep_empty c \<and> groups_respect same_starts c \<and> re_ok r \<and> ends_separate r"
  "safe same_starts c c" "NullableSuffixRemover same"
proof unfold_locales
  show "safe same_starts c c r (visit (NullableSuffixRemover same) (transform (NullableSuffixRemover same)) r)"
    if "groups_keep_empty c \<and> groups_respect same_starts c \<and> re_ok r \<and> ends_separate r"
      "\<And>p. p \<in> set (parts r) \<Longrightarrow> safe same_starts c c p (transform (NullableSuffixRemover same) p)" for r
    using suffix_node[of c r "transform (NullableSuffixRemover same)" same] that by blast
qed (use re_ok_operand ends_separate_operand in blast)

section \<open>Final lookahead\<close>

lemma last_seq:
  assumes "re_ok (Seq rs)" "list_all2 (safe same_starts c c) rs xs"
  shows "safe same_starts c c (Seq rs) (last_transformSeq rs xs)"
proof (cases "rs = [] \<or> last xs = None")
  case False
  then obtain t ch where t: "last xs = Some (t, ch)" by auto
  have len: "xs \<noteq> []" "length xs = length rs" "length rs - 1 < length rs"
    using False list_all2_lengthD[OF assms(2)] by (auto simp flip: length_greater_0_conv)
  then have last: "safe same_starts c c (last rs) (Some (t, ch))"
    using list_all2_nthD[OF assms(2) len(3)] False t by (simp add: last_conv_nth)
  have rs: "rs = butlast rs @ [last rs]" using False by simp
  have "same_starts (den c (Seq rs)) (seq_spans (map (den c) (butlast rs @ [t])))"
    using seq_starts[of "[]" "den c (last rs)" "den c t" "map (den c) (butlast rs)"] last by (subst rs) simp
  moreover have ok: "\<forall>r \<in> set (butlast rs @ [t]). re_ok r" using last assms(1) by (auto dest: in_set_butlastD)
  ultimately have "re_ok (makeSeq (butlast rs @ [t])) \<and> same_starts (den c (Seq rs)) (den c (makeSeq (butlast rs @ [t])))"
    using makeSeq_spec[OF ok] by simp
  then show ?thesis using False t assms(1) by (simp add: last_transformSeq_def)
qed (use assms(1) in \<open>auto simp: last_transformSeq_def\<close>)

lemma lookahead_starts: "Domain (look_spans LookAhead Positive R) = Domain R"
  by (auto simp: look_spans_def)

lemma lookahead_node:
  assumes "groups_respect same_starts c" "re_ok r" "ends_separate r"
    and operands: "\<And>p. p \<in> set (parts r) \<Longrightarrow> safe same_starts c c p (f p)"
  shows "safe same_starts c c r (visit (FinalLookaheadPromotion same) f r)"
proof (cases "composite r")
  case True
  then show ?thesis
  proof (cases r)
    case (Seq rs)
    then have "list_all2 (safe same_starts c c) rs (map f rs)" using operands by (simp add: list_all2_map2 list_all2_same)
    then show ?thesis using last_seq[of rs c "map f rs"] assms(2) by (simp add: Seq FinalLookaheadPromotion_def)
  next
    case (Rep x lb ub)
    then show ?thesis using assms(2) by (simp add: FinalLookaheadPromotion_def)
  next
    case (Assertion x k s)
    then show ?thesis using assms(2) operands
      by (cases "f x") (auto simp: FinalLookaheadPromotion_def promote_transformAssertion_def lookahead_starts)
  qed (use assms(3) in simp_all)
next
  case False
  have "safe same_starts c c r (visit (base_class same) f r)"
    using assms(3) by (intro starts.safe_visit[OF refl assms(1,2) False] operands) auto
  moreover have "visit (FinalLookaheadPromotion same) f r = visit (base_class same) f r"
    using False assms(3) by (cases r) (simp_all add: FinalLookaheadPromotion_def)
  ultimately show ?thesis by simp
qed

interpretation lookahead: pass "\<lambda>r. groups_respect same_starts c \<and> re_ok r \<and> ends_separate r"
  "safe same_starts c c" "FinalLookaheadPromotion same"
proof unfold_locales
  show "safe same_starts c c r (visit (FinalLookaheadPromotion same) (transform (FinalLookaheadPromotion same)) r)"
    if "groups_respect same_starts c \<and> re_ok r \<and> ends_separate r"
      "\<And>p. p \<in> set (parts r) \<Longrightarrow> safe same_starts c c p (transform (FinalLookaheadPromotion same) p)" for r
    using lookahead_node[of c r "transform (FinalLookaheadPromotion same)" same] that by blast
qed (use re_ok_operand ends_separate_operand in blast)

section \<open>The passes return\<close>

text \<open>On plain expressions the passes succeed; the loop over nullable elements stops because what
  is not nullable does not become nullable.\<close>

interpretation anything: span_relation "\<lambda>R S. True"
  by unfold_locales simp_all

definition returns :: "re \<Rightarrow> xres \<Rightarrow> bool" where
  "returns r x \<longleftrightarrow> (\<exists>e ch. x = Some (e, ch) \<and> plain e \<and> (isNullable e \<longrightarrow> isNullable r) \<and> (\<not> ch \<longrightarrow> e = r))"

lemma returns_simps [simp]:
  "returns r (Some (r, False)) = plain r" "returns r (Some (e, True)) = (plain e \<and> (isNullable e \<longrightarrow> isNullable r))"
  by (auto simp: returns_def)

lemma returns_xok: "returns r x \<Longrightarrow> xok (\<lambda>R S. True) c c r x"
  by (auto simp: returns_def xok_def)

lemma seq_items_plain:
  "\<forall>r \<in> set rs. plain r \<Longrightarrow> seq_items rs acc = Inr (acc @ concat (map (\<lambda>r. case r of Seq l \<Rightarrow> l | _ \<Rightarrow> [r]) rs))"
proof (induction rs arbitrary: acc)
  case (Cons r rs)
  then have "\<not> isEmptySet r" by (simp add: plain_not_empty)
  with Cons show ?case by (cases r) simp_all
qed simp

lemma single_list: "length l = 1 \<Longrightarrow> set l = {hd l}"
  by (cases l) auto

lemma nonnull_makeSeq:
  assumes "\<forall>r \<in> set rs. plain r" "r \<in> set rs" "\<not> isNullable r"
  shows "\<not> isNullable (makeSeq rs)"
proof -
  let ?l = "concat (map (\<lambda>r. case r of Seq l \<Rightarrow> l | _ \<Rightarrow> [r]) rs)"
  have "\<exists>x \<in> set (case r of Seq l \<Rightarrow> l | _ \<Rightarrow> [r]). \<not> isNullable x" using assms(3) by (cases r) auto
  then have l: "\<exists>x \<in> set ?l. \<not> isNullable x" using assms(2) by auto
  have "makeSeq rs = (if length ?l = 1 then hd ?l else Seq ?l)"
    using assms(2) seq_items_plain[OF assms(1), of "[]"] by (auto simp: makeSeq_def)
  then show ?thesis using l single_list[of ?l] by (cases "length ?l = 1") (simp_all del: set_concat set_map)
qed

definition nonnull_state :: "alt_state \<Rightarrow> bool" where
  "nonnull_state st \<longleftrightarrow> (\<forall>r \<in> set (newAlt st). \<not> isNullable r) \<and> nullableRE st = None"

lemma nonnull_steps:
  "nonnull_state st \<Longrightarrow> \<not> isNullable r \<Longrightarrow> nonnull_state (push_alt r st)"
  "nonnull_state st \<Longrightarrow> nonnull_state (st\<lparr>CCs := ccs\<rparr>)"
  by (auto simp: nonnull_state_def push_alt_def)

lemma nonnull_nested:
  "nonnull_state st \<Longrightarrow> \<forall>r \<in> set rs. \<not> isNullable r \<Longrightarrow> nonnull_state (nested_items rs st)"
proof (induction rs arbitrary: st)
  case (Cons r rs)
  then have "\<not> isEmptySeq r" by (auto dest: isEmptySeqD)
  with Cons show ?case by (cases r) (simp_all add: nonnull_steps)
qed simp

lemma nonnull_items:
  "nonnull_state st \<Longrightarrow> \<forall>r \<in> set rs. \<not> isNullable r \<Longrightarrow> alt_items mk rs st = Some st' \<Longrightarrow> nonnull_state st'"
proof (induction rs arbitrary: st)
  case (Cons r rs)
  then obtain st1 where st1: "alt_item mk r st = Some st1" "alt_items mk rs st1 = Some st'" by (auto split: option.splits)
  have "nonnull_state st1"
  proof (cases r)
    case (Alt l)
    then show ?thesis using st1(1) Cons.prems nonnull_nested[of st l] by (auto simp: alt_item_def)
  next
    case (Seq l)
    have "\<not> isNullable r" using Cons.prems by simp
    from nonnull_steps(1)[OF Cons.prems(1) this] show ?thesis using st1(1) Seq \<open>\<not> isNullable r\<close>
      by (auto simp: alt_item_def simp del: isNullable.simps(1)) simp
  qed (use st1(1) Cons.prems nonnull_steps[of st] in \<open>auto simp: alt_item_def isEmptySeq_def\<close>)
  with Cons st1(2) show ?case by auto
qed simp

lemma nonnull_makeAlt:
  assumes "makeAlt rs = Some r'" "\<forall>r \<in> set rs. \<not> isNullable r"
  shows "\<not> isNullable r'"
proof (cases "rs = []")
  case False
  then obtain st where st: "alt_items makeRep_rec rs \<lparr>CCs = [], nullableRE = None, newAlt = []\<rparr> = Some st" "r' = alt_result st"
    using assms(1) by (auto simp: makeAlt_def makeAlt_with_def)
  have "nonnull_state st" using nonnull_items[OF _ assms(2) st(1)] by (simp add: nonnull_state_def)
  then have l: "\<forall>r \<in> set (newAlt st @ map of_cc (CCs st)). \<not> isNullable r" "nullableRE st = None"
    by (auto simp: nonnull_state_def of_cc_def)
  have "r' = (let l = newAlt st @ map of_cc (CCs st) in if length l = 1 then hd l else Alt l)"
    by (simp add: st(2) alt_result_def l(2))
  then show ?thesis using l(1) single_list[of "newAlt st @ map of_cc (CCs st)"]
    by (cases "length (newAlt st @ map of_cc (CCs st)) = 1") (simp_all add: Let_def del: set_append set_map)
qed (use assms(1) in \<open>auto simp: makeAlt_def makeAlt_with_def\<close>)

lemma gather_elems_returns:
  "list_all2 returns rs xs \<Longrightarrow> \<forall>r \<in> set rs. \<not> isNullable r \<Longrightarrow> gather_elems xs = Some (es, any) \<Longrightarrow>
   \<forall>e \<in> set es. \<not> isNullable e"
proof (induction arbitrary: es any rule: list_all2_induct)
  case (Cons r rs x xs)
  then obtain e ch es' any' where "x = Some (e, ch)" "gather_elems xs = Some (es', any')" "es = e # es'"
    by (auto split: option.splits prod.splits)
  with Cons show ?case by (auto simp: returns_def)
qed simp

lemma base_returns:
  assumes "plain r" "\<And>p. p \<in> set (parts r) \<Longrightarrow> returns p (f p)"
    and "\<And>rs. r \<noteq> Seq rs" "\<And>x lb ub. r \<noteq> Rep x lb ub" "\<And>x k s. r \<noteq> Assertion x k s"
  shows "returns r (visit (base_class same) f r)"
proof -
  let ?x = "visit (base_class same) f r"
  have "xok (\<lambda>R S. True) c c r ?x" for c
    using assms(2) returns_xok
    by (intro anything.base_visit[OF TrueI _ plain_nodeD[OF assms(1)]]) (auto simp: groups_respect_def)
  then obtain e ch where e: "?x = Some (e, ch)" "plain e" "\<not> ch \<longrightarrow> e = r" by (auto simp: xok_def)
  have "\<not> isNullable e" if n: "\<not> isNullable r" and ch
  proof (cases r)
    case (Alt rs)
    have list: "list_all2 returns rs (map f rs)" using assms(2) by (simp add: Alt list_all2_map2 list_all2_same)
    obtain es any where es: "gather_elems (map f rs) = Some (es, any)" "makeAlt es = Some e"
      using e(1) \<open>ch\<close> by (auto simp: Alt base_transformAlt_def split: option.splits prod.splits if_splits)
    have "\<forall>r \<in> set rs. \<not> isNullable r" using n by (simp add: Alt)
    from nonnull_makeAlt[OF es(2) gather_elems_returns[OF list this es(1)]] show ?thesis .
  next
    case (Group m x s)
    then show ?thesis using e(1) n \<open>ch\<close> assms(2)[of x]
      by (auto simp: base_transformGroup_def returns_def split: if_splits)
  next
    case (PropertyExpression k ident op v code d)
    then show ?thesis using e(1) \<open>ch\<close> assms(2)
      by (cases d; cases "the d") (auto simp: base_transformPropertyExpression_def returns_def split: if_splits)
  qed (use e(1) \<open>ch\<close> assms in \<open>auto simp: base_transformName_def base_transformCapture_def base_transformPermute_def
      split: option.splits prod.splits if_splits\<close>)
  then show ?thesis using e by (auto simp: returns_def)
qed

lemma skip_returns:
  "list_all2 returns rs xs \<Longrightarrow> \<exists>r \<in> set rs. \<not> isNullable r \<Longrightarrow>
   \<exists>e ch us r rest. skip_nullable rs xs = Some (e, ch, rest) \<and> rs = us @ r # rest \<and> plain e \<and> \<not> isNullable e
     \<and> (\<not> ch \<longrightarrow> e = r)"
proof (induction rule: list_all2_induct)
  case (Cons r rs x xs)
  obtain e ch where x: "x = Some (e, ch)" "plain e" "isNullable e \<longrightarrow> isNullable r" "\<not> ch \<longrightarrow> e = r"
    using Cons.hyps(1) by (auto simp: returns_def)
  show ?case
  proof (cases "isNullable e")
    case False
    with x show ?thesis by (intro exI[of _ e] exI[of _ ch] exI[of _ "[]"] exI[of _ r] exI[of _ rs]) simp
  next
    case True
    then have "\<exists>r \<in> set rs. \<not> isNullable r" using x Cons.prems by auto
    from Cons.IH[OF this] obtain e' ch' us r' rest where "skip_nullable rs xs = Some (e', ch', rest)" "rs = us @ r' # rest"
      "plain e'" "\<not> isNullable e'" "\<not> ch' \<longrightarrow> e' = r'" by blast
    then show ?thesis using True x
      by (intro exI[of _ e'] exI[of _ ch'] exI[of _ "r # us"] exI[of _ r'] exI[of _ rest]) simp
  qed
qed simp

lemma prefix_returns:
  assumes "plain r" "\<And>p. p \<in> set (parts r) \<Longrightarrow> returns p (f p)"
  shows "returns r (visit (NullablePrefixRemover same) f r)"
proof -
  consider rs where "r = Seq rs" | x lb ub where "r = Rep x lb ub" | x k s where "r = Assertion x k s"
    | "\<And>rs. r \<noteq> Seq rs" "\<And>x lb ub. r \<noteq> Rep x lb ub" "\<And>x k s. r \<noteq> Assertion x k s" by blast
  then show ?thesis
  proof cases
    case (1 rs)
    then have list: "list_all2 returns rs (map f rs)" using assms(2) by (simp add: list_all2_map2 list_all2_same)
    show ?thesis
    proof (cases "isNullable (Seq rs)")
      case False
      then have "\<exists>r \<in> set rs. \<not> isNullable r" by simp
      from skip_returns[OF list this] obtain e ch us r' rest where skip: "skip_nullable rs (map f rs) = Some (e, ch, rest)"
        "rs = us @ r' # rest" "plain e" "\<not> isNullable e" "\<not> ch \<longrightarrow> e = r'" by blast
      have "\<forall>r \<in> set (e # rest). plain r" using skip(2,3) assms(1) 1 by simp
      from plain_makeSeq[OF this] nonnull_makeSeq[OF this, of e] skip False assms(1) 1
      show ?thesis by (auto simp: NullablePrefixRemover_def prefix_transformSeq_def)
    qed (use assms(1) 1 in \<open>auto simp: NullablePrefixRemover_def prefix_transformSeq_def\<close>)
  next
    case (2 x lb ub)
    then obtain s ch where "f x = Some (s, ch)" "plain s" "isNullable s \<longrightarrow> isNullable x" "\<not> ch \<longrightarrow> s = x"
      using assms(2)[of x] by (auto simp: returns_def)
    then show ?thesis using assms(1) 2
      by (auto simp: NullablePrefixRemover_def prefix_transformRep_def basic_bounds_def makeSeq_def)
  next
    case 3
    then show ?thesis using assms(1) by (simp add: NullablePrefixRemover_def keep_Assertion_def)
  next
    case 4
    then have "visit (NullablePrefixRemover same) f r = visit (base_class same) f r"
      by (cases r) (auto simp: NullablePrefixRemover_def)
    then show ?thesis using base_returns[OF assms 4] by simp
  qed
qed

lemma suffix_returns:
  assumes "plain r" "\<And>p. p \<in> set (parts r) \<Longrightarrow> returns p (f p)"
  shows "returns r (visit (NullableSuffixRemover same) f r)"
proof -
  consider rs where "r = Seq rs" | x lb ub where "r = Rep x lb ub" | x k s where "r = Assertion x k s"
    | "\<And>rs. r \<noteq> Seq rs" "\<And>x lb ub. r \<noteq> Rep x lb ub" "\<And>x k s. r \<noteq> Assertion x k s" by blast
  then show ?thesis
  proof cases
    case (1 rs)
    then have list: "list_all2 returns (rev rs) (rev (map f rs))" using assms(2) by (simp add: list_all2_map2 list_all2_same)
    show ?thesis
    proof (cases "isNullable (Seq rs)")
      case False
      then have "\<exists>r \<in> set (rev rs). \<not> isNullable r" by simp
      from skip_returns[OF list this] obtain e ch us r' rest where skip: "skip_nullable (rev rs) (rev (map f rs)) = Some (e, ch, rest)"
        "rev rs = us @ r' # rest" "plain e" "\<not> isNullable e" "\<not> ch \<longrightarrow> e = r'" by blast
      have "set rest \<subseteq> set (rev rs)" unfolding skip(2) by auto
      then have "\<forall>r \<in> set (rev rest @ [e]). plain r" using skip(3) assms(1) 1 by auto
      from plain_makeSeq[OF this] nonnull_makeSeq[OF this, of e] skip False assms(1) 1
      show ?thesis by (auto simp: NullableSuffixRemover_def suffix_transformSeq_def)
    qed (use assms(1) 1 in \<open>auto simp: NullableSuffixRemover_def suffix_transformSeq_def\<close>)
  next
    case (2 x lb ub)
    then obtain s ch where "f x = Some (s, ch)" "plain s" "isNullable s \<longrightarrow> isNullable x" "\<not> ch \<longrightarrow> s = x"
      using assms(2)[of x] by (auto simp: returns_def)
    then show ?thesis using assms(1) 2
      by (auto simp: NullableSuffixRemover_def suffix_transformRep_def basic_bounds_def makeSeq_def)
  next
    case 3
    then show ?thesis using assms(1) by (simp add: NullableSuffixRemover_def keep_Assertion_def)
  next
    case 4
    then have "visit (NullableSuffixRemover same) f r = visit (base_class same) f r"
      by (cases r) (auto simp: NullableSuffixRemover_def)
    then show ?thesis using base_returns[OF assms 4] by simp
  qed
qed

abbreviation exists_result :: "re \<Rightarrow> xres \<Rightarrow> bool" where
  "exists_result \<equiv> xok (\<lambda>R S. True) undefined undefined"

lemma lookahead_returns:
  assumes "plain r" "\<And>p. p \<in> set (parts r) \<Longrightarrow> exists_result p (f p)"
  shows "exists_result r (visit (FinalLookaheadPromotion same) f r)"
proof -
  consider rs where "r = Seq rs" | x lb ub where "r = Rep x lb ub" | x k s where "r = Assertion x k s"
    | "\<And>rs. r \<noteq> Seq rs" "\<And>x lb ub. r \<noteq> Rep x lb ub" "\<And>x k s. r \<noteq> Assertion x k s" by blast
  then show ?thesis
  proof cases
    case (1 rs)
    show ?thesis
    proof (cases "rs = []")
      case False
      then have "exists_result (last rs) (f (last rs))" using assms(2) 1 by simp
      then obtain t ch where t: "f (last rs) = Some (t, ch)" "plain t" by (auto simp: xok_def)
      then have "\<forall>r \<in> set (butlast rs @ [t]). plain r" using assms(1) 1 by (auto dest: in_set_butlastD)
      from plain_makeSeq[OF this] t False assms(1) 1
      show ?thesis by (simp add: FinalLookaheadPromotion_def last_transformSeq_def last_map)
    qed (use assms(1) 1 in \<open>simp add: FinalLookaheadPromotion_def last_transformSeq_def\<close>)
  next
    case 2
    then show ?thesis using assms(1) by (simp add: FinalLookaheadPromotion_def)
  next
    case (3 x k s)
    then obtain t ch where "f x = Some (t, ch)" "plain t" using assms(2)[of x] by (auto simp: xok_def)
    then show ?thesis using assms(1) 3 by (simp add: FinalLookaheadPromotion_def promote_transformAssertion_def)
  next
    case 4
    then have "visit (FinalLookaheadPromotion same) f r = visit (base_class same) f r"
      using assms(1) by (cases r) (auto simp: FinalLookaheadPromotion_def)
    then show ?thesis
      using anything.base_visit[OF TrueI _ plain_nodeD[OF assms(1)] assms(2)] by (simp add: groups_respect_def)
  qed
qed

interpretation prefix_total: pass plain returns "NullablePrefixRemover same"
proof unfold_locales
  show "returns r (visit (NullablePrefixRemover same) (transform (NullablePrefixRemover same)) r)"
    if "plain r" "\<And>p. p \<in> set (parts r) \<Longrightarrow> returns p (transform (NullablePrefixRemover same) p)" for r
    by (rule prefix_returns[OF that])
qed (rule plain_operand)

interpretation suffix_total: pass plain returns "NullableSuffixRemover same"
proof unfold_locales
  show "returns r (visit (NullableSuffixRemover same) (transform (NullableSuffixRemover same)) r)"
    if "plain r" "\<And>p. p \<in> set (parts r) \<Longrightarrow> returns p (transform (NullableSuffixRemover same) p)" for r
    by (rule suffix_returns[OF that])
qed (rule plain_operand)

interpretation lookahead_total: pass plain exists_result "FinalLookaheadPromotion same"
proof unfold_locales
  show "exists_result r (visit (FinalLookaheadPromotion same) (transform (FinalLookaheadPromotion same)) r)"
    if "plain r" "\<And>p. p \<in> set (parts r) \<Longrightarrow> exists_result p (transform (FinalLookaheadPromotion same) p)" for r
    by (rule lookahead_returns[OF that])
qed (rule plain_operand)

end
