(* ===== verification/RE_Pass_Exclude.thy ===== *)
theory RE_Pass_Exclude imports RE_Pass_Safe begin

text \<open>
  The exclusion of a class (\<open>exclude_CC.cpp\<close>): what the result matches is what the original
  matches in a text whose symbols do not include those of the class.
\<close>

section \<open>A context without a class\<close>

text \<open>The spans of the excluded symbols are taken away from those of symbols, of any symbol, and of
  names without definition.\<close>

definition without :: "sem \<Rightarrow> cc_re \<Rightarrow> sem" where
  "without c ex = c\<lparr>
     sym_spans := \<lambda>a x. if a = fst ex \<and> x \<in> codepoints (snd ex) then {} else sym_spans c a x,
     any_spans := \<lambda>a. any_spans c a - den c (of_cc ex),
     name_spans := \<lambda>ns nm. name_spans c ns nm - den c (of_cc ex)\<rparr>"

lemma without_simps [simp]:
  "any_spans (without c ex) a = any_spans c a - den c (of_cc ex)"
  "name_spans (without c ex) ns nm = name_spans c ns nm - den c (of_cc ex)"
  "start_at (without c ex) = start_at c" "end_at (without c ex) = end_at c"
  "prop_spans (without c ex) = prop_spans c" "ref_spans (without c ex) = ref_spans c"
  "group_spans (without c ex) = group_spans c" "range_spans (without c ex) = range_spans c"
  by (simp_all add: without_def)

lemma without_class:
  "cc_spans (without c ex) a S = cc_spans c a (if a = fst ex then S - codepoints (snd ex) else S)"
  by (auto simp: cc_spans_def without_def split: if_splits)

text \<open>No match of the remaining expression contains an excluded symbol, unless it is part of the match
  of an external property or back reference.\<close>

section \<open>The pass\<close>

abbreviation excludes :: "sem \<Rightarrow> cc_re \<Rightarrow> re \<Rightarrow> xres \<Rightarrow> bool" where
  "excludes c ex \<equiv> safe (=) (without c ex) c"

text \<open>The expressions on which the constructors that the pass calls do not lose spans: a repetition with
  a transformed operand, and a difference with a transformed left operand. Intersections and symbolic
  ranges are not considered.\<close>

fun excludable :: "transformer \<Rightarrow> re \<Rightarrow> bool" where
  "excludable T (Rep r lb ub) = (excludable T r \<and>
     (case transform T r of Some (r', ch) \<Rightarrow> rep_sound r' lb ub | None \<Rightarrow> True))"
| "excludable T (Diff l r) = (excludable T l \<and> excludable T r \<and>
     (case transform T l of Some (l', ch) \<Rightarrow> diff_spine l' \<noteq> Seq [] | None \<Rightarrow> True))"
| "excludable T (Intersect l r) = False"
| "excludable T (Range lo hi) = False"
| "excludable T (Alt rs) = (\<forall>r \<in> set rs. excludable T r)"
| "excludable T (Seq rs) = (\<forall>r \<in> set rs. excludable T r)"
| "excludable T (Permute rs) = (\<forall>r \<in> set rs. excludable T r)"
| "excludable T (Assertion r k s) = excludable T r"
| "excludable T (Name ns nm d ext) = (case d of None \<Rightarrow> True | Some r \<Rightarrow> excludable T r)"
| "excludable T (PropertyExpression k ident op v code d) = (case d of None \<Rightarrow> True | Some r \<Rightarrow> excludable T r)"
| "excludable T (Capture nm r) = excludable T r"
| "excludable T (Group m r s) = excludable T r"
| "excludable T r = True"

lemma excludable_operand: "excludable T r \<Longrightarrow> p \<in> set (parts r) \<Longrightarrow> excludable T p"
  by (cases r) (auto split: option.splits)

lemma exclude_class:
  assumes "uset_ok (snd ex)" "uset_ok s"
  shows "excludes c ex (CC a s) (exclude_transformCC ex a s)"
proof -
  have e: "subset s (snd ex) = (codepoints s \<subseteq> codepoints (snd ex))"
    "intersects (snd ex) s = (codepoints (snd ex) \<inter> codepoints s \<noteq> {})"
    using subset_iff[OF assms(2,1)] intersects_iff[OF assms] by simp_all
  consider "a \<noteq> fst ex" | "a = fst ex" "codepoints s \<subseteq> codepoints (snd ex)"
    | "a = fst ex" "\<not> codepoints s \<subseteq> codepoints (snd ex)" "codepoints (snd ex) \<inter> codepoints s \<noteq> {}"
    | "a = fst ex" "codepoints (snd ex) \<inter> codepoints s = {}" "\<not> codepoints s \<subseteq> codepoints (snd ex)" by blast
  then show ?thesis
  proof cases
    case 2
    then have "cc_spans c a (codepoints s - codepoints (snd ex)) = {}" by (simp add: Diff_eq_empty_iff[THEN iffD2])
    then show ?thesis using 2 by (simp add: exclude_transformCC_def e makeAlt_def makeAlt_with_def without_class)
  next
    case 3
    have "uset_ok (snd (subtractCC (a, s) ex))" "fst (subtractCC (a, s) ex) = a"
      "codepoints (snd (subtractCC (a, s) ex)) = codepoints s - codepoints (snd ex)"
      using subtractCC_spec[of "(a, s)" ex] assms by simp_all
    then show ?thesis using 3 by (simp add: exclude_transformCC_def e of_cc_def without_class)
  next
    case 4
    then have "codepoints s - codepoints (snd ex) = codepoints s" by blast
    then show ?thesis using 4 assms by (simp add: exclude_transformCC_def e without_class)
  qed (use assms in \<open>simp add: exclude_transformCC_def without_class\<close>)
qed

lemma exclude_difference:
  assumes "\<And>a b. same a b \<Longrightarrow> a = b" "sem_ok c" "uset_ok (snd ex)" "re_ok r" "diff_spine r \<noteq> Seq []"
    and "den (without c ex) r = den c r - den c (of_cc ex)"
  shows "excludes c ex r (changed (makeDiff same r (of_cc ex)))"
proof (cases "makeDiff same r (of_cc ex)")
  case (Some r')
  have "re_ok (of_cc ex)" using assms(3) by (simp add: of_cc_def)
  from makeDiff_spec[OF assms(1,2,4) this disjI1[OF assms(5)] Some] show ?thesis using assms(6) Some by simp
qed simp

lemma exclude_name:
  assumes "\<And>a b. same a b \<Longrightarrow> a = b" "sem_ok c" "uset_ok (snd ex)" "re_ok (Name ns nm d ext)"
    and "\<And>r. d = Some r \<Longrightarrow> excludes c ex r x"
  shows "excludes c ex (Name ns nm d ext) (exclude_transformName same ex ns nm d ext x)"
proof (cases "d = None \<or> (\<exists>a. d = Some (Any a))")
  case True
  then show ?thesis using exclude_difference[of same c ex "Name ns nm d ext"] assms(1-4)
    by (auto simp: exclude_transformName_def)
next
  case False
  then obtain r where r: "d = Some r" "\<And>a. r \<noteq> Any a" by auto
  have "exclude_transformName same ex ns nm (Some r) ext x =
      map_option (\<lambda>(t, ch). if ch then (t, True) else (Name ns nm (Some r) ext, False)) x"
    using r(2) by (cases r) (auto simp: exclude_transformName_def)
  then show ?thesis using assms(5)[OF r(1)] r(1) assms(4) by (cases x) auto
qed

lemma CC_Remover_methods:
  "transformAlt (CC_Remover ex pa same) = base_transformAlt"
  "transformSeq (CC_Remover ex pa same) = base_transformSeq"
  "transformPermute (CC_Remover ex pa same) = base_transformPermute"
  "transformRep (CC_Remover ex pa same) = base_transformRep"
  "transformDiff (CC_Remover ex pa same) = base_transformDiff same"
  "transformGroup (CC_Remover ex pa same) = base_transformGroup"
  "transformCapture (CC_Remover ex pa same) = base_transformCapture"
  "transformStart (CC_Remover ex pa same) = Some (Start, False)"
  "transformEnd (CC_Remover ex pa same) = Some (End, False)"
  "transformCC (CC_Remover ex pa same) = exclude_transformCC ex"
  "transformName (CC_Remover ex pa same) = exclude_transformName same ex"
  "transformPropertyExpression (CC_Remover ex pa same) = exclude_transformPropertyExpression"
  "transformAssertion (CC_Remover ex pa same) = exclude_transformAssertion pa"
  "transformReference (CC_Remover ex pa same) nm x n p = Some (Reference nm x n p, False)"
  "transformAny (CC_Remover ex pa same) a = changed (makeDiff same (Any a) (of_cc ex))"
  by (simp_all add: CC_Remover_def)

lemma exclude_assertion: "exclude_transformAssertion True r k s x = base_transformAssertion r k s x"
  by (cases x) (auto simp: exclude_transformAssertion_def base_transformAssertion_def)

lemma exclude_node:
  fixes ex same
  defines "T \<equiv> CC_Remover ex True same"
  assumes "\<And>a b. same a b \<Longrightarrow> a = b" "sem_ok c" "uset_ok (snd ex)" "re_ok r" "excludable T r"
    and ops: "\<And>p. p \<in> set (parts r) \<Longrightarrow> excludes c ex p (transform T p)"
  shows "excludes c ex r (visit T (transform T) r)"
proof -
  have lists: "list_all2 (excludes c ex) rs (map (transform T) rs)" if "parts r = rs" for rs
    using ops that by (simp add: list_all2_map2 list_all2_same)
  note methods = CC_Remover_methods[of ex True same, folded T_def] exclude_assertion
  show ?thesis
  proof (cases r)
    case (Alt rs)
    then show ?thesis using same_spans.safe_alt[OF _ lists] assms(5) by (simp add: methods)
  next
    case (Seq rs)
    then show ?thesis using same_spans.safe_seq[OF _ lists] assms(5) by (simp add: methods)
  next
    case (Permute rs)
    then show ?thesis using same_spans.safe_permute[OF _ lists] assms(5) by (simp add: methods)
  next
    case (Rep x lb ub)
    have "rep_sound x' lb ub" if "transform T x = Some (x', ch)" for x' ch
      using assms(6) that by (simp add: Rep)
    then show ?thesis using same_spans.safe_rep[OF assms(5)[unfolded Rep]] ops Rep by (simp add: methods)
  next
    case (Diff l m)
    have "diff_spine l' \<noteq> Seq []" if "transform T l = Some (l', ch)" for l' ch using assms(6) that by (simp add: Diff)
    then show ?thesis using safe_diff[of same c l m "without c ex" "transform T l" "transform T m"] assms(2,3,5) ops Diff
      by (simp add: methods)
  next
    case (CC a s)
    then show ?thesis using exclude_class[OF assms(4)] assms(5) by (simp add: methods)
  next
    case (Any a)
    then show ?thesis using exclude_difference[of same c ex "Any a"] assms(2-4) by (simp add: methods)
  next
    case (Name ns nm d ext)
    have "excludes c ex x (Option.bind d (transform T))" if "d = Some x" for x using ops that by (simp add: Name)
    then show ?thesis using exclude_name[of same c ex ns nm d ext] assms(2-5) Name by (simp add: methods)
  next
    case (PropertyExpression k ident op v code d)
    then show ?thesis using ops assms(5)
      by (cases d; cases "transform T (the d)") (auto simp: methods exclude_transformPropertyExpression_def)
  next
    case (Assertion x k s)
    then show ?thesis using same_spans.safe_assertion ops assms(5) by (simp add: methods)
  next
    case (Group m x s)
    then show ?thesis using ops assms(5) by (cases "transform T x") (auto simp: methods base_transformGroup_def)
  next
    case (Capture nm x)
    then show ?thesis using ops assms(5) by (cases "transform T x") (auto simp: methods base_transformCapture_def)
  qed (use assms(5,6) in \<open>auto simp: methods\<close>)
qed

interpretation exclusion: pass
  "\<lambda>r. (\<forall>a b. same a b \<longrightarrow> a = b) \<and> sem_ok c \<and> uset_ok (snd ex) \<and> re_ok r \<and> excludable (CC_Remover ex True same) r"
  "excludes c ex" "CC_Remover ex True same"
proof unfold_locales
  show "excludes c ex r (visit (CC_Remover ex True same) (transform (CC_Remover ex True same)) r)"
    if "(\<forall>a b. same a b \<longrightarrow> a = b) \<and> sem_ok c \<and> uset_ok (snd ex) \<and> re_ok r \<and> excludable (CC_Remover ex True same) r"
      "\<And>p. p \<in> set (parts r) \<Longrightarrow> excludes c ex p (transform (CC_Remover ex True same) p)" for r
    using exclude_node[of same c ex r] that by blast
qed (use re_ok_operand excludable_operand in blast)

section \<open>The pass returns\<close>

text \<open>When no class is excluded altogether, and names are defined, the constructors do not fail.\<close>

fun survives :: "cc_re \<Rightarrow> re \<Rightarrow> bool" where
  "survives ex (CC a s) = (\<not> (a = fst ex \<and> codepoints s \<subseteq> codepoints (snd ex)))"
| "survives ex (Any a) = False"
| "survives ex (Name ns nm d ext) = (case d of None \<Rightarrow> False | Some r \<Rightarrow> survives ex r)"
| "survives ex (PropertyExpression k ident op v code d) = (case d of None \<Rightarrow> True | Some r \<Rightarrow> survives ex r)"
| "survives ex (Alt rs) = (\<forall>r \<in> set rs. survives ex r)"
| "survives ex (Seq rs) = (\<forall>r \<in> set rs. survives ex r)"
| "survives ex (Permute rs) = (\<forall>r \<in> set rs. survives ex r)"
| "survives ex (Assertion r k s) = survives ex r"
| "survives ex (Capture nm r) = survives ex r"
| "survives ex (Group m r s) = survives ex r"
| "survives ex (Rep r lb ub) = survives ex r"
| "survives ex r = True"

lemma survives_operand: "survives ex r \<Longrightarrow> plain r \<Longrightarrow> p \<in> set (parts r) \<Longrightarrow> survives ex p"
  by (cases r) (auto split: option.splits)

interpretation any_spans_related: span_relation "\<lambda>R S. True"
  by unfold_locales simp_all

lemma survives_class:
  assumes "uset_ok (snd ex)" "plain (CC a s)" "survives ex (CC a s)"
  shows "xok (\<lambda>R S. True) c c (CC a s) (exclude_transformCC ex a s)"
proof -
  have e: "subset s (snd ex) = (codepoints s \<subseteq> codepoints (snd ex))" using subset_iff[of s "snd ex"] assms(1,2) by simp
  have "uset_ok (snd (subtractCC (a, s) ex))" "codepoints (snd (subtractCC (a, s) ex)) = codepoints s - codepoints (snd ex)"
    using subtractCC_spec[of "(a, s)" ex] assms(1,2) by simp_all
  then show ?thesis using assms(2,3) by (auto simp: exclude_transformCC_def e of_cc_def)
qed

lemma replaced_result:
  assumes "xok (\<lambda>R S. True) c c x y" "plain r"
  shows "xok (\<lambda>R S. True) c c r (map_option (\<lambda>(t, ch). if ch then (t, True) else (r, False)) y)"
proof -
  obtain t ch where "y = Some (t, ch)" "plain t" using assms(1) by (auto simp: xok_def)
  then show ?thesis using assms(2) by (cases ch) simp_all
qed

lemma survives_node:
  fixes ex same
  defines "T \<equiv> CC_Remover ex True same"
  assumes "uset_ok (snd ex)" "plain r" "survives ex r"
    and ops: "\<And>p. p \<in> set (parts r) \<Longrightarrow> xok (\<lambda>R S. True) c c p (transform T p)"
  shows "xok (\<lambda>R S. True) c c r (visit T (transform T) r)"
proof -
  note methods = CC_Remover_methods[of ex True same, folded T_def] exclude_assertion
  have base: "xok (\<lambda>R S. True) c c r (visit (base_class same) (transform T) r)"
    by (rule any_spans_related.base_visit[OF TrueI _ plain_nodeD[OF assms(3)] ops]) (simp add: groups_respect_def)
  show ?thesis
  proof (cases r)
    case (CC a s)
    then show ?thesis using survives_class[OF assms(2)] assms(3,4) by (simp add: methods)
  next
    case (Name ns nm d ext)
    then obtain x where x: "d = Some x" "survives ex x" using assms(4) by (cases d) auto
    have "exclude_transformName same ex ns nm (Some x) ext (transform T x) =
        map_option (\<lambda>(t, ch). if ch then (t, True) else (Name ns nm (Some x) ext, False)) (transform T x)"
      using x(2) by (cases x) (auto simp: exclude_transformName_def)
    then show ?thesis using replaced_result[of c x "transform T x" "Name ns nm (Some x) ext"] ops[of x] assms(3) x(1)
      by (simp add: Name methods)
  next
    case (PropertyExpression k ident op v code d)
    then show ?thesis using ops assms(3)
      by (cases d) (simp_all add: methods exclude_transformPropertyExpression_def replaced_result)
  qed (use base assms(3,4) in \<open>simp_all add: methods\<close>)
qed

interpretation exclusion_total: pass "\<lambda>r. uset_ok (snd ex) \<and> plain r \<and> survives ex r"
  "xok (\<lambda>R S. True) c c" "CC_Remover ex True same"
proof unfold_locales
  show "xok (\<lambda>R S. True) c c r (visit (CC_Remover ex True same) (transform (CC_Remover ex True same)) r)"
    if "uset_ok (snd ex) \<and> plain r \<and> survives ex r"
      "\<And>p. p \<in> set (parts r) \<Longrightarrow> xok (\<lambda>R S. True) c c p (transform (CC_Remover ex True same) p)" for r
    using survives_node[of ex r c same] that by blast
qed (use plain_operand survives_operand in blast)

text \<open>On such expressions the constructors do not lose spans either.\<close>

lemma survives_excludable:
  assumes "uset_ok (snd ex)"
  shows "plain r \<Longrightarrow> survives ex r \<Longrightarrow> excludable (CC_Remover ex True same) r"
proof (induction r)
  case (Rep r lb ub)
  have "rep_sound r' lb ub" if "transform (CC_Remover ex True same) r = Some (r', ch)" for r' ch
  proof -
    have "xok (\<lambda>R S. True) undefined undefined r (transform (CC_Remover ex True same) r)"
      using exclusion_total.transform_ok[of ex r undefined same] Rep.prems assms by simp
    then have "plain r'" using that by (auto simp: xok_def)
    then show ?thesis using Rep.prems(1) by (auto simp: rep_sound_def plain_not_empty basic_bounds_def)
  qed
  then show ?case using Rep by (auto split: option.splits)
next
  case (Name ns nm d ext)
  then show ?case by (cases d) auto
next
  case (PropertyExpression k ident op v code d)
  then show ?case by (cases d) auto
qed auto

end
