(* ===== verification/RE_Pass_Empty.thy ===== *)
theory RE_Pass_Empty imports RE_Pass_Safe begin

text \<open>
  The elimination of empty matches (\<open>remove_nullable.cpp\<close>): the result matches what the original
  matches, without the empty matches.
\<close>

section \<open>Non-empty spans\<close>

abbreviation nonempty_part :: "spans \<Rightarrow> spans \<Rightarrow> bool" where
  "nonempty_part R S \<equiv> S = R - Id"

interpretation nonempty: span_union nonempty_part
proof unfold_locales
  fix P :: "(spans \<times> spans) set"
  assume "\<And>R S. (R, S) \<in> P \<Longrightarrow> nonempty_part R S"
  then have "snd p = fst p - Id" if "p \<in> P" for p using that by (cases p) simp
  then show "nonempty_part (\<Union> (fst ` P)) (\<Union> (snd ` P))" by auto
qed

lemma forward_comp_nonempty:
  assumes "forward R" "forward S"
  shows "(R O S) - Id = (R - Id) O S \<union> R O (S - Id)"
proof
  show "(R O S) - Id \<subseteq> (R - Id) O S \<union> R O (S - Id)" by blast
  show "(R - Id) O S \<union> R O (S - Id) \<subseteq> (R O S) - Id"
  proof (rule subrelI)
    fix i k
    assume "(i, k) \<in> (R - Id) O S \<union> R O (S - Id)"
    then obtain j where j: "(i, j) \<in> R" "(j, k) \<in> S" "i \<noteq> j \<or> j \<noteq> k" by auto
    then have "i \<le> j" "j \<le> k" using assms by auto
    with j show "(i, k) \<in> (R O S) - Id" by auto
  qed
qed

lemma strict_power: "forward R \<Longrightarrow> 0 < n \<Longrightarrow> (R - Id) ^^ n \<subseteq> R ^^ n - Id"
proof -
  assume fwd: "forward R"
  have "(i, j) \<in> (R - Id) ^^ n \<Longrightarrow> i + n \<le> j" for i j
  proof (induction n arbitrary: j)
    case (Suc n)
    then obtain k where k: "(i, k) \<in> (R - Id) ^^ n" "(k, j) \<in> R" "k \<noteq> j" by auto
    then have "k \<le> j" using fwd by auto
    with k Suc.IH[OF k(1)] show ?case by simp
  qed simp
  moreover have "(R - Id) ^^ n \<subseteq> R ^^ n" by (induction n) (auto intro!: relcomp_mono)
  ultimately show "0 < n \<Longrightarrow> (R - Id) ^^ n \<subseteq> R ^^ n - Id" by fastforce
qed

lemma power_nonempty: "R ^^ n - Id \<subseteq> (\<Union>k \<in> {1..n}. (R - Id) ^^ k)"
proof (induction n)
  case (Suc n)
  have step: "p \<in> (\<Union>k \<in> {1..Suc n}. (R - Id) ^^ k)" if p: "p \<in> R ^^ Suc n - Id" for p
  proof -
    obtain i j k where ijk: "p = (i, k)" "(i, j) \<in> R ^^ n" "(j, k) \<in> R" "i \<noteq> k" using p by (cases p) auto
    show ?thesis
    proof (cases "i = j")
      case True
      then have "p \<in> (R - Id) ^^ 1" using ijk by simp
      then show ?thesis by (intro UN_I[of 1]) simp_all
    next
      case False
      then have "(i, j) \<in> R ^^ n - Id" using ijk by simp
      then obtain m where m: "m \<in> {1..n}" "(i, j) \<in> (R - Id) ^^ m" using Suc.IH by blast
      show ?thesis
      proof (cases "j = k")
        case True
        then show ?thesis using m ijk by (intro UN_I[of m]) auto
      next
        case False
        then have "(i, k) \<in> (R - Id) ^^ Suc m" using m ijk by auto
        then show ?thesis using m ijk(1) by (intro UN_I[of "Suc m"]) auto
      qed
    qed
  qed
  then show ?case by blast
qed simp

lemma rep_nonempty:
  assumes "forward R" "valid_bounds lb ub" "lb \<le> 1"
  shows "rep_spans R (rep_counts lb ub) - Id = rep_spans (R - Id) (rep_counts 1 ub)"
proof
  show "rep_spans R (rep_counts lb ub) - Id \<subseteq> rep_spans (R - Id) (rep_counts 1 ub)"
  proof (rule subrelI)
    fix i j
    assume "(i, j) \<in> rep_spans R (rep_counts lb ub) - Id"
    then obtain n where n: "n \<in> rep_counts lb ub" "(i, j) \<in> R ^^ n - Id" by (auto simp: rep_spans_def)
    then obtain k where k: "k \<in> {1..n}" "(i, j) \<in> (R - Id) ^^ k" using power_nonempty[of n R] by blast
    then have "k \<in> rep_counts 1 ub" using n(1) by (auto simp: rep_counts_iff)
    with k(2) show "(i, j) \<in> rep_spans (R - Id) (rep_counts 1 ub)" by (auto simp: rep_spans_def)
  qed
  show "rep_spans (R - Id) (rep_counts 1 ub) \<subseteq> rep_spans R (rep_counts lb ub) - Id"
  proof (rule subrelI)
    fix i j
    assume "(i, j) \<in> rep_spans (R - Id) (rep_counts 1 ub)"
    then obtain n where n: "n \<in> rep_counts 1 ub" "(i, j) \<in> (R - Id) ^^ n" by (auto simp: rep_spans_def)
    then have "0 < n" "n \<in> rep_counts lb ub" using assms(3) by (auto simp: rep_counts_iff)
    with n(2) strict_power[OF assms(1), of n] show "(i, j) \<in> rep_spans R (rep_counts lb ub) - Id" by (auto simp: rep_spans_def)
  qed
qed

section \<open>The methods\<close>

lemma nonempty_alt:
  assumes "re_ok (Alt rs)" "list_all2 (safe nonempty_part c c) rs xs"
  shows "safe nonempty_part c c (Alt rs) (nonempty_transformAlt rs xs)"
proof (cases "gather_elems xs")
  case (Some p)
  obtain es any where p: "gather_elems xs = Some (es, any)" using Some by (cases p) simp
  note elems = gather_elems_safe[OF assms(2) p]
  let ?l = "filter (\<lambda>e. \<not> isEmptySet e) es"
  have ok: "\<forall>e \<in> set es. re_ok e" "\<forall>e \<in> set ?l. re_ok e" using elems by auto
  have all: "(\<Union>e \<in> set es. den c e) = den c (Alt rs) - Id"
    using nonempty.union_list[OF conjunct1[OF conjunct2[OF elems]]] by simp
  have "den c e = {}" if "e \<in> set es" "isEmptySet e" for e using isEmptySet_den ok that by blast
  then have "(\<Union>e \<in> set ?l. den c e) = (\<Union>e \<in> set es. den c e)" by fastforce
  with all have u: "(\<Union>e \<in> set ?l. den c e) = den c (Alt rs) - Id" by (rule trans[rotated])
  show ?thesis
  proof (cases "any")
    case False
    then show ?thesis using p elems all assms(1) by (auto simp: nonempty_transformAlt_def)
  next
    case any: True
    show ?thesis
    proof (cases "length ?l = 1")
      case True
      then obtain e where e: "?l = [e]" by (auto simp: length_Suc_conv)
      then show ?thesis using p any u ok(2) by (simp add: nonempty_transformAlt_def)
    next
      case False
      then show ?thesis using p any u makeAlt_spec[OF ok(2)] by (cases "makeAlt ?l") (auto simp: nonempty_transformAlt_def)
    qed
  qed
qed (simp add: nonempty_transformAlt_def)

lemma nonempty_alts_spec:
  "list_all2 (safe nonempty_part c c) rs xs \<Longrightarrow> \<forall>r \<in> set (before @ rs). re_ok r \<and> forward (den c r) \<Longrightarrow>
   nonempty_alts before rs xs = Some alts \<Longrightarrow>
   (\<forall>r \<in> set alts. re_ok r) \<and>
   (\<Union>r \<in> set alts. den c r) = seq_spans (map (den c) before) O (seq_spans (map (den c) rs) - Id)"
proof (induction arbitrary: before alts rule: list_all2_induct)
  case (Cons r rs x xs)
  obtain e ch alts' where x: "x = Some (e, ch)" "nonempty_alts (before @ [r]) rs xs = Some alts'"
    "alts = (if isEmptySet e then alts' else makeSeq (before @ [e] @ rs) # alts')"
    using Cons.prems(2) by (auto split: option.splits)
  let ?B = "seq_spans (map (den c) before)" and ?S = "seq_spans (map (den c) rs)"
  have e: "re_ok e" "den c e = den c r - Id" using Cons.hyps(1) x(1) by simp_all
  have ok: "\<forall>r \<in> set (before @ [e] @ rs). re_ok r" using Cons.prems(1) e(1) by auto
  have "\<forall>R \<in> set (map (den c) rs). forward R" using Cons.prems(1) by simp
  from forward_seq[OF this] have fwd: "forward (den c r)" "forward ?S" using Cons.prems(1) by simp_all
  from Cons.IH[OF _ x(2)] Cons.prems(1)
  have alts': "\<forall>r \<in> set alts'. re_ok r" "(\<Union>r \<in> set alts'. den c r) = (?B O den c r) O (?S - Id)" by simp_all
  have "(\<Union>r \<in> set alts. den c r) = ?B O ((den c r - Id) O ?S) \<union> ?B O (den c r O (?S - Id))"
  proof (cases "isEmptySet e")
    case True
    then have "?B O ((den c r - Id) O ?S) = {}" using isEmptySet_den[OF e(1), of c] e(2) by (metis relcomp_empty1 relcomp_empty2)
    then show ?thesis using True x(3) alts'(2) by (simp add: O_assoc)
  next
    case False
    then show ?thesis using x(3) alts'(2) makeSeq_spec(2)[OF ok, of c] e(2) by (simp add: O_assoc)
  qed
  also have "\<dots> = ?B O (den c r O ?S - Id)" unfolding forward_comp_nonempty[OF fwd] by blast
  finally have "(\<Union>r \<in> set alts. den c r) = ?B O (den c r O ?S - Id)" .
  moreover have "\<forall>r \<in> set alts. re_ok r" using alts'(1) makeSeq_spec(1)[OF ok] x(3) by auto
  ultimately show ?case by simp
qed simp

text \<open>The context is a text, in which lengths of matches are known.\<close>

lemma nonempty_seq:
  assumes "good_externals e" "c = unicode_text e w" "re_ok (Seq rs)" "measurable Unicode (Seq rs)"
    and "list_all2 (safe nonempty_part c c) rs xs"
  shows "safe nonempty_part c c (Seq rs) (nonempty_transformSeq rs xs)"
proof (cases "getLengthRange Unicode (Seq rs)")
  case (Some p)
  then obtain lo hi where range: "getLengthRange Unicode (Seq rs) = Some (lo, hi)" by (cases p) simp
  note sound = length_index.range_sound[OF unicode_lengths[OF assms(1)]]
  have "within id (lo, hi) (den c (Seq rs))" using sound[OF assms(3,4)] range assms(2) by blast
  note within = withinD[OF this]
  have "forward (den c r)" if "r \<in> set rs" for r using sound[of r w] assms(2-4) that by auto
  then have elems: "\<forall>r \<in> set ([] @ rs). re_ok r \<and> forward (den c r)" using assms(3) by simp
  show ?thesis
  proof (cases "lo > 0")
    case True
    then have "den c (Seq rs) = den c (Seq rs) - Id" using within(6) by fastforce
    then show ?thesis using True range assms(3) by (simp add: nonempty_transformSeq_def)
  next
    case lo: False
    show ?thesis
    proof (cases "hi = 0")
      case True
      then have "den c (Seq rs) - Id = {}" using within(5,7) by (fastforce simp: INT_MAX_def)
      then show ?thesis using True lo range by (simp add: nonempty_transformSeq_def makeAlt_def makeAlt_with_def)
    next
      case hi: False
      show ?thesis
      proof (cases "nonempty_alts [] rs xs")
        case (Some alts)
        from nonempty_alts_spec[OF assms(5) elems Some]
        have alts: "\<forall>r \<in> set alts. re_ok r" "(\<Union>r \<in> set alts. den c r) = den c (Seq rs) - Id" by simp_all
        show ?thesis
        proof (cases "length alts = 1")
          case True
          then obtain a where "alts = [a]" by (auto simp: length_Suc_conv)
          then show ?thesis using alts Some range lo hi by (simp add: nonempty_transformSeq_def)
        next
          case False
          then show ?thesis using alts Some range lo hi makeAlt_spec[OF alts(1)]
            by (cases "makeAlt alts") (simp_all add: nonempty_transformSeq_def)
        qed
      qed (use range lo hi in \<open>simp add: nonempty_transformSeq_def\<close>)
    qed
  qed
qed (simp add: nonempty_transformSeq_def)

lemma nonempty_rep:
  assumes "re_ok (Rep r lb ub)" "forward (den c r)" "safe nonempty_part c c r x"
    and "lb \<le> 1 \<or> (\<exists>r'. x = Some (r', False))"
  shows "safe nonempty_part c c (Rep r lb ub) (nonempty_transformRep r lb ub x)"
proof (cases x)
  case (Some p)
  obtain s ch where x: "x = Some (s, ch)" using Some by (cases p) simp
  have s: "re_ok s" "den c s = den c r - Id" "\<not> ch \<longrightarrow> s = r" using assms(3) x by simp_all
  have b: "valid_bounds lb ub" using assms(1) by simp
  show ?thesis
  proof (cases "\<not> ch \<and> 1 \<le> lb")
    case True
    then have "den c r - Id = den c r" using s by simp
    then have "den c r ^^ n \<subseteq> den c r ^^ n - Id" if "n \<in> rep_counts lb ub" for n
      using strict_power[OF assms(2), of n] that True by (simp add: rep_counts_iff)
    then have "den c (Rep r lb ub) = den c (Rep r lb ub) - Id" unfolding den.simps rep_spans_def by blast
    then show ?thesis using True x assms(1) by (simp add: nonempty_transformRep_def)
  next
    case changed: False
    then have lb: "lb \<le> 1" using assms(4) x by auto
    note spans = rep_nonempty[OF assms(2) b lb]
    show ?thesis
    proof (cases "ub = 1")
      case True
      then have "rep_counts 1 ub = {1}" by (auto simp: rep_counts_iff)
      then show ?thesis using True changed x s spans by (auto simp: nonempty_transformRep_def)
    next
      case False
      have one: "(if lb = 0 then 1 else lb) = 1" using lb b by (auto simp: valid_bounds_def)
      show ?thesis
      proof (cases "ub = 0")
        case True
        have "makeRep s 1 0 = None" using makeRep_unbounded_zero[of s] by (simp add: makeRep_def)
        then show ?thesis using True changed x one by (auto simp: nonempty_transformRep_def)
      next
        case ub: False
        then have "valid_bounds 1 ub" using b lb by (auto simp: valid_bounds_def)
        from makeRep_pos[OF s(1) this, of c] obtain r' where "makeRep s 1 ub = Some r'" "re_ok r'"
          "den c r' = rep_spans (den c r - Id) (rep_counts 1 ub)" unfolding makeRep_def s(2) by auto
        then show ?thesis using changed x one False spans by (auto simp: nonempty_transformRep_def)
      qed
    qed
  qed
qed (simp add: nonempty_transformRep_def)

text \<open>The expressions considered: no permutations, intersections, symbolic ranges, back references
  and external properties of boundaries, and no repetition from 2 on of an expression that the pass
  changes. (\<open>makeDiff\<close> takes the empty sequence on the left for one that never matches.)\<close>

fun eliminable :: "(re \<Rightarrow> re \<Rightarrow> bool) \<Rightarrow> re \<Rightarrow> bool" where
  "eliminable same (Rep r lb ub) = (eliminable same r \<and>
     (lb \<le> 1 \<or> (case transform (RemoveEmptyTransformer same) r of Some (r', ch) \<Rightarrow> \<not> ch | None \<Rightarrow> True)))"
| "eliminable same (Diff l r) = (eliminable same l \<and> eliminable same r \<and> measurable Unicode r \<and>
     (case transform (RemoveEmptyTransformer same) l of Some (l', ch) \<Rightarrow> diff_spine l' \<noteq> Seq [] | None \<Rightarrow> True))"
| "eliminable same (Intersect l r) = False"
| "eliminable same (Range lo hi) = False"
| "eliminable same (Permute rs) = False"
| "eliminable same (Reference nm r n p) = False"
| "eliminable same (PropertyExpression k ident op v code d) = (k = Codepoint \<and> d = None)"
| "eliminable same (Alt rs) = (\<forall>r \<in> set rs. eliminable same r)"
| "eliminable same (Seq rs) = (\<forall>r \<in> set rs. eliminable same r)"
| "eliminable same (Assertion r k s) = (eliminable same r \<and> measurable Unicode r)"
| "eliminable same (Name ns nm d ext) = (case d of None \<Rightarrow> True | Some r \<Rightarrow> eliminable same r)"
| "eliminable same (Capture nm r) = eliminable same r"
| "eliminable same (Group m r s) = eliminable same r"
| "eliminable same r = True"

lemma eliminable_operand: "eliminable same r \<Longrightarrow> p \<in> set (parts r) \<Longrightarrow> eliminable same p"
  by (cases r) (auto split: option.splits)

lemma safe_nonempty_diff:
  assumes "\<And>a b. same a b \<Longrightarrow> a = b" "sem_ok c" "re_ok (Diff l r)"
    and "safe nonempty_part c c l x" "safe nonempty_part c c r y" "\<And>l' ch. x = Some (l', ch) \<Longrightarrow> diff_spine l' \<noteq> Seq []"
  shows "safe nonempty_part c c (Diff l r) (base_transformDiff same l r x y)"
proof (cases "x = None \<or> y = None")
  case False
  then obtain l' ch r' ch' where p: "x = Some (l', ch)" "y = Some (r', ch')" by auto
  have l': "re_ok l'" "den c l' = den c l - Id" "\<not> ch \<longrightarrow> l' = l" and r': "re_ok r'" "den c r' = den c r - Id" "\<not> ch' \<longrightarrow> r' = r"
    using assms(4,5) p by simp_all
  have diff: "den c l' - den c r' = den c (Diff l r) - Id" unfolding l'(2) r'(2) by auto
  consider "\<not> ch \<and> \<not> ch'" | "ch \<or> ch'" "makeDiff same l' r' = None" | d where "ch \<or> ch'" "makeDiff same l' r' = Some d"
    by blast
  then show ?thesis
  proof cases
    case 1
    then have "base_transformDiff same l r x y = Some (Diff l r, False)" by (simp add: base_transformDiff_def p)
    moreover have "den c (Diff l r) = den c (Diff l r) - Id" using diff l'(3) r'(3) 1 by simp
    ultimately show ?thesis using assms(3) by simp
  next
    case 2
    then have "base_transformDiff same l r x y = None" by (auto simp: base_transformDiff_def p)
    then show ?thesis by simp
  next
    case (3 d)
    then have "base_transformDiff same l r x y = Some (d, True)" by (auto simp: base_transformDiff_def p)
    moreover have "re_ok d \<and> den c d = den c l' - den c r'"
      by (rule makeDiff_spec[OF assms(1,2) l'(1) r'(1) disjI1[OF assms(6)[OF p(1)]] 3(2)])
    ultimately show ?thesis using diff by simp
  qed
qed (auto simp: base_transformDiff_def split: option.split)

lemma nonempty_leaf: "re_ok r \<Longrightarrow> den c r \<subseteq> steps 1 \<Longrightarrow> safe nonempty_part c c r (Some (r, False))"
  by fastforce

lemma nonempty_anchor: "den c r \<subseteq> Id \<Longrightarrow> safe nonempty_part c c r (changed (makeAlt []))"
  by (simp add: makeAlt_def makeAlt_with_def)

lemma RemoveEmptyTransformer_methods:
  "transformAlt (RemoveEmptyTransformer same) = nonempty_transformAlt"
  "transformSeq (RemoveEmptyTransformer same) = nonempty_transformSeq"
  "transformRep (RemoveEmptyTransformer same) = nonempty_transformRep"
  "transformDiff (RemoveEmptyTransformer same) = base_transformDiff same"
  "transformGroup (RemoveEmptyTransformer same) = base_transformGroup"
  "transformCapture (RemoveEmptyTransformer same) = base_transformCapture"
  "transformStart (RemoveEmptyTransformer same) = changed (makeAlt [])"
  "transformEnd (RemoveEmptyTransformer same) = changed (makeAlt [])"
  "transformCC (RemoveEmptyTransformer same) a s = Some (CC a s, False)"
  "transformAny (RemoveEmptyTransformer same) a = Some (Any a, False)"
  "transformName (RemoveEmptyTransformer same) = nonempty_transformName"
  "transformPropertyExpression (RemoveEmptyTransformer same) = base_transformPropertyExpression NoNameTransformation"
  "transformAssertion (RemoveEmptyTransformer same) r k q x = changed (makeAlt [])"
  by (simp_all add: RemoveEmptyTransformer_def)

lemma nonempty_node:
  fixes same e w
  defines "T \<equiv> RemoveEmptyTransformer same" and "c \<equiv> unicode_text e w"
  assumes same: "\<And>a b. same a b \<Longrightarrow> a = b" and "sem_ok c" "good_externals e"
    and "re_ok r" "measurable Unicode r" "eliminable same r"
    and ops: "\<And>p. p \<in> set (parts r) \<Longrightarrow> safe nonempty_part c c p (transform T p)"
  shows "safe nonempty_part c c r (visit T (transform T) r)"
proof -
  have lists: "list_all2 (safe nonempty_part c c) rs (map (transform T) rs)" if "parts r = rs" for rs
    using ops that by (simp add: list_all2_map2 list_all2_same)
  note methods = RemoveEmptyTransformer_methods[of same, folded T_def]
  note leaves = text_leaves[OF assms(5), of w, folded c_def]
  have groups: "group_spans c m s R = R" for m s R by (simp add: c_def unicode_text_def text_sem_def)
  show ?thesis
  proof (cases r)
    case (Alt rs)
    then show ?thesis using nonempty_alt[OF _ lists] assms(6) by (simp add: methods)
  next
    case (Seq rs)
    then show ?thesis using nonempty_seq[OF assms(5) _ _ _ lists, of w] assms(6,7) by (simp add: methods c_def)
  next
    case (Rep x lb ub)
    have cond: "lb \<le> 1 \<or> (\<exists>r'. transform T x = Some (r', False))" if "transform T x \<noteq> None"
      using assms(8) that by (auto simp: Rep T_def)
    have "forward (den c x)"
      using length_index.range_sound[OF unicode_lengths[OF assms(5)], of x w] assms(6,7) by (simp add: Rep c_def)
    from nonempty_rep[OF assms(6)[unfolded Rep] this, of "transform T x"] ops cond Rep show ?thesis
      by (cases "transform T x") (simp_all add: methods nonempty_transformRep_def)
  next
    case (Diff l m)
    have "diff_spine l' \<noteq> Seq []" if "transform T l = Some (l', ch)" for l' ch
      using assms(8) that by (simp add: Diff T_def)
    then show ?thesis using safe_nonempty_diff[of same c l m "transform T l" "transform T m"] same assms(4,6) ops Diff
      by (simp add: methods)
  next
    case (CC a s)
    from nonempty_leaf[OF assms(6), of c] leaves(1)[of a "codepoints s"] show ?thesis
      by (simp only: CC visit.simps methods den.simps)
  next
    case (Any a)
    from nonempty_leaf[OF assms(6), of c] leaves(2)[of a] show ?thesis
      by (simp only: Any visit.simps methods den.simps)
  next
    case Start
    have "den c Start \<subseteq> Id" by auto
    then show ?thesis using nonempty_anchor[of c Start] Start by (simp add: methods)
  next
    case End
    have "den c End \<subseteq> Id" by auto
    then show ?thesis using nonempty_anchor[of c End] End by (simp add: methods)
  next
    case (Assertion x k s)
    have "den c r \<subseteq> Id" by (auto simp: Assertion look_spans_def)
    then show ?thesis using nonempty_anchor[of c r] Assertion by (simp add: methods)
  next
    case (Name ns nm d ext)
    then show ?thesis using ops assms(6)
      by (cases d; cases "transform T (the d)") (auto simp: methods nonempty_transformName_def)
  next
    case (PropertyExpression k ident op v code d)
    have "k = Codepoint" "d = None" using assms(8) by (simp_all add: PropertyExpression)
    then have r: "r = PropertyExpression Codepoint ident op v code None" by (simp add: PropertyExpression)
    from nonempty_leaf[OF assms(6), of c] leaves(3)[of ident op v] show ?thesis
      by (simp only: r visit.simps methods den.simps base_transformPropertyExpression_def option.case)
  next
    case (Group m x s)
    then show ?thesis using ops assms(6) by (cases "transform T x") (auto simp: methods base_transformGroup_def groups)
  next
    case (Capture nm x)
    then show ?thesis using ops assms(6) by (cases "transform T x") (auto simp: methods base_transformCapture_def)
  qed (use assms(8) in simp_all)
qed

lemma measurable_operand:
  "measurable Unicode r \<Longrightarrow> eliminable same r \<Longrightarrow> p \<in> set (parts r) \<Longrightarrow> measurable Unicode p"
  by (cases r) (auto split: option.splits)

interpretation elimination: pass
  "\<lambda>r. (\<forall>a b. same a b \<longrightarrow> a = b) \<and> sem_ok (unicode_text e w) \<and> good_externals e \<and> re_ok r
     \<and> measurable Unicode r \<and> eliminable same r"
  "safe nonempty_part (unicode_text e w) (unicode_text e w)" "RemoveEmptyTransformer same"
proof unfold_locales
  let ?src = "\<lambda>r. (\<forall>a b. same a b \<longrightarrow> a = b) \<and> sem_ok (unicode_text e w) \<and> good_externals e \<and> re_ok r
     \<and> measurable Unicode r \<and> eliminable same r"
  let ?T = "RemoveEmptyTransformer same"
  show "safe nonempty_part (unicode_text e w) (unicode_text e w) r (visit ?T (transform ?T) r)"
    if "?src r" "\<And>p. p \<in> set (parts r) \<Longrightarrow> safe nonempty_part (unicode_text e w) (unicode_text e w) p (transform ?T p)" for r
    using nonempty_node[of same e w r] that by blast
qed (use re_ok_operand eliminable_operand measurable_operand in blast)

section \<open>The pass returns\<close>

text \<open>On plain expressions of classes, anchors, assertions and defined names the result is plain, or the
  empty set.\<close>

fun bare :: "re \<Rightarrow> bool" where
  "bare (Alt rs) = (\<forall>r \<in> set rs. bare r)"
| "bare (Seq rs) = (\<forall>r \<in> set rs. bare r)"
| "bare (Rep r lb ub) = bare r"
| "bare (Assertion r k s) = bare r"
| "bare (Name ns nm d ext) = (case d of None \<Rightarrow> False | Some r \<Rightarrow> bare r)"
| "bare (CC a s) = True"
| "bare (Any a) = True"
| "bare Start = True"
| "bare End = True"
| "bare r = False"

definition remains :: "re \<Rightarrow> xres \<Rightarrow> bool" where
  "remains r x \<longleftrightarrow> (\<exists>e ch. x = Some (e, ch) \<and> (plain e \<or> e = Alt []) \<and> (\<not> ch \<longrightarrow> e = r))"

lemma remains_simps [simp]:
  "remains r (Some (r, False)) = (plain r \<or> r = Alt [])" "remains r (Some (e, True)) = (plain e \<or> e = Alt [])"
  by (auto simp: remains_def)

lemma isEmptySet_Alt: "isEmptySet (Alt [])"
  by (simp add: isEmptySet_def)

lemma makeAlt_Nil: "makeAlt [] = Some (Alt [])"
  by (simp add: makeAlt_def makeAlt_with_def)

lemma remains_makeAlt: "\<forall>r \<in> set rs. plain r \<Longrightarrow> \<exists>r'. makeAlt rs = Some r' \<and> (plain r' \<or> r' = Alt [])"
  using plain_makeAlt[of rs] by (cases "rs = []") (auto simp: makeAlt_Nil)

lemma gather_elems_remains:
  "list_all2 remains rs xs \<Longrightarrow> \<forall>r \<in> set rs. plain r \<Longrightarrow>
   \<exists>p. gather_elems xs = Some p \<and> (\<forall>e \<in> set (filter (\<lambda>e. \<not> isEmptySet e) (fst p)). plain e)"
proof (induction rule: list_all2_induct)
  case (Cons r rs x xs)
  obtain e ch where "x = Some (e, ch)" "plain e \<or> e = Alt []" using Cons.hyps(1) by (auto simp: remains_def)
  with Cons show ?case by (auto simp: isEmptySet_Alt)
qed simp

lemma remains_alt:
  assumes "plain (Alt rs)" "list_all2 remains rs xs"
  shows "remains (Alt rs) (nonempty_transformAlt rs xs)"
proof -
  have "\<forall>r \<in> set rs. plain r" using assms(1) by simp
  from gather_elems_remains[OF assms(2) this] obtain es any where es: "gather_elems xs = Some (es, any)"
    "\<forall>e \<in> set (filter (\<lambda>e. \<not> isEmptySet e) es). plain e" by auto
  from remains_makeAlt[OF es(2)] obtain r' where r': "makeAlt (filter (\<lambda>e. \<not> isEmptySet e) es) = Some r'" "plain r' \<or> r' = Alt []" by blast
  have "plain (hd (filter (\<lambda>e. \<not> isEmptySet e) es))" if "length (filter (\<lambda>e. \<not> isEmptySet e) es) = 1"
    using es(2) that by (metis hd_in_set length_0_conv zero_neq_one)
  then show ?thesis using es(1) r' assms(1) by (simp add: nonempty_transformAlt_def Let_def)
qed

lemma nonempty_alts_remains:
  "list_all2 remains rs xs \<Longrightarrow> \<forall>r \<in> set (before @ rs). plain r \<Longrightarrow>
   \<exists>alts. nonempty_alts before rs xs = Some alts \<and> (\<forall>r \<in> set alts. plain r)"
proof (induction arbitrary: before rule: list_all2_induct)
  case (Cons r rs x xs)
  obtain e ch where e: "x = Some (e, ch)" "plain e \<or> e = Alt []" using Cons.hyps(1) by (auto simp: remains_def)
  from Cons.IH[of "before @ [r]"] Cons.prems obtain alts where alts: "nonempty_alts (before @ [r]) rs xs = Some alts"
    "\<forall>r \<in> set alts. plain r" by auto
  have "plain (makeSeq (before @ [e] @ rs))" if "\<not> isEmptySet e"
    using e(2) that Cons.prems by (intro plain_makeSeq) (auto simp: isEmptySet_Alt)
  with alts e(1) show ?case by auto
qed simp

lemma remains_seq:
  assumes "plain (Seq rs)" "list_all2 remains rs xs"
  shows "remains (Seq rs) (nonempty_transformSeq rs xs)"
proof -
  obtain lo hi where range: "getLengthRange Unicode (Seq rs) = Some (lo, hi)" using plain_measured[OF assms(1)] by blast
  have "\<forall>r \<in> set ([] @ rs). plain r" using assms(1) by simp
  from nonempty_alts_remains[OF assms(2) this] obtain alts where alts: "nonempty_alts [] rs xs = Some alts"
    "\<forall>r \<in> set alts. plain r" by blast
  from remains_makeAlt[OF alts(2)] obtain r' where "makeAlt alts = Some r'" "plain r' \<or> r' = Alt []" by blast
  moreover have "plain (hd alts)" if "length alts = 1" using alts(2) that by (metis hd_in_set length_0_conv zero_neq_one)
  ultimately show ?thesis using range alts(1) assms(1) by (simp add: nonempty_transformSeq_def makeAlt_Nil)
qed

lemma remains_rep:
  assumes "plain (Rep r lb ub)" "remains r x"
  shows "remains (Rep r lb ub) (nonempty_transformRep r lb ub x)"
proof -
  obtain s ch where s: "x = Some (s, ch)" "plain s \<or> s = Alt []" using assms(2) by (auto simp: remains_def)
  have b: "basic_bounds lb ub" using assms(1) by simp
  then have one: "(if lb = 0 then 1 else lb) = 1" "basic_bounds 1 ub" by (auto simp: basic_bounds_def)
  have "\<exists>r'. makeRep s 1 ub = Some r' \<and> (plain r' \<or> r' = Alt [])"
  proof (cases "s = Alt []")
    case True
    then show ?thesis using b by (auto simp: makeRep_def makeRep_rec.simps isEmptySet_Alt basic_bounds_def)
  next
    case False
    then show ?thesis using plain_makeRep[OF _ one(2), of s] s(2) by blast
  qed
  then show ?thesis using s assms(1) one(1) by (auto simp: nonempty_transformRep_def)
qed

lemma remains_node:
  fixes same
  defines "T \<equiv> RemoveEmptyTransformer same"
  assumes "plain r" "bare r" and ops: "\<And>p. p \<in> set (parts r) \<Longrightarrow> remains p (transform T p)"
  shows "remains r (visit T (transform T) r)"
proof -
  have lists: "list_all2 remains rs (map (transform T) rs)" if "parts r = rs" for rs
    using ops that by (simp add: list_all2_map2 list_all2_same)
  note methods = RemoveEmptyTransformer_methods[of same, folded T_def]
  show ?thesis
  proof (cases r)
    case (Alt rs)
    then show ?thesis using remains_alt[OF _ lists, of rs] assms(2) by (simp add: methods)
  next
    case (Seq rs)
    then show ?thesis using remains_seq[OF _ lists, of rs] assms(2) by (simp add: methods)
  next
    case (Rep x lb ub)
    then show ?thesis using remains_rep[of x lb ub "transform T x"] ops assms(2) by (simp add: methods)
  next
    case (Name ns nm d ext)
    then obtain x where x: "d = Some x" using assms(3) by (cases d) auto
    then obtain s ch where "transform T x = Some (s, ch)" "plain s \<or> s = Alt []"
      using ops[of x] by (auto simp: Name remains_def)
    then show ?thesis using assms(2) by (cases ch) (auto simp: Name x methods nonempty_transformName_def)
  qed (use assms(2,3) in \<open>auto simp: methods makeAlt_Nil\<close>)
qed

lemma bare_operand: "bare r \<Longrightarrow> p \<in> set (parts r) \<Longrightarrow> bare p"
  by (cases r) (auto split: option.splits)

interpretation elimination_total: pass "\<lambda>r. plain r \<and> bare r" remains "RemoveEmptyTransformer same"
proof unfold_locales
  show "remains r (visit (RemoveEmptyTransformer same) (transform (RemoveEmptyTransformer same)) r)"
    if "plain r \<and> bare r" "\<And>p. p \<in> set (parts r) \<Longrightarrow> remains p (transform (RemoveEmptyTransformer same) p)" for r
    using remains_node[of r same] that by blast
qed (use plain_operand bare_operand in blast)

end
