(* ===== verification/RE_Order.thy ===== *)
theory RE_Order imports RE_Base "HOL-Library.List_Lexorder" begin

text \<open>
  The order on expressions by which memoizing transformers and inspectors find expressions again,
  \<open>lib/re/adt/memoization.cpp\<close>.
\<close>

section \<open>The comparison\<close>

text \<open>Strings are compared by their characters as unsigned numbers.\<close>

definition string_less :: "string \<Rightarrow> string \<Rightarrow> bool" where
  "string_less s t = (map (of_char :: char \<Rightarrow> int) s < map of_char t)"

definition class_id :: "re \<Rightarrow> nat" where
  "class_id r = (case r of Alt _ \<Rightarrow> 0 | Any _ \<Rightarrow> 1 | Assertion _ _ _ \<Rightarrow> 2 | CC _ _ \<Rightarrow> 3 | Range _ _ \<Rightarrow> 4
     | Diff _ _ \<Rightarrow> 5 | End \<Rightarrow> 6 | Intersect _ _ \<Rightarrow> 7 | Name _ _ _ _ \<Rightarrow> 8 | PropertyExpression _ _ _ _ _ _ \<Rightarrow> 9
     | Capture _ _ \<Rightarrow> 10 | Reference _ _ _ _ \<Rightarrow> 11 | Group _ _ _ \<Rightarrow> 12 | Rep _ _ _ \<Rightarrow> 13 | Seq _ \<Rightarrow> 14
     | Start \<Rightarrow> 15 | Permute _ \<Rightarrow> 16)"

definition kind_id :: "assertion_kind \<Rightarrow> int" where
  "kind_id k = (case k of LookBehind \<Rightarrow> 0 | LookAhead \<Rightarrow> 1)"
definition sense_id :: "assertion_sense \<Rightarrow> int" where
  "sense_id s = (case s of Positive \<Rightarrow> 0 | Negative \<Rightarrow> 1)"
definition mode_id :: "group_mode \<Rightarrow> int" where
  "mode_id m = (case m of CaseInsensitiveMode \<Rightarrow> 0 | GraphemeMode \<Rightarrow> 1 | CompatibilityMode \<Rightarrow> 2)"
definition group_sense_id :: "group_sense \<Rightarrow> int" where
  "group_sense_id s = (case s of On \<Rightarrow> 0 | Off \<Rightarrow> 1)"
definition property_kind_id :: "property_kind \<Rightarrow> int" where
  "property_kind_id k = (case k of Codepoint \<Rightarrow> 0 | Boundary \<Rightarrow> 1)"
definition operator_id :: "property_operator \<Rightarrow> int" where
  "operator_id p = (case p of Eq \<Rightarrow> 0 | NEq \<Rightarrow> 1)"

text \<open>\<open>None\<close> is the code that the program marks as unreachable: there is no comparison of two
  permutations. The code follows the pointer of a captured expression after a test for null; here
  it is always there.\<close>

function compare :: "re \<Rightarrow> re \<Rightarrow> bool option"
  and compare_lists :: "re list \<Rightarrow> re list \<Rightarrow> bool option" where
  "compare lh rh =
     (if class_id lh \<noteq> class_id rh then Some (class_id lh < class_id rh)
      else case lh of
        Alt rs \<Rightarrow> (case rh of Alt rs' \<Rightarrow>
          if length rs \<noteq> length rs' then Some (length rs < length rs') else compare_lists rs rs' | _ \<Rightarrow> None)
      | Seq rs \<Rightarrow> (case rh of Seq rs' \<Rightarrow>
          if length rs \<noteq> length rs' then Some (length rs < length rs') else compare_lists rs rs' | _ \<Rightarrow> None)
      | Any _ \<Rightarrow> Some False
      | End \<Rightarrow> Some False
      | Start \<Rightarrow> Some False
      | Assertion r k s \<Rightarrow> (case rh of Assertion r' k' s' \<Rightarrow>
          if k \<noteq> k' then Some (kind_id k < kind_id k')
          else if s \<noteq> s' then Some (sense_id s < sense_id s')
          else compare r r' | _ \<Rightarrow> None)
      | CC a s \<Rightarrow> (case rh of CC a' s' \<Rightarrow> Some (operator_less s s') | _ \<Rightarrow> None)
      | Name ns nm d ext \<Rightarrow> (case rh of Name ns' nm' d' ext' \<Rightarrow>
          if (ns \<noteq> []) \<noteq> (ns' \<noteq> []) then Some (ns \<noteq> [])
          else if ns \<noteq> [] \<and> ns \<noteq> ns' then Some (string_less ns ns')
          else if nm \<noteq> nm' then Some (string_less nm nm')
          else (case d of None \<Rightarrow> Some (d' \<noteq> None)
              | Some x \<Rightarrow> (case d' of None \<Rightarrow> Some False | Some x' \<Rightarrow> compare x x')) | _ \<Rightarrow> None)
      | Capture nm r \<Rightarrow> (case rh of Capture nm' r' \<Rightarrow>
          if nm \<noteq> nm' then Some (string_less nm nm') else compare r r' | _ \<Rightarrow> None)
      | Reference nm r n p \<Rightarrow> (case rh of Reference nm' r' n' p' \<Rightarrow>
          if nm \<noteq> nm' then Some (string_less nm nm')
          else if n \<noteq> n' then Some (n < n')
          else compare r r' | _ \<Rightarrow> None)
      | Group m r s \<Rightarrow> (case rh of Group m' r' s' \<Rightarrow>
          if m \<noteq> m' then Some (mode_id m < mode_id m')
          else if s \<noteq> s' then Some (group_sense_id s < group_sense_id s')
          else compare r r' | _ \<Rightarrow> None)
      | Range l h \<Rightarrow> (case rh of Range l' h' \<Rightarrow>
          (case compare l l' of None \<Rightarrow> None | Some True \<Rightarrow> Some True | Some False \<Rightarrow>
          (case compare l' l of None \<Rightarrow> None | Some True \<Rightarrow> Some False | Some False \<Rightarrow>
          (case compare h h' of None \<Rightarrow> None | Some True \<Rightarrow> Some True | Some False \<Rightarrow>
          map_option Not (compare h' h)))) | _ \<Rightarrow> None)
      | Diff l h \<Rightarrow> (case rh of Diff l' h' \<Rightarrow>
          (case compare l l' of None \<Rightarrow> None | Some True \<Rightarrow> Some True | Some False \<Rightarrow>
          (case compare l' l of None \<Rightarrow> None | Some True \<Rightarrow> Some False | Some False \<Rightarrow>
          (case compare h h' of None \<Rightarrow> None | Some True \<Rightarrow> Some True | Some False \<Rightarrow>
          map_option Not (compare h' h)))) | _ \<Rightarrow> None)
      | Intersect l h \<Rightarrow> (case rh of Intersect l' h' \<Rightarrow>
          (case compare l l' of None \<Rightarrow> None | Some True \<Rightarrow> Some True | Some False \<Rightarrow>
          (case compare l' l of None \<Rightarrow> None | Some True \<Rightarrow> Some False | Some False \<Rightarrow>
          (case compare h h' of None \<Rightarrow> None | Some True \<Rightarrow> Some True | Some False \<Rightarrow>
          map_option Not (compare h' h)))) | _ \<Rightarrow> None)
      | Rep r lb ub \<Rightarrow> (case rh of Rep r' lb' ub' \<Rightarrow>
          if lb \<noteq> lb' then Some (lb < lb') else if ub \<noteq> ub' then Some (ub < ub') else compare r r' | _ \<Rightarrow> None)
      | PropertyExpression k ident op v code d \<Rightarrow> (case rh of PropertyExpression k' ident' op' v' code' d' \<Rightarrow>
          Some (if k \<noteq> k' then property_kind_id k < property_kind_id k'
                else if ident \<noteq> ident' then string_less ident ident'
                else if op \<noteq> op' then operator_id op < operator_id op'
                else string_less v v') | _ \<Rightarrow> None)
      | Permute rs \<Rightarrow> None)"
| "compare_lists (x # xs) (y # ys) =
     (case compare x y of None \<Rightarrow> None | Some True \<Rightarrow> Some True | Some False \<Rightarrow>
     (case compare y x of None \<Rightarrow> None | Some True \<Rightarrow> Some False | Some False \<Rightarrow> compare_lists xs ys))"
| "compare_lists [] ys = Some False"
| "compare_lists (x # xs) [] = Some False"
  by pat_completeness auto
termination
  by (relation "measure (\<lambda>p. case p of Inl (a, b) \<Rightarrow> size a + size b | Inr (xs, ys) \<Rightarrow> size_list size xs + size_list size ys)") auto

declare compare.simps [simp del]

section \<open>The order by keys\<close>

text \<open>What the comparison looks at, as a tree: numbers and strings in the order of the tests, the
  arrays of a set, and the keys of the operands.\<close>

datatype key = Key "int list list" "(run list \<times> bitquad list) option" "key list"

abbreviation chars :: "string \<Rightarrow> int list" where
  "chars \<equiv> map of_char"

fun key_of :: "re \<Rightarrow> key" where
  "key_of (Alt rs) = Key [[0], [int (length rs)]] None (map key_of rs)"
| "key_of (Any a) = Key [[1]] None []"
| "key_of (Assertion r k s) = Key [[2], [kind_id k], [sense_id s]] None [key_of r]"
| "key_of (CC a s) = Key [[3]] (Some (mRuns s, mQuads s)) []"
| "key_of (Range lo hi) = Key [[4]] None [key_of lo, key_of hi]"
| "key_of (Diff l r) = Key [[5]] None [key_of l, key_of r]"
| "key_of End = Key [[6]] None []"
| "key_of (Intersect l r) = Key [[7]] None [key_of l, key_of r]"
| "key_of (Name ns nm None ext) = Key [[8], [if ns \<noteq> [] then 0 else 1], chars ns, chars nm, [0]] None []"
| "key_of (Name ns nm (Some d) ext) = Key [[8], [if ns \<noteq> [] then 0 else 1], chars ns, chars nm, [1]] None [key_of d]"
| "key_of (PropertyExpression k ident op v code d) =
     Key [[9], [property_kind_id k], chars ident, [operator_id op], chars v] None []"
| "key_of (Capture nm r) = Key [[10], chars nm] None [key_of r]"
| "key_of (Reference nm r n p) = Key [[11], chars nm, [int n]] None [key_of r]"
| "key_of (Group m r s) = Key [[12], [mode_id m], [group_sense_id s]] None [key_of r]"
| "key_of (Rep r lb ub) = Key [[13], [lb], [ub]] None [key_of r]"
| "key_of (Seq rs) = Key [[14], [int (length rs)]] None (map key_of rs)"
| "key_of Start = Key [[15]] None []"
| "key_of (Permute rs) = Key [[16]] None (map key_of rs)"

definition of_arrays :: "run list \<times> bitquad list \<Rightarrow> unicode_set" where
  "of_arrays p = \<lparr>mRuns = fst p, mQuads = snd p, mRunCapacity = 0, mQuadCapacity = 0\<rparr>"

fun set_less :: "(run list \<times> bitquad list) option \<Rightarrow> (run list \<times> bitquad list) option \<Rightarrow> bool" where
  "set_less (Some p) (Some q) = operator_less (of_arrays p) (of_arrays q)"
| "set_less None (Some q) = True"
| "set_less _ None = False"

fun key_less :: "key \<Rightarrow> key \<Rightarrow> bool"
  and keys_less :: "key list \<Rightarrow> key list \<Rightarrow> bool" where
  "key_less (Key a s ks) (Key b t ls) =
     (a < b \<or> a = b \<and> (set_less s t \<or> s = t \<and> keys_less ks ls))"
| "keys_less [] ls = (ls \<noteq> [])"
| "keys_less (k # ks) [] = False"
| "keys_less (k # ks) (l # ls) = (key_less k l \<or> k = l \<and> keys_less ks ls)"

lemma set_order: "\<not> set_less s s" "set_less s t \<Longrightarrow> set_less t u \<Longrightarrow> set_less s u" "s = t \<or> set_less s t \<or> set_less t s"
proof -
  show "\<not> set_less s s"
  proof (cases s)
    case (Some x)
    then show ?thesis using operator_less_not_eq[of "of_arrays x" "of_arrays x"] by (auto simp: operator_eq_iff)
  qed simp
  show "set_less s t \<Longrightarrow> set_less t u \<Longrightarrow> set_less s u"
    using operator_less_trans by (cases s; cases t; cases u) auto
  show "s = t \<or> set_less s t \<or> set_less t s"
  proof (cases s; cases t)
    fix x y
    assume "s = Some x" "t = Some y"
    then show ?thesis using operator_less_total[of "of_arrays x" "of_arrays y"]
      by (auto simp: operator_eq_iff of_arrays_def prod_eq_iff)
  qed simp_all
qed

lemma key_irreflexive: "k = k' \<Longrightarrow> \<not> key_less k k'" "ks = ks' \<Longrightarrow> \<not> keys_less ks ks'"
  by (induction k k' and ks ks' rule: key_less_keys_less.induct) (auto simp: set_order(1))

lemma key_transitive: "key_less k l \<Longrightarrow> key_less l m \<Longrightarrow> key_less k m" "keys_less ks ls \<Longrightarrow> keys_less ls ms \<Longrightarrow> keys_less ks ms"
proof (induction k l and ks ls arbitrary: m and ms rule: key_less_keys_less.induct)
  case (1 a s ks b t ls)
  obtain d u ms where m: "m = Key d u ms" by (cases m)
  with "1.prems" "1.IH" set_order(2)[of s t u] show ?case by auto
next
  case (2 ls)
  then show ?case by (cases ms; cases ls) auto
next
  case (4 k ks l ls)
  then show ?case by (cases ms) auto
qed simp

lemma key_total: "k = l \<or> key_less k l \<or> key_less l k" "ks = ls \<or> keys_less ks ls \<or> keys_less ls ks"
proof (induction k l and ks ls rule: key_less_keys_less.induct)
  case (1 a s ks b t ls)
  then show ?case using set_order(3)[of s t] by (cases a b rule: linorder_cases) auto
next
  case (2 ls)
  then show ?case by (cases ls) auto
qed auto

interpretation key_order: strict_linear key_less
proof unfold_locales
  show "\<not> key_less x x" for x by (simp add: key_irreflexive)
  show "key_less x y \<Longrightarrow> key_less y z \<Longrightarrow> key_less x z" for x y z by (rule key_transitive(1))
  show "x = y \<or> key_less x y \<or> key_less y x" for x y by (rule key_total(1))
qed

section \<open>The comparison is the order by keys\<close>

text \<open>The expressions without differences, intersections, symbolic ranges and permutations.\<close>

fun comparable :: "re \<Rightarrow> bool" where
  "comparable (Alt rs) = (\<forall>r \<in> set rs. comparable r)"
| "comparable (Seq rs) = (\<forall>r \<in> set rs. comparable r)"
| "comparable (Assertion r k s) = comparable r"
| "comparable (Name ns nm d ext) = (case d of None \<Rightarrow> True | Some x \<Rightarrow> comparable x)"
| "comparable (Capture nm r) = comparable r"
| "comparable (Reference nm r n p) = comparable r"
| "comparable (Group m r s) = comparable r"
| "comparable (Rep r lb ub) = comparable r"
| "comparable (Range l h) = False"
| "comparable (Diff l h) = False"
| "comparable (Intersect l h) = False"
| "comparable (Permute rs) = False"
| "comparable r = True"

lemma key_head: "\<exists>as s ks. key_of r = Key ([int (class_id r)] # as) s ks"
  by (cases r; (cases "case r of Name ns nm d ext \<Rightarrow> d | _ \<Rightarrow> None")?) (auto simp: class_id_def split: option.splits)

lemma chars_eq [simp]: "chars s = chars t \<longleftrightarrow> s = t"
  by (simp add: inj_map_eq_map inj_def)

lemma ids_eq [simp]:
  "kind_id k = kind_id k' \<longleftrightarrow> k = k'" "sense_id s = sense_id s' \<longleftrightarrow> s = s'" "mode_id m = mode_id m' \<longleftrightarrow> m = m'"
  "group_sense_id g = group_sense_id g' \<longleftrightarrow> g = g'" "property_kind_id p = property_kind_id p' \<longleftrightarrow> p = p'"
  "operator_id q = operator_id q' \<longleftrightarrow> q = q'"
  by (auto simp: kind_id_def sense_id_def mode_id_def group_sense_id_def property_kind_id_def operator_id_def
      split: assertion_kind.splits assertion_sense.splits group_mode.splits group_sense.splits property_kind.splits property_operator.splits)

lemma compare_lists_keys:
  assumes "\<And>x y. x \<in> set xs \<Longrightarrow> y \<in> set ys \<Longrightarrow> compare x y = Some (key_less (key_of x) (key_of y))"
    and "\<And>x y. x \<in> set xs \<Longrightarrow> y \<in> set ys \<Longrightarrow> compare y x = Some (key_less (key_of y) (key_of x))"
    and "length xs = length ys"
  shows "compare_lists xs ys = Some (keys_less (map key_of xs) (map key_of ys))"
  using assms(3,1,2)
proof (induction xs ys rule: list_induct2)
  case (Cons x xs y ys)
  have "compare x y = Some (key_less (key_of x) (key_of y))" "compare y x = Some (key_less (key_of y) (key_of x))"
    using Cons.prems by simp_all
  moreover have "compare_lists xs ys = Some (keys_less (map key_of xs) (map key_of ys))"
    using Cons.prems by (intro Cons.IH) simp_all
  ultimately show ?case using key_order.total[of "key_of x" "key_of y"] key_order.asymmetric[of "key_of x" "key_of y"]
    by (auto split: bool.splits)
qed simp

lemma string_less_chars: "string_less s t \<longleftrightarrow> chars s < chars t"
  by (simp add: string_less_def)

lemma set_less_arrays: "set_less (Some (mRuns s, mQuads s)) (Some (mRuns t, mQuads t)) = operator_less s t"
  by (simp add: operator_less_def of_arrays_def cong: option.case_cong)

definition keyed :: "re \<Rightarrow> re \<Rightarrow> bool" where
  "keyed lh rh \<longleftrightarrow> compare lh rh = Some (key_less (key_of lh) (key_of rh)) \<and> compare rh lh = Some (key_less (key_of rh) (key_of lh))"

lemma keyed_other: "class_id lh \<noteq> class_id rh \<Longrightarrow> keyed lh rh"
  using key_head[of lh] key_head[of rh] by (auto simp: keyed_def compare.simps[of lh rh] compare.simps[of rh lh])

lemma keyed_lists:
  assumes "\<And>x y. x \<in> set xs \<Longrightarrow> y \<in> set ys \<Longrightarrow> keyed x y" "length xs = length ys"
  shows "compare_lists xs ys = Some (keys_less (map key_of xs) (map key_of ys))"
    "compare_lists ys xs = Some (keys_less (map key_of ys) (map key_of xs))"
  using assms(1) compare_lists_keys[of xs ys, OF _ _ assms(2)] compare_lists_keys[of ys xs, OF _ _ assms(2)[symmetric]]
  unfolding keyed_def by blast+

lemmas compare_unfold = compare.simps[of "Alt rs" "Alt rs'" for rs rs'] compare.simps[of "Any a" "Any a'" for a a']
  compare.simps[of "Assertion r k s" "Assertion r' k' s'" for r k s r' k' s'] compare.simps[of "CC a s" "CC a' s'" for a s a' s']
  compare.simps[of End End] compare.simps[of Start Start]
  compare.simps[of "Name ns nm d ext" "Name ns' nm' d' ext'" for ns nm d ext ns' nm' d' ext']
  compare.simps[of "PropertyExpression k i p v c d" "PropertyExpression k' i' p' v' c' d'" for k i p v c d k' i' p' v' c' d']
  compare.simps[of "Capture nm r" "Capture nm' r'" for nm r nm' r']
  compare.simps[of "Reference nm r n p" "Reference nm' r' n' p'" for nm r n p nm' r' n' p']
  compare.simps[of "Group m r s" "Group m' r' s'" for m r s m' r' s']
  compare.simps[of "Rep r lb ub" "Rep r' lb' ub'" for r lb ub r' lb' ub'] compare.simps[of "Seq rs" "Seq rs'" for rs rs']

lemma class_id_inverse:
  "class_id (Alt rs) = class_id r \<longleftrightarrow> (\<exists>rs'. r = Alt rs')" "class_id (Seq rs) = class_id r \<longleftrightarrow> (\<exists>rs'. r = Seq rs')"
  "class_id (Any a) = class_id r \<longleftrightarrow> (\<exists>a'. r = Any a')" "class_id End = class_id r \<longleftrightarrow> r = End" "class_id Start = class_id r \<longleftrightarrow> r = Start"
  "class_id (Assertion x k s) = class_id r \<longleftrightarrow> (\<exists>x' k' s'. r = Assertion x' k' s')"
  "class_id (CC a t) = class_id r \<longleftrightarrow> (\<exists>a' t'. r = CC a' t')"
  "class_id (Name ns nm d ext) = class_id r \<longleftrightarrow> (\<exists>ns' nm' d' ext'. r = Name ns' nm' d' ext')"
  "class_id (PropertyExpression pk i p v c d) = class_id r \<longleftrightarrow> (\<exists>pk' i' p' v' c' d'. r = PropertyExpression pk' i' p' v' c' d')"
  "class_id (Capture nm x) = class_id r \<longleftrightarrow> (\<exists>nm' x'. r = Capture nm' x')"
  "class_id (Reference nm x n q) = class_id r \<longleftrightarrow> (\<exists>nm' x' n' q'. r = Reference nm' x' n' q')"
  "class_id (Group m x g) = class_id r \<longleftrightarrow> (\<exists>m' x' g'. r = Group m' x' g')"
  "class_id (Rep x lb ub) = class_id r \<longleftrightarrow> (\<exists>x' lb' ub'. r = Rep x' lb' ub')"
  by (cases r; simp add: class_id_def)+

lemma keyed_same_class:
  assumes "class_id lh = class_id rh \<Longrightarrow> keyed lh rh"
  shows "keyed lh rh"
  using assms keyed_other by blast

lemma comparable_keyed: "comparable lh \<Longrightarrow> comparable rh \<Longrightarrow> keyed lh rh"
proof (induction lh arbitrary: rh)
  case (Alt rs)
  show ?case
  proof (rule keyed_same_class)
    assume "class_id (Alt rs) = class_id rh"
    then obtain rs' where rh: "rh = Alt rs'" unfolding class_id_inverse by blast
    have "keyed x y" if "x \<in> set rs" "y \<in> set rs'" for x y using Alt that rh by simp
    from keyed_lists[of rs rs', OF this] show "keyed (Alt rs) rh" by (auto simp: keyed_def compare_unfold rh class_id_def)
  qed
next
  case (Seq rs)
  show ?case
  proof (rule keyed_same_class)
    assume "class_id (Seq rs) = class_id rh"
    then obtain rs' where rh: "rh = Seq rs'" unfolding class_id_inverse by blast
    have "keyed x y" if "x \<in> set rs" "y \<in> set rs'" for x y using Seq that rh by simp
    from keyed_lists[of rs rs', OF this] show "keyed (Seq rs) rh" by (auto simp: keyed_def compare_unfold rh class_id_def)
  qed
next
  case (Assertion r k s)
  show ?case
  proof (rule keyed_same_class)
    assume "class_id (Assertion r k s) = class_id rh"
    then obtain r' k' s' where rh: "rh = Assertion r' k' s'" unfolding class_id_inverse by blast
    with Assertion have "keyed r r'" by simp
    then show "keyed (Assertion r k s) rh" by (auto simp: keyed_def compare_unfold rh class_id_def)
  qed
next
  case (Capture nm r)
  show ?case
  proof (rule keyed_same_class)
    assume "class_id (Capture nm r) = class_id rh"
    then obtain nm' r' where rh: "rh = Capture nm' r'" unfolding class_id_inverse by blast
    with Capture have "keyed r r'" by simp
    then show "keyed (Capture nm r) rh" by (auto simp: keyed_def compare_unfold rh class_id_def string_less_chars)
  qed
next
  case (Reference nm r n q)
  show ?case
  proof (rule keyed_same_class)
    assume "class_id (Reference nm r n q) = class_id rh"
    then obtain nm' r' n' q' where rh: "rh = Reference nm' r' n' q'" unfolding class_id_inverse by blast
    with Reference have "keyed r r'" by simp
    then show "keyed (Reference nm r n q) rh" by (auto simp: keyed_def compare_unfold rh class_id_def string_less_chars)
  qed
next
  case (Group m r g)
  show ?case
  proof (rule keyed_same_class)
    assume "class_id (Group m r g) = class_id rh"
    then obtain m' r' g' where rh: "rh = Group m' r' g'" unfolding class_id_inverse by blast
    with Group have "keyed r r'" by simp
    then show "keyed (Group m r g) rh" by (auto simp: keyed_def compare_unfold rh class_id_def)
  qed
next
  case (Rep r lb ub)
  show ?case
  proof (rule keyed_same_class)
    assume "class_id (Rep r lb ub) = class_id rh"
    then obtain r' lb' ub' where rh: "rh = Rep r' lb' ub'" unfolding class_id_inverse by blast
    with Rep have "keyed r r'" by simp
    then show "keyed (Rep r lb ub) rh" by (auto simp: keyed_def compare_unfold rh class_id_def)
  qed
next
  case (Name ns nm d ext)
  show ?case
  proof (rule keyed_same_class)
    assume "class_id (Name ns nm d ext) = class_id rh"
    then obtain ns' nm' d' ext' where rh: "rh = Name ns' nm' d' ext'" unfolding class_id_inverse by blast
    have "keyed x x'" if "d = Some x" "d' = Some x'" for x x' using Name that rh by simp
    then show "keyed (Name ns nm d ext) rh"
      by (cases d; cases d') (auto simp: keyed_def compare_unfold rh class_id_def string_less_chars)
  qed
next
  case (PropertyExpression k i p v c d)
  show ?case
    by (rule keyed_same_class, unfold class_id_inverse) (auto simp: keyed_def compare_unfold class_id_def string_less_chars)
next
  case (CC a s)
  show ?case
    by (rule keyed_same_class, unfold class_id_inverse) (auto simp: keyed_def compare_unfold class_id_def set_less_arrays simp del: set_less.simps)
next
  case End
  have "keyed End End" by (simp add: keyed_def compare_unfold class_id_def)
  then show ?case by (cases "rh = End") (simp, rule keyed_same_class, simp add: class_id_inverse)
next
  case Start
  have "keyed Start Start" by (simp add: keyed_def compare_unfold class_id_def)
  then show ?case by (cases "rh = Start") (simp, rule keyed_same_class, simp add: class_id_inverse)
next
  case (Any a)
  show ?case
    by (rule keyed_same_class, unfold class_id_inverse) (auto simp: keyed_def compare_unfold class_id_def)
qed auto

text \<open>On these expressions the comparison is a strict weak order whose ties are equal keys.\<close>

lemma compare_order:
  assumes "comparable r" "comparable s" "comparable t"
  shows "compare r s \<noteq> None" "compare r r = Some False"
    "compare r s = Some True \<Longrightarrow> compare s t = Some True \<Longrightarrow> compare r t = Some True"
    "compare r s = Some False \<and> compare s r = Some False \<longleftrightarrow> key_of r = key_of s"
  using comparable_keyed[of r s] comparable_keyed[of s t] comparable_keyed[of r t] comparable_keyed[of r r] assms
    key_order.irreflexive[of "key_of r"] key_order.transitive[of "key_of r" "key_of s" "key_of t"] key_order.total[of "key_of r" "key_of s"]
  by (auto simp: keyed_def)

text \<open>The functions for differences, intersections and symbolic ranges return the opposite of the last
  test where the others return it: such an expression is less than itself.\<close>

lemma compare_self:
  assumes "comparable l" "comparable r"
  shows "compare (Diff l r) (Diff l r) = Some True" "compare (Intersect l r) (Intersect l r) = Some True"
    "compare (Range l r) (Range l r) = Some True"
  using compare_order(2)[OF assms(1,1,1)] compare_order(2)[OF assms(2,2,2)]
  by (simp_all add: compare.simps[of "Diff l r" "Diff l r"] compare.simps[of "Intersect l r" "Intersect l r"]
      compare.simps[of "Range l r" "Range l r"])

text \<open>The comparison of classes looks at their sets only.\<close>

lemma compare_alphabets: "compare (CC a s) (CC b s) = Some False" "compare (Any a) (Any b) = Some False"
  using set_order(1)[of "Some (mRuns s, mQuads s)"] by (simp_all add: compare_unfold class_id_def set_less_arrays del: set_less.simps)

end
