(* ===== verification/RE_Anchor.thy ===== *)
theory RE_Anchor imports RE_Validate begin

text \<open>
  Anchors, the offset of reported matches, assertions and the expressions of the local language
  pipeline, from \<open>lib/re/analysis/re_analysis.cpp\<close>.
\<close>

section \<open>Anchors\<close>

fun hasStartAnchor :: "re \<Rightarrow> bool"
  and first_has_start :: "re list \<Rightarrow> bool" where
  "hasStartAnchor (Alt rs) = (\<forall>r \<in> set rs. hasStartAnchor r)"
| "hasStartAnchor (Seq rs) = first_has_start rs"
| "hasStartAnchor (Rep r lb ub) = hasStartAnchor r"
| "hasStartAnchor (Diff l r) = hasStartAnchor l"
| "hasStartAnchor (Intersect l r) = (hasStartAnchor l \<and> hasStartAnchor r)"
| "hasStartAnchor Start = True"
| "hasStartAnchor _ = False"
| "first_has_start [] = False"
| "first_has_start (r # rs) = hasStartAnchor r"

fun hasEndAnchor :: "re \<Rightarrow> bool"
  and last_has_end :: "re list \<Rightarrow> bool" where
  "hasEndAnchor (Alt rs) = (\<forall>r \<in> set rs. hasEndAnchor r)"
| "hasEndAnchor (Seq rs) = last_has_end rs"
| "hasEndAnchor (Rep r lb ub) = hasEndAnchor r"
| "hasEndAnchor (Diff l r) = hasEndAnchor l"
| "hasEndAnchor (Intersect l r) = (hasEndAnchor l \<and> hasEndAnchor r)"
| "hasEndAnchor End = True"
| "hasEndAnchor _ = False"
| "last_has_end [] = False"
| "last_has_end [r] = hasEndAnchor r"
| "last_has_end (r # s # rs) = last_has_end (s # rs)"

text \<open>A repetition that may be empty passes for anchored with its operand.\<close>

fun no_optional :: "re \<Rightarrow> bool" where
  "no_optional (Rep r lb ub) = (lb \<noteq> 0 \<and> no_optional r)"
| "no_optional (Alt rs) = (\<forall>r \<in> set rs. no_optional r)"
| "no_optional (Seq rs) = (\<forall>r \<in> set rs. no_optional r)"
| "no_optional (Diff l r) = no_optional l"
| "no_optional (Intersect l r) = no_optional l"
| "no_optional _ = True"

text \<open>The spans of a sequence begin where those of its first expression begin, and those of a
  repetition that is not empty where those of its operand begin.\<close>

lemma relpow_Domain: "0 < n \<Longrightarrow> Domain (R ^^ n) \<subseteq> Domain (R :: (nat \<times> nat) set)"
  by (cases n) (auto simp del: relpow.simps dest: relpow_Suc_D2)

lemma relpow_Range: "0 < n \<Longrightarrow> Relation.Range (R ^^ n) \<subseteq> Relation.Range (R :: (nat \<times> nat) set)"
  by (cases n) (auto elim: relpow_Suc_E)

lemma rep_counts_pos: "valid_bounds lb ub \<Longrightarrow> lb \<noteq> 0 \<Longrightarrow> n \<in> rep_counts lb ub \<Longrightarrow> 0 < n"
  by (auto simp: rep_counts_def valid_bounds_def)

lemma rep_spans_ends:
  assumes "valid_bounds lb ub" "lb \<noteq> 0"
  shows "Domain (rep_spans R (rep_counts lb ub)) \<subseteq> Domain R"
    and "Relation.Range (rep_spans R (rep_counts lb ub)) \<subseteq> Relation.Range R"
proof -
  have pos: "0 < n" if "n \<in> rep_counts lb ub" for n using rep_counts_pos [OF assms that] .
  show "Domain (rep_spans R (rep_counts lb ub)) \<subseteq> Domain R"
  proof
    fix i
    assume "i \<in> Domain (rep_spans R (rep_counts lb ub))"
    then obtain n where "n \<in> rep_counts lb ub" "i \<in> Domain (R ^^ n)" unfolding rep_spans_def by blast
    with relpow_Domain pos show "i \<in> Domain R" by blast
  qed
  show "Relation.Range (rep_spans R (rep_counts lb ub)) \<subseteq> Relation.Range R"
  proof
    fix i
    assume "i \<in> Relation.Range (rep_spans R (rep_counts lb ub))"
    then obtain n where "n \<in> rep_counts lb ub" "i \<in> Relation.Range (R ^^ n)" unfolding rep_spans_def by blast
    with relpow_Range pos show "i \<in> Relation.Range R" by blast
  qed
qed

lemma start_anchor_sound:
  "re_ok r \<Longrightarrow> no_optional r \<Longrightarrow> hasStartAnchor r \<Longrightarrow> Domain (den c r) \<subseteq> start_at c"
proof (induction r)
  case (Seq rs)
  then show ?case by (cases rs) auto
next
  case (Rep r lb ub)
  then have "Domain (den c r) \<subseteq> start_at c" by simp
  moreover have "Domain (den c (Rep r lb ub)) \<subseteq> Domain (den c r)" using Rep.prems rep_spans_ends(1) by simp
  ultimately show ?case by blast
qed auto

lemma last_has_end_append: "last_has_end rs \<Longrightarrow> \<exists>rs' r. rs = rs' @ [r] \<and> hasEndAnchor r"
proof (induction rs rule: induct_list012)
  case (3 r s rs)
  then obtain rs' q where "s # rs = rs' @ [q]" "hasEndAnchor q" by auto
  then show ?case by (metis append_Cons)
qed auto

lemma end_anchor_sound:
  "re_ok r \<Longrightarrow> no_optional r \<Longrightarrow> hasEndAnchor r \<Longrightarrow> Relation.Range (den c r) \<subseteq> end_at c"
proof (induction r)
  case (Seq rs)
  then obtain rs' r where rs: "rs = rs' @ [r]" "hasEndAnchor r" using last_has_end_append [of rs] by auto
  then have "Relation.Range (den c r) \<subseteq> end_at c" using Seq by simp
  then show ?case by (auto simp: rs)
next
  case (Rep r lb ub)
  then have "Relation.Range (den c r) \<subseteq> end_at c" by simp
  moreover have "Relation.Range (den c (Rep r lb ub)) \<subseteq> Relation.Range (den c r)" using Rep.prems rep_spans_ends(2) by simp
  ultimately show ?case by blast
qed auto

section \<open>The offset of matches\<close>

text \<open>\<open>None\<close> is the use of a name without definition. The loop over a sequence runs from
  its end; it goes on after an assertion or a line end with offset 0.\<close>

definition passes_offset :: "re \<Rightarrow> bool" where
  "passes_offset r = (case r of Assertion _ _ _ \<Rightarrow> True | End \<Rightarrow> True | _ \<Rightarrow> False)"

fun grepOffset :: "re \<Rightarrow> nat option"
  and max_offset :: "nat \<Rightarrow> re list \<Rightarrow> nat option"
  and scan_offset :: "re list \<Rightarrow> nat option option" where
  "grepOffset (Alt rs) = max_offset 0 rs"
| "grepOffset (Seq rs) =
     (if rs = [] then Some 1
      else map_option (\<lambda>found. case found of Some n \<Rightarrow> n | None \<Rightarrow> 1) (scan_offset rs))"
| "grepOffset (Rep r lb ub) = (if ub = UNBOUNDED_REP then Some 1 else grepOffset r)"
| "grepOffset Start = Some 1"
| "grepOffset End = Some 0"
| "grepOffset (Assertion r k s) = (if k = LookBehind then grepOffset r else Some 0)"
| "grepOffset (Diff l r) = grepOffset l"
| "grepOffset (Intersect l r) =
     (case grepOffset l of None \<Rightarrow> None | Some m \<Rightarrow> (case grepOffset r of None \<Rightarrow> None | Some n \<Rightarrow> Some (min m n)))"
| "grepOffset (Any a) = Some 0"
| "grepOffset (CC a s) = Some 0"
| "grepOffset (PropertyExpression k ident op v code d) = Some (if k = Boundary then 1 else 0)"
| "grepOffset (Group m r s) = grepOffset r"
| "grepOffset (Name ns nm d ext) = (case d of None \<Rightarrow> None | Some r \<Rightarrow> grepOffset r)"
| "grepOffset (Capture nm r) = grepOffset r"
| "grepOffset (Reference nm r n p) = Some 0"
| "grepOffset (Range lo hi) = Some 0"
| "grepOffset (Permute rs) = Some 0"
| "max_offset m [] = Some m"
| "max_offset m (r # rs) = (case grepOffset r of None \<Rightarrow> None | Some n \<Rightarrow> max_offset (max m n) rs)"
| "scan_offset [] = Some None"
| "scan_offset (r # rs) =
     (case scan_offset rs of
        None \<Rightarrow> None
      | Some (Some n) \<Rightarrow> Some (Some n)
      | Some None \<Rightarrow>
          (case grepOffset r of
             None \<Rightarrow> None
           | Some n \<Rightarrow> Some (if \<not> passes_offset r then Some n else if n = 1 then Some n else None)))"

lemma grepOffset_le_1: "grepOffset r = Some n \<Longrightarrow> n \<le> 1"
  and "max_offset m rs = Some n \<Longrightarrow> m \<le> 1 \<Longrightarrow> n \<le> 1"
  and "scan_offset rs = Some (Some n) \<Longrightarrow> n \<le> 1"
  by (induction r and m rs and rs arbitrary: n and n and n rule: grepOffset_max_offset_scan_offset.induct)
    (fastforce split: if_splits option.splits)+

section \<open>Assertions, and the local language pipeline\<close>

text \<open>\<open>None\<close> is also the code marked unreachable, for kinds of expressions it does not list.\<close>

fun hasAssertion :: "re \<Rightarrow> bool option"
  and any_assertion :: "re list \<Rightarrow> bool option" where
  "hasAssertion (CC a s) = Some False"
| "hasAssertion (Any a) = Some False"
| "hasAssertion (Name ns nm d ext) = (case d of None \<Rightarrow> None | Some r \<Rightarrow> hasAssertion r)"
| "hasAssertion (Alt rs) = any_assertion rs"
| "hasAssertion (Seq rs) = any_assertion rs"
| "hasAssertion (Rep r lb ub) = hasAssertion r"
| "hasAssertion (Diff l r) = or_else (hasAssertion l) (hasAssertion r)"
| "hasAssertion (Intersect l r) = or_else (hasAssertion l) (hasAssertion r)"
| "hasAssertion Start = Some True"
| "hasAssertion End = Some True"
| "hasAssertion (Assertion r k s) = Some True"
| "hasAssertion (Group m r s) = (if m = GraphemeMode \<and> s = On then Some True else hasAssertion r)"
| "hasAssertion (Range lo hi) = None"
| "hasAssertion (PropertyExpression k ident op v code d) = None"
| "hasAssertion (Capture nm r) = None"
| "hasAssertion (Reference nm r n p) = None"
| "hasAssertion (Permute rs) = None"
| "any_assertion [] = Some False"
| "any_assertion (r # rs) = or_else (hasAssertion r) (any_assertion rs)"

fun isTypeForLocal :: "re \<Rightarrow> bool option"
  and all_local :: "re list \<Rightarrow> bool option" where
  "isTypeForLocal (Name ns nm d ext) = (case d of None \<Rightarrow> None | Some r \<Rightarrow> isTypeForLocal r)"
| "isTypeForLocal (Alt rs) = all_local rs"
| "isTypeForLocal (Seq rs) = (if rs = [] then Some False else all_local rs)"
| "isTypeForLocal (Rep r lb ub) = Some (\<not> (lb \<noteq> 0 \<or> ub \<noteq> UNBOUNDED_REP))"
| "isTypeForLocal (Diff l r) = and_then (isTypeForLocal l) (isTypeForLocal r)"
| "isTypeForLocal (Intersect l r) = and_then (isTypeForLocal l) (isTypeForLocal r)"
| "isTypeForLocal Start = Some False"
| "isTypeForLocal End = Some False"
| "isTypeForLocal (Assertion r k s) = Some False"
| "isTypeForLocal (Any a) = Some False"
| "isTypeForLocal (CC a s) = Some True"
| "isTypeForLocal (Range lo hi) = Some True"
| "isTypeForLocal (PropertyExpression k ident op v code d) = Some True"
| "isTypeForLocal (Capture nm r) = Some True"
| "isTypeForLocal (Reference nm r n p) = Some True"
| "isTypeForLocal (Group m r s) = Some True"
| "isTypeForLocal (Permute rs) = Some True"
| "all_local [] = Some True"
| "all_local (r # rs) = and_then (isTypeForLocal r) (all_local rs)"

lemma or_else_False [simp]: "or_else x y = Some False \<longleftrightarrow> x = Some False \<and> y = Some False"
  by (auto simp: or_else_def split: option.splits if_splits)

text \<open>An expression without assertions has the same spans wherever lines start and end.\<close>

lemma any_assertion_False: "any_assertion rs = Some False \<longleftrightarrow> (\<forall>r \<in> set rs. hasAssertion r = Some False)"
  by (induction rs) auto

lemma no_assertion_agree: "hasAssertion r = Some False \<Longrightarrow> agree c (c\<lparr>start_at := S, end_at := E\<rparr>) r"
proof (induction r)
  case (Name ns nm d ext)
  then show ?case by (cases d) (auto simp: agree_nodes)
qed (auto simp: agree_nodes agree_leaves cc_spans_def any_assertion_False split: if_splits)

end
