(* ===== verification/RE_Props.thy ===== *)
theory RE_Props imports RE_Text RE_Order RE_Length RE_Anchor begin

text \<open>
  The properties of the constructors of expressions, of the transformation to UTF-8, of the order
  used for memoization and of the analyses. The meaning \<open>den c r\<close> of an expression is the set
  of its spans in a context \<open>c\<close>.
\<close>

text \<open>What the witnesses use: the class of one code point, and the context of a text.\<close>

lemma singleton_class:
  assumes "cp \<le> 1114111"
  shows "uset_ok (UnicodeSet_singleton cp)" "codepoints (UnicodeSet_singleton cp) = {cp}"
    "\<not> is_empty (UnicodeSet_singleton cp)"
  using UnicodeSet_singleton_spec[OF assms] is_empty_iff[of "UnicodeSet_singleton cp"] by (simp_all add: canonical_def)

lemma sem_ok_text: "sem_ok (unicode_text e w)"
  by (auto simp: sem_ok_def unicode_text_def text_sem_def list_syms_def split: if_splits)

abbreviation no_text :: sem where
  "no_text \<equiv> unicode_text no_externals []"







text \<open>C21: on expressions of classes, line anchors, captures and defined names, the test for the empty
  match gives whether the expression matches at a position without consuming anything, when every
  position may be a line start and a line end.\<close>

theorem matchesEmptyString_correct:
  assumes "empty_sem c" "re_ok r" "classical r"
  shows "matchesEmptyString r = Some ((i, i) \<in> den c r)"
  by (rule matchesEmptyString_value[OF assms])

theorem matchesEmptyString_correct_witness:
  "((7, 7) \<in> den (no_text\<lparr>start_at := UNIV, end_at := UNIV\<rparr>) (Seq [Start, Rep (Any Unicode) 0 3, End])) = True"
  using matchesEmptyString_correct[of "no_text\<lparr>start_at := UNIV, end_at := UNIV\<rparr>" "Seq [Start, Rep (Any Unicode) 0 3, End]" 7]
    sem_ok_text[of no_externals "[]"]
  by (auto simp: empty_sem_def sem_ok_def valid_bounds_def unicode_text_def text_sem_def)



text \<open>C23: on expressions without differences, intersections, symbolic ranges and permutations the
  comparison that orders the memoization tables is defined, irreflexive and transitive, and its ties
  are the expressions of equal keys, so that they are transitive too.\<close>

theorem memo_order:
  assumes "comparable r" "comparable s" "comparable t"
  shows "compare r s \<noteq> None \<and> compare r r = Some False
    \<and> (compare r s = Some True \<and> compare s t = Some True \<longrightarrow> compare r t = Some True)
    \<and> (compare r s = Some False \<and> compare s r = Some False \<longleftrightarrow> key_of r = key_of s)"
  using compare_order[OF assms] by blast

theorem memo_order_witness:
  "compare (Seq [Start]) (Seq [Start]) = Some False \<and> key_of (Seq [Start]) = key_of (Seq [Start])"
  using memo_order[of "Seq [Start]" "Seq [Start]" "Seq [Start]"] by simp




text \<open>C26: the length range of an expression bounds the bytes of the UTF-8 encoding that its spans
  cover, and for the Unicode alphabet the code points; \<open>INT_MAX\<close> as upper bound is no bound.
  \<open>measurable\<close> says that the bounds of repetitions do not overflow an \<open>int\<close>, the range of
  those that may be empty is bounded below, and there are no back references.\<close>

theorem length_range_bounds:
  assumes "good_externals e" "re_ok r" "measurable idx r" "idx = UTF8 \<and> pos = byte_pos w \<or> idx = Unicode \<and> pos = id"
    and "getLengthRange idx r = Some (lo, hi)" "(k, l) \<in> den (unicode_text e w) r"
  shows "k \<le> l \<and> lo \<le> int (pos l) - int (pos k) \<and> (hi = INT_MAX \<or> int (pos l) - int (pos k) \<le> hi)"
proof -
  have "within pos (lo, hi) (den (unicode_text e w) r)"
    using length_index.range_sound[OF utf8_lengths[OF assms(1)] assms(2)]
      length_index.range_sound[OF unicode_lengths[OF assms(1)] assms(2)] assms(3-5) by blast
  from withinD(5-7)[OF this assms(6)] show ?thesis by auto
qed

theorem length_range_bounds_witness:
  "getLengthRange UTF8 (Rep (Any Unicode) 1 2) = Some (1, 8)
    \<and> 1 \<le> int (byte_pos [0xE9, 0x61] 2) - int (byte_pos [0xE9, 0x61] 0) \<and> int (byte_pos [0xE9, 0x61] 2) \<le> 8"
proof -
  let ?w = "[0xE9, 0x61]" and ?r = "Rep (Any Unicode) 1 2"
  have range_value: "getLengthRange UTF8 ?r = Some (1, 8)"
    by (simp add: rep_lengths_def any_lengths_def int32_id INT_MAX_def)
  have "measurable UTF8 ?r" by (simp add: any_lengths_def INT_MAX_def)
  moreover have "(0, 2) \<in> den (unicode_text no_externals ?w) ?r"
  proof -
    have "(0, Suc (Suc 0)) \<in> any_spans (unicode_text no_externals ?w) Unicode ^^ Suc (Suc 0)"
      by (rule relpow_Suc_I[where y = "Suc 0"], rule relpow_Suc_I[where y = 0]) (auto simp: unicode_text_def text_sem_def)
    then show ?thesis by (auto simp: rep_spans_def rep_counts_def numeral_2_eq_2 simp del: relpow.simps intro!: exI[of _ "Suc (Suc 0)"])
  qed
  ultimately show ?thesis
    using length_range_bounds[OF good_no_externals, of ?r UTF8 "byte_pos ?w" ?w 1 8 0 2] range_value
    by (simp add: valid_bounds_def INT_MAX_def)
qed





end
