(* ===== verification/RE_Pass_Props.thy ===== *)
theory RE_Pass_Props imports RE_Pass_Ends RE_Pass_Exclude RE_Pass_Empty RE_Props begin

text \<open>
  The properties of the passes over expressions.
\<close>

text \<open>C29: the passes that keep what an expression matches succeed on the expressions of their class
  and give a plain expression with the same spans: the removal of zero lower bounds, the promotion of
  alternatives of variable length over sequences, for any alphabet in which lengths are taken, and the
  removal of captures that no reference names, on all plain expressions; the star normal form, when
  \<open>star_rule\<close> meets no sequence of which it drops a part; and the resolution of differences, when
  they are of classes of one alphabet and leave some symbol.\<close>

theorem passes_keep_spans:
  assumes "sem_ok c" "groups_keep_empty c" "resolvable r"
  shows "(\<exists>r'. resolveDiffs same r = Some r' \<and> plain r' \<and> den c r' = den c r)
    \<and> (plain r \<longrightarrow>
        (\<exists>r'. zeroBoundElimination NoNameTransformation same r = Some r' \<and> plain r' \<and> den c r' = den c r)
      \<and> (\<exists>r'. variableAltPromotion idx same r = Some r' \<and> plain r' \<and> den c r' = den c r)
      \<and> (\<exists>r'. removeUnneededCaptures same r = Some r' \<and> plain r' \<and> den c r' = den c r)
      \<and> (star_lossless same r \<longrightarrow>
          (\<exists>r'. convertToStarNormalForm same r = Some r' \<and> plain r' \<and> den c r' = den c r)))"
  using resolveDiffs_spec[OF assms(1,3)] zeroBoundElimination_spec variableAltPromotion_spec removeUnneededCaptures_spec
    convertToStarNormalForm_spec[OF assms(2)] by blast

theorem passes_keep_spans_witness:
  "(\<exists>r'. variableAltPromotion Unicode (=) (Seq [Alt [Any Unicode, Seq [Any Unicode, Any Unicode]], Start]) = Some r' \<and> plain r'
      \<and> den no_text r' = den no_text (Seq [Alt [Any Unicode, Seq [Any Unicode, Any Unicode]], Start]))
    \<and> (\<exists>r'. convertToStarNormalForm (=) (Rep (Seq [Rep Start 0 1, Rep End 0 (-1)]) 0 (-1)) = Some r'
      \<and> den no_text r' = den no_text (Rep (Seq [Rep Start 0 1, Rep End 0 (-1)]) 0 (-1)))"
proof
  let ?r = "Seq [Alt [Any Unicode, Seq [Any Unicode, Any Unicode]], Start]"
  let ?q = "Seq [Rep Start 0 1, Rep End 0 (-1)]"
  let ?s = "Rep ?q 0 (-1)"
  have c: "sem_ok no_text" "groups_keep_empty no_text"
    by (rule sem_ok_text) (simp add: groups_keep_empty_def unicode_text_def text_sem_def)
  have r: "plain ?r" by simp
  from passes_keep_spans[OF c plain_resolvable[OF r], of "(=)" Unicode] r
  show "\<exists>r'. variableAltPromotion Unicode (=) ?r = Some r' \<and> plain r' \<and> den no_text r' = den no_text ?r" by blast
  have s: "plain ?s" by (simp add: basic_bounds_def)
  have "transform (RE_Star_Normal (=)) ?q = Some (?q, False)"
    by (simp add: RE_Star_Normal_def star_transformRep_def base_transformSeq_def star_rule_def)
  then have "star_lossless (=) ?s"
    by (simp add: star_safe_def RE_Star_Normal_def star_transformRep_def star_rule_def)
  with passes_keep_spans[OF c plain_resolvable[OF s], of "(=)" Unicode] s
  show "\<exists>r'. convertToStarNormalForm (=) ?s = Some r' \<and> den no_text r' = den no_text ?s" by blast
qed

text \<open>C30: the passes that keep one end of the matches. The removal of a nullable prefix keeps the set of
  positions where matches end, that of a nullable suffix and the promotion of a final positive lookahead
  the positions where they begin, when modes and operands do not tie the two ends together
  (\<open>ends_separate\<close>); on plain expressions the passes do return.\<close>

theorem passes_keep_ends:
  assumes "re_ok r" "ends_separate r" "groups_keep_empty c"
  shows "(groups_respect same_ends c \<longrightarrow>
      (case removeNullablePrefix same r of None \<Rightarrow> \<not> plain r
        | Some r' \<Rightarrow> re_ok r' \<and> Relation.Range (den c r) = Relation.Range (den c r')))
    \<and> (groups_respect same_starts c \<longrightarrow>
      (case removeNullableSuffix same r of None \<Rightarrow> \<not> plain r | Some r' \<Rightarrow> re_ok r' \<and> Domain (den c r) = Domain (den c r'))
      \<and> (case lookaheadPromotion same r of None \<Rightarrow> \<not> plain r | Some r' \<Rightarrow> re_ok r' \<and> Domain (den c r) = Domain (den c r')))"
proof -
  have totals: "plain r \<Longrightarrow> transform (NullablePrefixRemover same) r \<noteq> None"
    "plain r \<Longrightarrow> transform (NullableSuffixRemover same) r \<noteq> None"
    "plain r \<Longrightarrow> transform (FinalLookaheadPromotion same) r \<noteq> None"
    using prefix_total.transform_ok[of r same] suffix_total.transform_ok[of r same] lookahead_total.transform_ok[of r same]
    by (auto simp: returns_def xok_def)
  show ?thesis
    unfolding removeNullablePrefix_def removeNullableSuffix_def lookaheadPromotion_def
    using safe_result[OF prefix.transform_ok totals(1)] safe_result[OF suffix.transform_ok totals(2)]
      safe_result[OF lookahead.transform_ok totals(3)] assms by blast
qed

theorem passes_keep_ends_witness:
  "\<exists>r'. removeNullablePrefix (=) (Seq [Rep (Any Unicode) 0 (-1), Rep Start 3 5]) = Some r'
    \<and> Relation.Range (den no_text r') = Relation.Range (den no_text (Seq [Rep (Any Unicode) 0 (-1), Rep Start 3 5]))"
proof -
  let ?r = "Seq [Rep (Any Unicode) 0 (-1), Rep Start 3 5]"
  have "re_ok ?r" "ends_separate ?r" "groups_keep_empty no_text" "groups_respect same_ends no_text"
    by (simp_all add: valid_bounds_def groups_keep_empty_def groups_respect_def unicode_text_def text_sem_def)
  moreover have "removeNullablePrefix (=) ?r \<noteq> None"
    by (simp add: removeNullablePrefix_def transformRE_def NullablePrefixRemover_def prefix_transformSeq_def
        prefix_transformRep_def makeSeq_def makeRep_def makeRep_rec.simps isEmptySet_def isEmptySeq_def)
  ultimately show ?thesis using passes_keep_ends[of ?r no_text "(=)"] by (auto split: option.splits)
qed

text \<open>C31: excluding a class gives an expression that matches exactly what the original matches in a
  text without the excluded symbols (\<open>without\<close>), asserted expressions included, unless the
  constructors lose spans (\<open>excludable\<close>); on plain expressions of which every class keeps some
  symbol the pass does return.\<close>

theorem exclusion_removes_class:
  assumes "\<And>a b. same a b \<Longrightarrow> a = b" "sem_ok c" "uset_ok (snd ex)" "re_ok r"
    and "excludable (CC_Remover ex True same) r \<or> plain r \<and> survives ex r"
  shows "case exclude_CC ex True same r of
      None \<Rightarrow> \<not> (plain r \<and> survives ex r)
    | Some r' \<Rightarrow> re_ok r' \<and> den c r' = den (without c ex) r"
proof -
  have "excludable (CC_Remover ex True same) r" using assms(3,5) survives_excludable by blast
  then have "excludes c ex r (transform (CC_Remover ex True same) r)"
    using exclusion.transform_ok[of same c ex r] assms(1-4) by blast
  moreover have "plain r \<and> survives ex r \<Longrightarrow> transform (CC_Remover ex True same) r \<noteq> None"
    using exclusion_total.transform_ok[of ex r c same] assms(3) by (auto simp: xok_def)
  ultimately show ?thesis
    by (cases "transform (CC_Remover ex True same) r") (auto simp: exclude_CC_def transformRE_def)
qed

theorem exclusion_removes_class_witness:
  "\<exists>r'. exclude_CC (Unicode, UnicodeSet_singleton 10) True (=) (Rep (CC Unicode (UnicodeSet_range 0 20)) 0 (-1)) = Some r'
    \<and> den no_text r' = den (without no_text (Unicode, UnicodeSet_singleton 10)) (Rep (CC Unicode (UnicodeSet_range 0 20)) 0 (-1))"
proof -
  let ?ex = "(Unicode, UnicodeSet_singleton 10)" and ?r = "Rep (CC Unicode (UnicodeSet_range 0 20)) 0 (-1)"
  have "0 \<in> codepoints (UnicodeSet_range 0 20)" "uset_ok (UnicodeSet_range 0 20)" by (simp_all add: UnicodeSet_range_spec)
  then have r: "plain ?r" "survives ?ex ?r" "uset_ok (snd ?ex)"
    using singleton_class[of 10] by (auto simp: basic_bounds_def)
  have ok: "re_ok ?r" by (rule plain_re_ok[OF r(1)])
  from exclusion_removes_class[of "(=)" no_text ?ex ?r] r ok sem_ok_text show ?thesis by (auto split: option.splits)
qed




end
