(* ===== verification/Pablo_Base.thy ===== *)
theory Pablo_Base imports Prelude begin

text \<open>
  The expressions of \<open>include/pablo\<close>: one datatype for the class hierarchy \<open>PabloAST\<close>,
  their meaning as bit streams after the code that \<open>lib/pablo/pablo_compiler.cpp\<close> generates for
  each statement, and the test \<open>equals\<close> of \<open>lib/pablo/pabloAST.cpp\<close>.
\<close>

section \<open>Expressions\<close>

datatype intrinsic = SpanUpTo | InclusiveSpan | ExclusiveSpan | PrintRegister

text \<open>The constructors are the expression classes, in the order of \<open>ClassTypeId\<close>. The integer
  operands of stream operations are numbers. An expression is a tree here; where the program compares
  the addresses of two nodes, the comparison is a parameter.\<close>

datatype pablo =
  Zeroes
| Ones
| Add pablo pablo
| Subtract pablo pablo
| LessThan pablo pablo
| Equals pablo pablo
| Var string
| Integer nat
| Extract pablo pablo
| And pablo pablo
| Or pablo pablo
| Xor pablo pablo
| Not pablo
| Sel pablo pablo pablo
| Ternary nat pablo pablo pablo
| Advance pablo nat
| IndexedAdvance pablo pablo nat
| ScanThru pablo pablo
| AdvanceThenScanThru pablo pablo
| ScanTo pablo pablo
| AdvanceThenScanTo pablo pablo
| Lookahead pablo nat
| MatchStar pablo pablo
| InFile pablo
| AtEOF pablo
| TerminateAt pablo nat
| EveryNth pablo nat
| Count pablo
| Repeat nat pablo
| PackH nat pablo
| PackL nat pablo
| DebugPrint pablo
| IntrinsicCall intrinsic "pablo list"

definition class_type_id :: "pablo \<Rightarrow> nat" where
  "class_type_id e = (case e of Zeroes \<Rightarrow> 0 | Ones \<Rightarrow> 1 | Add _ _ \<Rightarrow> 2 | Subtract _ _ \<Rightarrow> 3 | LessThan _ _ \<Rightarrow> 4
     | Equals _ _ \<Rightarrow> 6 | Var _ \<Rightarrow> 10 | Integer _ \<Rightarrow> 11 | Extract _ _ \<Rightarrow> 15 | And _ _ \<Rightarrow> 16 | Or _ _ \<Rightarrow> 17 | Xor _ _ \<Rightarrow> 18
     | Not _ \<Rightarrow> 19 | Sel _ _ _ \<Rightarrow> 20 | Ternary _ _ _ _ \<Rightarrow> 21 | Advance _ _ \<Rightarrow> 22 | IndexedAdvance _ _ _ \<Rightarrow> 23
     | ScanThru _ _ \<Rightarrow> 24 | AdvanceThenScanThru _ _ \<Rightarrow> 25 | ScanTo _ _ \<Rightarrow> 26 | AdvanceThenScanTo _ _ \<Rightarrow> 27
     | Lookahead _ _ \<Rightarrow> 28 | MatchStar _ _ \<Rightarrow> 29 | InFile _ \<Rightarrow> 30 | AtEOF _ \<Rightarrow> 31 | TerminateAt _ _ \<Rightarrow> 32
     | EveryNth _ _ \<Rightarrow> 33 | Count _ \<Rightarrow> 34 | Repeat _ _ \<Rightarrow> 38 | PackH _ _ \<Rightarrow> 39 | PackL _ _ \<Rightarrow> 40 | DebugPrint _ \<Rightarrow> 41
     | IntrinsicCall _ _ \<Rightarrow> 43)"

lemma class_ids [simp]:
  "class_type_id (Zeroes) = 0"
  "class_type_id (Ones) = 1"
  "class_type_id (Add x y) = 2"
  "class_type_id (Subtract x y) = 3"
  "class_type_id (LessThan x y) = 4"
  "class_type_id (Equals x y) = 6"
  "class_type_id (Var v) = 10"
  "class_type_id (Integer m) = 11"
  "class_type_id (Extract x y) = 15"
  "class_type_id (And x y) = 16"
  "class_type_id (Or x y) = 17"
  "class_type_id (Xor x y) = 18"
  "class_type_id (Not x) = 19"
  "class_type_id (Sel x y z) = 20"
  "class_type_id (Ternary m x y z) = 21"
  "class_type_id (Advance x m) = 22"
  "class_type_id (IndexedAdvance x y m) = 23"
  "class_type_id (ScanThru x y) = 24"
  "class_type_id (AdvanceThenScanThru x y) = 25"
  "class_type_id (ScanTo x y) = 26"
  "class_type_id (AdvanceThenScanTo x y) = 27"
  "class_type_id (Lookahead x m) = 28"
  "class_type_id (MatchStar x y) = 29"
  "class_type_id (InFile x) = 30"
  "class_type_id (AtEOF x) = 31"
  "class_type_id (TerminateAt x m) = 32"
  "class_type_id (EveryNth x m) = 33"
  "class_type_id (Count x) = 34"
  "class_type_id (Repeat m x) = 38"
  "class_type_id (PackH m x) = 39"
  "class_type_id (PackL m x) = 40"
  "class_type_id (DebugPrint x) = 41"
  "class_type_id (IntrinsicCall j es) = 43"
  by (simp_all add: class_type_id_def)

text \<open>The operands of a statement; other expressions have none that \<open>equals\<close> looks at.\<close>

definition is_statement :: "pablo \<Rightarrow> bool" where
  "is_statement e = (16 \<le> class_type_id e)"

fun operands :: "pablo \<Rightarrow> pablo list" where
  "operands (And a b) = [a, b]"
| "operands (Or a b) = [a, b]"
| "operands (Xor a b) = [a, b]"
| "operands (Not a) = [a]"
| "operands (Sel a b c) = [a, b, c]"
| "operands (Ternary m a b c) = [Integer m, a, b, c]"
| "operands (Advance a n) = [a, Integer n]"
| "operands (IndexedAdvance a b n) = [a, b, Integer n]"
| "operands (ScanThru a b) = [a, b]"
| "operands (AdvanceThenScanThru a b) = [a, b]"
| "operands (ScanTo a b) = [a, b]"
| "operands (AdvanceThenScanTo a b) = [a, b]"
| "operands (Lookahead a n) = [a, Integer n]"
| "operands (MatchStar a b) = [a, b]"
| "operands (InFile a) = [a]"
| "operands (AtEOF a) = [a]"
| "operands (TerminateAt a n) = [a, Integer n]"
| "operands (EveryNth a n) = [a, Integer n]"
| "operands (Count a) = [a]"
| "operands (Repeat n a) = [Integer n, a]"
| "operands (PackH n a) = [Integer n, a]"
| "operands (PackL n a) = [Integer n, a]"
| "operands (DebugPrint a) = [a]"
| "operands (IntrinsicCall k es) = es"
| "operands _ = []"

section \<open>Streams\<close>

type_synonym stream = "nat \<Rightarrow> bool"

text \<open>Addition and subtraction of streams as unbounded numbers, least significant bit first: the blocks
  are added with the carry of the block before.\<close>

fun carry_in :: "stream \<Rightarrow> stream \<Rightarrow> nat \<Rightarrow> bool" where
  "carry_in s t 0 = False"
| "carry_in s t (Suc i) = ((s i \<and> t i) \<or> ((s i \<or> t i) \<and> carry_in s t i))"

definition stream_add :: "stream \<Rightarrow> stream \<Rightarrow> stream" where
  "stream_add s t i = ((s i \<noteq> t i) \<noteq> carry_in s t i)"

fun borrow_in :: "stream \<Rightarrow> stream \<Rightarrow> nat \<Rightarrow> bool" where
  "borrow_in s t 0 = False"
| "borrow_in s t (Suc i) = ((\<not> s i \<and> t i) \<or> ((\<not> s i \<or> t i) \<and> borrow_in s t i))"

definition stream_sub :: "stream \<Rightarrow> stream \<Rightarrow> stream" where
  "stream_sub s t i = ((s i \<noteq> t i) \<noteq> borrow_in s t i)"

definition stream_advance :: "nat \<Rightarrow> stream \<Rightarrow> stream" where
  "stream_advance n s i = (n \<le> i \<and> s (i - n))"

text \<open>The bits of \<open>s\<close> at the positions of the index stream move on to the \<open>n\<close>-th index position
  after theirs.\<close>

definition indexed_advance :: "nat \<Rightarrow> stream \<Rightarrow> stream \<Rightarrow> stream" where
  "indexed_advance n ix s i = (ix i \<and> (\<exists>j \<le> i. ix j \<and> s j \<and> card {k. j \<le> k \<and> k < i \<and> ix k} = n))"

definition ternary_bit :: "nat \<Rightarrow> bool \<Rightarrow> bool \<Rightarrow> bool \<Rightarrow> bool" where
  "ternary_bit m a b c = bit m ((if a then 4 else 0) + (if b then 2 else 0) + (if c then 1 else 0 :: nat))"

section \<open>Meaning\<close>

text \<open>What the kernel supplies: the streams of variables and of extracted streams, the values of
  streams of wider units, and the position of the end of the file. What \<open>Count\<close>, \<open>EveryNth\<close>
  and the packing statements compute is a parameter.\<close>

record kernel_state =
  var_bits :: "string \<Rightarrow> stream"
  var_units :: "string \<Rightarrow> nat \<Rightarrow> nat"
  extract_bits :: "pablo \<Rightarrow> pablo \<Rightarrow> stream"
  EOF :: nat
  other_bits :: "nat \<Rightarrow> nat \<Rightarrow> stream \<Rightarrow> stream"

fun units :: "kernel_state \<Rightarrow> pablo \<Rightarrow> nat \<Rightarrow> nat" where
  "units c (Integer n) = (\<lambda>i. n)"
| "units c (Var v) = var_units c v"
| "units c (Repeat w e) = (\<lambda>i. units c e i mod 2 ^ w)"
| "units c (Add a b) = (\<lambda>i. (units c a i + units c b i) mod 2 ^ 64)"
| "units c (Subtract a b) = (\<lambda>i. (units c a i + 2 ^ 64 - units c b i) mod 2 ^ 64)"
| "units c (LessThan a b) = (\<lambda>i. if units c a i < units c b i then 1 else 0)"
| "units c (Equals a b) = (\<lambda>i. if units c a i = units c b i then 1 else 0)"
| "units c _ = (\<lambda>i. 0)"

fun bits :: "kernel_state \<Rightarrow> pablo \<Rightarrow> stream" where
  "bits c Zeroes = (\<lambda>i. False)"
| "bits c Ones = (\<lambda>i. True)"
| "bits c (Var v) = var_bits c v"
| "bits c (Extract a k) = extract_bits c a k"
| "bits c (And a b) = (\<lambda>i. bits c a i \<and> bits c b i)"
| "bits c (Or a b) = (\<lambda>i. bits c a i \<or> bits c b i)"
| "bits c (Xor a b) = (\<lambda>i. bits c a i \<noteq> bits c b i)"
| "bits c (Not a) = (\<lambda>i. \<not> bits c a i)"
| "bits c (Sel s a b) = (\<lambda>i. if bits c s i then bits c a i else bits c b i)"
| "bits c (Ternary m x y z) = (\<lambda>i. ternary_bit m (bits c x i) (bits c y i) (bits c z i))"
| "bits c (Advance a n) = stream_advance n (bits c a)"
| "bits c (IndexedAdvance a ix n) = indexed_advance n (bits c ix) (bits c a)"
| "bits c (MatchStar m cc) =
     (\<lambda>i. stream_add (\<lambda>i. bits c m i \<and> bits c cc i) (bits c cc) i \<noteq> bits c cc i \<or> bits c m i)"
| "bits c (ScanThru s t) = (\<lambda>i. stream_add (bits c s) (bits c t) i \<and> \<not> bits c t i)"
| "bits c (ScanTo s t) =
     (let to = (\<lambda>i. bits c t i \<or> i = EOF c) in (\<lambda>i. stream_add (bits c s) (\<lambda>i. \<not> to i) i \<and> to i))"
| "bits c (AdvanceThenScanThru s t) =
     (\<lambda>i. stream_add (bits c s) (\<lambda>i. bits c s i \<or> bits c t i) i \<and> \<not> bits c t i)"
| "bits c (AdvanceThenScanTo s t) =
     (let to = (\<lambda>i. bits c t i \<or> i = EOF c) in (\<lambda>i. stream_add (bits c s) (\<lambda>i. bits c s i \<or> \<not> to i) i \<and> to i))"
| "bits c (Lookahead a n) = (\<lambda>i. bits c a (i + n))"
| "bits c (InFile a) = (\<lambda>i. bits c a i \<and> \<not> EOF c \<le> i)"
| "bits c (AtEOF a) = (\<lambda>i. bits c a i \<and> i = EOF c)"
| "bits c (TerminateAt a n) = bits c a"
| "bits c (DebugPrint a) = bits c a"
| "bits c (IntrinsicCall k es) =
     (case es of
        [a, b] \<Rightarrow> (case k of
            SpanUpTo \<Rightarrow> stream_sub (bits c b) (bits c a)
          | InclusiveSpan \<Rightarrow> (\<lambda>i. bits c b i \<or> stream_sub (bits c b) (bits c a) i)
          | ExclusiveSpan \<Rightarrow> (\<lambda>i. \<not> bits c a i \<and> stream_sub (bits c b) (bits c a) i)
          | PrintRegister \<Rightarrow> (\<lambda>i. False))
      | [a] \<Rightarrow> if k = PrintRegister then bits c a else (\<lambda>i. False)
      | _ \<Rightarrow> (\<lambda>i. False))"
| "bits c (Count a) = other_bits c 34 0 (bits c a)"
| "bits c (EveryNth a n) = other_bits c 33 n (bits c a)"
| "bits c (PackH n a) = other_bits c 39 n (bits c a)"
| "bits c (PackL n a) = other_bits c 40 n (bits c a)"
| "bits c e = (\<lambda>i. units c e i \<noteq> 0)"


section \<open>The test for equal expressions\<close>

text \<open>The addresses of nodes: which equal expressions are one node, and the order of the addresses. Two
  expressions at one address are equal; nothing else is known of them.\<close>

record addresses =
  same :: "pablo \<Rightarrow> pablo \<Rightarrow> bool"
  before :: "pablo \<Rightarrow> pablo \<Rightarrow> bool"

definition identical :: "addresses \<Rightarrow> pablo \<Rightarrow> pablo \<Rightarrow> bool" where
  "identical p a b = (a = b \<and> same p a b)"

lemma identical_eq: "identical p a b \<Longrightarrow> a = b"
  by (simp add: identical_def)

definition ordered :: "addresses \<Rightarrow> pablo \<times> pablo \<Rightarrow> pablo \<times> pablo" where
  "ordered p ab = (if before p (snd ab) (fst ab) then (snd ab, fst ab) else ab)"

fun binary_operands :: "pablo \<Rightarrow> (pablo \<times> pablo) option" where
  "binary_operands (And a b) = Some (a, b)"
| "binary_operands (Or a b) = Some (a, b)"
| "binary_operands (Xor a b) = Some (a, b)"
| "binary_operands _ = None"

text \<open>The types of the expressions, which \<open>equals\<close> compares too, are not part of the model. The
  counts of operands of two statements of one class agree by an assertion; where the assertion fails
  the model has the answer \<open>False\<close>.\<close>

lemma operands_size: "is_statement e \<Longrightarrow> sum_list (map (\<lambda>x. 5 * size x + 1) (operands e)) < 5 * size e"
proof (cases e)
  case (IntrinsicCall k es)
  have "sum_list (map (\<lambda>x. 5 * size x + 1) es) \<le> 5 * size_list size es" by (induction es) auto
  with IntrinsicCall show ?thesis by simp
qed (auto simp: is_statement_def class_type_id_def)

function equals :: "addresses \<Rightarrow> pablo \<Rightarrow> pablo \<Rightarrow> bool"
  and equal_operands :: "addresses \<Rightarrow> pablo list \<Rightarrow> pablo list \<Rightarrow> bool" where
  "equals p a b =
     (if identical p a b then True
      else if class_type_id a = class_type_id b then
        if a = Zeroes \<or> a = Ones then True
        else (case (binary_operands a, binary_operands b) of
            (Some op1, Some op2) \<Rightarrow>
              identical p (fst (ordered p op1)) (fst (ordered p op2)) \<and> identical p (snd (ordered p op1)) (snd (ordered p op2))
          | _ \<Rightarrow> if is_statement a then equal_operands p (operands a) (operands b) else False)
      else False)"
| "equal_operands p (a # as) (b # bs) = (equals p a b \<and> equal_operands p as bs)"
| "equal_operands p [] [] = True"
| "equal_operands p [] (b # bs) = False"
| "equal_operands p (a # as) [] = False"
  by pat_completeness auto

termination
proof (relation "measure (case_sum (\<lambda>(p, a, b). 5 * size a) (\<lambda>(p, as, bs). sum_list (map (\<lambda>x. 5 * size x + 1) as)))")
qed (use operands_size in auto)

declare equals.simps [simp del]

text \<open>Two expressions that the test takes for equal have the same meaning when the calls of intrinsics
  in them are all of one kind: the test does not look at the kind.\<close>

fun one_kind :: "intrinsic \<Rightarrow> pablo \<Rightarrow> bool" where
  "one_kind k (IntrinsicCall j es) = (j = k \<and> list_all (one_kind k) es)"
| "one_kind k (And a b) = (one_kind k a \<and> one_kind k b)"
| "one_kind k (Or a b) = (one_kind k a \<and> one_kind k b)"
| "one_kind k (Xor a b) = (one_kind k a \<and> one_kind k b)"
| "one_kind k (Not a) = one_kind k a"
| "one_kind k (Sel a b c) = (one_kind k a \<and> one_kind k b \<and> one_kind k c)"
| "one_kind k (Ternary m a b c) = (one_kind k a \<and> one_kind k b \<and> one_kind k c)"
| "one_kind k (Advance a n) = one_kind k a"
| "one_kind k (IndexedAdvance a b n) = (one_kind k a \<and> one_kind k b)"
| "one_kind k (ScanThru a b) = (one_kind k a \<and> one_kind k b)"
| "one_kind k (AdvanceThenScanThru a b) = (one_kind k a \<and> one_kind k b)"
| "one_kind k (ScanTo a b) = (one_kind k a \<and> one_kind k b)"
| "one_kind k (AdvanceThenScanTo a b) = (one_kind k a \<and> one_kind k b)"
| "one_kind k (Lookahead a n) = one_kind k a"
| "one_kind k (MatchStar a b) = (one_kind k a \<and> one_kind k b)"
| "one_kind k (InFile a) = one_kind k a"
| "one_kind k (AtEOF a) = one_kind k a"
| "one_kind k (TerminateAt a n) = one_kind k a"
| "one_kind k (EveryNth a n) = one_kind k a"
| "one_kind k (Count a) = one_kind k a"
| "one_kind k (Repeat n a) = one_kind k a"
| "one_kind k (PackH n a) = one_kind k a"
| "one_kind k (PackL n a) = one_kind k a"
| "one_kind k (DebugPrint a) = one_kind k a"
| "one_kind k e = True"

lemma one_kind_operands: "one_kind k e \<Longrightarrow> list_all (one_kind k) (operands e)"
  by (cases e) auto

definition same_meaning :: "kernel_state \<Rightarrow> pablo \<Rightarrow> pablo \<Rightarrow> bool" where
  "same_meaning c a b \<longleftrightarrow> bits c a = bits c b \<and> units c a = units c b"

lemma same_integers: "same_meaning c (Integer m) (Integer n) \<longleftrightarrow> m = n"
  by (auto simp: same_meaning_def fun_eq_iff)

lemma bits_list_eq: "list_all2 (same_meaning c) as bs \<Longrightarrow> map (bits c) as = map (bits c) bs"
  by (induction rule: list_all2_induct) (auto simp: same_meaning_def)

lemma intrinsic_cong: "map (bits c) as = map (bits c) bs \<Longrightarrow> bits c (IntrinsicCall k as) = bits c (IntrinsicCall k bs)"
  by (cases as; cases bs; cases "tl as"; cases "tl bs") (auto split: list.splits intrinsic.splits)

lemma class_inverse:
  "16 = class_type_id e \<longleftrightarrow> (\<exists>x y. e = And x y)"
  "17 = class_type_id e \<longleftrightarrow> (\<exists>x y. e = Or x y)"
  "18 = class_type_id e \<longleftrightarrow> (\<exists>x y. e = Xor x y)"
  "19 = class_type_id e \<longleftrightarrow> (\<exists>x. e = Not x)"
  "20 = class_type_id e \<longleftrightarrow> (\<exists>x y z. e = Sel x y z)"
  "21 = class_type_id e \<longleftrightarrow> (\<exists>m x y z. e = Ternary m x y z)"
  "22 = class_type_id e \<longleftrightarrow> (\<exists>x m. e = Advance x m)"
  "23 = class_type_id e \<longleftrightarrow> (\<exists>x y m. e = IndexedAdvance x y m)"
  "24 = class_type_id e \<longleftrightarrow> (\<exists>x y. e = ScanThru x y)"
  "25 = class_type_id e \<longleftrightarrow> (\<exists>x y. e = AdvanceThenScanThru x y)"
  "26 = class_type_id e \<longleftrightarrow> (\<exists>x y. e = ScanTo x y)"
  "27 = class_type_id e \<longleftrightarrow> (\<exists>x y. e = AdvanceThenScanTo x y)"
  "28 = class_type_id e \<longleftrightarrow> (\<exists>x m. e = Lookahead x m)"
  "29 = class_type_id e \<longleftrightarrow> (\<exists>x y. e = MatchStar x y)"
  "30 = class_type_id e \<longleftrightarrow> (\<exists>x. e = InFile x)"
  "31 = class_type_id e \<longleftrightarrow> (\<exists>x. e = AtEOF x)"
  "32 = class_type_id e \<longleftrightarrow> (\<exists>x m. e = TerminateAt x m)"
  "33 = class_type_id e \<longleftrightarrow> (\<exists>x m. e = EveryNth x m)"
  "34 = class_type_id e \<longleftrightarrow> (\<exists>x. e = Count x)"
  "38 = class_type_id e \<longleftrightarrow> (\<exists>m x. e = Repeat m x)"
  "39 = class_type_id e \<longleftrightarrow> (\<exists>m x. e = PackH m x)"
  "40 = class_type_id e \<longleftrightarrow> (\<exists>m x. e = PackL m x)"
  "41 = class_type_id e \<longleftrightarrow> (\<exists>x. e = DebugPrint x)"
  "43 = class_type_id e \<longleftrightarrow> (\<exists>j es. e = IntrinsicCall j es)"
  by (cases e; simp)+

lemma class_inverse_sym:
  "class_type_id e = 16 \<longleftrightarrow> (\<exists>x y. e = And x y)"
  "class_type_id e = 17 \<longleftrightarrow> (\<exists>x y. e = Or x y)"
  "class_type_id e = 18 \<longleftrightarrow> (\<exists>x y. e = Xor x y)"
  "class_type_id e = 19 \<longleftrightarrow> (\<exists>x. e = Not x)"
  "class_type_id e = 20 \<longleftrightarrow> (\<exists>x y z. e = Sel x y z)"
  "class_type_id e = 21 \<longleftrightarrow> (\<exists>m x y z. e = Ternary m x y z)"
  "class_type_id e = 22 \<longleftrightarrow> (\<exists>x m. e = Advance x m)"
  "class_type_id e = 23 \<longleftrightarrow> (\<exists>x y m. e = IndexedAdvance x y m)"
  "class_type_id e = 24 \<longleftrightarrow> (\<exists>x y. e = ScanThru x y)"
  "class_type_id e = 25 \<longleftrightarrow> (\<exists>x y. e = AdvanceThenScanThru x y)"
  "class_type_id e = 26 \<longleftrightarrow> (\<exists>x y. e = ScanTo x y)"
  "class_type_id e = 27 \<longleftrightarrow> (\<exists>x y. e = AdvanceThenScanTo x y)"
  "class_type_id e = 28 \<longleftrightarrow> (\<exists>x m. e = Lookahead x m)"
  "class_type_id e = 29 \<longleftrightarrow> (\<exists>x y. e = MatchStar x y)"
  "class_type_id e = 30 \<longleftrightarrow> (\<exists>x. e = InFile x)"
  "class_type_id e = 31 \<longleftrightarrow> (\<exists>x. e = AtEOF x)"
  "class_type_id e = 32 \<longleftrightarrow> (\<exists>x m. e = TerminateAt x m)"
  "class_type_id e = 33 \<longleftrightarrow> (\<exists>x m. e = EveryNth x m)"
  "class_type_id e = 34 \<longleftrightarrow> (\<exists>x. e = Count x)"
  "class_type_id e = 38 \<longleftrightarrow> (\<exists>m x. e = Repeat m x)"
  "class_type_id e = 39 \<longleftrightarrow> (\<exists>m x. e = PackH m x)"
  "class_type_id e = 40 \<longleftrightarrow> (\<exists>m x. e = PackL m x)"
  "class_type_id e = 41 \<longleftrightarrow> (\<exists>x. e = DebugPrint x)"
  "class_type_id e = 43 \<longleftrightarrow> (\<exists>j es. e = IntrinsicCall j es)"
  by (cases e; simp)+

lemma class_statement:
  assumes "is_statement a" "class_type_id a = class_type_id b"
  shows "is_statement b"
  using assms by (simp add: is_statement_def)

lemma same_class_meaning:
  assumes "class_type_id a = class_type_id b" "is_statement a" "list_all2 (same_meaning c) (operands a) (operands b)"
    and "one_kind k a" "one_kind k b"
  shows "same_meaning c a b"
proof (cases a)
  case (IntrinsicCall j es)
  then obtain j' es' where b: "b = IntrinsicCall j' es'" using assms(1) by (auto simp: class_inverse)
  show ?thesis using assms(3-5) IntrinsicCall b intrinsic_cong[OF bits_list_eq] by (simp add: same_meaning_def del: bits.simps)
qed (use assms(1-3) in \<open>(clarsimp simp: class_inverse class_inverse_sym is_statement_def same_integers; simp add: same_meaning_def)+\<close>)

lemma binary_operands_class:
  "binary_operands a = Some op1 \<Longrightarrow> binary_operands b = Some op2 \<Longrightarrow> class_type_id a = class_type_id b \<Longrightarrow>
   op1 = op2 \<or> op1 = (snd op2, fst op2) \<Longrightarrow> same_meaning c a b"
  by (cases a; simp; clarsimp simp: class_inverse_sym; auto simp: same_meaning_def fun_eq_iff)

lemma equals_sound:
  shows "equals p a b \<Longrightarrow> one_kind k a \<Longrightarrow> one_kind k b \<Longrightarrow> same_meaning c a b"
    and "equal_operands p as bs \<Longrightarrow> list_all (one_kind k) as \<Longrightarrow> list_all (one_kind k) bs \<Longrightarrow> list_all2 (same_meaning c) as bs"
proof (induction p a b and p as bs rule: equals_equal_operands.induct)
  case (1 p a b)
  note IH = "1.IH" and prems = "1.prems"
  show ?case
  proof (cases "identical p a b")
    case True
    then have "a = b" by (rule identical_eq)
    then show ?thesis by (simp add: same_meaning_def)
  next
    case False
    then have cls: "class_type_id a = class_type_id b" using prems(1) by (simp add: equals.simps[of p a b] split: if_splits)
    consider "a = Zeroes \<or> a = Ones" | op1 op2 where "a \<noteq> Zeroes" "a \<noteq> Ones" "binary_operands a = Some op1" "binary_operands b = Some op2"
      | "a \<noteq> Zeroes" "a \<noteq> Ones" "binary_operands a = None \<or> binary_operands b = None" by (metis option.exhaust)
    then show ?thesis
    proof cases
      case 1
      then have "a = b" using cls by (cases b) auto
      then show ?thesis by (simp add: same_meaning_def)
    next
      case (2 op1 op2)
      then have "identical p (fst (ordered p op1)) (fst (ordered p op2))" "identical p (snd (ordered p op1)) (snd (ordered p op2))"
        using prems(1) False cls by (simp_all add: equals.simps[of p a b])
      then have "fst (ordered p op1) = fst (ordered p op2)" "snd (ordered p op1) = snd (ordered p op2)"
        by (blast dest: identical_eq)+
      then have "op1 = op2 \<or> op1 = (snd op2, fst op2)" by (auto simp: ordered_def split: if_splits intro: prod_eqI)
      with binary_operands_class 2(3,4) cls show ?thesis by blast
    next
      case 3
      then have st: "is_statement a" "equal_operands p (operands a) (operands b)"
        using prems(1) False cls by (auto simp: equals.simps[of p a b] split: option.splits if_splits)
      have kinds: "list_all (one_kind k) (operands a)" "list_all (one_kind k) (operands b)"
        using prems(2,3) one_kind_operands by blast+
      have "list_all2 (same_meaning c) (operands a) (operands b)"
      proof (cases "binary_operands a")
        case None
        with IH(1)[OF False cls _ refl _ st(1) st(2) kinds] 3 show ?thesis by blast
      next
        case (Some op1)
        then have "binary_operands b = None" using 3(3) by simp
        with IH(2)[OF False cls _ refl Some _ st(1) st(2) kinds] 3 show ?thesis by blast
      qed
      then show ?thesis using same_class_meaning[OF cls st(1)] prems(2,3) by blast
    qed
  qed
qed simp_all

end
