(* ===== verification/Pablo_Build.thy ===== *)
theory Pablo_Build imports Pablo_Base begin

text \<open>
  \<open>PabloBuilder\<close> of \<open>lib/pablo/builder.cpp\<close>: the simplifications made when a statement is created,
  and that they keep the meaning. The overloads of an operation without and with a name differ in the
  name of the statement only, which is not modelled; \<open>createIndexedAdvance\<close> is the exception.
\<close>

section \<open>Casts\<close>

fun as_Not :: "pablo \<Rightarrow> pablo option" where
  "as_Not (Not a) = Some a"
| "as_Not _ = None"

fun as_And :: "pablo \<Rightarrow> (pablo \<times> pablo) option" where
  "as_And (And a b) = Some (a, b)"
| "as_And _ = None"

fun as_Or :: "pablo \<Rightarrow> (pablo \<times> pablo) option" where
  "as_Or (Or a b) = Some (a, b)"
| "as_Or _ = None"

fun as_Ternary :: "pablo \<Rightarrow> (nat \<times> pablo \<times> pablo \<times> pablo) option" where
  "as_Ternary (Ternary m a b c) = Some (m, a, b, c)"
| "as_Ternary _ = None"

fun as_Integer :: "pablo \<Rightarrow> nat option" where
  "as_Integer (Integer n) = Some n"
| "as_Integer _ = None"

fun is_InFile :: "pablo \<Rightarrow> bool" where
  "is_InFile (InFile _) = True"
| "is_InFile _ = False"

fun is_DebugPrint :: "pablo \<Rightarrow> bool" where
  "is_DebugPrint (DebugPrint _) = True"
| "is_DebugPrint _ = False"

lemma as_Some [simp]:
  "as_Not e = Some a \<longleftrightarrow> e = Not a"
  "as_And e = Some (a, b) \<longleftrightarrow> e = And a b"
  "as_Or e = Some (a, b) \<longleftrightarrow> e = Or a b"
  "as_Ternary e = Some (m, a, b, c) \<longleftrightarrow> e = Ternary m a b c"
  "as_Integer e = Some n \<longleftrightarrow> e = Integer n"
  by (cases e; auto)+

lemmas as_Some_sym [simp] = as_Some [unfolded eq_commute [of _ "Some _"]]

section \<open>Negation, conjunction, disjunction\<close>

definition createTernary :: "nat \<Rightarrow> pablo \<Rightarrow> pablo \<Rightarrow> pablo \<Rightarrow> pablo" where
  "createTernary m a b c = Ternary m a b c"

definition createNot :: "pablo \<Rightarrow> pablo" where
  "createNot e =
     (if e = Ones then Zeroes
      else if e = Zeroes then Ones
      else case as_Not e of
        Some a \<Rightarrow> a
      | None \<Rightarrow> (case as_Ternary e of
            Some (m, a, b, c) \<Rightarrow> createTernary (xor m 255) a b c
          | None \<Rightarrow> Not e))"

text \<open>\<open>if (expr1 > expr2) std::swap\<close>\<close>

definition in_order :: "addresses \<Rightarrow> (pablo \<Rightarrow> pablo \<Rightarrow> pablo) \<Rightarrow> pablo \<Rightarrow> pablo \<Rightarrow> pablo" where
  "in_order p f a b = (if before p b a then f b a else f a b)"

lemma size_createNot: "size (createNot e) \<le> Suc (size e)"
  by (auto simp: createNot_def createTernary_def split: option.splits)

function createAnd :: "addresses \<Rightarrow> pablo \<Rightarrow> pablo \<Rightarrow> pablo"
  and createOr :: "addresses \<Rightarrow> pablo \<Rightarrow> pablo \<Rightarrow> pablo" where
  "createAnd p e1 e2 =
     (if e2 = Zeroes \<or> e1 = Ones then e2
      else if e1 = Zeroes \<or> e2 = Ones \<or> equals p e1 e2 then e1
      else case (as_Not e1, as_Not e2) of
        (Some a, Some b) \<Rightarrow> createNot (createOr p a b)
      | (Some a, None) \<Rightarrow> if equals p a e2 then Zeroes else in_order p And e1 e2
      | (None, Some b) \<Rightarrow> if equals p e1 b then Zeroes else in_order p And e1 e2
      | (None, None) \<Rightarrow> (case as_Or e1 of
            Some (a, b) \<Rightarrow> if equals p a e2 \<or> equals p b e2 then e2 else in_order p And e1 e2
          | None \<Rightarrow> (case as_Or e2 of
                Some (a, b) \<Rightarrow> if equals p a e1 \<or> equals p b e1 then e1 else in_order p And e1 e2
              | None \<Rightarrow> in_order p And e1 e2)))"
| "createOr p e1 e2 =
     (if e1 = Zeroes \<or> e2 = Ones then e2
      else if e2 = Zeroes \<or> e1 = Ones \<or> equals p e1 e2 then e1
      else case as_Not e1 of
        Some a \<Rightarrow> createNot (createAnd p a (createNot e2))
      | None \<Rightarrow> (case as_Not e2 of
            Some b \<Rightarrow> createNot (createAnd p b (createNot e1))
          | None \<Rightarrow> (case as_And e1 of
                Some (a1, b1) \<Rightarrow> (case as_And e2 of
                    Some (a2, b2) \<Rightarrow>
                      if equals p a1 a2 then createAnd p a1 (createOr p b1 b2)
                      else if equals p b1 b2 then createAnd p b1 (createOr p a1 a2)
                      else if equals p a1 b2 then createAnd p a1 (createOr p b1 a2)
                      else if equals p b1 a2 then createAnd p b1 (createOr p a1 b2)
                      else in_order p Or e1 e2
                  | None \<Rightarrow> if equals p a1 e2 \<or> equals p b1 e2 then e2 else in_order p Or e1 e2)
              | None \<Rightarrow> (case as_And e2 of
                    Some (a2, b2) \<Rightarrow> if equals p a2 e1 \<or> equals p b2 e1 then e1 else in_order p Or e1 e2
                  | None \<Rightarrow> in_order p Or e1 e2))))"
  by pat_completeness auto

termination
proof -
  have size: "createAnd_createOr_dom (Inl (p, e1, e2)) \<Longrightarrow> size (createAnd p e1 e2) \<le> Suc (size e1 + size e2)"
    "createAnd_createOr_dom (Inr (q, f1, f2)) \<Longrightarrow> size (createOr q f1 f2) \<le> Suc (Suc (size f1 + size f2))" for p e1 e2 q f1 f2
  proof (induction p e1 e2 and q f1 f2 rule: createAnd_createOr.pinduct)
    case (1 p e1 e2)
    have "size (createNot (createOr p a b)) \<le> Suc (Suc (Suc (size a + size b)))"
      if "\<not> (e2 = Zeroes \<or> e1 = Ones)" "\<not> (e1 = Zeroes \<or> e2 = Ones \<or> equals p e1 e2)" "as_Not e1 = Some a" "as_Not e2 = Some b" for a b
      using 1(2)[OF that(1,2) refl, of a b] that(3,4) size_createNot[of "createOr p a b"] by simp
    then show ?case
      by (auto simp: createAnd.psimps[OF 1(1)] in_order_def split: option.splits)
  next
    case (2 p e1 e2)
    have n: "size (createNot e) \<le> Suc (Suc (Suc (size a + size b)))"
      if "size e \<le> Suc (size a + size (createNot b))" for e a b
      using that size_createNot[of e] size_createNot[of b] by simp
    note or_eq = createOr.psimps[OF 2(1)]
    show ?case
    proof (cases "e1 = Zeroes \<or> e2 = Ones \<or> e2 = Zeroes \<or> e1 = Ones \<or> equals p e1 e2")
      case True
      then show ?thesis unfolding or_eq by auto
    next
      case False
      then have F: "\<not> (e1 = Zeroes \<or> e2 = Ones)" "\<not> (e2 = Zeroes \<or> e1 = Ones \<or> equals p e1 e2)" by auto
      show ?thesis
      proof (cases "as_Not e1")
        case (Some a)
        with 2(11)[OF F Some] n[of "createAnd p a (createNot e2)" a e2] F show ?thesis unfolding or_eq by simp
      next
        case N1: None
        show ?thesis
        proof (cases "as_Not e2")
          case (Some a)
          with 2(10)[OF F N1 Some] n[of "createAnd p a (createNot e1)" a e1] F N1 show ?thesis unfolding or_eq by simp
        next
          case N2: None
          show ?thesis
          proof (cases "\<exists>a1 b1 a2 b2. e1 = And a1 b1 \<and> e2 = And a2 b2")
            case True
            then obtain a1 b1 a2 b2 where e: "as_And e1 = Some (a1, b1)" "as_And e2 = Some (a2, b2)" by auto
            note IH = 2(2-9)[OF F N1 N2 e(1) refl e(2) refl]
            show ?thesis unfolding or_eq using F IH e
              by (cases "equals p a1 a2"; cases "equals p b1 b2"; cases "equals p a1 b2"; cases "equals p b1 a2"; simp add: in_order_def)
          next
            case False
            then show ?thesis using F N1 N2 unfolding or_eq by (auto simp: in_order_def split: option.splits)
          qed
        qed
      qed
    qed
  qed
  have size_not: "2 * size (createNot e) \<le> Suc (Suc (2 * size e))" for e
    using size_createNot[of e] by simp
  show ?thesis
  proof (relation "measure (case_sum (\<lambda>(p, a, b). 2 * (size a + size b)) (\<lambda>(p, a, b). 2 * (size a + size b) + 1))")
  qed (use size_not in \<open>auto simp: less_Suc_eq_le intro: order_trans dest: size(2)\<close>)
qed


declare createAnd.simps [simp del] createOr.simps [simp del]

section \<open>Other boolean operations\<close>

function createXor :: "addresses \<Rightarrow> pablo \<Rightarrow> pablo \<Rightarrow> pablo" where
  "createXor p e1 e2 =
     (if identical p e1 e2 then Zeroes
      else if e1 = Ones then createNot e2
      else if e1 = Zeroes then e2
      else if e2 = Ones then createNot e1
      else if e2 = Zeroes then e1
      else case (as_Not e1, as_Not e2) of
        (Some a, Some b) \<Rightarrow> createXor p a b
      | _ \<Rightarrow> in_order p Xor e1 e2)"
  by pat_completeness auto

termination
  by (relation "measure (\<lambda>(p, a, b). size a)") auto

declare createXor.simps [simp del]

definition createSel :: "addresses \<Rightarrow> pablo \<Rightarrow> pablo \<Rightarrow> pablo \<Rightarrow> pablo" where
  "createSel p cond t f =
     (if cond = Ones then t
      else if cond = Zeroes then f
      else if t = Ones then createOr p cond f
      else if t = Zeroes then createAnd p (createNot cond) f
      else if f = Ones then createOr p (createNot cond) t
      else if f = Zeroes then createAnd p cond t
      else if equals p t f then t
      else if (case as_Not t of Some a \<Rightarrow> equals p a f | None \<Rightarrow> False) then createXor p cond f
      else if (case as_Not f of Some a \<Rightarrow> equals p t a | None \<Rightarrow> False) then createXor p cond t
      else Sel cond t f)"

definition createAnd3 :: "addresses \<Rightarrow> pablo \<Rightarrow> pablo \<Rightarrow> pablo \<Rightarrow> pablo" where
  "createAnd3 p e1 e2 e3 =
     (if e1 = Zeroes \<or> e2 = Zeroes \<or> e3 = Zeroes then Zeroes
      else if e1 = Ones \<and> e2 = Ones then e3
      else if e2 = Ones \<and> e3 = Ones then e1
      else if e1 = Ones \<and> e3 = Ones then e2
      else if e1 = Ones then createAnd p e2 e3
      else if e2 = Ones then createAnd p e1 e3
      else if e3 = Ones then createAnd p e1 e2
      else createTernary 0x80 e1 e2 e3)"

definition createOr3 :: "addresses \<Rightarrow> pablo \<Rightarrow> pablo \<Rightarrow> pablo \<Rightarrow> pablo" where
  "createOr3 p e1 e2 e3 =
     (if e1 = Ones \<or> e2 = Ones \<or> e3 = Ones then Ones
      else if e1 = Zeroes \<and> e2 = Zeroes then e3
      else if e2 = Zeroes \<and> e3 = Zeroes then e1
      else if e1 = Zeroes \<and> e3 = Zeroes then e2
      else if e1 = Zeroes then createOr p e2 e3
      else if e2 = Zeroes then createOr p e1 e3
      else if e3 = Zeroes then createOr p e1 e2
      else createTernary 0xFE e1 e2 e3)"

definition createXor3 :: "addresses \<Rightarrow> pablo \<Rightarrow> pablo \<Rightarrow> pablo \<Rightarrow> pablo" where
  "createXor3 p e1 e2 e3 =
     (if e1 = Ones \<and> e2 = Ones \<and> e3 = Ones then Ones
      else if e1 = Zeroes \<and> e2 = Zeroes \<and> e3 = Zeroes then Zeroes
      else if equals p e1 e2 \<and> equals p e2 e3 then e1
      else if equals p e1 e2 then createXor p e3 Zeroes
      else if equals p e1 e3 then createXor p e2 Zeroes
      else if equals p e2 e3 then createXor p e1 Zeroes
      else createTernary 0x96 e1 e2 e3)"

definition createMajority3 :: "pablo \<Rightarrow> pablo \<Rightarrow> pablo \<Rightarrow> pablo" where
  "createMajority3 e1 e2 e3 =
     (if e1 = Zeroes \<and> e2 = Zeroes then Zeroes
      else if e1 = Zeroes \<and> e3 = Zeroes then Zeroes
      else if e2 = Zeroes \<and> e3 = Zeroes then Zeroes
      else if e1 = Ones \<and> e2 = Ones then Ones
      else if e1 = Ones \<and> e3 = Ones then Ones
      else if e2 = Ones \<and> e3 = Ones then Ones
      else createTernary 0xE8 e1 e2 e3)"

definition createAndOr :: "addresses \<Rightarrow> pablo \<Rightarrow> pablo \<Rightarrow> pablo \<Rightarrow> pablo" where
  "createAndOr p a o1 o2 =
     (if a = Zeroes then Zeroes
      else if a = Ones then createOr p o1 o2
      else if o1 = Ones \<or> o2 = Ones then a
      else if o1 = Zeroes then createAnd p a o2
      else if o2 = Zeroes \<or> equals p o1 o2 then createAnd p a o1
      else createTernary 0xE0 a o1 o2)"

definition createAndXor :: "addresses \<Rightarrow> pablo \<Rightarrow> pablo \<Rightarrow> pablo \<Rightarrow> pablo" where
  "createAndXor p a x1 x2 =
     (if a = Zeroes \<or> equals p x1 x2 then Zeroes
      else if a = Ones then createXor p x1 x2
      else if x1 = Ones \<and> x2 = Zeroes then a
      else if x1 = Zeroes \<and> x2 = Ones then a
      else createTernary 0x60 a x1 x2)"

definition createOrAnd :: "addresses \<Rightarrow> pablo \<Rightarrow> pablo \<Rightarrow> pablo \<Rightarrow> pablo" where
  "createOrAnd p o1 a1 a2 =
     (if o1 = Ones then Ones
      else if o1 = Zeroes then createAnd p a1 a2
      else if equals p a1 a2 then createOr p o1 a1
      else if a1 = Zeroes \<or> a2 = Zeroes then o1
      else createTernary 0xF8 o1 a1 a2)"

definition createOrXor :: "addresses \<Rightarrow> pablo \<Rightarrow> pablo \<Rightarrow> pablo \<Rightarrow> pablo" where
  "createOrXor p o1 x1 x2 =
     (if o1 = Ones then Ones
      else if o1 = Zeroes then createXor p x1 x2
      else if equals p x1 x2 then o1
      else if x1 = Ones \<and> x2 = Zeroes then Ones
      else if x1 = Zeroes \<and> x2 = Ones then Ones
      else createTernary 0xF6 o1 x1 x2)"

definition createXorAnd :: "addresses \<Rightarrow> pablo \<Rightarrow> pablo \<Rightarrow> pablo \<Rightarrow> pablo" where
  "createXorAnd p x a1 a2 =
     (if equals p a1 a2 then createXor p x a1
      else if a1 = Zeroes \<or> a2 = Ones then createXor p x a1
      else if a1 = Ones \<or> a2 = Zeroes then createXor p x a2
      else createTernary 0x78 x a1 a2)"

text \<open>The second test compares an operand with itself.\<close>

definition createXorOr :: "addresses \<Rightarrow> pablo \<Rightarrow> pablo \<Rightarrow> pablo \<Rightarrow> pablo" where
  "createXorOr p x o1 o2 =
     (if o1 = Ones \<or> o2 = Ones then createXor p x Ones
      else if equals p o1 o1 then createXor p x Zeroes
      else if o1 = Ones \<or> o2 = Zeroes then createXor p x o1
      else if o1 = Zeroes \<or> o2 = Ones then createXor p x o2
      else createTernary 0x1E x o1 o2)"

section \<open>Numbers\<close>

definition createAdd :: "pablo \<Rightarrow> pablo \<Rightarrow> pablo" where
  "createAdd e1 e2 =
     (case (as_Integer e1, as_Integer e2) of
        (Some m, Some n) \<Rightarrow> Integer ((m + n) mod 2 ^ 64)
      | (Some m, None) \<Rightarrow> if m = 0 then e2 else Add e1 e2
      | (None, Some n) \<Rightarrow> if n = 0 then e1 else Add e1 e2
      | (None, None) \<Rightarrow> Add e1 e2)"

text \<open>Zero minus an expression is that expression here.\<close>

definition createSubtract :: "pablo \<Rightarrow> pablo \<Rightarrow> pablo" where
  "createSubtract e1 e2 =
     (case (as_Integer e1, as_Integer e2) of
        (Some m, Some n) \<Rightarrow> Integer ((m + 2 ^ 64 - n) mod 2 ^ 64)
      | (Some m, None) \<Rightarrow> if m = 0 then e2 else Subtract e1 e2
      | (None, Some n) \<Rightarrow> if n = 0 then e1 else Subtract e1 e2
      | (None, None) \<Rightarrow> Subtract e1 e2)"

definition createLessThan :: "pablo \<Rightarrow> pablo \<Rightarrow> pablo" where
  "createLessThan e1 e2 =
     (case (as_Integer e1, as_Integer e2) of
        (Some m, Some n) \<Rightarrow> Integer (if m < n then 1 else 0)
      | _ \<Rightarrow> LessThan e1 e2)"

definition createEquals :: "pablo \<Rightarrow> pablo \<Rightarrow> pablo" where
  "createEquals e1 e2 =
     (case (as_Integer e1, as_Integer e2) of
        (Some m, Some n) \<Rightarrow> Integer (if m = n then 1 else 0)
      | _ \<Rightarrow> Equals e1 e2)"

definition createRepeat :: "nat \<Rightarrow> pablo \<Rightarrow> pablo" where
  "createRepeat width e = Repeat width e"

definition createPackL :: "nat \<Rightarrow> pablo \<Rightarrow> pablo" where
  "createPackL width e = PackL width e"

definition createPackH :: "nat \<Rightarrow> pablo \<Rightarrow> pablo" where
  "createPackH width e = PackH width e"

definition createCount :: "pablo \<Rightarrow> pablo" where
  "createCount e = Count e"

definition createEveryNth :: "pablo \<Rightarrow> nat \<Rightarrow> pablo" where
  "createEveryNth e n = EveryNth e n"

definition createExtract :: "pablo \<Rightarrow> nat \<Rightarrow> pablo" where
  "createExtract a n = Extract a (Integer n)"

section \<open>Movement along the stream\<close>

definition createAdvance :: "pablo \<Rightarrow> nat \<Rightarrow> pablo" where
  "createAdvance e n = (if e = Zeroes \<or> n = 0 then e else Advance e n)"

definition createLookahead :: "pablo \<Rightarrow> nat \<Rightarrow> pablo" where
  "createLookahead e n = (if e = Zeroes \<or> n = 0 then e else Lookahead e n)"

definition createAdvanceThenScanThru :: "pablo \<Rightarrow> pablo \<Rightarrow> pablo" where
  "createAdvanceThenScanThru start thru =
     (if start = Zeroes then start
      else if thru = Zeroes then createAdvance start 1
      else AdvanceThenScanThru start thru)"

definition createAdvanceThenScanTo :: "pablo \<Rightarrow> pablo \<Rightarrow> pablo" where
  "createAdvanceThenScanTo start to = (if start = Zeroes then start else AdvanceThenScanTo start to)"

definition createScanThru :: "pablo \<Rightarrow> pablo \<Rightarrow> pablo" where
  "createScanThru start thru = (if start = Zeroes \<or> thru = Zeroes then start else ScanThru start thru)"

definition createScanTo :: "pablo \<Rightarrow> pablo \<Rightarrow> pablo" where
  "createScanTo start to = (if start = Zeroes \<or> to = Ones then start else ScanTo start to)"

definition createMatchStar :: "pablo \<Rightarrow> pablo \<Rightarrow> pablo" where
  "createMatchStar marker cc = (if marker = Zeroes \<or> cc = Zeroes then marker else MatchStar marker cc)"

text \<open>The overload with a name does not restrict the stream to the index positions.\<close>

definition createIndexedAdvance :: "addresses \<Rightarrow> pablo \<Rightarrow> pablo option \<Rightarrow> nat \<Rightarrow> pablo" where
  "createIndexedAdvance p e ix n =
     (if e = Zeroes \<or> n = 0 then e
      else case ix of
        None \<Rightarrow> createAdvance e n
      | Some i \<Rightarrow>
          if i = Ones then createAdvance e n
          else if n = 1 then createAdvanceThenScanTo (createAnd p e i) i
          else IndexedAdvance e i n)"

definition createIndexedAdvance_named :: "pablo \<Rightarrow> pablo option \<Rightarrow> nat \<Rightarrow> pablo" where
  "createIndexedAdvance_named e ix n =
     (if e = Zeroes \<or> n = 0 then e
      else case ix of
        None \<Rightarrow> createAdvance e n
      | Some i \<Rightarrow>
          if i = Ones then createAdvance e n
          else if n = 1 then createAdvanceThenScanTo e i
          else IndexedAdvance e i n)"

section \<open>The ends of the stream\<close>

definition createInFile :: "pablo \<Rightarrow> pablo" where
  "createInFile e = (if is_InFile e \<or> e = Zeroes then e else InFile e)"

definition createAtEOF :: "pablo \<Rightarrow> pablo" where
  "createAtEOF e = AtEOF e"

definition createTerminateAt :: "pablo \<Rightarrow> nat \<Rightarrow> pablo" where
  "createTerminateAt e code = (if e = Zeroes then e else TerminateAt e code)"

definition createDebugPrint :: "pablo \<Rightarrow> pablo" where
  "createDebugPrint e = (if is_DebugPrint e \<or> e = Zeroes then e else DebugPrint e)"

definition createIntrinsicCall :: "intrinsic \<Rightarrow> pablo list \<Rightarrow> pablo" where
  "createIntrinsicCall k es = IntrinsicCall k es"

end
