(* ===== verification/Pablo_Sound.thy ===== *)
theory Pablo_Sound imports Pablo_Build begin

text \<open>
  The builder keeps the meaning: the stream of the expression created is the operation applied to the
  streams of the operands. The simplifications that rest on \<open>equals\<close> need that intrinsic calls in
  the operands are of one kind.
\<close>

lemma equals_bits: "equals p a b \<Longrightarrow> one_kind k a \<Longrightarrow> one_kind k b \<Longrightarrow> bits c a = bits c b"
  using equals_sound(1) by (simp add: same_meaning_def)

lemma ternary_bit_complement: "ternary_bit (xor m 255) x y z = (\<not> ternary_bit m x y z)"
proof -
  have "bit (255::nat) n" if "n < 8" for n :: nat
  proof -
    have "n = 0 \<or> n = 1 \<or> n = 2 \<or> n = 3 \<or> n = 4 \<or> n = 5 \<or> n = 6 \<or> n = 7" using that by linarith
    then show ?thesis by (auto simp: bit_iff_odd)
  qed
  then show ?thesis by (simp add: ternary_bit_def bit_xor_iff)
qed

definition means :: "kernel_state \<Rightarrow> intrinsic \<Rightarrow> pablo \<Rightarrow> stream \<Rightarrow> bool" where
  "means c k e s \<longleftrightarrow> one_kind k e \<and> bits c e = s"

lemma meansI: "one_kind k e \<Longrightarrow> (\<And>i. bits c e i = s i) \<Longrightarrow> means c k e s"
  by (auto simp: means_def)

lemma not_sound: "one_kind k e \<Longrightarrow> means c k (createNot e) (\<lambda>i. \<not> bits c e i)"
  by (auto simp: means_def createNot_def createTernary_def ternary_bit_complement split: option.splits)

lemmas not_simps = not_sound [unfolded means_def, THEN conjunct1] not_sound [unfolded means_def, THEN conjunct2]

lemma in_order_sound:
  assumes "one_kind k a" "one_kind k b" "f \<in> {And, Or, Xor}"
  shows "means c k (in_order p f a b) (bits c (f a b))"
  using assms by (auto simp: means_def in_order_def)

lemma and_or_sound:
  "one_kind k e1 \<Longrightarrow> one_kind k e2 \<Longrightarrow> means c k (createAnd p e1 e2) (\<lambda>i. bits c e1 i \<and> bits c e2 i)"
  "one_kind k f1 \<Longrightarrow> one_kind k f2 \<Longrightarrow> means c k (createOr q f1 f2) (\<lambda>i. bits c f1 i \<or> bits c f2 i)"
proof (induction p e1 e2 and q f1 f2 rule: createAnd_createOr.induct)
  case (1 p e1 e2)
  note IH = "1.IH" and kinds = "1.prems"
  note eq = equals_bits [of p _ _ k c]
  show ?case
  proof (cases "e2 = Zeroes \<or> e1 = Ones \<or> e1 = Zeroes \<or> e2 = Ones \<or> equals p e1 e2")
    case True
    then show ?thesis unfolding createAnd.simps[of p e1 e2] using kinds eq[of e1 e2] by (auto simp: means_def fun_eq_iff)
  next
    case False
    then have F: "\<not> (e2 = Zeroes \<or> e1 = Ones)" "\<not> (e1 = Zeroes \<or> e2 = Ones \<or> equals p e1 e2)" by auto
    have order: "means c k (in_order p And e1 e2) (\<lambda>i. bits c e1 i \<and> bits c e2 i)"
      using in_order_sound[OF kinds, of And] by simp
    show ?thesis
    proof (cases "as_Not e1")
      case N1: (Some a)
      show ?thesis
      proof (cases "as_Not e2")
        case N2: (Some b)
        with IH[OF F refl N1 N2] N1 kinds have "means c k (createOr p a b) (\<lambda>i. bits c a i \<or> bits c b i)" by auto
        with F N1 N2 show ?thesis
          unfolding createAnd.simps[of p e1 e2] using not_sound[of k "createOr p a b" c] by (simp add: means_def)
      next
        case None
        with F N1 kinds eq[of a e2] order show ?thesis
          unfolding createAnd.simps[of p e1 e2] by (auto simp: means_def fun_eq_iff)
      qed
    next
      case N1: None
      show ?thesis
      proof (cases "as_Not e2")
        case (Some b)
        with F N1 kinds eq[of e1 b] order show ?thesis
          unfolding createAnd.simps[of p e1 e2] by (auto simp: means_def fun_eq_iff)
      next
        case N2: None
        show ?thesis
        proof (cases "as_Or e1")
          case (Some ab)
          then obtain a b where "e1 = Or a b" by (cases ab) auto
          with F N1 N2 kinds eq[of a e2] eq[of b e2] order show ?thesis
            unfolding createAnd.simps[of p e1 e2] by (auto simp: means_def fun_eq_iff)
        next
          case O1: None
          show ?thesis
          proof (cases "as_Or e2")
            case (Some ab)
            then obtain a b where "e2 = Or a b" by (cases ab) auto
            with F N1 N2 O1 kinds eq[of a e1] eq[of b e1] order show ?thesis
              unfolding createAnd.simps[of p e1 e2] by (auto simp: means_def fun_eq_iff)
          next
            case None
            with F N1 N2 O1 order show ?thesis unfolding createAnd.simps[of p e1 e2] by simp
          qed
        qed
      qed
    qed
  qed
next
  case (2 p e1 e2)
  note IH = "2.IH" and kinds = "2.prems"
  note eq = equals_bits [of p _ _ k c]
  show ?case
  proof (cases "e1 = Zeroes \<or> e2 = Ones \<or> e2 = Zeroes \<or> e1 = Ones \<or> equals p e1 e2")
    case True
    then show ?thesis unfolding createOr.simps[of p e1 e2] using kinds eq[of e1 e2] by (auto simp: means_def fun_eq_iff)
  next
    case False
    then have F: "\<not> (e1 = Zeroes \<or> e2 = Ones)" "\<not> (e2 = Zeroes \<or> e1 = Ones \<or> equals p e1 e2)" by auto
    have order: "means c k (in_order p Or e1 e2) (\<lambda>i. bits c e1 i \<or> bits c e2 i)"
      using in_order_sound[OF kinds, of Or] by simp
    show ?thesis
    proof (cases "as_Not e1")
      case (Some a)
      with IH(10)[OF F Some] F kinds not_sound[of k e2 c] not_sound[of k "createAnd p a (createNot e2)" c] show ?thesis
        unfolding createOr.simps[of p e1 e2] by (auto simp: means_def fun_eq_iff)
    next
      case N1: None
      show ?thesis
      proof (cases "as_Not e2")
        case (Some b)
        with IH(9)[OF F N1 Some] N1 F kinds not_sound[of k e1 c] not_sound[of k "createAnd p b (createNot e1)" c] show ?thesis
          unfolding createOr.simps[of p e1 e2] by (auto simp: means_def fun_eq_iff)
      next
        case N2: None
        show ?thesis
        proof (cases "as_And e1")
          case None
          then show ?thesis
          proof (cases "as_And e2")
            case (Some ab)
            then obtain a b where "e2 = And a b" by (cases ab) auto
            with F N1 N2 None kinds eq[of a e1] eq[of b e1] order show ?thesis
              unfolding createOr.simps[of p e1 e2] by (auto simp: means_def fun_eq_iff)
          qed (use F N1 N2 None order in \<open>simp add: createOr.simps[of p e1 e2]\<close>)
        next
          case (Some ab1)
          then obtain a1 b1 where e1: "as_And e1 = Some (a1, b1)" by (cases ab1) auto
          show ?thesis
          proof (cases "as_And e2")
            case None
            with F N1 N2 e1 kinds eq[of a1 e2] eq[of b1 e2] order show ?thesis
              unfolding createOr.simps[of p e1 e2] by (auto simp: means_def fun_eq_iff)
          next
            case (Some ab2)
            then obtain a2 b2 where e2: "as_And e2 = Some (a2, b2)" by (cases ab2) auto
            note step = IH(1-8)[OF F N1 N2 e1 refl e2 refl]
            have ks: "one_kind k a1" "one_kind k b1" "one_kind k a2" "one_kind k b2" using kinds e1 e2 by auto
            note res = createOr.simps[of p e1 e2]
            consider "equals p a1 a2" | "\<not> equals p a1 a2" "equals p b1 b2"
              | "\<not> equals p a1 a2" "\<not> equals p b1 b2" "equals p a1 b2"
              | "\<not> equals p a1 a2" "\<not> equals p b1 b2" "\<not> equals p a1 b2" "equals p b1 a2"
              | "\<not> equals p a1 a2" "\<not> equals p b1 b2" "\<not> equals p a1 b2" "\<not> equals p b1 a2" by blast
            then show ?thesis
            proof cases
              case 1
              with step(1,2) eq[of a1 a2] ks F e1 e2 show ?thesis unfolding res by (auto simp: means_def fun_eq_iff)
            next
              case 2
              with step(3,4) eq[of b1 b2] ks F e1 e2 show ?thesis unfolding res by (auto simp: means_def fun_eq_iff)
            next
              case 3
              with step(5,6) eq[of a1 b2] ks F e1 e2 show ?thesis unfolding res by (auto simp: means_def fun_eq_iff)
            next
              case 4
              with step(7,8) eq[of b1 a2] ks F e1 e2 show ?thesis unfolding res by (auto simp: means_def fun_eq_iff)
            next
              case 5
              with order F e1 e2 show ?thesis unfolding res by (simp add: means_def)
            qed
          qed
        qed
      qed
    qed
  qed
qed

lemma xor_sound: "one_kind k e1 \<Longrightarrow> one_kind k e2 \<Longrightarrow> means c k (createXor p e1 e2) (\<lambda>i. bits c e1 i \<noteq> bits c e2 i)"
proof (induction p e1 e2 rule: createXor.induct)
  case (1 p e1 e2)
  have order: "means c k (in_order p Xor e1 e2) (\<lambda>i. bits c e1 i \<noteq> bits c e2 i)"
    using in_order_sound[OF "1.prems", of Xor] by simp
  show ?case
  proof (cases "identical p e1 e2 \<or> e1 = Ones \<or> e1 = Zeroes \<or> e2 = Ones \<or> e2 = Zeroes")
    case True
    then show ?thesis
      unfolding createXor.simps[of p e1 e2] using "1.prems" not_sound[of k e1 c] not_sound[of k e2 c] identical_eq[of p e1 e2]
      by (auto simp: means_def)
  next
    case False
    with "1.IH" "1.prems" order show ?thesis
      unfolding createXor.simps[of p e1 e2] by (auto simp: means_def split: option.splits)
  qed
qed

lemma ternary_sound:
  "one_kind k a \<Longrightarrow> one_kind k b \<Longrightarrow> one_kind k d \<Longrightarrow>
   means c k (createTernary m a b d) (\<lambda>i. ternary_bit m (bits c a i) (bits c b i) (bits c d i))"
  by (simp add: means_def createTernary_def)

text \<open>The truth tables of the masks.\<close>

lemma ternary_masks:
  "ternary_bit 0x80 x y z = (x \<and> y \<and> z)"
  "ternary_bit 0xFE x y z = (x \<or> y \<or> z)"
  "ternary_bit 0x96 x y z = ((x \<noteq> y) \<noteq> z)"
  "ternary_bit 0xE8 x y z = (x \<and> y \<or> x \<and> z \<or> y \<and> z)"
  "ternary_bit 0xE0 x y z = (x \<and> (y \<or> z))"
  "ternary_bit 0x60 x y z = (x \<and> (y \<noteq> z))"
  "ternary_bit 0xF8 x y z = (x \<or> (y \<and> z))"
  "ternary_bit 0xF6 x y z = (x \<or> (y \<noteq> z))"
  "ternary_bit 0x78 x y z = (x \<noteq> (y \<and> z))"
  "ternary_bit 0x1E x y z = (x \<noteq> (y \<or> z))"
  by (cases x; cases y; cases z; simp add: ternary_bit_def bit_iff_odd)+

section \<open>The interface of the compilers\<close>

text \<open>The functions of the template argument \<open>PabloBlockOrBuilder\<close>, and of the builder in
  \<open>BixNumCompiler\<close>, that the compilers of character classes and numbers call.\<close>

record pablo_ops =
  mkNot :: "pablo \<Rightarrow> pablo"
  mkInFile :: "pablo \<Rightarrow> pablo"
  mkAnd :: "pablo \<Rightarrow> pablo \<Rightarrow> pablo"
  mkOr :: "pablo \<Rightarrow> pablo \<Rightarrow> pablo"
  mkXor :: "pablo \<Rightarrow> pablo \<Rightarrow> pablo"
  mkSel :: "pablo \<Rightarrow> pablo \<Rightarrow> pablo \<Rightarrow> pablo"
  mkAnd3 :: "pablo \<Rightarrow> pablo \<Rightarrow> pablo \<Rightarrow> pablo"
  mkOr3 :: "pablo \<Rightarrow> pablo \<Rightarrow> pablo \<Rightarrow> pablo"
  mkXor3 :: "pablo \<Rightarrow> pablo \<Rightarrow> pablo \<Rightarrow> pablo"
  mkMajority3 :: "pablo \<Rightarrow> pablo \<Rightarrow> pablo \<Rightarrow> pablo"
  mkAndOr :: "pablo \<Rightarrow> pablo \<Rightarrow> pablo \<Rightarrow> pablo"
  mkAndXor :: "pablo \<Rightarrow> pablo \<Rightarrow> pablo \<Rightarrow> pablo"
  mkOrAnd :: "pablo \<Rightarrow> pablo \<Rightarrow> pablo \<Rightarrow> pablo"
  mkOrXor :: "pablo \<Rightarrow> pablo \<Rightarrow> pablo \<Rightarrow> pablo"
  mkXorAnd :: "pablo \<Rightarrow> pablo \<Rightarrow> pablo \<Rightarrow> pablo"
  mkTernary :: "nat \<Rightarrow> pablo \<Rightarrow> pablo \<Rightarrow> pablo \<Rightarrow> pablo"

definition builder :: "addresses \<Rightarrow> pablo_ops" where
  "builder p = \<lparr>mkNot = createNot, mkInFile = createInFile, mkAnd = createAnd p, mkOr = createOr p, mkXor = createXor p,
     mkSel = createSel p, mkAnd3 = createAnd3 p, mkOr3 = createOr3 p, mkXor3 = createXor3 p, mkMajority3 = createMajority3,
     mkAndOr = createAndOr p, mkAndXor = createAndXor p, mkOrAnd = createOrAnd p, mkOrXor = createOrXor p,
     mkXorAnd = createXorAnd p, mkTernary = createTernary\<rparr>"

text \<open>The operations of \<open>PabloBlock\<close> create the statement as it is.\<close>

definition block :: pablo_ops where
  "block = \<lparr>mkNot = Not, mkInFile = InFile, mkAnd = And, mkOr = Or, mkXor = Xor, mkSel = Sel,
     mkAnd3 = Ternary 0x80, mkOr3 = Ternary 0xFE, mkXor3 = Ternary 0x96, mkMajority3 = Ternary 0xE8,
     mkAndOr = Ternary 0xE0, mkAndXor = Ternary 0x60, mkOrAnd = Ternary 0xF8, mkOrXor = Ternary 0xF6,
     mkXorAnd = Ternary 0x78, mkTernary = Ternary\<rparr>"

text \<open>\<open>createSel\<close> is wrong when the second alternative is the negation of the first, and only then.\<close>

definition negation :: "pablo \<Rightarrow> bool" where
  "negation e = (as_Not e \<noteq> None)"

definition sel_guard :: "pablo \<Rightarrow> pablo \<Rightarrow> bool" where
  "sel_guard t f \<longleftrightarrow> \<not> negation f \<or> (\<exists>c i. bits c t i = bits c f i)"

text \<open>The streams that come from outside, with no structure that the builder looks into.\<close>

fun leaf :: "pablo \<Rightarrow> bool" where
  "leaf (Var v) = True"
| "leaf (Extract a k) = True"
| "leaf _ = False"

definition plain :: "pablo \<Rightarrow> bool" where
  "plain e \<longleftrightarrow> \<not> negation e \<and> (\<forall>x y. e = And x y \<or> e = Or x y \<longrightarrow> \<not> negation x \<and> \<not> negation y)"

lemma negation_simps [simp]:
  "\<not> negation Zeroes" "\<not> negation Ones" "\<not> negation (And a b)" "\<not> negation (Or a b)"
  "\<not> negation (Ternary m a b d)" "negation (Not a)"
  by (simp_all add: negation_def)

lemma plain_simps [simp]:
  "plain Zeroes" "plain Ones" "plain (Ternary m a b d)"
  "plain (And a b) \<longleftrightarrow> \<not> negation a \<and> \<not> negation b"
  "plain (Or a b) \<longleftrightarrow> \<not> negation a \<and> \<not> negation b"
  by (auto simp: plain_def)

lemma plain_negation: "plain e \<Longrightarrow> \<not> negation e"
  by (simp add: plain_def)

lemma leaf_plain: "leaf a \<Longrightarrow> plain a \<and> \<not> negation a"
  by (cases a) (auto simp: plain_def negation_def)

locale sound_ops =
  fixes B :: pablo_ops and good :: "pablo \<Rightarrow> bool"
  assumes constants: "good Zeroes" "good Ones"
    and not_law: "good a \<Longrightarrow> good (mkNot B a) \<and> (\<forall>c i. bits c (mkNot B a) i = (\<not> bits c a i))"
    and in_file_law: "good a \<Longrightarrow> good (mkInFile B a) \<and> (\<forall>c i. bits c (mkInFile B a) i = (bits c a i \<and> i < EOF c))"
    and and_law: "good a \<Longrightarrow> good b \<Longrightarrow> good (mkAnd B a b) \<and> (\<forall>c i. bits c (mkAnd B a b) i = (bits c a i \<and> bits c b i))"
    and or_law: "good a \<Longrightarrow> good b \<Longrightarrow> good (mkOr B a b) \<and> (\<forall>c i. bits c (mkOr B a b) i = (bits c a i \<or> bits c b i))"
    and xor_law: "good a \<Longrightarrow> good b \<Longrightarrow> good (mkXor B a b) \<and> (\<forall>c i. bits c (mkXor B a b) i = (bits c a i \<noteq> bits c b i))"
    and sel_law: "good a \<Longrightarrow> good b \<Longrightarrow> good d \<Longrightarrow>
          good (mkSel B a b d) \<and>
          (sel_guard b d \<longrightarrow> (\<forall>c i. bits c (mkSel B a b d) i = (if bits c a i then bits c b i else bits c d i)))"
    and and3_law: "good a \<Longrightarrow> good b \<Longrightarrow> good d \<Longrightarrow>
          good (mkAnd3 B a b d) \<and> (\<forall>c i. bits c (mkAnd3 B a b d) i = (bits c a i \<and> bits c b i \<and> bits c d i))"
    and or3_law: "good a \<Longrightarrow> good b \<Longrightarrow> good d \<Longrightarrow>
          good (mkOr3 B a b d) \<and> (\<forall>c i. bits c (mkOr3 B a b d) i = (bits c a i \<or> bits c b i \<or> bits c d i))"
    and xor3_law: "good a \<Longrightarrow> good b \<Longrightarrow> good d \<Longrightarrow>
          good (mkXor3 B a b d) \<and> (\<forall>c i. bits c (mkXor3 B a b d) i = ((bits c a i \<noteq> bits c b i) \<noteq> bits c d i))"
    and majority3_law: "good a \<Longrightarrow> good b \<Longrightarrow> good d \<Longrightarrow>
          good (mkMajority3 B a b d) \<and>
          (\<forall>c i. bits c (mkMajority3 B a b d) i = (bits c a i \<and> bits c b i \<or> bits c a i \<and> bits c d i \<or> bits c b i \<and> bits c d i))"
    and and_or_law: "good a \<Longrightarrow> good b \<Longrightarrow> good d \<Longrightarrow>
          good (mkAndOr B a b d) \<and> (\<forall>c i. bits c (mkAndOr B a b d) i = (bits c a i \<and> (bits c b i \<or> bits c d i)))"
    and and_xor_law: "good a \<Longrightarrow> good b \<Longrightarrow> good d \<Longrightarrow>
          good (mkAndXor B a b d) \<and> (\<forall>c i. bits c (mkAndXor B a b d) i = (bits c a i \<and> (bits c b i \<noteq> bits c d i)))"
    and or_and_law: "good a \<Longrightarrow> good b \<Longrightarrow> good d \<Longrightarrow>
          good (mkOrAnd B a b d) \<and> (\<forall>c i. bits c (mkOrAnd B a b d) i = (bits c a i \<or> (bits c b i \<and> bits c d i)))"
    and or_xor_law: "good a \<Longrightarrow> good b \<Longrightarrow> good d \<Longrightarrow>
          good (mkOrXor B a b d) \<and> (\<forall>c i. bits c (mkOrXor B a b d) i = (bits c a i \<or> (bits c b i \<noteq> bits c d i)))"
    and xor_and_law: "good a \<Longrightarrow> good b \<Longrightarrow> good d \<Longrightarrow>
          good (mkXorAnd B a b d) \<and> (\<forall>c i. bits c (mkXorAnd B a b d) i = (bits c a i \<noteq> (bits c b i \<and> bits c d i)))"
    and ternary_law: "good a \<Longrightarrow> good b \<Longrightarrow> good d \<Longrightarrow>
          good (mkTernary B m a b d) \<and>
          (\<forall>c i. bits c (mkTernary B m a b d) i = ternary_bit m (bits c a i) (bits c b i) (bits c d i))"
    and operands_good: "good (And a b) \<Longrightarrow> good a \<and> good b" "good (Or a b) \<Longrightarrow> good a \<and> good b" "leaf a \<Longrightarrow> good a"
    and plain_law: "leaf a \<Longrightarrow> \<not> negation b \<Longrightarrow> plain (mkAnd B a b) \<and> plain (mkOr B a b)"
    and plain3_law: "leaf a \<Longrightarrow> \<not> negation b \<Longrightarrow> \<not> negation d \<Longrightarrow>
          plain (mkAnd3 B a b d) \<and> plain (mkOr3 B a b d) \<and> plain (mkOrAnd B a b d) \<and> plain (mkAndOr B a b d)"
begin

lemmas laws = constants not_law in_file_law and_law or_law xor_law sel_law and3_law or3_law xor3_law majority3_law
  and_or_law and_xor_law or_and_law or_xor_law xor_and_law ternary_law

end

interpretation block: sound_ops block "\<lambda>e. True"
  by unfold_locales (auto simp: block_def ternary_masks dest: leaf_plain)

lemma sound_facts:
  assumes "one_kind k a" "one_kind k b"
  shows "one_kind k (createNot a)" "bits c (createNot a) = (\<lambda>i. \<not> bits c a i)"
    "one_kind k (createAnd p a b)" "bits c (createAnd p a b) = (\<lambda>i. bits c a i \<and> bits c b i)"
    "one_kind k (createOr p a b)" "bits c (createOr p a b) = (\<lambda>i. bits c a i \<or> bits c b i)"
    "one_kind k (createXor p a b)" "bits c (createXor p a b) = (\<lambda>i. bits c a i \<noteq> bits c b i)"
    "equals p a b \<Longrightarrow> bits c a = bits c b"
  using not_sound[OF assms(1), of c] and_or_sound[OF assms, of c p] xor_sound[OF assms, of c p] equals_bits[OF _ assms, of p c]
  by (simp_all add: means_def)

lemma sel_sound:
  assumes "one_kind k a" "one_kind k b" "one_kind k d"
  shows "one_kind k (createSel p a b d)"
    and "sel_guard b d \<Longrightarrow> bits c (createSel p a b d) i = (if bits c a i then bits c b i else bits c d i)"
proof -
  have n: "one_kind k x" if "as_Not b = Some x \<or> as_Not d = Some x" for x using that assms by auto
  note facts = sound_facts[where k = k]
  have ab: "bits c x = bits c d" if "as_Not b = Some x" "equals p x d" for x using that facts(9)[of x d p c] n assms by blast
  have ba: False if "as_Not d = Some x" "equals p b x" "sel_guard b d" for x
  proof -
    have "bits c b = bits c x" for c using that(1,2) facts(9)[of b x p c] n assms by blast
    then show False using that(1,3) by (auto simp: sel_guard_def negation_def)
  qed
  show "one_kind k (createSel p a b d)"
    using assms n by (auto simp: createSel_def facts(1-8) split: option.splits)
  show "sel_guard b d \<Longrightarrow> bits c (createSel p a b d) i = (if bits c a i then bits c b i else bits c d i)"
    using assms facts(9)[of b d p c] ab ba
    by (auto simp: createSel_def facts(1-8) split: option.splits)
qed

lemma and3_sound:
  assumes "one_kind k a" "one_kind k b" "one_kind k d"
  shows "means c k (createAnd3 p a b d) (\<lambda>i. bits c a i \<and> bits c b i \<and> bits c d i)"
  using assms sound_facts(9)[of k a b p c] sound_facts(9)[of k b d p c] sound_facts(9)[of k a d p c]
  by (auto simp: createAnd3_def createTernary_def means_def fun_eq_iff ternary_masks sound_facts(1-8)[where k = k])

lemma or3_sound:
  assumes "one_kind k a" "one_kind k b" "one_kind k d"
  shows "means c k (createOr3 p a b d) (\<lambda>i. bits c a i \<or> bits c b i \<or> bits c d i)"
  using assms sound_facts(9)[of k a b p c] sound_facts(9)[of k b d p c] sound_facts(9)[of k a d p c]
  by (auto simp: createOr3_def createTernary_def means_def fun_eq_iff ternary_masks sound_facts(1-8)[where k = k])

lemma xor3_sound:
  assumes "one_kind k a" "one_kind k b" "one_kind k d"
  shows "means c k (createXor3 p a b d) (\<lambda>i. (bits c a i \<noteq> bits c b i) \<noteq> bits c d i)"
  using assms sound_facts(9)[of k a b p c] sound_facts(9)[of k b d p c] sound_facts(9)[of k a d p c]
  by (auto simp: createXor3_def createTernary_def means_def fun_eq_iff ternary_masks sound_facts(1-8)[where k = k])

lemma majority3_sound:
  assumes "one_kind k a" "one_kind k b" "one_kind k d"
  shows "means c k (createMajority3 a b d) (\<lambda>i. bits c a i \<and> bits c b i \<or> bits c a i \<and> bits c d i \<or> bits c b i \<and> bits c d i)"
  using assms sound_facts(9)[of k a b p c] sound_facts(9)[of k b d p c] sound_facts(9)[of k a d p c]
  by (auto simp: createMajority3_def createTernary_def means_def fun_eq_iff ternary_masks sound_facts(1-8)[where k = k])

lemma and_or3_sound:
  assumes "one_kind k a" "one_kind k b" "one_kind k d"
  shows "means c k (createAndOr p a b d) (\<lambda>i. bits c a i \<and> (bits c b i \<or> bits c d i))"
  using assms sound_facts(9)[of k a b p c] sound_facts(9)[of k b d p c] sound_facts(9)[of k a d p c]
  by (auto simp: createAndOr_def createTernary_def means_def fun_eq_iff ternary_masks sound_facts(1-8)[where k = k])

lemma and_xor_sound:
  assumes "one_kind k a" "one_kind k b" "one_kind k d"
  shows "means c k (createAndXor p a b d) (\<lambda>i. bits c a i \<and> (bits c b i \<noteq> bits c d i))"
  using assms sound_facts(9)[of k a b p c] sound_facts(9)[of k b d p c] sound_facts(9)[of k a d p c]
  by (auto simp: createAndXor_def createTernary_def means_def fun_eq_iff ternary_masks sound_facts(1-8)[where k = k])

lemma or_and_sound:
  assumes "one_kind k a" "one_kind k b" "one_kind k d"
  shows "means c k (createOrAnd p a b d) (\<lambda>i. bits c a i \<or> (bits c b i \<and> bits c d i))"
  using assms sound_facts(9)[of k a b p c] sound_facts(9)[of k b d p c] sound_facts(9)[of k a d p c]
  by (auto simp: createOrAnd_def createTernary_def means_def fun_eq_iff ternary_masks sound_facts(1-8)[where k = k])

lemma or_xor_sound:
  assumes "one_kind k a" "one_kind k b" "one_kind k d"
  shows "means c k (createOrXor p a b d) (\<lambda>i. bits c a i \<or> (bits c b i \<noteq> bits c d i))"
  using assms sound_facts(9)[of k a b p c] sound_facts(9)[of k b d p c] sound_facts(9)[of k a d p c]
  by (auto simp: createOrXor_def createTernary_def means_def fun_eq_iff ternary_masks sound_facts(1-8)[where k = k])

lemma xor_and_sound:
  assumes "one_kind k a" "one_kind k b" "one_kind k d"
  shows "means c k (createXorAnd p a b d) (\<lambda>i. bits c a i \<noteq> (bits c b i \<and> bits c d i))"
  using assms sound_facts(9)[of k a b p c] sound_facts(9)[of k b d p c] sound_facts(9)[of k a d p c]
  by (auto simp: createXorAnd_def createTernary_def means_def fun_eq_iff ternary_masks sound_facts(1-8)[where k = k])

lemma in_file_sound: "one_kind k a \<Longrightarrow> means c k (createInFile a) (\<lambda>i. bits c a i \<and> i < EOF c)"
  by (cases a) (auto simp: createInFile_def means_def fun_eq_iff)

text \<open>A leaf and an expression that is not a negation do not make a negation.\<close>

lemma leaf_casts: "leaf a \<Longrightarrow> as_Not a = None \<and> as_And a = None \<and> as_Or a = None \<and> a \<noteq> Zeroes \<and> a \<noteq> Ones"
  by (cases a) auto

lemma leaf_and_plain: "leaf a \<Longrightarrow> \<not> negation b \<Longrightarrow> plain (createAnd p a b)"
  unfolding createAnd.simps[of p a b] using leaf_casts[of a] leaf_plain[of a]
  by (simp add: negation_def split: option.split) (auto simp: negation_def in_order_def)

lemma leaf_or_plain: "leaf a \<Longrightarrow> \<not> negation b \<Longrightarrow> plain (createOr p a b)"
  unfolding createOr.simps[of p a b] using leaf_casts[of a] leaf_plain[of a]
  by (simp add: negation_def split: option.split) (auto simp: negation_def in_order_def)

lemma leaf_ternary_plain:
  assumes "leaf a" "\<not> negation b" "\<not> negation d"
  shows "plain (createAnd3 p a b d)" "plain (createOr3 p a b d)" "plain (createOrAnd p a b d)" "plain (createAndOr p a b d)"
  using assms leaf_casts[of a] leaf_plain[of a] leaf_and_plain[of a _ p] leaf_or_plain[of a _ p]
  by (simp_all add: createAnd3_def createOr3_def createOrAnd_def createAndOr_def createTernary_def)

interpretation builder: sound_ops "builder p" "one_kind k" for p k
proof unfold_locales
  show "one_kind k (And a b) \<Longrightarrow> one_kind k a \<and> one_kind k b" "one_kind k (Or a b) \<Longrightarrow> one_kind k a \<and> one_kind k b" for a b
    by simp_all
  show "one_kind k Zeroes" "one_kind k Ones" "leaf a \<Longrightarrow> one_kind k a" for a by (simp_all, cases a) simp_all
qed (use not_sound in_file_sound and_or_sound xor_sound sel_sound and3_sound or3_sound xor3_sound majority3_sound and_or3_sound
    and_xor_sound or_and_sound or_xor_sound xor_and_sound ternary_sound leaf_and_plain leaf_or_plain leaf_ternary_plain
    in \<open>simp_all add: builder_def means_def\<close>)

end
