(* ===== verification/Pablo_Stream.thy ===== *)
theory Pablo_Stream imports Pablo_Sound begin

text \<open>
  What the statements that move along a stream compute, in terms of the runs of positions between two
  markers, and that their creation keeps it.
\<close>

section \<open>Carries as runs\<close>

text \<open>A marker of \<open>s\<close> before \<open>i\<close> is carried to \<open>i\<close> over positions of \<open>t\<close>.\<close>

definition carried :: "stream \<Rightarrow> stream \<Rightarrow> nat \<Rightarrow> bool" where
  "carried s t i \<longleftrightarrow> (\<exists>j<i. s j \<and> (\<forall>k. j < k \<and> k < i \<longrightarrow> t k))"

definition reached :: "stream \<Rightarrow> stream \<Rightarrow> nat \<Rightarrow> bool" where
  "reached s t i \<longleftrightarrow> (\<exists>j\<le>i. s j \<and> (\<forall>k. j \<le> k \<and> k < i \<longrightarrow> t k))"

lemma carried_0 [simp]: "\<not> carried s t 0"
  by (simp add: carried_def)

lemma carried_Suc: "carried s t (Suc i) \<longleftrightarrow> s i \<or> (t i \<and> carried s t i)"
  unfolding carried_def by (auto simp: less_Suc_eq)

lemma reached_0 [simp]: "reached s t 0 = s 0"
  by (simp add: reached_def)

lemma reached_Suc: "reached s t (Suc i) \<longleftrightarrow> s (Suc i) \<or> (t i \<and> reached s t i)"
  unfolding reached_def by (auto simp: less_Suc_eq le_Suc_eq)

lemma carry_advance: "carry_in s (\<lambda>i. s i \<or> t i) i = carried s t i"
  by (induction i) (auto simp: carried_Suc)

lemma advance_scan_thru_bit:
  "bits c (AdvanceThenScanThru a b) i \<longleftrightarrow> \<not> bits c b i \<and> carried (bits c a) (bits c b) i"
  by (auto simp: stream_add_def carry_advance)

lemma advance_scan_to_bit:
  "bits c (AdvanceThenScanTo a b) i \<longleftrightarrow>
   (bits c b i \<or> i = EOF c) \<and> carried (bits c a) (\<lambda>i. \<not> bits c b i \<and> i \<noteq> EOF c) i"
  using carry_advance[of "bits c a" "\<lambda>i. \<not> bits c b i \<and> i \<noteq> EOF c" i] by (auto simp: stream_add_def Let_def)

lemma match_star_bit: "bits c (MatchStar m cc) i \<longleftrightarrow> reached (bits c m) (bits c cc) i"
proof -
  let ?s = "\<lambda>i. bits c m i \<and> bits c cc i"
  have "bits c m i \<or> carry_in ?s (bits c cc) i \<longleftrightarrow> reached (bits c m) (bits c cc) i"
    by (induction i) (auto simp: reached_Suc)
  then show ?thesis by (auto simp: stream_add_def)
qed

text \<open>\<open>ScanThru\<close> and \<open>ScanTo\<close> add the markers to the run: a marker at the end of the run of another
  one would be added to its carry.\<close>

definition no_collision :: "stream \<Rightarrow> stream \<Rightarrow> bool" where
  "no_collision s t \<longleftrightarrow> (\<forall>j i. j < i \<longrightarrow> s j \<longrightarrow> s i \<longrightarrow> (\<forall>k. j \<le> k \<and> k < i \<longrightarrow> t k) \<longrightarrow> t i)"

lemma carry_scan:
  assumes "no_collision s t"
  shows "(carry_in s t i \<longrightarrow> s i \<longrightarrow> t i) \<and> (s i \<or> carry_in s t i \<longleftrightarrow> reached s t i)"
proof -
  have "s i \<or> carry_in s t i \<longleftrightarrow> reached s t i" if "\<forall>j<i. carry_in s t j \<longrightarrow> s j \<longrightarrow> t j" for i
    using that by (induction i) (auto simp: reached_Suc)
  moreover have "carry_in s t i \<longrightarrow> s i \<longrightarrow> t i" for i
  proof (induction i rule: less_induct)
    case (less i)
    show ?case
    proof (cases i)
      case (Suc n)
      have n: "carry_in s t n \<longrightarrow> s n \<longrightarrow> t n" "s n \<or> carry_in s t n \<longleftrightarrow> reached s t n"
        using less Suc calculation[of n] by auto
      show ?thesis
      proof (intro impI)
        assume c: "carry_in s t i" "s i"
        then have "t n" "reached s t n" using n Suc by auto
        then obtain j where "j \<le> n" "s j" "\<forall>k. j \<le> k \<and> k < n \<longrightarrow> t k" by (auto simp: reached_def)
        with \<open>t n\<close> have "j < i" "s j" "\<forall>k. j \<le> k \<and> k < i \<longrightarrow> t k" using Suc by (auto simp: less_Suc_eq)
        then show "t i" using assms c(2) unfolding no_collision_def by blast
      qed
    qed simp
  qed
  ultimately show ?thesis by blast
qed

lemma scan_thru_bit:
  "no_collision (bits c a) (bits c b) \<Longrightarrow>
   bits c (ScanThru a b) i \<longleftrightarrow> \<not> bits c b i \<and> reached (bits c a) (bits c b) i"
  using carry_scan[of "bits c a" "bits c b" i] by (auto simp: stream_add_def)

lemma scan_to_bit:
  fixes c a b
  defines "other \<equiv> \<lambda>i. \<not> bits c b i \<and> i \<noteq> EOF c"
  assumes "no_collision (bits c a) other"
  shows "bits c (ScanTo a b) i \<longleftrightarrow> (bits c b i \<or> i = EOF c) \<and> reached (bits c a) other i"
  using carry_scan[OF assms(2), of i] by (auto simp: stream_add_def Let_def other_def)

text \<open>Subtraction: the borrow runs from a position of the subtrahend to the next one of the minuend.\<close>

lemma borrow_run: "borrow_in s t i \<longleftrightarrow> (\<exists>j<i. \<not> s j \<and> t j \<and> (\<forall>k. j < k \<and> k < i \<longrightarrow> \<not> s k \<or> t k))"
proof (induction i)
  case (Suc i)
  then show ?case by (auto simp: less_Suc_eq)
qed simp

section \<open>Advancing by index positions\<close>

lemma indexed_none: "indexed_advance n ix (\<lambda>i. False) i = False"
  by (simp add: indexed_advance_def)

lemma indexed_all: "indexed_advance n (\<lambda>i. True) s i = stream_advance n s i"
proof -
  have "card {k. j \<le> k \<and> k < i} = i - j" for j
  proof -
    have "{k. j \<le> k \<and> k < i} = {j..<i}" by auto
    then show ?thesis by simp
  qed
  then show ?thesis by (auto simp: indexed_advance_def stream_advance_def intro: exI[of _ "i - n"])
qed

lemma indexed_one: "indexed_advance 1 ix s i \<longleftrightarrow> ix i \<and> carried (\<lambda>i. s i \<and> ix i) (\<lambda>i. \<not> ix i) i"
proof -
  have "card {k. j \<le> k \<and> k < i \<and> ix k} = 1 \<longleftrightarrow> j < i \<and> (\<forall>k. j < k \<and> k < i \<longrightarrow> \<not> ix k)" if "ix j" "j \<le> i" for j
  proof
    assume "card {k. j \<le> k \<and> k < i \<and> ix k} = 1"
    then obtain k where k: "{k. j \<le> k \<and> k < i \<and> ix k} = {k}" by (auto simp: card_1_singleton_iff)
    then have "k \<in> {k. j \<le> k \<and> k < i \<and> ix k}" by blast
    then have "k < i" "j \<le> k" by blast+
    have mem: "x = k" if "j \<le> x" "x < i" "ix x" for x using k that by blast
    have "j < i" using \<open>k < i\<close> \<open>j \<le> k\<close> by simp
    then have "j = k" using mem[of j] that by blast
    show "j < i \<and> (\<forall>k. j < k \<and> k < i \<longrightarrow> \<not> ix k)"
    proof (intro conjI allI impI notI)
      show "j < i" by fact
      show False if "j < x \<and> x < i" "ix x" for x using mem[of x] that \<open>j = k\<close> by simp
    qed
  next
    assume "j < i \<and> (\<forall>k. j < k \<and> k < i \<longrightarrow> \<not> ix k)"
    then have "{k. j \<le> k \<and> k < i \<and> ix k} = {j}" using that(1) by (auto simp: le_less)
    then show "card {k. j \<le> k \<and> k < i \<and> ix k} = 1" by simp
  qed
  then have "(\<exists>j\<le>i. ix j \<and> s j \<and> card {k. j \<le> k \<and> k < i \<and> ix k} = 1) \<longleftrightarrow>
      (\<exists>j<i. ix j \<and> s j \<and> (\<forall>k. j < k \<and> k < i \<longrightarrow> \<not> ix k))"
    by (meson less_imp_le)
  then show ?thesis unfolding indexed_advance_def carried_def by auto
qed

section \<open>The builder\<close>

lemma advance_sound: "bits c (createAdvance e n) i = stream_advance n (bits c e) i"
  by (auto simp: createAdvance_def stream_advance_def)

lemma lookahead_sound: "bits c (createLookahead e n) i = bits c e (i + n)"
  by (auto simp: createLookahead_def)

lemma carried_empty: "\<not> carried (\<lambda>i. False) t i" "carried s (\<lambda>i. False) i \<longleftrightarrow> stream_advance 1 s i"
proof -
  show "\<not> carried (\<lambda>i. False) t i" by (simp add: carried_def)
  show "carried s (\<lambda>i. False) i \<longleftrightarrow> stream_advance 1 s i" by (cases i) (simp_all add: carried_Suc stream_advance_def)
qed

lemma reached_empty: "\<not> reached (\<lambda>i. False) t i" "reached s (\<lambda>i. False) i \<longleftrightarrow> s i"
  by (auto simp: reached_def le_less)

lemma advance_then_scan_thru_sound:
  "bits c (createAdvanceThenScanThru a b) i \<longleftrightarrow> \<not> bits c b i \<and> carried (bits c a) (bits c b) i"
proof (cases "a = Zeroes \<or> b = Zeroes")
  case True
  then show ?thesis by (auto simp: createAdvanceThenScanThru_def carried_empty advance_sound)
next
  case False
  then show ?thesis using advance_scan_thru_bit[of c a b i] by (simp add: createAdvanceThenScanThru_def)
qed

lemma advance_then_scan_to_sound:
  "bits c (createAdvanceThenScanTo a b) i \<longleftrightarrow>
   (bits c b i \<or> i = EOF c) \<and> carried (bits c a) (\<lambda>i. \<not> bits c b i \<and> i \<noteq> EOF c) i"
proof (cases "a = Zeroes")
  case True
  then show ?thesis by (simp add: createAdvanceThenScanTo_def carried_empty)
next
  case False
  then show ?thesis using advance_scan_to_bit[of c a b i] by (simp add: createAdvanceThenScanTo_def)
qed

lemma match_star_sound: "bits c (createMatchStar m cc) i \<longleftrightarrow> reached (bits c m) (bits c cc) i"
proof (cases "m = Zeroes \<or> cc = Zeroes")
  case True
  then show ?thesis by (auto simp: createMatchStar_def reached_empty)
next
  case False
  then show ?thesis using match_star_bit[of c m cc i] by (simp add: createMatchStar_def)
qed

lemma scan_thru_sound:
  assumes "no_collision (bits c a) (bits c b)"
  shows "bits c (createScanThru a b) i \<longleftrightarrow> \<not> bits c b i \<and> reached (bits c a) (bits c b) i"
proof (cases "a = Zeroes \<or> b = Zeroes")
  case True
  then show ?thesis by (auto simp: createScanThru_def reached_empty)
next
  case False
  then show ?thesis using scan_thru_bit[OF assms, of i] by (simp add: createScanThru_def)
qed

lemma scan_to_sound:
  fixes c a b
  defines "other \<equiv> \<lambda>i. \<not> bits c b i \<and> i \<noteq> EOF c"
  assumes "no_collision (bits c a) other"
  shows "bits c (createScanTo a b) i \<longleftrightarrow> (bits c b i \<or> i = EOF c) \<and> reached (bits c a) other i"
proof (cases "a = Zeroes \<or> b = Ones")
  case True
  then show ?thesis by (auto simp: createScanTo_def reached_empty other_def)
next
  case False
  then show ?thesis using scan_to_bit[OF assms(2)[unfolded other_def], of i] by (simp add: createScanTo_def other_def)
qed

text \<open>Below the end of the file the statement created is the advance by index positions.\<close>

lemma indexed_advance_sound:
  assumes "one_kind k e" "\<And>ix. index = Some ix \<Longrightarrow> one_kind k ix" "0 < n" "i < EOF c"
  shows "bits c (createIndexedAdvance p e index n) i =
         (case index of None \<Rightarrow> stream_advance n (bits c e) i | Some ix \<Rightarrow> indexed_advance n (bits c ix) (bits c e) i)"
proof (cases index)
  case None
  then show ?thesis using assms(3) by (auto simp: createIndexedAdvance_def advance_sound stream_advance_def)
next
  case (Some ix)
  have and_bits: "bits c (createAnd p e ix) = (\<lambda>i. bits c e i \<and> bits c ix i)"
    using sound_facts(4)[OF assms(1) assms(2)[OF Some]] .
  have run: "carried s (\<lambda>j. \<not> t j \<and> j \<noteq> EOF c) i \<longleftrightarrow> carried s (\<lambda>j. \<not> t j) i" for s t
    using assms(4) unfolding carried_def by fastforce
  show ?thesis
    using assms(3,4) Some indexed_one[of "bits c ix" "bits c e" i]
    by (auto simp: createIndexedAdvance_def indexed_none indexed_all advance_sound advance_then_scan_to_sound and_bits run)
qed

section \<open>Numbers\<close>

lemma integer_sound:
  assumes "units c a i < 2 ^ 64" "units c b i < 2 ^ 64"
  shows "units c (createAdd a b) i = (units c a i + units c b i) mod 2 ^ 64"
    and "a \<noteq> Integer 0 \<or> as_Integer b \<noteq> None \<Longrightarrow>
         units c (createSubtract a b) i = (units c a i + 2 ^ 64 - units c b i) mod 2 ^ 64"
    and "units c (createLessThan a b) i = (if units c a i < units c b i then 1 else 0)"
    and "units c (createEquals a b) i = (if units c a i = units c b i then 1 else 0)"
  using assms
  by (auto simp: createAdd_def createSubtract_def createLessThan_def createEquals_def split: option.splits)

end
