(* ===== verification/BixNum.thy ===== *)
theory BixNum imports Pablo_Sound begin

text \<open>
  \<open>BixNumCompiler\<close> of \<open>lib/pablo/bixnum/bixnum.cpp\<close>: streams of numbers as lists of bit streams, least
  significant bit first, and the circuits for their comparison and arithmetic. The operations take the
  functions of the builder as an argument. An index beyond a vector is undefined in the program, and
  so is an empty vector in most operations; shifts of \<open>1\<close> limit vectors to 30 bits.
\<close>

type_synonym bixnum = "pablo list"

section \<open>Comparison with a constant\<close>

definition UGT_const :: "pablo_ops \<Rightarrow> bixnum \<Rightarrow> nat \<Rightarrow> pablo" where
  "UGT_const B v floor =
     (if drop_bit (length v) floor \<noteq> 0 then Zeroes
      else fold (\<lambda>i so_far. if bit floor i then mkAnd B (v ! i) so_far else mkOr B (v ! i) so_far) [0..<length v] Zeroes)"

definition UGE_const :: "pablo_ops \<Rightarrow> bixnum \<Rightarrow> nat \<Rightarrow> pablo" where
  "UGE_const B v floor = (if floor = 0 then Ones else UGT_const B v (floor - 1))"

definition ULE_const :: "pablo_ops \<Rightarrow> bixnum \<Rightarrow> nat \<Rightarrow> pablo" where
  "ULE_const B v ceil = mkNot B (UGT_const B v ceil)"

definition ULT_const :: "pablo_ops \<Rightarrow> bixnum \<Rightarrow> nat \<Rightarrow> pablo" where
  "ULT_const B v ceil = mkNot B (UGE_const B v ceil)"

definition EQ_const :: "pablo_ops \<Rightarrow> bixnum \<Rightarrow> nat \<Rightarrow> pablo" where
  "EQ_const B v test =
     (if drop_bit (length v) test \<noteq> 0 then Zeroes
      else let (eq1, eq0) =
          fold (\<lambda>i (eq1, eq0). if bit test i then (mkAnd B (v ! i) eq1, eq0) else (eq1, mkOr B (v ! i) eq0))
            [0..<length v] (Ones, Zeroes)
        in mkAnd B eq1 (mkNot B eq0))"

definition NEQ_const :: "pablo_ops \<Rightarrow> bixnum \<Rightarrow> nat \<Rightarrow> pablo" where
  "NEQ_const B v test = mkNot B (EQ_const B v test)"

section \<open>Comparison of two numbers\<close>

definition greater_step :: "pablo_ops \<Rightarrow> bixnum \<Rightarrow> bixnum \<Rightarrow> nat \<Rightarrow> pablo \<Rightarrow> pablo" where
  "greater_step B v floor i so_far = mkSel B (floor ! i) (mkAnd B (v ! i) so_far) (mkOr B (v ! i) so_far)"

definition any_high_bit :: "pablo_ops \<Rightarrow> bixnum \<Rightarrow> nat \<Rightarrow> pablo" where
  "any_high_bit B v n = fold (\<lambda>i a. mkOr B a (v ! i)) [n + 1..<length v] (v ! n)"

definition UGT :: "pablo_ops \<Rightarrow> bixnum \<Rightarrow> bixnum \<Rightarrow> pablo" where
  "UGT B v floor =
     (let common = min (length v) (length floor) - 1;
          so_far = fold (greater_step B v floor) [0..<common] Zeroes;
          top = greater_step B v floor common so_far
      in if length v = length floor then top
         else if length floor < length v then mkOr B top (any_high_bit B v (length floor))
         else mkAnd B top (mkNot B (any_high_bit B floor (length v))))"

definition ULE :: "pablo_ops \<Rightarrow> bixnum \<Rightarrow> bixnum \<Rightarrow> pablo" where
  "ULE B v ceil = mkNot B (UGT B v ceil)"

definition ULT :: "pablo_ops \<Rightarrow> bixnum \<Rightarrow> bixnum \<Rightarrow> pablo" where
  "ULT B v ceil = UGT B ceil v"

definition UGE :: "pablo_ops \<Rightarrow> bixnum \<Rightarrow> bixnum \<Rightarrow> pablo" where
  "UGE B v floor = mkNot B (ULT B v floor)"

definition NEQ_body :: "pablo_ops \<Rightarrow> bixnum \<Rightarrow> bixnum \<Rightarrow> pablo" where
  "NEQ_body B v test =
     (let high = fold (\<lambda>i a. mkOr B a (v ! i)) [length test..<length v] Zeroes;
          common = length test - 1;
          low = fold (\<lambda>i a. mkOr B a (mkXor B (v ! i) (test ! i))) [0..<common] high
      in mkOr B low (mkXor B (v ! common) (test ! common)))"

definition NEQ :: "pablo_ops \<Rightarrow> bixnum \<Rightarrow> bixnum \<Rightarrow> pablo" where
  "NEQ B v test = (if length v < length test then NEQ_body B test v else NEQ_body B v test)"

definition EQ :: "pablo_ops \<Rightarrow> bixnum \<Rightarrow> bixnum \<Rightarrow> pablo" where
  "EQ B v test = mkNot B (NEQ B v test)"

section \<open>Selection and change of width\<close>

definition Select_body :: "pablo_ops \<Rightarrow> pablo \<Rightarrow> bixnum \<Rightarrow> bixnum \<Rightarrow> bixnum" where
  "Select_body B cond v1 v0 =
     map (\<lambda>i. mkSel B cond (v1 ! i) (v0 ! i)) [0..<length v0] @ map (\<lambda>i. mkAnd B cond (v1 ! i)) [length v0..<length v1]"

definition Select :: "pablo_ops \<Rightarrow> pablo \<Rightarrow> bixnum \<Rightarrow> bixnum \<Rightarrow> bixnum" where
  "Select B cond v1 v0 =
     (if length v1 < length v0 then Select_body B (mkNot B cond) v0 v1 else Select_body B cond v1 v0)"

definition Select_const :: "pablo_ops \<Rightarrow> pablo \<Rightarrow> bixnum \<Rightarrow> nat \<Rightarrow> bixnum" where
  "Select_const B cond v1 v0 =
     map (\<lambda>i. if bit v0 i then mkOr B (v1 ! i) (mkNot B cond) else mkAnd B cond (v1 ! i)) [0..<length v1]"

definition ZeroExtend :: "bixnum \<Rightarrow> nat \<Rightarrow> bixnum" where
  "ZeroExtend v n = map (\<lambda>i. v ! i) [0..<length v] @ map (\<lambda>i. Zeroes) [length v..<n]"

definition SignExtend :: "bixnum \<Rightarrow> nat \<Rightarrow> bixnum" where
  "SignExtend v n = map (\<lambda>i. v ! i) [0..<length v] @ map (\<lambda>i. last v) [length v..<n]"

definition Truncate :: "bixnum \<Rightarrow> nat \<Rightarrow> bixnum" where
  "Truncate v n = map (\<lambda>i. v ! i) [0..<n]"

definition HighBits :: "bixnum \<Rightarrow> nat \<Rightarrow> bixnum" where
  "HighBits v n = map (\<lambda>i. v ! (i + (length v - n))) [0..<n]"

fun floor_log2 :: "nat \<Rightarrow> nat" where
  "floor_log2 n = (if n < 2 then 0 else Suc (floor_log2 (n div 2)))"

declare floor_log2.simps [simp del]

definition value_bits :: "nat \<Rightarrow> nat" where
  "value_bits n = (if n > 0 then floor_log2 n + 1 else 1)"

definition Create :: "nat \<Rightarrow> bixnum" where
  "Create n = map (\<lambda>i. if bit n i then Ones else Zeroes) [0..<value_bits n]"

definition Create_mask :: "pablo \<Rightarrow> nat \<Rightarrow> bixnum" where
  "Create_mask m n = map (\<lambda>i. if bit n i then m else Zeroes) [0..<value_bits n]"

section \<open>Addition and subtraction\<close>

text \<open>The scan of the loop \<open>while ((addend & (1 << i)) == 0)\<close>.\<close>

fun low_zeros :: "nat \<Rightarrow> nat" where
  "low_zeros n = (if n = 0 \<or> odd n then 0 else Suc (low_zeros (n div 2)))"

declare low_zeros.simps [simp del]

definition add_const_step :: "pablo_ops \<Rightarrow> bixnum \<Rightarrow> nat \<Rightarrow> nat \<Rightarrow> bixnum \<times> pablo \<Rightarrow> bixnum \<times> pablo" where
  "add_const_step B augend addend i = (\<lambda>(sum, carry).
     if \<not> bit addend i then (sum @ [mkXor B (augend ! i) carry], mkAnd B (augend ! i) carry)
     else (sum @ [mkNot B (mkXor B (augend ! i) carry)], mkOr B (augend ! i) carry))"

definition AddModular_const :: "pablo_ops \<Rightarrow> bixnum \<Rightarrow> nat \<Rightarrow> bixnum" where
  "AddModular_const B augend addend0 =
     (let addend = take_bit (length augend) addend0 in
      if addend = 0 then augend
      else let i = low_zeros addend in
        fst (fold (add_const_step B augend addend) [i..<length augend] (take i augend, Zeroes)))"

definition add_step :: "pablo_ops \<Rightarrow> bixnum \<Rightarrow> bixnum \<Rightarrow> nat \<Rightarrow> bixnum \<times> pablo \<Rightarrow> bixnum \<times> pablo" where
  "add_step B augend addend i = (\<lambda>(sum, carry).
     if i < length addend
     then (sum @ [mkXor3 B (augend ! i) (addend ! i) carry], mkMajority3 B (augend ! i) (addend ! i) carry)
     else (sum @ [mkXor B (augend ! i) carry], mkAnd B (augend ! i) carry))"

definition AddModular :: "pablo_ops \<Rightarrow> bixnum \<Rightarrow> bixnum \<Rightarrow> bixnum" where
  "AddModular B augend addend = fst (fold (add_step B augend addend) [0..<length augend] ([], Zeroes))"

text \<open>\<open>(~subtrahend) + 1\<close>, for \<open>unsigned\<close>.\<close>

definition SubModular_const :: "pablo_ops \<Rightarrow> bixnum \<Rightarrow> nat \<Rightarrow> bixnum" where
  "SubModular_const B minuend subtrahend = AddModular_const B minuend ((2 ^ 32 - subtrahend) mod 2 ^ 32)"

definition sub_step :: "pablo_ops \<Rightarrow> bixnum \<Rightarrow> bixnum \<Rightarrow> nat \<Rightarrow> bixnum \<times> pablo \<Rightarrow> bixnum \<times> pablo" where
  "sub_step B minuend subtrahend i = (\<lambda>(diff, borrow).
     if i < length subtrahend
     then (diff @ [mkXor3 B (minuend ! i) (subtrahend ! i) borrow],
           mkMajority3 B (mkNot B (minuend ! i)) (subtrahend ! i) borrow)
     else (diff @ [mkXor B (minuend ! i) borrow], mkAnd B (mkNot B (minuend ! i)) borrow))"

definition SubModular :: "pablo_ops \<Rightarrow> bixnum \<Rightarrow> bixnum \<Rightarrow> bixnum" where
  "SubModular B minuend subtrahend = fst (fold (sub_step B minuend subtrahend) [0..<length minuend] ([], Zeroes))"

definition AddFull_const :: "pablo_ops \<Rightarrow> bixnum \<Rightarrow> nat \<Rightarrow> bixnum" where
  "AddFull_const B augend addend =
     (if addend = 0 then augend
      else AddModular_const B (ZeroExtend augend (max (length augend) (floor_log2 addend + 1) + 1)) addend)"

definition AddFull_body :: "pablo_ops \<Rightarrow> bixnum \<Rightarrow> bixnum \<Rightarrow> bixnum" where
  "AddFull_body B augend addend =
     (let (sum, carry) = fold (add_step B augend addend) [0..<length augend] ([], Zeroes) in sum @ [carry])"

definition AddFull :: "pablo_ops \<Rightarrow> bixnum \<Rightarrow> bixnum \<Rightarrow> bixnum" where
  "AddFull B augend addend =
     (if length augend < length addend then AddFull_body B addend augend else AddFull_body B augend addend)"

section \<open>Multiplication\<close>

text \<open>One step of the addition of the multiplicand to the product, \<open>i\<close> places up.\<close>

definition mul_add :: "pablo_ops \<Rightarrow> bixnum \<Rightarrow> nat \<Rightarrow> nat \<Rightarrow> bixnum \<times> pablo \<Rightarrow> bixnum \<times> pablo" where
  "mul_add B m i j = (\<lambda>(product, carry).
     (product[j + i := mkXor3 B (product ! (j + i)) (m ! j) carry], mkMajority3 B (product ! (j + i)) (m ! j) carry))"

definition mul_sub :: "pablo_ops \<Rightarrow> bixnum \<Rightarrow> nat \<Rightarrow> nat \<Rightarrow> bixnum \<times> pablo \<Rightarrow> bixnum \<times> pablo" where
  "mul_sub B m i j = (\<lambda>(product, borrow).
     if j < length m
     then (product[j + i := mkXor3 B (product ! (j + i)) (m ! j) borrow],
           mkMajority3 B (mkNot B (product ! (j + i))) (m ! j) borrow)
     else (product[j + i := mkXor B (product ! (j + i)) borrow], mkAnd B (mkNot B (product ! (j + i))) borrow))"

definition MulModular :: "pablo_ops \<Rightarrow> bixnum \<Rightarrow> nat \<Rightarrow> bixnum" where
  "MulModular B m multiplier =
     (let product = replicate (length m) Zeroes in
      if multiplier = 0 then product
      else fold (\<lambda>i product. if bit multiplier i then fst (fold (mul_add B m i) [0..<length m - i] (product, Zeroes)) else product)
        [0..<floor_log2 multiplier + 1] product)"

fun builtin_popcount :: "nat \<Rightarrow> nat" where
  "builtin_popcount n = (if n = 0 then 0 else n mod 2 + builtin_popcount (n div 2))"

declare builtin_popcount.simps [simp del]

definition MulFull_adding :: "pablo_ops \<Rightarrow> bixnum \<Rightarrow> nat \<Rightarrow> bixnum" where
  "MulFull_adding B m multiplier =
     (let bits = floor_log2 multiplier + 1; product = replicate (length m + bits) Zeroes in
      fold (\<lambda>i product. if bit multiplier i
          then let (product, carry) = fold (mul_add B m i) [0..<length m] (product, Zeroes) in product[length m + i := carry]
          else product) [0..<bits] product)"

definition MulFull_subtracting :: "pablo_ops \<Rightarrow> bixnum \<Rightarrow> nat \<Rightarrow> bixnum" where
  "MulFull_subtracting B m multiplier =
     (let bits = floor_log2 multiplier + 1; product = replicate (length m + bits) Zeroes;
          complement = (2 ^ 32 - multiplier) mod 2 ^ 32;
          product = fold (\<lambda>i product. if bit complement i
            then fst (fold (mul_sub B m i) [0..<length product - i] (product, Zeroes)) else product) [0..<bits] product
      in fst (fold (mul_add B m bits) [0..<length m] (product, Zeroes)))"

definition MulFull :: "pablo_ops \<Rightarrow> bixnum \<Rightarrow> nat \<Rightarrow> bixnum" where
  "MulFull B m multiplier =
     (if builtin_popcount multiplier \<le> (floor_log2 multiplier + 1) div 2
      then MulFull_adding B m multiplier else MulFull_subtracting B m multiplier)"

section \<open>Division\<close>

fun div_loop :: "pablo_ops \<Rightarrow> bixnum \<Rightarrow> nat \<Rightarrow> nat \<Rightarrow> bixnum \<times> bixnum \<Rightarrow> bixnum \<times> bixnum" where
  "div_loop B dividend divisor 0 (Q, R) = (Q, R)"
| "div_loop B dividend divisor (Suc i) (Q, R) =
     (let R1 = dividend ! i # R; q = UGE_const B R1 divisor
      in div_loop B dividend divisor i (Q[i := q], Select B q (SubModular_const B R1 divisor) R1))"

text \<open>The result is the quotient and the remainder; \<open>None\<close> is the fatal error.\<close>

fun Div :: "pablo_ops \<Rightarrow> bixnum \<Rightarrow> nat \<Rightarrow> (bixnum \<times> bixnum) option" where
  "Div B dividend divisor =
     (if divisor = 0 then None
      else if divisor = 1 then Some (dividend, [Zeroes])
      else let dividend_bits = length dividend; divisor_bits = floor_log2 divisor + 1 in
        if dividend_bits < divisor_bits then Some (replicate dividend_bits Zeroes, Create divisor)
        else if even divisor then
          (case Div B (HighBits dividend (dividend_bits - 1)) (divisor div 2) of
            None \<Rightarrow> None
          | Some (Q, R) \<Rightarrow> Some (Q, dividend ! 0 # R))
        else let (Q, R) = div_loop B dividend divisor dividend_bits
                   (replicate dividend_bits Zeroes, replicate divisor_bits Zeroes)
          in Some (Q, Truncate R divisor_bits))"

declare Div.simps [simp del]

end
