(* ===== verification/BixNum_Sound.thy ===== *)
theory BixNum_Sound imports BixNum begin

text \<open>
  The circuits for numbers compute: the number at a position of the result of an operation is the
  operation on the numbers of the operands at that position. The client side of the interface
  \<open>sound_ops\<close>.
\<close>

section \<open>The number at a position\<close>

definition low :: "kernel_state \<Rightarrow> nat \<Rightarrow> bixnum \<Rightarrow> nat \<Rightarrow> nat" where
  "low c x v n = (\<Sum>j<n. of_bool (bits c (v ! j) x) * 2 ^ j)"

definition number :: "kernel_state \<Rightarrow> nat \<Rightarrow> bixnum \<Rightarrow> nat" where
  "number c x v = low c x v (length v)"

lemma low_0 [simp]: "low c x v 0 = 0"
  by (simp add: low_def)

lemma low_Suc: "low c x v (Suc n) = low c x v n + of_bool (bits c (v ! n) x) * 2 ^ n"
  by (simp add: low_def)

lemma low_less: "low c x v n < 2 ^ n"
  by (induction n) (auto simp: low_Suc)

lemma number_less: "number c x v < 2 ^ length v"
  by (simp add: number_def low_less)

lemma low_cong: "(\<And>j. j < n \<Longrightarrow> bits c (v ! j) x = bits c (w ! j) x) \<Longrightarrow> low c x v n = low c x w n"
  by (simp add: low_def)

lemma bit_low: "bit (low c x v n) i \<longleftrightarrow> i < n \<and> bits c (v ! i) x"
proof (induction n)
  case (Suc n)
  have "low c x v (Suc n) = take_bit n (low c x v n) + push_bit n (of_bool (bits c (v ! n) x))"
    by (simp add: low_Suc low_less take_bit_nat_eq_self push_bit_eq_mult)
  also have "\<dots> = or (take_bit n (low c x v n)) (push_bit n (of_bool (bits c (v ! n) x)))"
    by (rule disjunctive_add) (auto simp: bit_simps)
  finally show ?case using Suc by (auto simp: bit_simps less_Suc_eq)
qed simp

lemma low_eq_iff: "low c x v n = k \<longleftrightarrow> k < 2 ^ n \<and> (\<forall>j<n. bits c (v ! j) x = bit k j)"
proof
  assume "low c x v n = k"
  then show "k < 2 ^ n \<and> (\<forall>j<n. bits c (v ! j) x = bit k j)" using low_less bit_low by blast
next
  assume a: "k < 2 ^ n \<and> (\<forall>j<n. bits c (v ! j) x = bit k j)"
  show "low c x v n = k"
  proof (rule bit_eqI)
    fix i
    have "take_bit n k = k" using a by (simp add: take_bit_nat_eq_self)
    then have "bit k i \<longrightarrow> i < n" by (metis bit_take_bit_iff)
    then show "bit (low c x v n) i = bit k i" using a by (auto simp: bit_low)
  qed
qed

lemma take_bit_low: "n \<le> m \<Longrightarrow> take_bit n (low c x v m) = low c x v n"
  by (rule bit_eqI) (auto simp: bit_take_bit_iff bit_low)

lemma low_high:
  assumes "n \<le> m"
  shows "low c x v m < 2 ^ n \<longleftrightarrow> (\<forall>j. n \<le> j \<and> j < m \<longrightarrow> \<not> bits c (v ! j) x)"
proof
  assume "low c x v m < 2 ^ n"
  then have "take_bit n (low c x v m) = low c x v m" by (simp add: take_bit_nat_eq_self)
  then show "\<forall>j. n \<le> j \<and> j < m \<longrightarrow> \<not> bits c (v ! j) x" by (metis bit_low bit_take_bit_iff not_le)
next
  assume a: "\<forall>j. n \<le> j \<and> j < m \<longrightarrow> \<not> bits c (v ! j) x"
  have "take_bit n (low c x v m) = low c x v m"
    by (rule bit_eqI) (use a not_le in \<open>auto simp: bit_take_bit_iff bit_low\<close>)
  then show "low c x v m < 2 ^ n" by (metis take_bit_nat_less_exp)
qed

lemma low_number:
  assumes "n \<le> length v" "number c x v < 2 ^ n"
  shows "low c x v n = number c x v"
  using assms by (metis number_def take_bit_low take_bit_nat_eq_self)

lemma low_eq_low: "low c x v n = low c x w n \<longleftrightarrow> (\<forall>j<n. bits c (v ! j) x = bits c (w ! j) x)"
  by (metis bit_low low_cong)

lemma digit_less:
  "a < q \<Longrightarrow> b < q \<Longrightarrow> a + of_bool s * q < b + of_bool t * q \<longleftrightarrow> (if s then t \<and> a < b else t \<or> a < (b :: nat))"
  by (cases s; cases t) auto

text \<open>Numbers that can both be zero at some position. It is enough for \<open>createSel\<close> in the comparison.\<close>

definition both_zero :: "bixnum \<Rightarrow> bixnum \<Rightarrow> bool" where
  "both_zero v w \<longleftrightarrow> (\<exists>c x. (\<forall>j<length v. \<not> bits c (v ! j) x) \<and> (\<forall>j<length w. \<not> bits c (w ! j) x))"

lemma both_zero_commute: "both_zero v w = both_zero w v"
  by (auto simp: both_zero_def)

lemma fold_upt_Suc: "k \<le> n \<Longrightarrow> fold f [k..<Suc n] s = f n (fold f [k..<n] s)"
  by simp

section \<open>Comparisons\<close>

context sound_ops
begin

lemmas goods = constants not_law [THEN conjunct1] and_law [THEN conjunct1] or_law [THEN conjunct1] xor_law [THEN conjunct1]
  sel_law [THEN conjunct1] and3_law [THEN conjunct1] or3_law [THEN conjunct1] xor3_law [THEN conjunct1]
  majority3_law [THEN conjunct1] or_and_law [THEN conjunct1] and_or_law [THEN conjunct1] ternary_law [THEN conjunct1]
  in_file_law [THEN conjunct1]

lemmas meanings = not_law [THEN conjunct2, rule_format] and_law [THEN conjunct2, rule_format]
  or_law [THEN conjunct2, rule_format] xor_law [THEN conjunct2, rule_format]
  sel_law [THEN conjunct2, rule_format] and3_law [THEN conjunct2, rule_format] or3_law [THEN conjunct2, rule_format]
  xor3_law [THEN conjunct2, rule_format] majority3_law [THEN conjunct2, rule_format]
  or_and_law [THEN conjunct2, rule_format] and_or_law [THEN conjunct2, rule_format] ternary_law [THEN conjunct2, rule_format]
  in_file_law [THEN conjunct2, rule_format]

lemma greater_const_loop:
  assumes "\<forall>j<n. good (v ! j)"
  shows "good (fold (\<lambda>i s. if bit floor i then mkAnd B (v ! i) s else mkOr B (v ! i) s) [0..<n] Zeroes) \<and>
    (bits c (fold (\<lambda>i s. if bit floor i then mkAnd B (v ! i) s else mkOr B (v ! i) s) [0..<n] Zeroes) x
     \<longleftrightarrow> take_bit n floor < low c x v n)"
  using assms
proof (induction n)
  case (Suc n)
  have "take_bit n floor < 2 ^ n" "low c x v n < 2 ^ n" by (simp_all add: low_less)
  with Suc show ?case
    by (auto simp: goods meanings low_Suc take_bit_Suc_from_most simp del: take_bit_nat_less_exp)
qed (simp add: goods)

lemma UGT_const_sound:
  assumes "list_all good v"
  shows "good (UGT_const B v k)" "bits c (UGT_const B v k) x \<longleftrightarrow> k < number c x v"
proof -
  note g = assms[unfolded list_all_length]
  note loop = greater_const_loop[OF g, where floor = k and c = c and x = x]
  show "good (UGT_const B v k)" using loop by (simp add: UGT_const_def goods)
  have "drop_bit (length v) k = 0 \<longleftrightarrow> k < 2 ^ length v" by (simp add: drop_bit_eq_div div_eq_0_iff)
  then show "bits c (UGT_const B v k) x \<longleftrightarrow> k < number c x v"
    using loop number_less[of c x v] by (auto simp: UGT_const_def number_def take_bit_nat_eq_self)
qed

lemma UGE_const_sound:
  "list_all good v \<Longrightarrow> good (UGE_const B v k)"
  "list_all good v \<Longrightarrow> bits c (UGE_const B v k) x \<longleftrightarrow> k \<le> number c x v"
  by (auto simp: UGE_const_def goods UGT_const_sound)

lemma ULE_ULT_const_sound:
  assumes "list_all good v"
  shows "bits c (ULE_const B v k) x \<longleftrightarrow> number c x v \<le> k" "bits c (ULT_const B v k) x \<longleftrightarrow> number c x v < k"
  using assms by (auto simp: ULE_const_def ULT_const_def meanings UGT_const_sound UGE_const_sound)

lemma equal_const_loop:
  fixes v test
  defines "step \<equiv> (\<lambda>i (eq1, eq0). if bit test i then (mkAnd B (v ! i) eq1, eq0) else (eq1, mkOr B (v ! i) eq0))"
  assumes "\<forall>j<n. good (v ! j)"
  shows "case fold step [0..<n] (Ones, Zeroes) of (e1, e0) \<Rightarrow>
    good e1 \<and> good e0 \<and> (bits c e1 x \<longleftrightarrow> (\<forall>j<n. bit test j \<longrightarrow> bits c (v ! j) x)) \<and>
    (bits c e0 x \<longleftrightarrow> (\<exists>j<n. \<not> bit test j \<and> bits c (v ! j) x))"
  using assms(2)
proof (induction n)
  case (Suc n)
  obtain e1 e0 where "fold step [0..<n] (Ones, Zeroes) = (e1, e0)" by fastforce
  with Suc show ?case by (auto simp: step_def goods meanings less_Suc_eq)
qed (simp add: goods)

lemma EQ_const_sound:
  assumes "list_all good v"
  shows "good (EQ_const B v k)" "bits c (EQ_const B v k) x \<longleftrightarrow> number c x v = k"
proof -
  have z: "drop_bit (length v) k = 0 \<longleftrightarrow> k < 2 ^ length v" by (simp add: drop_bit_eq_div div_eq_0_iff)
  obtain e1 e0 where e: "fold (\<lambda>i (eq1, eq0). if bit k i then (mkAnd B (v ! i) eq1, eq0) else (eq1, mkOr B (v ! i) eq0))
      [0..<length v] (Ones, Zeroes) = (e1, e0)" by fastforce
  note loop = equal_const_loop[OF assms[unfolded list_all_length], where test = k and c = c and x = x, unfolded e prod.case]
  show "good (EQ_const B v k)" using loop by (simp add: EQ_const_def e goods)
  show "bits c (EQ_const B v k) x \<longleftrightarrow> number c x v = k"
    using loop number_less[of c x v] z
    by (auto simp: EQ_const_def e goods meanings number_def low_eq_iff)
qed

lemma NEQ_const_sound: "list_all good v \<Longrightarrow> bits c (NEQ_const B v k) x \<longleftrightarrow> number c x v \<noteq> k"
  by (simp add: NEQ_const_def meanings EQ_const_sound)

lemma greater_loop:
  assumes "\<forall>j<n. good (v ! j)" "\<forall>j<n. good (w ! j)"
    and "\<exists>c x. (\<forall>j<n. \<not> bits c (v ! j) x) \<and> (\<forall>j<n. \<not> bits c (w ! j) x)"
  shows "good (fold (greater_step B v w) [0..<n] Zeroes) \<and>
    (\<forall>c x. bits c (fold (greater_step B v w) [0..<n] Zeroes) x \<longleftrightarrow> low c x w n < low c x v n)"
  using assms
proof (induction n)
  case (Suc n)
  let ?s = "fold (greater_step B v w) [0..<n] Zeroes"
  obtain c0 x0 where z: "\<forall>j<Suc n. \<not> bits c0 (v ! j) x0" "\<forall>j<Suc n. \<not> bits c0 (w ! j) x0" using Suc.prems(3) by blast
  then have "\<exists>c x. (\<forall>j<n. \<not> bits c (v ! j) x) \<and> (\<forall>j<n. \<not> bits c (w ! j) x)" by (meson less_SucI)
  then have IH: "good ?s" "\<And>c x. bits c ?s x \<longleftrightarrow> low c x w n < low c x v n"
    using Suc.IH Suc.prems(1,2) by simp_all
  have "\<not> bits c0 ?s x0" using z by (simp add: IH low_def)
  then have guard: "sel_guard (mkAnd B (v ! n) ?s) (mkOr B (v ! n) ?s)"
    unfolding sel_guard_def using Suc.prems(1) IH(1) z by (auto simp: meanings intro!: exI[of _ c0] exI[of _ x0])
  have "good (v ! n)" "good (w ! n)" using Suc.prems by auto
  with guard IH show ?case
    by (simp add: greater_step_def[of B v w n] goods meanings low_Suc digit_less low_less)
qed (simp add: goods)

lemma any_high_bit_sound:
  assumes "list_all good v" "n < length v"
  shows "good (any_high_bit B v n)" "bits c (any_high_bit B v n) x \<longleftrightarrow> 2 ^ n \<le> number c x v"
proof -
  have "good (fold (\<lambda>i a. mkOr B a (v ! i)) [n + 1..<m] (v ! n)) \<and>
    (bits c (fold (\<lambda>i a. mkOr B a (v ! i)) [n + 1..<m] (v ! n)) x \<longleftrightarrow> (\<exists>j. n \<le> j \<and> j < m \<and> bits c (v ! j) x))"
    if "n < m" "m \<le> length v" for m
    using that
  proof (induction m)
    case (Suc m)
    have gm: "good (v ! m)" "good (v ! n)" using Suc.prems assms by (simp_all add: list_all_length)
    show ?case
    proof (cases "n = m")
      case True
      then show ?thesis using gm by (auto simp: le_Suc_eq le_less_Suc_eq)
    next
      case False
      with Suc gm show ?thesis by (simp add: goods meanings less_Suc_eq) (blast intro: less_imp_le)
    qed
  qed simp
  from this[OF assms(2) order_refl] low_high[of n "length v" c x v] assms(2)
  show "good (any_high_bit B v n)" "bits c (any_high_bit B v n) x \<longleftrightarrow> 2 ^ n \<le> number c x v"
    unfolding any_high_bit_def number_def by (auto simp: not_less[symmetric])
qed

lemma UGT_sound:
  assumes "list_all good v" "list_all good w" "v \<noteq> []" "w \<noteq> []" "both_zero v w"
  shows "good (UGT B v w)" "bits c (UGT B v w) x \<longleftrightarrow> number c x w < number c x v"
proof -
  define n where "n = min (length v) (length w)"
  have "0 < n" using assms(3,4) by (simp add: n_def)
  then obtain common where n: "n = Suc common" by (auto simp: gr0_conv_Suc)
  have le: "n \<le> length v" "n \<le> length w" by (simp_all add: n_def)
  have zero: "\<exists>c x. (\<forall>j<n. \<not> bits c (v ! j) x) \<and> (\<forall>j<n. \<not> bits c (w ! j) x)"
    using assms(5) le unfolding both_zero_def by (meson less_le_trans)
  define top where "top = fold (greater_step B v w) [0..<n] Zeroes"
  have top: "good top" "bits c top x \<longleftrightarrow> low c x w n < low c x v n"
    using greater_loop[OF _ _ zero] assms(1,2) le unfolding top_def by (auto simp: list_all_length)
  have eq: "UGT B v w = (if length v = length w then top
      else if length w < length v then mkOr B top (any_high_bit B v (length w))
      else mkAnd B top (mkNot B (any_high_bit B w (length v))))"
    using n by (simp add: UGT_def Let_def top_def n_def[symmetric])
  show "good (UGT B v w)" using top(1) any_high_bit_sound(1) assms(1,2) by (auto simp: eq goods)
  show "bits c (UGT B v w) x \<longleftrightarrow> number c x w < number c x v"
  proof (cases "length v" "length w" rule: linorder_cases)
    case equal
    then show ?thesis using top(2) by (simp add: eq n_def number_def)
  next
    case less
    then have "n = length v" by (simp add: n_def)
    then show ?thesis
      using less top any_high_bit_sound(1)[OF assms(2) less] any_high_bit_sound(2)[OF assms(2) less, of c x] number_less[of c x v] low_number[of n w c x]
      by (cases "number c x w < 2 ^ n") (auto simp: eq goods meanings number_def)
  next
    case greater
    then have "n = length w" by (simp add: n_def)
    then show ?thesis
      using greater top any_high_bit_sound(1)[OF assms(1) greater] any_high_bit_sound(2)[OF assms(1) greater, of c x] number_less[of c x w] low_number[of n v c x]
      by (cases "number c x v < 2 ^ n") (auto simp: eq goods meanings number_def)
  qed
qed

lemma or_fold:
  assumes "good a" "\<forall>i. k \<le> i \<and> i < n \<longrightarrow> good (f i)"
  shows "good (fold (\<lambda>i a. mkOr B a (f i)) [k..<n] a) \<and>
    (bits c (fold (\<lambda>i a. mkOr B a (f i)) [k..<n] a) x \<longleftrightarrow> bits c a x \<or> (\<exists>i. k \<le> i \<and> i < n \<and> bits c (f i) x))"
  using assms
proof (induction n)
  case (Suc n)
  then show ?case by (cases "k \<le> n") (auto simp: goods meanings less_Suc_eq)
qed simp

lemma NEQ_body_sound:
  assumes "list_all good v" "list_all good w" "w \<noteq> []" "length w \<le> length v"
  shows "good (NEQ_body B v w)" "bits c (NEQ_body B v w) x \<longleftrightarrow> number c x v \<noteq> number c x w"
proof -
  obtain common where n: "length w = Suc common" using assms(3) by (cases w) auto
  have gs: "good (v ! i)" "i < length w \<Longrightarrow> good (w ! i)" if "i < length v" for i using assms that by (auto simp: list_all_length)
  have high: "good (fold (\<lambda>i a. mkOr B a (v ! i)) [length w..<length v] Zeroes)"
    "bits c (fold (\<lambda>i a. mkOr B a (v ! i)) [length w..<length v] Zeroes) x \<longleftrightarrow> (\<exists>i. length w \<le> i \<and> i < length v \<and> bits c (v ! i) x)"
    using or_fold[of Zeroes "length w" "length v" "\<lambda>i. v ! i" c x] gs constants by simp_all
  note low = or_fold[OF high(1), of 0 common "\<lambda>i. mkXor B (v ! i) (w ! i)" c x]
  have gx: "good (mkXor B (v ! i) (w ! i))" "bits c (mkXor B (v ! i) (w ! i)) x = (bits c (v ! i) x \<noteq> bits c (w ! i) x)"
    if "i < length w" for i using gs[of i] that assms(4) by (simp_all add: goods meanings)
  show "good (NEQ_body B v w)" using low gx n by (simp add: NEQ_body_def goods)
  have "bits c (NEQ_body B v w) x \<longleftrightarrow> \<not> number c x v < 2 ^ length w \<or> (\<exists>i<length w. bits c (v ! i) x \<noteq> bits c (w ! i) x)"
    using low gx n high(2) low_high[OF assms(4), of c x v]
    by (auto simp: NEQ_body_def goods meanings number_def less_Suc_eq)
  also have "\<dots> \<longleftrightarrow> number c x v \<noteq> number c x w"
  proof (cases "number c x v < 2 ^ length w")
    case True
    then have "number c x v = low c x v (length w)" using low_number[OF assms(4)] by simp
    then show ?thesis using True low_eq_low[of c x v "length w" w] by (auto simp: number_def[of c x w])
  next
    case False
    then show ?thesis using number_less[of c x w] by auto
  qed
  finally show "bits c (NEQ_body B v w) x \<longleftrightarrow> number c x v \<noteq> number c x w" .
qed

lemma EQ_NEQ_sound:
  assumes "list_all good v" "list_all good w" "v \<noteq> []" "w \<noteq> []"
  shows "good (NEQ B v w)" "bits c (NEQ B v w) x \<longleftrightarrow> number c x v \<noteq> number c x w"
    and "bits c (EQ B v w) x \<longleftrightarrow> number c x v = number c x w"
  using NEQ_body_sound[OF assms(1,2,4)] NEQ_body_sound[OF assms(2,1,3)] by (auto simp: NEQ_def EQ_def meanings)

lemma order_sound:
  assumes "list_all good v" "list_all good w" "v \<noteq> []" "w \<noteq> []" "both_zero v w"
  shows "bits c (ULE B v w) x \<longleftrightarrow> number c x v \<le> number c x w"
    and "bits c (ULT B v w) x \<longleftrightarrow> number c x v < number c x w"
    and "bits c (UGE B v w) x \<longleftrightarrow> number c x w \<le> number c x v"
  using UGT_sound[OF assms] UGT_sound[OF assms(2,1,4,3)] assms(5)
  by (auto simp: ULE_def ULT_def UGE_def meanings both_zero_commute)

section \<open>Selection\<close>

lemma Select_body_sound:
  assumes "good cond" "list_all good v1" "list_all good v0" "length v0 \<le> length v1"
    and "\<forall>j<length v0. sel_guard (v1 ! j) (v0 ! j)"
  shows "list_all good (Select_body B cond v1 v0)" "length (Select_body B cond v1 v0) = length v1"
    and "number c x (Select_body B cond v1 v0) = (if bits c cond x then number c x v1 else number c x v0)"
proof -
  show "list_all good (Select_body B cond v1 v0)" "length (Select_body B cond v1 v0) = length v1"
    using assms by (auto simp: Select_body_def list_all_length goods nth_append)
  have "bits c (Select_body B cond v1 v0 ! j) x = (if bits c cond x then bits c (v1 ! j) x else j < length v0 \<and> bits c (v0 ! j) x)"
    if "j < length v1" for j
    using assms that by (auto simp: Select_body_def nth_append list_all_length meanings)
  then have "low c x (Select_body B cond v1 v0) (length v1) = (if bits c cond x then number c x v1 else number c x v0)"
    using low_less[of c x v1] number_less[of c x v0] power_increasing[OF assms(4), of "2 :: nat"]
    by (auto simp: low_eq_iff number_def bit_low intro: less_le_trans)
  then show "number c x (Select_body B cond v1 v0) = (if bits c cond x then number c x v1 else number c x v0)"
    by (simp add: number_def \<open>length _ = length v1\<close>)
qed

lemma Select_sound:
  assumes "good cond" "list_all good v1" "list_all good v0"
    and "\<And>j. j < length v1 \<Longrightarrow> j < length v0 \<Longrightarrow> if length v1 < length v0 then sel_guard (v0 ! j) (v1 ! j) else sel_guard (v1 ! j) (v0 ! j)"
  shows "list_all good (Select B cond v1 v0)" "length (Select B cond v1 v0) = max (length v1) (length v0)"
    and "number c x (Select B cond v1 v0) = (if bits c cond x then number c x v1 else number c x v0)"
  using assms Select_body_sound(1,2)[of "mkNot B cond" v0 v1] Select_body_sound(1,2)[of cond v1 v0]
    Select_body_sound(3)[of "mkNot B cond" v0 v1 c x] Select_body_sound(3)[of cond v1 v0 c x]
  by (auto simp: Select_def goods meanings split: if_splits)

lemma Select_const_sound:
  assumes "good cond" "list_all good v" "k < 2 ^ length v"
  shows "number c x (Select_const B cond v k) = (if bits c cond x then number c x v else k)"
proof -
  have "low c x (Select_const B cond v k) (length v) = (if bits c cond x then number c x v else k)"
    using assms low_less[of c x v] by (auto simp: low_eq_iff Select_const_def list_all_length goods meanings number_def bit_low)
  then show ?thesis by (simp add: number_def Select_const_def)
qed

section \<open>Width\<close>

lemma ZeroExtend_sound:
  assumes "list_all good v" "length v \<le> n"
  shows "list_all good (ZeroExtend v n)" "length (ZeroExtend v n) = n" "number c x (ZeroExtend v n) = number c x v"
proof -
  show l: "length (ZeroExtend v n) = n" "list_all good (ZeroExtend v n)"
    using assms constants by (auto simp: ZeroExtend_def list_all_length nth_append)
  have "low c x (ZeroExtend v n) n = number c x v"
    using less_le_trans[OF low_less power_increasing[OF assms(2)]] assms(2)
    by (auto simp: low_eq_iff ZeroExtend_def nth_append number_def bit_low)
  then show "number c x (ZeroExtend v n) = number c x v" by (simp add: number_def l(1))
qed

lemma Truncate_sound:
  assumes "list_all good v" "n \<le> length v"
  shows "list_all good (Truncate v n)" "length (Truncate v n) = n" "number c x (Truncate v n) = number c x v mod 2 ^ n"
proof -
  show "list_all good (Truncate v n)" "length (Truncate v n) = n" using assms by (auto simp: Truncate_def list_all_length)
  have "low c x (Truncate v n) n = take_bit n (number c x v)"
    using assms(2) by (auto simp: low_eq_iff Truncate_def bit_take_bit_iff number_def bit_low)
  then show "number c x (Truncate v n) = number c x v mod 2 ^ n" by (simp add: number_def Truncate_def take_bit_eq_mod)
qed

lemma HighBits_sound:
  assumes "list_all good v" "n \<le> length v"
  shows "list_all good (HighBits v n)" "length (HighBits v n) = n" "number c x (HighBits v n) = number c x v div 2 ^ (length v - n)"
proof -
  show "list_all good (HighBits v n)" "length (HighBits v n) = n" using assms by (auto simp: HighBits_def list_all_length)
  have "low c x (HighBits v n) n = drop_bit (length v - n) (number c x v)"
  proof (rule bit_eqI)
    fix j
    show "bit (low c x (HighBits v n) n) j = bit (drop_bit (length v - n) (number c x v)) j"
      using assms(2) by (auto simp: HighBits_def bit_drop_bit_eq number_def bit_low add.commute)
  qed
  then show "number c x (HighBits v n) = number c x v div 2 ^ (length v - n)"
    by (simp add: number_def HighBits_def drop_bit_eq_div)
qed

end

lemma value_bits: "n < 2 ^ value_bits n"
proof -
  have "n < 2 ^ (floor_log2 n + 1) \<and> (0 < n \<longrightarrow> 2 ^ floor_log2 n \<le> n)" for n
  proof (induction n rule: floor_log2.induct)
    case (1 n)
    show ?case
    proof (cases "n < 2")
      case True
      then show ?thesis by (auto simp: floor_log2.simps[of n])
    next
      case False
      then have "n div 2 < 2 ^ (floor_log2 (n div 2) + 1)" "2 ^ floor_log2 (n div 2) \<le> n div 2" using 1 by auto
      then show ?thesis using False by (simp add: floor_log2.simps[of n]) linarith
    qed
  qed
  then show ?thesis by (cases "n = 0") (auto simp: value_bits_def)
qed

lemma Create_sound: "number c x (Create n) = n" "number c x (Create_mask m n) = (if bits c m x then n else 0)"
proof -
  have "low c x (Create n) (value_bits n) = n" by (auto simp: low_eq_iff Create_def value_bits)
  then show "number c x (Create n) = n" by (simp add: number_def Create_def)
  have "low c x (Create_mask m n) (value_bits n) = (if bits c m x then n else 0)" by (auto simp: low_eq_iff Create_mask_def value_bits)
  then show "number c x (Create_mask m n) = (if bits c m x then n else 0)" by (simp add: number_def Create_mask_def)
qed

end
