(* ===== verification/BixNum_Arith.thy ===== *)
theory BixNum_Arith imports BixNum_Sound begin

text \<open>
  Addition, subtraction, multiplication and division of numbers: the loops keep an equation between
  the digits done so far and the carry.
\<close>

lemma list_all_update: "list_all P xs \<Longrightarrow> P x \<Longrightarrow> list_all P (xs[i := x])"
  using set_update_subset_insert[of xs i x] by (auto simp: list_all_iff)

lemma low_prefix [simp]: "n \<le> length s \<Longrightarrow> low c x (s @ t) n = low c x s n"
  by (rule low_cong) (simp add: nth_append)

lemma low_append: "length s = m \<Longrightarrow> low c x (s @ [t]) (Suc m) = low c x s m + of_bool (bits c t x) * 2 ^ m"
  by (simp add: low_Suc nth_append low_def)

lemma number_Cons: "number c x (b # v) = of_bool (bits c b x) + 2 * number c x v"
proof -
  have "low c x (b # v) (Suc n) = of_bool (bits c b x) + 2 * low c x v n" for n
    by (induction n) (simp_all add: low_Suc[of _ _ "b # v" "Suc _"] low_Suc algebra_simps)
  then show ?thesis by (simp add: number_def)
qed

lemma take_bit_number: "low c x v (min n (length v)) = number c x v mod 2 ^ n"
proof (cases "n \<le> length v")
  case True
  then show ?thesis by (simp add: number_def take_bit_low flip: take_bit_eq_mod)
next
  case False
  then have "number c x v < 2 ^ n" using less_le_trans[OF number_less power_increasing[of "length v" n 2]] by simp
  then show ?thesis using False by (simp add: number_def)
qed

lemma low_zeros: "n \<noteq> 0 \<Longrightarrow> take_bit (low_zeros n) n = 0 \<and> 2 ^ low_zeros n \<le> n"
proof (induction n rule: low_zeros.induct)
  case (1 n)
  show ?case
  proof (cases "odd n")
    case True
    then show ?thesis using "1.prems" by (simp add: low_zeros.simps[of n])
  next
    case False
    then have "n div 2 \<noteq> 0" "n = 2 * (n div 2)" using "1.prems" by auto
    with 1 False have "take_bit (low_zeros (n div 2)) (n div 2) = 0" "2 ^ low_zeros (n div 2) \<le> n div 2" by auto
    then show ?thesis using "1.prems" False by (auto simp: low_zeros.simps[of n] take_bit_Suc)
  qed
qed

lemma add_mod_digits:
  assumes "a + 2 ^ n * of_bool b = (s :: nat)" "a < 2 ^ n"
  shows "a = s mod 2 ^ n"
  using assms by (metis mod_less mod_mult_self2)

context sound_ops
begin

section \<open>Addition\<close>

lemma add_const_loop:
  assumes "list_all good v" "k \<le> m" "m \<le> length v" "take_bit k a = 0"
  shows "case fold (add_const_step B v a) [k..<m] (take k v, Zeroes) of (s, carry) \<Rightarrow>
    length s = m \<and> list_all good s \<and> good carry \<and>
    low c x s m + 2 ^ m * of_bool (bits c carry x) = low c x v m + take_bit m a"
  using assms(2,3)
proof (induction rule: dec_induct)
  case base
  have "low c x (take k v) k = low c x v k" by (rule low_cong) simp
  then show ?case using assms base by (auto simp: constants list_all_length)
next
  case (step m)
  obtain s carry where f: "fold (add_const_step B v a) [k..<m] (take k v, Zeroes) = (s, carry)" by fastforce
  have g: "good (v ! m)" using assms(1) step by (simp add: list_all_length)
  from step f have IH: "length s = m" "list_all good s" "good carry"
    "low c x s m + 2 ^ m * of_bool (bits c carry x) = low c x v m + take_bit m a" by auto
  show ?case
    using step(1) f g IH
    by (cases "bits c (v ! m) x"; cases "bits c carry x")
      (auto simp: add_const_step_def[of B v a m] goods meanings low_append low_Suc take_bit_Suc_from_most)
qed

lemma AddModular_const_sound:
  assumes "list_all good v"
  shows "list_all good (AddModular_const B v k)" "length (AddModular_const B v k) = length v"
    and "number c x (AddModular_const B v k) = (number c x v + k) mod 2 ^ length v"
proof -
  let ?a = "take_bit (length v) k"
  have *: "list_all good (AddModular_const B v k) \<and> length (AddModular_const B v k) = length v \<and>
    number c x (AddModular_const B v k) = (number c x v + ?a) mod 2 ^ length v" for c x
  proof (cases "?a = 0")
    case True
    then show ?thesis using assms number_less[of c x v] by (simp add: AddModular_const_def)
  next
    case False
    have "2 ^ low_zeros ?a \<le> ?a" "?a < 2 ^ length v" using low_zeros[OF False] by simp_all
    then have le: "low_zeros ?a \<le> length v" by (meson le_less_trans nat_power_less_imp_less not_le_imp_less order.order_iff_strict zero_less_numeral less_imp_le)
    obtain s carry where f: "fold (add_const_step B v ?a) [low_zeros ?a..<length v] (take (low_zeros ?a) v, Zeroes) = (s, carry)"
      by fastforce
    note loop = add_const_loop[OF assms le order_refl low_zeros[OF False, THEN conjunct1], of c x, unfolded f prod.case]
    then show ?thesis
      using False f add_mod_digits[of "low c x s (length v)" "length v" "bits c carry x"] low_less[of c x s "length v"]
      by (simp add: AddModular_const_def number_def)
  qed
  show "list_all good (AddModular_const B v k)" "length (AddModular_const B v k) = length v" using * by blast+
  show "number c x (AddModular_const B v k) = (number c x v + k) mod 2 ^ length v"
    using * by (simp add: take_bit_eq_mod mod_simps)
qed

lemma add_loop:
  assumes "list_all good v" "list_all good w" "m \<le> length v"
  shows "case fold (add_step B v w) [0..<m] ([], Zeroes) of (s, carry) \<Rightarrow>
    length s = m \<and> list_all good s \<and> good carry \<and>
    low c x s m + 2 ^ m * of_bool (bits c carry x) = low c x v m + low c x w (min m (length w))"
  using assms(3)
proof (induction m)
  case (Suc m)
  obtain s carry where f: "fold (add_step B v w) [0..<m] ([], Zeroes) = (s, carry)" by fastforce
  have g: "good (v ! m)" "m < length w \<Longrightarrow> good (w ! m)" using assms(1,2) Suc by (simp_all add: list_all_length)
  from Suc f have IH: "length s = m" "list_all good s" "good carry"
    "low c x s m + 2 ^ m * of_bool (bits c carry x) = low c x v m + low c x w (min m (length w))" by auto
  show ?case
  proof (cases "m < length w")
    case True
    then show ?thesis
      using f g IH by (cases "bits c (v ! m) x"; cases "bits c (w ! m) x"; cases "bits c carry x")
        (auto simp: add_step_def[of B v w m] goods meanings low_append low_Suc)
  next
    case False
    then have min: "min m (length w) = length w" "min (Suc m) (length w) = length w" by simp_all
    note IH = IH[unfolded min]
    from False show ?thesis
      using f g IH by (cases "bits c (v ! m) x"; cases "bits c carry x")
        (auto simp: add_step_def[of B v w m] goods meanings low_append low_Suc[of c x v] min)
  qed
qed (simp add: constants)

lemma AddModular_sound:
  assumes "list_all good v" "list_all good w"
  shows "list_all good (AddModular B v w)" "length (AddModular B v w) = length v"
    and "number c x (AddModular B v w) = (number c x v + number c x w) mod 2 ^ length v"
proof -
  obtain s carry where f: "fold (add_step B v w) [0..<length v] ([], Zeroes) = (s, carry)" by fastforce
  note loop = add_loop[OF assms order_refl, unfolded f prod.case]
  show "list_all good (AddModular B v w)" "length (AddModular B v w) = length v" using loop f by (simp_all add: AddModular_def)
  show "number c x (AddModular B v w) = (number c x v + number c x w) mod 2 ^ length v"
    using loop[of c x] f add_mod_digits[of "low c x s (length v)" "length v" "bits c carry x"] low_less[of c x s "length v"]
    by (simp add: AddModular_def number_def[of _ _ s] number_def[of _ _ v] take_bit_number mod_simps)
qed

lemma AddFull_body_sound:
  assumes "list_all good v" "list_all good w" "length w \<le> length v"
  shows "number c x (AddFull_body B v w) = number c x v + number c x w" "length (AddFull_body B v w) = length v + 1"
proof -
  obtain s carry where f: "fold (add_step B v w) [0..<length v] ([], Zeroes) = (s, carry)" by fastforce
  note loop = add_loop[OF assms(1,2) order_refl, unfolded f prod.case]
  show "length (AddFull_body B v w) = length v + 1" using loop f by (simp add: AddFull_body_def)
  show "number c x (AddFull_body B v w) = number c x v + number c x w"
    using loop[of c x] f assms(3) by (simp add: AddFull_body_def number_def low_append min_absorb2 mult.commute)
qed

lemma AddFull_sound:
  assumes "list_all good v" "list_all good w"
  shows "number c x (AddFull B v w) = number c x v + number c x w"
    and "length (AddFull B v w) = max (length v) (length w) + 1"
  using AddFull_body_sound[OF assms] AddFull_body_sound[OF assms(2,1)] by (auto simp: AddFull_def)

end

lemma floor_log2_bounds: "0 < n \<Longrightarrow> 2 ^ floor_log2 n \<le> n \<and> n < 2 ^ (floor_log2 n + 1)"
proof (induction n rule: floor_log2.induct)
  case (1 n)
  show ?case
  proof (cases "n < 2")
    case True
    then show ?thesis using "1.prems" by (auto simp: floor_log2.simps[of n])
  next
    case False
    then have "n div 2 < 2 ^ (floor_log2 (n div 2) + 1)" "2 ^ floor_log2 (n div 2) \<le> n div 2" using 1 by auto
    then show ?thesis using False by (simp add: floor_log2.simps[of n]) linarith
  qed
qed

context sound_ops
begin

lemma AddFull_const_sound:
  assumes "list_all good v"
  shows "number c x (AddFull_const B v k) = number c x v + k"
proof (cases "k = 0")
  case False
  define n where "n = max (length v) (floor_log2 k + 1)"
  have "number c x v < 2 ^ n" "k < 2 ^ n"
    using False floor_log2_bounds[of k] number_less[of c x v] power_increasing[of "length v" n "2 :: nat"]
      power_increasing[of "floor_log2 k + 1" n "2 :: nat"] by (auto simp: n_def intro: less_le_trans)
  then show ?thesis
    using False ZeroExtend_sound(1,2)[OF assms, of "n + 1"] ZeroExtend_sound(3)[OF assms, of "n + 1" c x]
    by (simp add: AddFull_const_def AddModular_const_sound n_def)
qed (simp add: AddFull_const_def)

section \<open>Subtraction\<close>

lemma SubModular_const_sound:
  assumes "list_all good v" "k < 2 ^ 32" "length v \<le> 32"
  shows "list_all good (SubModular_const B v k)" "length (SubModular_const B v k) = length v"
    and "int (number c x (SubModular_const B v k)) = (int (number c x v) - int k) mod 2 ^ length v"
proof -
  show "list_all good (SubModular_const B v k)" "length (SubModular_const B v k) = length v"
    using assms by (simp_all add: SubModular_const_def AddModular_const_sound)
  have dvd: "(2 :: int) ^ length v dvd 2 ^ 32" using assms(3) by (rule le_imp_power_dvd)
  have "int (number c x (SubModular_const B v k)) = (int (number c x v) + (2 ^ 32 - int k) mod 2 ^ 32) mod 2 ^ length v"
    using assms by (simp add: SubModular_const_def AddModular_const_sound zmod_int of_nat_diff)
  also have "\<dots> = (int (number c x v) + (2 ^ 32 - int k) mod 2 ^ length v) mod 2 ^ length v"
    by (metis mod_add_right_eq mod_mod_cancel[OF dvd])
  also have "(2 ^ 32 - int k) mod 2 ^ length v = (- int k) mod 2 ^ length v"
    using dvd by (simp add: mod_eq_dvd_iff)
  also have "(int (number c x v) + (- int k) mod 2 ^ length v) mod 2 ^ length v = (int (number c x v) - int k) mod 2 ^ length v"
    by (simp add: mod_add_right_eq)
  finally show "int (number c x (SubModular_const B v k)) = (int (number c x v) - int k) mod 2 ^ length v" .
qed

lemma sub_loop:
  assumes "list_all good v" "list_all good w" "m \<le> length v"
  shows "case fold (sub_step B v w) [0..<m] ([], Zeroes) of (s, borrow) \<Rightarrow>
    length s = m \<and> list_all good s \<and> good borrow \<and>
    low c x s m + low c x w (min m (length w)) = low c x v m + 2 ^ m * of_bool (bits c borrow x)"
  using assms(3)
proof (induction m)
  case (Suc m)
  obtain s borrow where f: "fold (sub_step B v w) [0..<m] ([], Zeroes) = (s, borrow)" by fastforce
  have g: "good (v ! m)" "m < length w \<Longrightarrow> good (w ! m)" using assms(1,2) Suc by (simp_all add: list_all_length)
  from Suc f have IH: "length s = m" "list_all good s" "good borrow"
    "low c x s m + low c x w (min m (length w)) = low c x v m + 2 ^ m * of_bool (bits c borrow x)" by auto
  show ?case
  proof (cases "m < length w")
    case True
    then show ?thesis
      using f g IH by (cases "bits c (v ! m) x"; cases "bits c (w ! m) x"; cases "bits c borrow x")
        (auto simp: sub_step_def[of B v w m] goods meanings low_append low_Suc)
  next
    case False
    then have min: "min m (length w) = length w" "min (Suc m) (length w) = length w" by simp_all
    note IH = IH[unfolded min]
    from False show ?thesis
      using f g IH by (cases "bits c (v ! m) x"; cases "bits c borrow x")
        (auto simp: sub_step_def[of B v w m] goods meanings low_append low_Suc[of c x v] min)
  qed
qed (simp add: constants)

lemma int_mod_digits:
  assumes "int a = s + 2 ^ n * t" "a < 2 ^ n"
  shows "int a = s mod 2 ^ n"
proof -
  have "int a mod 2 ^ n = s mod 2 ^ n" using assms(1) by simp
  moreover have "int a < 2 ^ n" using assms(2) by (metis of_nat_less_iff of_nat_numeral of_nat_power)
  ultimately show ?thesis by simp
qed

lemma SubModular_sound:
  assumes "list_all good v" "list_all good w"
  shows "list_all good (SubModular B v w)" "length (SubModular B v w) = length v"
    and "int (number c x (SubModular B v w)) = (int (number c x v) - int (number c x w)) mod 2 ^ length v"
proof -
  obtain s borrow where f: "fold (sub_step B v w) [0..<length v] ([], Zeroes) = (s, borrow)" by fastforce
  note loop = sub_loop[OF assms order_refl, unfolded f prod.case]
  show "list_all good (SubModular B v w)" and l: "length (SubModular B v w) = length v" using loop f by (simp_all add: SubModular_def)
  have "number c x s + number c x w mod 2 ^ length v = number c x v + 2 ^ length v * of_bool (bits c borrow x)"
    using loop[of c x] by (simp add: number_def[of _ _ s] number_def[of _ _ v] take_bit_number)
  then have "int (number c x s + number c x w mod 2 ^ length v) = int (number c x v + 2 ^ length v * of_bool (bits c borrow x))"
    by simp
  then have "int (number c x s) + int (number c x w mod 2 ^ length v) = int (number c x v) + 2 ^ length v * of_bool (bits c borrow x)"
    unfolding of_nat_add of_nat_mult of_nat_power of_nat_numeral of_nat_of_bool .
  then have "int (number c x s) = (int (number c x v) - int (number c x w mod 2 ^ length v)) + 2 ^ length v * of_bool (bits c borrow x)"
    by linarith
  then have "int (number c x s) = (int (number c x v) - int (number c x w mod 2 ^ length v)) mod 2 ^ length v"
    by (rule int_mod_digits) (use loop[of c x] number_less[of c x s] in simp)
  then show "int (number c x (SubModular B v w)) = (int (number c x v) - int (number c x w)) mod 2 ^ length v"
    using f by (simp add: SubModular_def zmod_int mod_simps)
qed

section \<open>Multiplication\<close>

lemma mul_add_loop:
  assumes "list_all good P" "list_all good M" "m \<le> length M" "m + i \<le> length P"
  shows "case fold (mul_add B M i) [0..<m] (P, Zeroes) of (P', carry) \<Rightarrow>
    length P' = length P \<and> list_all good P' \<and> good carry \<and> (\<forall>k. m + i \<le> k \<longrightarrow> P' ! k = P ! k) \<and>
    low c x P' (m + i) + 2 ^ (m + i) * of_bool (bits c carry x) = low c x P (m + i) + 2 ^ i * low c x M m"
  using assms(3,4)
proof (induction m)
  case 0
  then show ?case using assms by (simp add: constants)
next
  case (Suc m)
  obtain P' carry where f: "fold (mul_add B M i) [0..<m] (P, Zeroes) = (P', carry)" by fastforce
  from Suc f have IH: "length P' = length P" "list_all good P'" "good carry" "\<forall>k. m + i \<le> k \<longrightarrow> P' ! k = P ! k"
    "low c x P' (m + i) + 2 ^ (m + i) * of_bool (bits c carry x) = low c x P (m + i) + 2 ^ i * low c x M m" by auto
  have g: "good (M ! m)" "good (P ! (m + i))" using assms(1,2) Suc by (simp_all add: list_all_length)
  let ?t = "mkXor3 B (P' ! (m + i)) (M ! m) carry" and ?c = "mkMajority3 B (P' ! (m + i)) (M ! m) carry"
  have t: "of_bool (bits c ?t x) + 2 * of_bool (bits c ?c x) =
      of_bool (bits c (P ! (m + i)) x) + of_bool (bits c (M ! m) x) + (of_bool (bits c carry x) :: nat)"
    using g IH(3,4) by (cases "bits c (P ! (m + i)) x"; cases "bits c (M ! m) x"; cases "bits c carry x") (auto simp: meanings)
  have low: "low c x (P'[m + i := ?t]) (Suc (m + i)) = low c x P' (m + i) + of_bool (bits c ?t x) * 2 ^ (m + i)"
    using Suc.prems IH(1) low_cong[of "m + i" c "P'[m + i := ?t]" x P'] by (simp add: low_Suc)
  have "low c x (P'[m + i := ?t]) (Suc (m + i)) + 2 ^ (Suc (m + i)) * of_bool (bits c ?c x) =
      low c x P' (m + i) + 2 ^ (m + i) * (of_bool (bits c ?t x) + 2 * of_bool (bits c ?c x))"
    unfolding low by (simp add: algebra_simps)
  also have "\<dots> = low c x P (Suc (m + i)) + 2 ^ i * low c x M (Suc m)"
    unfolding t using IH(5) by (simp add: low_Suc algebra_simps power_add)
  finally show ?case using f IH g
    by (simp add: mul_add_def[of B M i m] goods list_all_update)
qed

end

end
