(* ===== verification/BixNum_Mul.thy ===== *)
theory BixNum_Mul imports BixNum_Arith begin

text \<open>
  Multiplication by a constant, with both strategies of \<open>MulFull\<close>, and division by a constant.
\<close>

context sound_ops
begin

section \<open>Multiplication\<close>

lemma mul_modular_loop:
  assumes "list_all good M"
  shows "case fold (\<lambda>i P. if bit k i then fst (fold (mul_add B M i) [0..<length M - i] (P, Zeroes)) else P) [0..<n]
      (replicate (length M) Zeroes) of P \<Rightarrow>
    length P = length M \<and> list_all good P \<and> number c x P = (number c x M * take_bit n k) mod 2 ^ length M"
proof (induction n)
  case 0
  have "number c x (replicate (length M) Zeroes) = 0" by (simp add: number_def low_def)
  then show ?case using constants by (simp add: list_all_length)
next
  case (Suc n)
  define P where "P = fold (\<lambda>i P. if bit k i then fst (fold (mul_add B M i) [0..<length M - i] (P, Zeroes)) else P) [0..<n]
      (replicate (length M) Zeroes)"
  have IH: "length P = length M" "list_all good P" "number c x P = (number c x M * take_bit n k) mod 2 ^ length M"
    using Suc by (simp_all add: P_def)
  show ?case
  proof (cases "bit k n")
    case False
    then show ?thesis using IH by (simp add: P_def[symmetric] take_bit_Suc_from_most)
  next
    case True
    obtain P' carry where f: "fold (mul_add B M n) [0..<length M - n] (P, Zeroes) = (P', carry)" by fastforce
    have "length P' = length M \<and> list_all good P' \<and> number c x P' = (number c x P + 2 ^ n * number c x M) mod 2 ^ length M"
    proof (cases "n \<le> length M")
      case le: True
      have m: "length M - n \<le> length M" "length M - n + n \<le> length P" using le IH(1) by simp_all
      note step = mul_add_loop[OF IH(2) assms m, of c x, unfolded f prod.case]
      have "2 ^ n * low c x M (length M - n) = (2 ^ n * number c x M) mod 2 ^ length M"
      proof -
        have "(2 :: nat) ^ length M = 2 ^ n * 2 ^ (length M - n)" using le by (simp flip: power_add)
        then show ?thesis
          using take_bit_low[of "length M - n" "length M" c x M]
          by (simp add: number_def take_bit_eq_mod mult_mod_right)
      qed
      then have eq: "number c x P' + 2 ^ length M * of_bool (bits c carry x) = number c x P + (2 ^ n * number c x M) mod 2 ^ length M"
        using step le IH(1) by (simp add: number_def)
      have "number c x P' < 2 ^ length M" using number_less[of c x P'] step IH(1) by simp
      with eq have "number c x P' = (number c x P + (2 ^ n * number c x M) mod 2 ^ length M) mod 2 ^ length M"
        by (rule add_mod_digits)
      then show ?thesis using step IH(1) by (simp add: mod_simps)
    next
      case False
      then have "(2 :: nat) ^ n = 2 ^ length M * 2 ^ (n - length M)" by (simp flip: power_add)
      then have "(2 ^ n * number c x M) mod 2 ^ length M = 0" by simp
      then have "(number c x P + 2 ^ n * number c x M) mod 2 ^ length M = number c x P"
        using number_less[of c x P] IH(1) by (metis add.right_neutral mod_add_right_eq mod_less)
      then show ?thesis using f False IH by simp
    qed
    then show ?thesis using f True IH
      by (simp add: P_def[symmetric] take_bit_Suc_from_most mod_simps algebra_simps)
  qed
qed

lemma MulModular_sound:
  assumes "list_all good M"
  shows "length (MulModular B M k) = length M" "number c x (MulModular B M k) = (number c x M * k) mod 2 ^ length M"
proof -
  obtain N where N: "floor_log2 k + 1 = N" by simp
  have "take_bit N k = k" using floor_log2_bounds[of k] N by (cases "k = 0") (auto simp: take_bit_nat_eq_self)
  moreover have "number c x (replicate (length M) Zeroes) = 0" by (simp add: number_def low_def)
  moreover note mul_modular_loop[OF assms, of k N c x]
  ultimately show "length (MulModular B M k) = length M" "number c x (MulModular B M k) = (number c x M * k) mod 2 ^ length M"
    unfolding MulModular_def Let_def N by simp_all
qed

lemma mul_adding_loop:
  assumes "list_all good M" "n \<le> b"
  shows "case fold (\<lambda>i P. if bit k i
          then let (P, carry) = fold (mul_add B M i) [0..<length M] (P, Zeroes) in P[length M + i := carry]
          else P) [0..<n] (replicate (length M + b) Zeroes) of P \<Rightarrow>
    length P = length M + b \<and> list_all good P \<and> number c x P = number c x M * take_bit n k"
  using assms(2)
proof (induction n)
  case 0
  have "number c x (replicate (length M + b) Zeroes) = 0" by (simp add: number_def low_def)
  then show ?case using constants by (simp add: list_all_length)
next
  case (Suc n)
  define P where "P = fold (\<lambda>i P. if bit k i
          then let (P, carry) = fold (mul_add B M i) [0..<length M] (P, Zeroes) in P[length M + i := carry]
          else P) [0..<n] (replicate (length M + b) Zeroes)"
  have IH: "length P = length M + b" "list_all good P" "number c x P = number c x M * take_bit n k"
    using Suc by (simp_all add: P_def)
  show ?case
  proof (cases "bit k n")
    case False
    then show ?thesis using IH by (simp add: P_def[symmetric] take_bit_Suc_from_most)
  next
    case True
    obtain P' carry where f: "fold (mul_add B M n) [0..<length M] (P, Zeroes) = (P', carry)" by fastforce
    have m: "length M + n \<le> length P" using Suc.prems IH(1) by simp
    note step = mul_add_loop[OF IH(2) assms(1) order_refl m, of c x, unfolded f prod.case]
    define P2 where "P2 = P'[length M + n := carry]"
    have "number c x P < 2 ^ length M * 2 ^ n"
      unfolding IH(3) using number_less[of c x M] take_bit_nat_less_exp[of n k] by (meson mult_strict_mono' zero_le)
    then have small: "low c x P (length P) < 2 ^ (length M + n)" by (simp add: number_def power_add)
    then have high: "\<not> bits c (P ! j) x" if "length M + n \<le> j" "j < length P" for j
      using low_high[OF m] that by blast
    have "low c x P2 (length P2) < 2 ^ Suc (length M + n)"
      using low_high[of "Suc (length M + n)" "length P2" c x P2] high step Suc.prems IH(1) by (simp add: P2_def)
    then have "number c x P2 = low c x P2 (Suc (length M + n))"
      using low_number[of "Suc (length M + n)" P2 c x] Suc.prems step IH(1) by (simp add: P2_def number_def)
    also have "\<dots> = low c x P' (length M + n) + of_bool (bits c carry x) * 2 ^ (length M + n)"
      using Suc.prems step IH(1) low_cong[of "length M + n" c P2 x P'] by (simp add: low_Suc P2_def)
    also have "\<dots> = low c x P (length M + n) + 2 ^ n * number c x M"
      using step by (simp add: number_def mult.commute)
    also have "low c x P (length M + n) = number c x P"
      using low_number[OF m] small by (simp add: number_def)
    finally have "number c x P2 = number c x M * take_bit (Suc n) k"
      using True IH(3) by (simp add: take_bit_Suc_from_most algebra_simps)
    then show ?thesis using f True step IH(1)
      by (simp add: P_def[symmetric] P2_def list_all_update)
  qed
qed

lemma MulFull_adding_sound:
  assumes "list_all good M" "0 < k"
  shows "number c x (MulFull_adding B M k) = number c x M * k"
    and "length (MulFull_adding B M k) = length M + floor_log2 k + 1"
proof -
  obtain N where N: "floor_log2 k + 1 = N" by simp
  have "take_bit N k = k" using floor_log2_bounds[OF assms(2)] N by (auto simp: take_bit_nat_eq_self)
  moreover note mul_adding_loop[OF assms(1) order_refl, of k N c x]
  ultimately have "length (MulFull_adding B M k) = length M + N \<and> number c x (MulFull_adding B M k) = number c x M * k"
    unfolding MulFull_adding_def Let_def N by simp
  then show "number c x (MulFull_adding B M k) = number c x M * k"
    and "length (MulFull_adding B M k) = length M + floor_log2 k + 1"
    using N by simp_all
qed

lemma mul_sub_loop:
  assumes "list_all good P" "list_all good M" "m + i \<le> length P"
  shows "case fold (mul_sub B M i) [0..<m] (P, Zeroes) of (P', borrow) \<Rightarrow>
    length P' = length P \<and> list_all good P' \<and> good borrow \<and> (\<forall>k. m + i \<le> k \<longrightarrow> P' ! k = P ! k) \<and>
    low c x P' (m + i) + 2 ^ i * low c x M (min m (length M)) = low c x P (m + i) + 2 ^ (m + i) * of_bool (bits c borrow x)"
  using assms(3)
proof (induction m)
  case 0
  then show ?case using assms by (simp add: constants)
next
  case (Suc m)
  obtain P' borrow where f: "fold (mul_sub B M i) [0..<m] (P, Zeroes) = (P', borrow)" by fastforce
  from Suc f have IH: "length P' = length P" "list_all good P'" "good borrow" "\<forall>k. m + i \<le> k \<longrightarrow> P' ! k = P ! k"
    "low c x P' (m + i) + 2 ^ i * low c x M (min m (length M)) = low c x P (m + i) + 2 ^ (m + i) * of_bool (bits c borrow x)" by auto
  have g: "m < length M \<Longrightarrow> good (M ! m)" "good (P ! (m + i))" using assms(1,2) Suc by (simp_all add: list_all_length)
  have P'm: "P' ! (m + i) = P ! (m + i)" using IH(4) by simp
  define q where "q = (m < length M \<and> bits c (M ! m) x)"
  obtain t b where tb: "mul_sub B M i m (P', borrow) = (P'[m + i := t], b)" "good t" "good b"
      "of_bool (bits c t x) + of_bool q + of_bool (bits c borrow x) = of_bool (bits c (P ! (m + i)) x) + (2 * of_bool (bits c b x) :: nat)"
  proof (cases "m < length M")
    case True
    then show ?thesis
      using g IH(3) by (intro that[of "mkXor3 B (P ! (m + i)) (M ! m) borrow" "mkMajority3 B (mkNot B (P ! (m + i))) (M ! m) borrow"])
        (auto simp: mul_sub_def P'm goods meanings q_def)
  next
    case False
    then show ?thesis
      using g IH(3) by (intro that[of "mkXor B (P ! (m + i)) borrow" "mkAnd B (mkNot B (P ! (m + i))) borrow"])
        (auto simp: mul_sub_def P'm goods meanings q_def)
  qed
  have low: "low c x (P'[m + i := t]) (Suc (m + i)) = low c x P' (m + i) + of_bool (bits c t x) * 2 ^ (m + i)"
    using Suc.prems IH(1) low_cong[of "m + i" c "P'[m + i := t]" x P'] by (simp add: low_Suc)
  have M: "low c x M (min (Suc m) (length M)) = low c x M (min m (length M)) + of_bool q * 2 ^ m"
    by (cases "m < length M") (auto simp: q_def low_Suc min_def)
  have "low c x (P'[m + i := t]) (Suc (m + i)) + 2 ^ i * low c x M (min (Suc m) (length M)) =
      low c x P (m + i) + 2 ^ (m + i) * (of_bool (bits c t x) + of_bool q + of_bool (bits c borrow x))"
    unfolding low M using IH(5) by (simp add: algebra_simps power_add)
  also have "\<dots> = low c x P (Suc (m + i)) + 2 ^ Suc (m + i) * of_bool (bits c b x)"
    unfolding tb(4) by (simp add: low_Suc algebra_simps)
  finally show ?case using f IH tb(1-3) by (simp add: list_all_update)
qed

lemma mul_subtracting_loop:
  assumes "list_all good M" "n \<le> b"
  shows "case fold (\<lambda>i P. if bit k i then fst (fold (mul_sub B M i) [0..<length P - i] (P, Zeroes)) else P)
      [0..<n] (replicate (length M + b) Zeroes) of P \<Rightarrow>
    length P = length M + b \<and> list_all good P \<and>
    int (number c x P) = (- int (number c x M) * int (take_bit n k)) mod 2 ^ (length M + b)"
  using assms(2)
proof (induction n)
  case 0
  have "number c x (replicate (length M + b) Zeroes) = 0" by (simp add: number_def low_def)
  then show ?case using constants by (simp add: list_all_length)
next
  case (Suc n)
  define P where "P = fold (\<lambda>i P. if bit k i then fst (fold (mul_sub B M i) [0..<length P - i] (P, Zeroes)) else P)
      [0..<n] (replicate (length M + b) Zeroes)"
  have IH: "length P = length M + b" "list_all good P"
    "int (number c x P) = (- int (number c x M) * int (take_bit n k)) mod 2 ^ (length M + b)"
    using Suc by (simp_all add: P_def)
  show ?case
  proof (cases "bit k n")
    case False
    then show ?thesis using IH by (simp add: P_def[symmetric] take_bit_Suc_from_most)
  next
    case True
    obtain P' borrow where f: "fold (mul_sub B M n) [0..<length M + b - n] (P, Zeroes) = (P', borrow)" by fastforce
    have m: "length M + b - n + n \<le> length P" and eq: "length M + b - n + n = length P" using Suc.prems IH(1) by simp_all
    note step = mul_sub_loop[OF IH(2) assms(1) m, of c x, unfolded f prod.case eq]
    have "min (length M + b - n) (length M) = length M" using Suc.prems by simp
    then have "number c x P' + 2 ^ n * number c x M = number c x P + 2 ^ length P * of_bool (bits c borrow x)"
      using step by (simp add: number_def)
    then have "int (number c x P' + 2 ^ n * number c x M) = int (number c x P + 2 ^ length P * of_bool (bits c borrow x))" by simp
    then have "int (number c x P') = (int (number c x P) - 2 ^ n * int (number c x M)) + 2 ^ length P * of_bool (bits c borrow x)"
      unfolding of_nat_add of_nat_mult of_nat_power of_nat_numeral of_nat_of_bool by linarith
    then have "int (number c x P') = (int (number c x P) - 2 ^ n * int (number c x M)) mod 2 ^ length P"
      by (rule int_mod_digits) (use step number_less[of c x P'] in simp)
    also have "\<dots> = (- int (number c x M) * int (take_bit (Suc n) k)) mod 2 ^ (length M + b)"
      unfolding IH(1,3) mod_diff_left_eq using True by (simp add: take_bit_Suc_from_most algebra_simps)
    finally show ?thesis using f True step IH(1) by (simp add: P_def[symmetric])
  qed
qed

lemma MulFull_subtracting_sound:
  assumes "list_all good M" "0 < k" "k < 2 ^ 32"
  shows "number c x (MulFull_subtracting B M k) = number c x M * k"
    and "length (MulFull_subtracting B M k) = length M + floor_log2 k + 1"
proof -
  obtain N where N: "floor_log2 k + 1 = N" by simp
  have k: "k < 2 ^ N" "2 ^ floor_log2 k \<le> k" using floor_log2_bounds[OF assms(2)] N by auto
  then have "floor_log2 k < 32" using assms(3) by (metis le_less_trans power_less_imp_less_exp one_less_numeral_iff semiring_norm(76))
  then have N32: "N \<le> 32" using N by simp
  define compl where "compl = (2 ^ 32 - k) mod (2 ^ 32 :: nat)"
  have tc: "int (take_bit N compl) = (- int k) mod 2 ^ N"
  proof -
    have dvd: "(2 :: int) ^ N dvd 2 ^ 32" using N32 by (rule le_imp_power_dvd)
    have "(2 ^ 32 - int k) mod 2 ^ N = (- int k) mod 2 ^ N" using dvd by (simp add: mod_eq_dvd_iff)
    then show ?thesis
      using assms(3) mod_mod_cancel[OF dvd] by (simp add: compl_def take_bit_eq_mod zmod_int of_nat_diff)
  qed
  define P where "P = fold (\<lambda>i P. if bit compl i then fst (fold (mul_sub B M i) [0..<length P - i] (P, Zeroes)) else P)
      [0..<N] (replicate (length M + N) Zeroes)"
  have loop: "length P = length M + N" "list_all good P"
    "int (number c x P) = (- int (number c x M) * int (take_bit N compl)) mod 2 ^ (length M + N)"
    using mul_subtracting_loop[OF assms(1) order_refl, of compl N c x] by (simp_all add: P_def)
  obtain P' carry where f: "fold (mul_add B M N) [0..<length M] (P, Zeroes) = (P', carry)" by fastforce
  have le: "length M + N \<le> length P" using loop(1) by simp
  note step = mul_add_loop[OF loop(2) assms(1) order_refl le, of c x, unfolded f prod.case]
  have eq: "MulFull_subtracting B M k = P'"
    using f unfolding MulFull_subtracting_def Let_def N compl_def[symmetric] P_def[symmetric] by simp
  show "length (MulFull_subtracting B M k) = length M + floor_log2 k + 1" using eq step loop(1) N by simp
  have "number c x P' + 2 ^ (length M + N) * of_bool (bits c carry x) = number c x P + 2 ^ N * number c x M"
    using step loop(1) by (simp add: number_def)
  then have "number c x P' = (number c x P + 2 ^ N * number c x M) mod 2 ^ (length M + N)"
    by (rule add_mod_digits) (use step number_less[of c x P'] loop(1) in simp)
  then have "int (number c x P') = (int (number c x P) + 2 ^ N * int (number c x M)) mod 2 ^ (length M + N)"
    by (simp add: zmod_int)
  also have "\<dots> = (- int (number c x M) * ((- int k) mod 2 ^ N) + 2 ^ N * int (number c x M)) mod 2 ^ (length M + N)"
    unfolding loop(3) tc by (simp add: mod_add_left_eq)
  also have "(- int k) mod 2 ^ N = 2 ^ N - int k"
    using k(1) assms(2) by (simp add: zmod_zminus1_eq_if)
  also have "- int (number c x M) * (2 ^ N - int k) + 2 ^ N * int (number c x M) = int (number c x M * k)"
    by (simp add: algebra_simps)
  also have "int (number c x M * k) mod 2 ^ (length M + N) = int (number c x M * k)"
  proof -
    have "number c x M * k < 2 ^ length M * 2 ^ N" using number_less[of c x M] k(1) by (meson mult_strict_mono' zero_le)
    then have "int (number c x M * k) < 2 ^ (length M + N)" by (metis of_nat_less_iff of_nat_numeral of_nat_power power_add)
    then show ?thesis by simp
  qed
  finally have "number c x P' = number c x M * k" by (simp only: of_nat_eq_iff)
  then show "number c x (MulFull_subtracting B M k) = number c x M * k" using eq by simp
qed

lemma MulFull_sound:
  assumes "list_all good M" "0 < k" "k < 2 ^ 32"
  shows "number c x (MulFull B M k) = number c x M * k" "length (MulFull B M k) = length M + floor_log2 k + 1"
  using MulFull_adding_sound[OF assms(1,2)] MulFull_subtracting_sound[OF assms] by (simp_all add: MulFull_def)

end

section \<open>Division\<close>

text \<open>No alternative of a selection in the loop is a negation, see \<open>sel_guard\<close>.\<close>

fun plain_loop :: "pablo_ops \<Rightarrow> bixnum \<Rightarrow> nat \<Rightarrow> nat \<Rightarrow> bixnum \<Rightarrow> bool" where
  "plain_loop B dividend divisor 0 R = True"
| "plain_loop B dividend divisor (Suc i) R =
     (let R1 = dividend ! i # R in list_all (\<lambda>e. \<not> negation e) R1 \<and>
      plain_loop B dividend divisor i (Select B (UGE_const B R1 divisor) (SubModular_const B R1 divisor) R1))"

fun plain_division :: "pablo_ops \<Rightarrow> bixnum \<Rightarrow> nat \<Rightarrow> bool" where
  "plain_division B dividend divisor =
     (if divisor < 2 then True
      else if even divisor then plain_division B (HighBits dividend (length dividend - 1)) (divisor div 2)
      else plain_loop B dividend divisor (length dividend) (replicate (floor_log2 divisor + 1) Zeroes))"

declare plain_division.simps [simp del]

lemma number_update:
  assumes "i < length Q" "\<forall>j\<le>i. \<not> bits c (Q ! j) x"
  shows "number c x (Q[i := q]) = number c x Q + of_bool (bits c q x) * 2 ^ i"
proof -
  have "low c x (Q[i := q]) n = low c x Q n + (if i < n then of_bool (bits c q x) * 2 ^ i else 0)" if "n \<le> length Q" for n
    using that
  proof (induction n)
    case (Suc n)
    show ?case
    proof (cases "i = n")
      case True
      then show ?thesis using Suc assms by (simp add: low_Suc)
    next
      case False
      then show ?thesis using Suc by (auto simp: low_Suc)
    qed
  qed simp
  from this[of "length Q"] assms(1) show ?thesis by (simp add: number_def)
qed

context sound_ops
begin

lemma div_loop_sound:
  assumes "list_all good D" "0 < d" "d < 2 ^ 32"
    and "plain_loop B D d n R" "n \<le> length D" "list_all good R" "length R + n \<le> 32" "d \<le> 2 ^ length R"
    and "length Q = length D" "\<forall>j<n. \<not> bits c (Q ! j) x" "number c x R < d"
    and "number c x Q * d + number c x R * 2 ^ n = 2 ^ n * (number c x D div 2 ^ n)"
  shows "case div_loop B D d n (Q, R) of (Q', R') \<Rightarrow>
    length Q' = length D \<and> list_all good R' \<and> length R' = length R + n \<and>
    number c x R' < d \<and> number c x Q' * d + number c x R' = number c x D"
  using assms(4-)
proof (induction n arbitrary: Q R)
  case (Suc n)
  define R1 where "R1 = D ! n # R"
  define q where "q = UGE_const B R1 d"
  define R2 where "R2 = Select B q (SubModular_const B R1 d) R1"
  have n: "n < length D" using Suc.prems by simp
  have "good (D ! n)" using assms(1) n by (simp add: list_all_length)
  then have gR1: "list_all good R1" using Suc.prems by (simp add: R1_def)
  have lR1: "length R1 = Suc (length R)" "length R1 \<le> 32" using Suc.prems by (simp_all add: R1_def)
  have plain: "list_all (\<lambda>e. \<not> negation e) R1" "plain_loop B D d n R2"
    using Suc.prems(1) by (simp_all add: R1_def R2_def q_def Let_def)
  note sub = SubModular_const_sound[OF gR1 assms(3) lR1(2)]
  have q: "good q" "bits c q x \<longleftrightarrow> d \<le> number c x R1" using UGE_const_sound[OF gR1] by (simp_all add: q_def)
  have guard: "if length (SubModular_const B R1 d) < length R1 then sel_guard (R1 ! j) (SubModular_const B R1 d ! j)
      else sel_guard (SubModular_const B R1 d ! j) (R1 ! j)" if "j < length R1" for j
    using that plain(1) sub(2) by (auto simp: sel_guard_def list_all_length)
  note sel = Select_sound[OF q(1) sub(1) gR1 guard]
  have nR1: "number c x R1 = of_bool (bits c (D ! n) x) + 2 * number c x R" by (simp add: R1_def number_Cons)
  have small: "number c x R1 < 2 * d" using Suc.prems(8) nR1 by (cases "bits c (D ! n) x") auto
  have nsub: "number c x (SubModular_const B R1 d) = number c x R1 - d" if "d \<le> number c x R1"
  proof -
    have "int (number c x R1) < 2 ^ length R1"
      using number_less[of c x R1] of_nat_less_iff[where 'a = int, of "number c x R1" "2 ^ length R1"] by simp
    then have "int (number c x R1) - int d < 2 ^ length R1" by linarith
    then have "int (number c x (SubModular_const B R1 d)) = int (number c x R1 - d)"
      using that by (simp add: sub(3) of_nat_diff)
    then show ?thesis by (simp only: of_nat_eq_iff)
  qed
  have R2: "list_all good R2" "length R2 = Suc (length R)"
    "number c x R2 = (if d \<le> number c x R1 then number c x R1 - d else number c x R1)"
    using sel(1,2) sel(3)[where c = c and x = x] lR1 sub(2) q(2) nsub by (simp_all add: R2_def)
  have "number c x R2 < d" using R2(3) small by auto
  have Q2: "number c x (Q[n := q]) = number c x Q + of_bool (bits c q x) * 2 ^ n"
    using number_update[of n Q c x q] Suc.prems n by (simp add: less_Suc_eq_le)
  have "number c x D div 2 ^ n = of_bool (bits c (D ! n) x) + 2 * (number c x D div 2 ^ Suc n)"
  proof -
    have "bit (number c x D) n = bits c (D ! n) x" using n by (simp add: number_def bit_low)
    then have "odd (number c x D div 2 ^ n) = bits c (D ! n) x" by (simp add: bit_iff_odd)
    moreover have "number c x D div 2 ^ Suc n = number c x D div 2 ^ n div 2" by (simp only: power_Suc2 div_mult2_eq)
    ultimately show ?thesis by (cases "bits c (D ! n) x") (auto elim!: oddE evenE)
  qed
  then have D: "2 ^ n * (number c x D div 2 ^ n) = of_bool (bits c (D ! n) x) * 2 ^ n + number c x Q * d + number c x R * 2 ^ Suc n"
    using Suc.prems(9) by (simp add: algebra_simps)
  have step: "number c x (Q[n := q]) * d + number c x R2 * 2 ^ n = 2 ^ n * (number c x D div 2 ^ n)"
  proof (cases "d \<le> number c x R1")
    case True
    then have "number c x R2 + d = number c x R1" using R2(3) by simp
    then have "(number c x R2 + d) * 2 ^ n = (of_bool (bits c (D ! n) x) + 2 * number c x R) * 2 ^ n" using nR1 by simp
    then show ?thesis using True q(2) unfolding D Q2 by (simp add: algebra_simps)
  next
    case False
    then show ?thesis using q(2) nR1 R2(3) unfolding D Q2 by (simp add: algebra_simps)
  qed
  have "case div_loop B D d n (Q[n := q], R2) of (Q', R') \<Rightarrow>
    length Q' = length D \<and> list_all good R' \<and> length R' = length R2 + n \<and>
    number c x R' < d \<and> number c x Q' * d + number c x R' = number c x D"
    using Suc.IH[OF plain(2) _ R2(1) _ _ _ _ \<open>number c x R2 < d\<close> step] Suc.prems R2(2)
    by (auto intro: le_trans)
  then show ?case using R2(2) by (simp add: Let_def R1_def[symmetric] q_def[symmetric] R2_def[symmetric] split: prod.splits)
qed simp

lemma Div_sound:
  assumes "list_all good D" "0 < d" "d < 2 ^ 32" "floor_log2 d < length D" "length D + floor_log2 d + 1 \<le> 32" "plain_division B D d"
  shows "\<exists>Q R. Div B D d = Some (Q, R) \<and> number c x Q = number c x D div d \<and> number c x R = number c x D mod d"
  using assms
proof (induction d arbitrary: D rule: less_induct)
  case (less d)
  show ?case
  proof (cases "d = 1")
    case True
    then have "Div B D d = Some (D, [Zeroes])" by (simp add: Div.simps)
    then show ?thesis using True by (simp add: number_Cons number_def[of c x "[]"])
  next
    case d1: False
    have fl: "floor_log2 d = Suc (floor_log2 (d div 2))" using d1 less.prems(2) by (simp add: floor_log2.simps[of d])
    show ?thesis
    proof (cases "even d")
      case True
      define H where "H = HighBits D (length D - 1)"
      have H: "list_all good H" "length H = length D - 1" "number c x H = number c x D div 2"
        using HighBits_sound[OF less.prems(1), of "length D - 1"] less.prems(4) by (simp_all add: H_def)
      have d2: "d div 2 < d" "0 < d div 2" "d div 2 < 2 ^ 32" using True d1 less.prems(2,3) by auto
      have lens: "floor_log2 (d div 2) < length H" "length H + floor_log2 (d div 2) + 1 \<le> 32"
        using H(2) fl less.prems(4,5) by simp_all
      have plain: "plain_division B H (d div 2)"
        using less.prems(6) True d1 less.prems(2) by (simp add: plain_division.simps[of B D d] H_def split: if_splits)
      obtain Q R where IH: "Div B H (d div 2) = Some (Q, R)" "number c x Q = number c x H div (d div 2)" "number c x R = number c x H mod (d div 2)"
        using less.IH[OF d2(1) H(1) d2(2,3) lens plain] by blast
      have b: "of_bool (bits c (D ! 0) x) = number c x D mod 2"
        using less.prems(4) bit_low[of c x D "length D" 0] by (cases "bits c (D ! 0) x") (auto simp: number_def bit_0 odd_iff_mod_2_eq_one)
      have "d = 2 * (d div 2)" using True by simp
      then have "number c x Q = number c x D div d" "number c x (D ! 0 # R) = number c x D mod d"
        using IH H(3) b by (metis div_mult2_eq) (metis IH(3) H(3) \<open>d = _\<close> add.commute b mod_mult2_eq number_Cons)
      moreover have "Div B D d = Some (Q, D ! 0 # R)"
        using IH(1) True d1 less.prems(2,4) fl by (simp add: Div.simps[of B D d] H_def)
      ultimately show ?thesis by blast
    next
      case False
      define Q0 where "Q0 = replicate (length D) Zeroes"
      define R0 where "R0 = replicate (floor_log2 d + 1) Zeroes"
      have "number c x (replicate m Zeroes) = 0" for m by (simp add: number_def low_def)
      then have zero: "number c x Q0 = 0" "number c x R0 = 0" unfolding Q0_def R0_def by blast+
      have plain: "plain_loop B D d (length D) R0"
        using less.prems(6) d1 False less.prems(2) by (simp add: plain_division.simps[of B D d] R0_def split: if_splits)
      have good0: "list_all good R0" unfolding R0_def list_all_iff using constants by (auto dest: in_set_replicate[THEN iffD1])
      have d: "d \<le> 2 ^ length R0" "d < 2 ^ (floor_log2 d + 1)" using floor_log2_bounds[OF less.prems(2)] by (simp_all add: R0_def)
      have init: "number c x Q0 * d + number c x R0 * 2 ^ length D = 2 ^ length D * (number c x D div 2 ^ length D)"
        using zero number_less[of c x D] by simp
      have len: "length R0 + length D \<le> 32" "length Q0 = length D" using less.prems(5) by (simp_all add: R0_def Q0_def)
      have Q0: "\<forall>j<length D. \<not> bits c (Q0 ! j) x" by (simp add: Q0_def)
      have "0 < d" "number c x R0 < d" using zero less.prems(2) by simp_all
      obtain Q R where f: "div_loop B D d (length D) (Q0, R0) = (Q, R)" by fastforce
      note loop = div_loop_sound[OF less.prems(1-3) plain order_refl good0 len(1) d(1) len(2) Q0 \<open>number c x R0 < d\<close> init, unfolded f prod.case]
      have "number c x R < 2 ^ (floor_log2 d + 1)" using loop d(2) by linarith
      then have "number c x (Truncate R (floor_log2 d + 1)) = number c x R"
        using Truncate_sound(3)[of R "floor_log2 d + 1" c x] loop by (simp add: R0_def)
      moreover have "number c x Q = number c x D div d \<and> number c x R = number c x D mod d"
      proof -
        have "number c x D = number c x R + number c x Q * d" "number c x R < d" using loop by simp_all
        then show ?thesis using less.prems(2) by simp
      qed
      ultimately show ?thesis
        using f d1 False less.prems(2,4) by (simp add: Div.simps[of B D d] Q0_def R0_def)
    qed
  qed
qed

end

end
