(* ===== verification/CC_Compile.thy ===== *)
theory CC_Compile imports Pablo_Sound USet_Intervals begin

text \<open>
  \<open>Parabix_CC_Compiler\<close> of \<open>lib/re/cc/cc_compiler.cpp\<close>: the circuit that tells, from the bits of
  a code unit, whether it is in a character class. The template argument \<open>PabloBlockOrBuilder\<close> is
  the record of operations \<open>pablo_ops\<close>. A fatal error is \<open>None\<close>.
\<close>

section \<open>Patterns of bits\<close>

record cc_compiler =
  mEncodingBits :: nat
  mBasisBit :: "pablo list"
  mEncodingMask :: nat

definition Parabix_CC_Compiler :: "pablo list \<Rightarrow> cc_compiler" where
  "Parabix_CC_Compiler basis =
     \<lparr>mEncodingBits = length basis, mBasisBit = basis, mEncodingMask = push_bit (length basis) 1 - 1\<rparr>"

definition getBasisVar :: "cc_compiler \<Rightarrow> nat \<Rightarrow> pablo" where
  "getBasisVar self i = (if mEncodingBits self \<le> i then Zeroes else mBasisBit self ! i)"

text \<open>The terms from bit \<open>i\<close> on; \<open>selected\<close> is \<open>selected_bits >> i\<close>.\<close>

fun pattern_terms :: "pablo_ops \<Rightarrow> cc_compiler \<Rightarrow> nat \<Rightarrow> nat \<Rightarrow> nat \<Rightarrow> pablo list" where
  "pattern_terms B self pattern i selected =
     (if selected = 0 then []
      else (if odd selected
            then (let term = getBasisVar self i in if \<not> bit pattern i then mkNot B term else term)
            else Ones) # pattern_terms B self pattern (i + 1) (selected div 2))"

declare pattern_terms.simps [simp del]

fun and_pairs :: "pablo_ops \<Rightarrow> pablo list \<Rightarrow> pablo list" where
  "and_pairs B (s # t # terms) = mkAnd B s t # and_pairs B terms"
| "and_pairs B [t] = [t]"
| "and_pairs B [] = []"

lemma length_and_pairs: "length (and_pairs B terms) = (length terms + 1) div 2"
  by (induction B terms rule: and_pairs.induct) auto

function and_all :: "pablo_ops \<Rightarrow> pablo list \<Rightarrow> pablo list" where
  "and_all B terms = (if 1 < length terms then and_all B (and_pairs B terms) else terms)"
  by pat_completeness auto

termination
  by (relation "measure (\<lambda>(B, terms). length terms)") (auto simp: length_and_pairs)

declare and_all.simps [simp del]

definition bit_pattern_expr :: "pablo_ops \<Rightarrow> cc_compiler \<Rightarrow> nat \<Rightarrow> nat \<Rightarrow> pablo" where
  "bit_pattern_expr B self pattern selected =
     (if selected = 0 then Ones else hd (and_all B (pattern_terms B self pattern 0 selected)))"

definition char_test_expr :: "pablo_ops \<Rightarrow> cc_compiler \<Rightarrow> codepoint \<Rightarrow> pablo" where
  "char_test_expr B self ch = bit_pattern_expr B self ch (mEncodingMask self)"

section \<open>Ranges\<close>

text \<open>The last branch of the program, an exception, cannot be reached: its condition is \<open>N \<ge> 1\<close>.\<close>

function GE_Range :: "pablo_ops \<Rightarrow> cc_compiler \<Rightarrow> nat \<Rightarrow> nat \<Rightarrow> pablo" where
  "GE_Range B self N n =
     (if N = 0 then Ones
      else if N mod 2 = 0 \<and> drop_bit (N - 2) n = 0 then
        mkOr3 B (getBasisVar self (N - 1)) (getBasisVar self (N - 2)) (GE_Range B self (N - 2) n)
      else if N mod 2 = 0 \<and> drop_bit (N - 2) n = 3 then
        mkAnd3 B (getBasisVar self (N - 1)) (getBasisVar self (N - 2)) (GE_Range B self (N - 2) (n - push_bit (N - 2) 3))
      else let hi_bit = n AND push_bit (N - 1) 1; lo_bits = n - hi_bit; lo_range = GE_Range B self (N - 1) lo_bits in
        if hi_bit = 0 then mkOr B (getBasisVar self (N - 1)) lo_range
        else mkAnd B (getBasisVar self (N - 1)) lo_range)"
  by pat_completeness auto

termination
  by (relation "measure (\<lambda>(B, self, N, n). N)") auto

declare GE_Range.simps [simp del]

definition LE_Range :: "pablo_ops \<Rightarrow> cc_compiler \<Rightarrow> nat \<Rightarrow> nat \<Rightarrow> pablo" where
  "LE_Range B self N n = (if n + 1 = push_bit N 1 then Ones else mkNot B (GE_Range B self N (n + 1)))"

text \<open>The count of the loop \<open>for (diff_bits = n1 ^ n2; diff_bits; diff_count++, diff_bits >>= 1)\<close>.\<close>

fun diff_count :: "nat \<Rightarrow> nat" where
  "diff_count diff_bits = (if diff_bits = 0 then 0 else Suc (diff_count (diff_bits div 2)))"

declare diff_count.simps [simp del]

definition clear_bits :: "nat \<Rightarrow> nat \<Rightarrow> nat" where
  "clear_bits n m = n XOR (n AND m)"

definition make_range :: "pablo_ops \<Rightarrow> cc_compiler \<Rightarrow> codepoint \<Rightarrow> codepoint \<Rightarrow> pablo option" where
  "make_range B self n1 n2 =
     (let diff = diff_count (n1 XOR n2) in
      if n2 < n1 \<or> mEncodingBits self < diff then None
      else let mask0 = push_bit diff 1 - 1;
               common = bit_pattern_expr B self (clear_bits n1 mask0) (mEncodingMask self XOR mask0)
        in if diff = 0 then Some common
           else let mask1 = push_bit (diff - 1) 1 - 1;
                    lo_test = GE_Range B self (diff - 1) (n1 AND mask1);
                    hi_test = LE_Range B self (diff - 1) (n2 AND mask1)
             in Some (mkAnd B common (mkSel B (getBasisVar self (diff - 1)) hi_test lo_test)))"

definition char_or_range_expr :: "pablo_ops \<Rightarrow> cc_compiler \<Rightarrow> codepoint \<Rightarrow> codepoint \<Rightarrow> pablo option" where
  "char_or_range_expr B self lo hi =
     (if lo = hi then Some (char_test_expr B self lo) else if lo < hi then make_range B self lo hi else None)"

section \<open>Character classes\<close>

text \<open>Every second code point of an interval.\<close>

fun steps_of_two :: "interval list \<Rightarrow> bool" where
  "steps_of_two (i # j # rest) = (fst i + 2 = fst j \<and> steps_of_two (j # rest))"
| "steps_of_two _ = True"

fun or_intervals :: "pablo_ops \<Rightarrow> cc_compiler \<Rightarrow> pablo option \<Rightarrow> interval list \<Rightarrow> pablo option" where
  "or_intervals B self e [] = e"
| "or_intervals B self e (i # rest) =
     (case char_or_range_expr B self (fst i) (snd i) of
        None \<Rightarrow> None
      | Some temp \<Rightarrow> or_intervals B self (Some (case e of None \<Rightarrow> temp | Some e1 \<Rightarrow> mkOr B e1 temp)) rest)"

definition even_odd_expr :: "pablo_ops \<Rightarrow> cc_compiler \<Rightarrow> codepoint \<Rightarrow> codepoint \<Rightarrow> pablo option" where
  "even_odd_expr B self lo hi =
     (let mask = mEncodingMask self;
          even_odd = (if lo AND 1 = 0 then mkNot B (getBasisVar self 0) else getBasisVar self 0)
      in case make_range B self (lo AND (mask - 1)) (hi OR (mask XOR (mask - 1))) of
           None \<Rightarrow> None
         | Some e \<Rightarrow> Some (mkAnd B e even_odd))"

definition charset_expr :: "pablo_ops \<Rightarrow> cc_compiler \<Rightarrow> unicode_set \<Rightarrow> pablo option" where
  "charset_expr B self cc =
     (let ivs = intervals cc in
      if is_empty cc then Some Zeroes
      else if 2 < uset_size cc \<and> (\<forall>i \<in> set ivs. fst i = snd i) \<and> steps_of_two ivs then
        even_odd_expr B self (fst (hd ivs)) (fst (last ivs))
      else case or_intervals B self None ivs of None \<Rightarrow> None | Some e \<Rightarrow> Some (mkInFile B e))"

end
