(* ===== verification/CC_Sound.thy ===== *)
theory CC_Sound imports CC_Compile BixNum_Sound begin

text \<open>
  The circuit of a character class is set exactly at the positions, up to the end of the file, whose
  code unit is a member. The code unit at a position is the number that the basis bits make there.
\<close>

lemma drop_eq_bits: "drop_bit d (a :: nat) = drop_bit d b \<longleftrightarrow> (\<forall>j\<ge>d. bit a j = bit b j)"
proof
  assume a: "drop_bit d a = drop_bit d b"
  show "\<forall>j\<ge>d. bit a j = bit b j"
  proof (intro allI impI)
    fix j assume "d \<le> j"
    then have "bit (drop_bit d a) (j - d) = bit a j" "bit (drop_bit d b) (j - d) = bit b j" by (simp_all add: bit_drop_bit_eq)
    with a show "bit a j = bit b j" by simp
  qed
next
  assume "\<forall>j\<ge>d. bit a j = bit b j"
  then show "drop_bit d a = drop_bit d b" by (intro bit_eqI) (simp add: bit_drop_bit_eq)
qed

lemma drop_take: "2 ^ d * drop_bit d n + take_bit d n = (n :: nat)"
  using bits_ident[of d n] by (simp add: push_bit_eq_mult mult.commute)

lemma take_Suc: "take_bit (Suc d) (n :: nat) = take_bit d n + (if bit n d then 2 ^ d else 0)"
  by (simp add: take_bit_Suc_from_most)

lemma bit_2_exp_1: "bit (2 ^ n - 1 :: nat) j \<longleftrightarrow> j < n" "bit (2 ^ n - Suc 0) j \<longleftrightarrow> j < n"
  using bit_mask_iff[where 'a = nat, of n j] by (simp_all add: mask_eq_exp_minus_1)

lemma diff_count: "n < 2 ^ diff_count n \<and> (n \<noteq> 0 \<longrightarrow> diff_count n \<noteq> 0 \<and> bit n (diff_count n - 1))"
proof (induction n rule: diff_count.induct)
  case (1 n)
  show ?case
  proof (cases "n = 0")
    case False
    with 1 have IH: "n div 2 < 2 ^ diff_count (n div 2)" "n div 2 \<noteq> 0 \<longrightarrow> bit (n div 2) (diff_count (n div 2) - 1) \<and> diff_count (n div 2) \<noteq> 0" by auto
    have "bit n (diff_count (n div 2))"
    proof (cases "n div 2 = 0")
      case True
      then have "n = 1" using False by linarith
      then show ?thesis by (simp add: diff_count.simps[of 0] bit_0)
    next
      case ne: False
      then obtain k where "diff_count (n div 2) = Suc k" using IH(2) by (cases "diff_count (n div 2)") auto
      then show ?thesis using IH(2) ne by (simp add: bit_Suc)
    qed
    moreover have "n < 2 * 2 ^ diff_count (n div 2)" using IH(1) by linarith
    ultimately show ?thesis using False by (simp add: diff_count.simps[of n])
  qed (simp add: diff_count.simps[of n])
qed

lemma diff_count_le:
  assumes "m < 2 ^ k" "n < 2 ^ k"
  shows "diff_count (m XOR n) \<le> k"
proof (rule ccontr)
  define d where "d = diff_count (m XOR n)"
  assume "\<not> diff_count (m XOR n) \<le> k"
  then have "0 < d" "k \<le> d - 1" by (auto simp: d_def)
  then have "bit (m XOR n) (d - 1)" using diff_count[of "m XOR n"] by (metis d_def diff_count.simps less_irrefl)
  moreover have "\<not> bit m (d - 1)" "\<not> bit n (d - 1)"
    using assms \<open>k \<le> d - 1\<close> by (metis bit_take_bit_iff not_le take_bit_nat_eq_self)+
  ultimately show False by (simp add: bit_xor_iff)
qed

lemma three_quarters:
  "v < q \<Longrightarrow> w < q \<Longrightarrow> n = 3 * q + w \<Longrightarrow>
   n \<le> v + (if s then q else 0) + (if t then 2 * q else 0) \<longleftrightarrow> t \<and> s \<and> w \<le> (v :: nat)"
  by (cases s; cases t) auto

lemma one_half:
  "v < q \<Longrightarrow> w < q \<Longrightarrow> n = w + (if t then q else 0) \<Longrightarrow>
   n \<le> v + (if s then q else 0) \<longleftrightarrow> (if t then s \<and> w \<le> v else s \<or> w \<le> (v :: nat))"
  by (cases s; cases t) auto

lemma top_bit_between:
  "a < q \<Longrightarrow> b < q \<Longrightarrow> v < q \<Longrightarrow> n1 = H + a \<Longrightarrow> n2 = H + b + q \<Longrightarrow> u = H + v + (if s then q else 0) \<Longrightarrow>
   n1 \<le> u \<and> u \<le> n2 \<longleftrightarrow> (if s then v \<le> b else a \<le> (v :: nat))"
  by (cases s) auto

lemma interval_bounds:
  fixes n1 n2 u :: nat
  defines "d \<equiv> diff_count (n1 XOR n2)"
  assumes "n1 \<le> n2"
  shows "drop_bit d n1 = drop_bit d n2"
    and "d = 0 \<Longrightarrow> n1 = n2"
    and "0 < d \<Longrightarrow> n1 \<le> u \<and> u \<le> n2 \<longleftrightarrow> drop_bit d u = drop_bit d n1 \<and>
      (if bit u (d - 1) then take_bit (d - 1) u \<le> take_bit (d - 1) n2 else take_bit (d - 1) n1 \<le> take_bit (d - 1) u)"
proof -
  have less: "n1 XOR n2 < 2 ^ d" using diff_count by (simp add: d_def)
  have "bit n1 j = bit n2 j" if "d \<le> j" for j
  proof -
    have "take_bit d (n1 XOR n2) = n1 XOR n2" by (rule take_bit_nat_eq_self[OF less])
    then have "\<not> bit (n1 XOR n2) j" using that by (metis bit_take_bit_iff not_le)
    then show ?thesis by (simp add: bit_xor_iff)
  qed
  then show H: "drop_bit d n1 = drop_bit d n2" by (simp add: drop_eq_bits)
  show "d = 0 \<Longrightarrow> n1 = n2" using H by simp
  assume "0 < d"
  then obtain k where d: "d = Suc k" by (cases d) auto
  have "n1 XOR n2 \<noteq> 0" using \<open>0 < d\<close> by (metis d_def diff_count.simps less_irrefl)
  then have k: "bit n1 k \<noteq> bit n2 k" using diff_count[of "n1 XOR n2"] d d_def by (auto simp: bit_xor_iff)
  have lt: "take_bit k n1 < 2 ^ k" "take_bit k n2 < 2 ^ k" "take_bit k u < 2 ^ k" by simp_all
  have e1: "n1 = 2 ^ d * drop_bit d n1 + take_bit k n1 + (if bit n1 k then 2 ^ k else 0)"
    using drop_take[of d n1] by (simp add: d take_Suc)
  have e2: "n2 = 2 ^ d * drop_bit d n1 + take_bit k n2 + (if bit n2 k then 2 ^ k else 0)"
    using drop_take[of d n2] H by (simp add: d take_Suc)
  have eu: "u = 2 ^ d * drop_bit d u + take_bit k u + (if bit u k then 2 ^ k else 0)"
    using drop_take[of d u] by (simp add: d take_Suc)
  have top: "\<not> bit n1 k \<and> bit n2 k" using k assms(2) e1 e2 lt by (cases "bit n1 k"; cases "bit n2 k") auto
  show "n1 \<le> u \<and> u \<le> n2 \<longleftrightarrow> drop_bit d u = drop_bit d n1 \<and>
      (if bit u (d - 1) then take_bit (d - 1) u \<le> take_bit (d - 1) n2 else take_bit (d - 1) n1 \<le> take_bit (d - 1) u)"
  proof (cases "drop_bit d u = drop_bit d n1")
    case True
    define H where "H = 2 ^ d * drop_bit d n1"
    have "n1 = H + take_bit k n1" "n2 = H + take_bit k n2 + 2 ^ k" "u = H + take_bit k u + (if bit u k then 2 ^ k else 0)"
      using e1 e2 eu top True by (simp_all add: H_def)
    note top_bit_between[OF lt(1) lt(2) lt(3) this]
    with True show ?thesis by (simp add: d)
  next
    case False
    have "drop_bit d n1 \<le> drop_bit d u" if "n1 \<le> u" using that by (simp add: drop_bit_eq_div div_le_mono)
    moreover have "drop_bit d u \<le> drop_bit d n1" if "u \<le> n2" using that H by (simp add: drop_bit_eq_div div_le_mono)
    ultimately show ?thesis using False by auto
  qed
qed

text \<open>The basis bits are streams that come from outside.\<close>

definition compiler_ok :: "cc_compiler \<Rightarrow> bool" where
  "compiler_ok self \<longleftrightarrow> self = Parabix_CC_Compiler (mBasisBit self) \<and> list_all leaf (mBasisBit self)"

context sound_ops
begin

lemma compiler_okD:
  assumes "compiler_ok self"
  shows "mEncodingBits self = length (mBasisBit self)" "mEncodingMask self = 2 ^ length (mBasisBit self) - 1"
    and "i < length (mBasisBit self) \<Longrightarrow> leaf (getBasisVar self i)"
proof -
  have self: "self = Parabix_CC_Compiler (mBasisBit self)" "list_all leaf (mBasisBit self)"
    using assms by (simp_all add: compiler_ok_def)
  show bits: "mEncodingBits self = length (mBasisBit self)" by (subst self(1)) (simp add: Parabix_CC_Compiler_def)
  show "mEncodingMask self = 2 ^ length (mBasisBit self) - 1"
    by (subst self(1)) (simp add: Parabix_CC_Compiler_def push_bit_eq_mult)
  show "i < length (mBasisBit self) \<Longrightarrow> leaf (getBasisVar self i)"
    using self(2) bits by (simp add: getBasisVar_def list_all_length)
qed

lemma basis_good: "compiler_ok self \<Longrightarrow> good (getBasisVar self i)"
  using operands_good(3) constants compiler_okD(1,3) by (cases "i < length (mBasisBit self)") (auto simp: getBasisVar_def)

lemma basis_bit: "compiler_ok self \<Longrightarrow> bits c (getBasisVar self i) x \<longleftrightarrow> bit (number c x (mBasisBit self)) i"
  using compiler_okD(1) by (auto simp: getBasisVar_def number_def bit_low)

lemmas basis = basis_good basis_bit

section \<open>Patterns\<close>

lemma pattern_terms_sound:
  assumes "compiler_ok self"
  shows "list_all good (pattern_terms B self pattern i selected) \<and> (pattern_terms B self pattern i selected = [] \<longleftrightarrow> selected = 0) \<and>
    (list_all (\<lambda>t. bits c t x) (pattern_terms B self pattern i selected) \<longleftrightarrow>
     (\<forall>j. bit selected j \<longrightarrow> bit (number c x (mBasisBit self)) (i + j) = bit pattern (i + j)))"
proof (induction selected arbitrary: i rule: less_induct)
  case (less selected)
  show ?case
  proof (cases "selected = 0")
    case False
    have IH: "list_all good (pattern_terms B self pattern (i + 1) (selected div 2))"
      "list_all (\<lambda>t. bits c t x) (pattern_terms B self pattern (i + 1) (selected div 2)) \<longleftrightarrow>
       (\<forall>j. bit (selected div 2) j \<longrightarrow> bit (number c x (mBasisBit self)) (i + 1 + j) = bit pattern (i + 1 + j))"
      using less[of "selected div 2" "i + 1"] False by auto
    have split: "(\<forall>j. bit selected j \<longrightarrow> P (i + j)) \<longleftrightarrow> (odd selected \<longrightarrow> P i) \<and> (\<forall>j. bit (selected div 2) j \<longrightarrow> P (i + 1 + j))" for P
    proof -
      have "(\<forall>j. bit selected j \<longrightarrow> P (i + j)) \<longleftrightarrow> (bit selected 0 \<longrightarrow> P (i + 0)) \<and> (\<forall>j. bit selected (Suc j) \<longrightarrow> P (i + Suc j))"
        by (metis not0_implies_Suc)
      then show ?thesis by (simp add: bit_0 bit_Suc)
    qed
    show ?thesis
      unfolding split[of "\<lambda>m. bit (number c x (mBasisBit self)) m = bit pattern m"] pattern_terms.simps[of B self pattern i selected]
      using False IH basis[OF assms] by (auto simp: Let_def goods meanings constants)
  qed (simp add: pattern_terms.simps[of B self pattern i 0])
qed

lemma and_pairs_sound:
  "list_all good terms \<Longrightarrow> list_all good (and_pairs B terms) \<and> (list_all (\<lambda>t. bits c t x) (and_pairs B terms) \<longleftrightarrow> list_all (\<lambda>t. bits c t x) terms)"
  by (induction terms rule: induct_list012) (auto simp: goods meanings)

lemma and_all_sound:
  assumes "terms \<noteq> []" "list_all good terms"
  shows "good (hd (and_all B terms)) \<and> (bits c (hd (and_all B terms)) x \<longleftrightarrow> list_all (\<lambda>t. bits c t x) terms)"
  using assms
proof (induction "length terms" arbitrary: terms rule: less_induct)
  case less
  show ?case
  proof (cases "1 < length terms")
    case True
    have "length (and_pairs B terms) < length terms" "and_pairs B terms \<noteq> []"
      using True length_and_pairs[of B terms] by (auto simp flip: length_greater_0_conv)
    from less.hyps[OF this] show ?thesis
      using True and_pairs_sound[OF less.prems(2), of c x] by (simp add: and_all.simps[of B terms])
  next
    case False
    then obtain t where "terms = [t]" using less.prems(1) by (cases terms; cases "tl terms") auto
    then show ?thesis using less.prems(2) by (simp add: and_all.simps[of B "[t]"])
  qed
qed

lemma bit_pattern_sound:
  assumes "compiler_ok self"
  shows "good (bit_pattern_expr B self pattern selected)"
    and "bits c (bit_pattern_expr B self pattern selected) x \<longleftrightarrow>
         (\<forall>j. bit selected j \<longrightarrow> bit (number c x (mBasisBit self)) j = bit pattern j)"
  using pattern_terms_sound[OF assms, of pattern 0 selected c x] and_all_sound[of "pattern_terms B self pattern 0 selected" c x]
    constants by (auto simp: bit_pattern_expr_def)

lemma char_test_sound:
  assumes "compiler_ok self" "ch < 2 ^ length (mBasisBit self)"
  shows "good (char_test_expr B self ch)" "bits c (char_test_expr B self ch) x \<longleftrightarrow> number c x (mBasisBit self) = ch"
proof -
  show "good (char_test_expr B self ch)" using bit_pattern_sound(1)[OF assms(1)] by (simp add: char_test_expr_def)
  show "bits c (char_test_expr B self ch) x \<longleftrightarrow> number c x (mBasisBit self) = ch"
    using bit_pattern_sound(2)[OF assms(1)] compiler_okD(2)[OF assms(1)] assms(2)
    by (auto simp: char_test_expr_def bit_2_exp_1 number_def low_eq_iff bit_low)
qed

section \<open>Ranges\<close>

lemma GE_Range_sound:
  assumes "compiler_ok self"
  shows "n < 2 ^ N \<Longrightarrow> good (GE_Range B self N n) \<and>
    (bits c (GE_Range B self N n) x \<longleftrightarrow> n \<le> take_bit N (number c x (mBasisBit self)))"
proof (induction N arbitrary: n rule: less_induct)
  case (less N)
  note ge = GE_Range.simps[of B self N n] and bas = basis[OF assms]
  let ?u = "number c x (mBasisBit self)"
  consider "N = 0" | M where "N = Suc (Suc M)" "even N" "drop_bit M n = 0" | M where "N = Suc (Suc M)" "even N" "drop_bit M n = 3"
    | M where "N = Suc M" "\<not> (even N \<and> (drop_bit (N - 2) n = 0 \<or> drop_bit (N - 2) n = 3))"
    by (cases N; cases "N - 1") auto
  then show ?case
  proof cases
    case 1
    then show ?thesis unfolding ge using less.prems constants by simp
  next
    case (2 M)
    then have n: "n < 2 ^ M" by (simp add: drop_bit_eq_div div_eq_0_iff)
    with less.IH[of M n] 2 have IH: "good (GE_Range B self M n)" "bits c (GE_Range B self M n) x \<longleftrightarrow> n \<le> take_bit M ?u" by simp_all
    have "take_bit M ?u < 2 ^ M" by simp
    then show ?thesis using 2 n IH bas unfolding ge by (auto simp: goods meanings take_Suc)
  next
    case (3 M)
    then have n: "n = 3 * 2 ^ M + take_bit M n" using drop_take[of M n] by simp
    then have "n - push_bit M 3 = take_bit M n" by (simp add: push_bit_eq_mult)
    with less.IH[of M "take_bit M n"] 3 have IH: "good (GE_Range B self M (n - push_bit M 3))"
      "bits c (GE_Range B self M (n - push_bit M 3)) x \<longleftrightarrow> take_bit M n \<le> take_bit M ?u" by simp_all
    have lt: "take_bit M ?u < 2 ^ M" "take_bit M n < 2 ^ M" by simp_all
    have "n \<le> take_bit N ?u \<longleftrightarrow> bit ?u (Suc M) \<and> bit ?u M \<and> take_bit M n \<le> take_bit M ?u"
      unfolding 3(1) take_Suc power_Suc three_quarters[OF lt n] ..
    moreover have "drop_bit M n \<noteq> 0" using 3 by simp
    ultimately show ?thesis using 3 IH bas unfolding ge by (simp add: goods meanings)
  next
    case (4 M)
    have hi: "n AND push_bit M 1 = (if bit n M then 2 ^ M else 0)"
      by (rule bit_eqI) (auto simp: bit_simps)
    have n: "n = take_bit M n + (if bit n M then 2 ^ M else 0)"
      using take_bit_nat_eq_self[OF less.prems] 4(1) by (metis take_Suc)
    then have lo: "n - (n AND push_bit M 1) = take_bit M n" unfolding hi by (cases "bit n M") simp_all
    from less.IH[of M "take_bit M n"] 4(1) have IH: "good (GE_Range B self M (take_bit M n))"
      "bits c (GE_Range B self M (take_bit M n)) x \<longleftrightarrow> take_bit M n \<le> take_bit M ?u" by simp_all
    have lt: "take_bit M ?u < 2 ^ M" "take_bit M n < 2 ^ M" by simp_all
    have le: "n \<le> take_bit N ?u \<longleftrightarrow> (if bit n M then bit ?u M \<and> take_bit M n \<le> take_bit M ?u else bit ?u M \<or> take_bit M n \<le> take_bit M ?u)"
      using one_half[OF lt n] 4(1) by (simp add: take_Suc)
    have c1: "\<not> (N mod 2 = 0 \<and> drop_bit (N - 2) n = 0)" "\<not> (N mod 2 = 0 \<and> drop_bit (N - 2) n = 3)"
      using 4(2) unfolding even_iff_mod_2_eq_zero by (rule contrapos_nn; blast)+
    show ?thesis
      unfolding ge if_not_P[OF c1(1)] if_not_P[OF c1(2)] using 4(1) IH bas le hi lo
      by (cases "bit n M") (simp_all add: Let_def goods meanings)
  qed
qed

lemma GE_Range_plain:
  assumes "compiler_ok self"
  shows "N \<le> length (mBasisBit self) \<Longrightarrow> plain (GE_Range B self N n)"
proof (induction N arbitrary: n rule: less_induct)
  case (less N)
  note ge = GE_Range.simps[of B self N n]
  show ?case
  proof (cases "N = 0")
    case False
    then have leaf: "leaf (getBasisVar self (N - 1))" using compiler_okD(3)[OF assms] less.prems by simp
    have IH1: "\<not> negation (GE_Range B self (N - 1) m)" for m using less.IH[of "N - 1" m] less.prems False plain_negation by simp
    have even: "\<not> negation (GE_Range B self (N - 2) m) \<and> \<not> negation (getBasisVar self (N - 2))" if "N mod 2 = 0" for m
      using less.IH[of "N - 2" m] less.prems False that plain_negation leaf_plain compiler_okD(3)[OF assms, of "N - 2"] by simp
    show ?thesis
      unfolding ge using False leaf IH1 even plain_law[of "getBasisVar self (N - 1)"] plain3_law[of "getBasisVar self (N - 1)"]
      by (simp add: Let_def)
  next
    case True
    then show ?thesis unfolding ge by simp
  qed
qed

lemma LE_Range_sound:
  assumes "compiler_ok self" "n < 2 ^ N"
  shows "good (LE_Range B self N n)" "bits c (LE_Range B self N n) x \<longleftrightarrow> take_bit N (number c x (mBasisBit self)) \<le> n"
proof -
  have "n + 1 \<noteq> push_bit N 1 \<Longrightarrow> n + 1 < 2 ^ N" using assms(2) by (simp add: push_bit_eq_mult)
  note ge = GE_Range_sound[OF assms(1) this, of c x]
  have "take_bit N (number c x (mBasisBit self)) < 2 ^ N" by simp
  with ge show "good (LE_Range B self N n)" "bits c (LE_Range B self N n) x \<longleftrightarrow> take_bit N (number c x (mBasisBit self)) \<le> n"
    using constants by (auto simp: LE_Range_def goods meanings push_bit_eq_mult simp del: take_bit_nat_less_exp)
qed

lemma make_range_sound:
  assumes "compiler_ok self" "n1 \<le> n2" "n2 < 2 ^ length (mBasisBit self)"
  shows "\<exists>e. make_range B self n1 n2 = Some e \<and> good e \<and>
    (\<forall>c x. bits c e x \<longleftrightarrow> n1 \<le> number c x (mBasisBit self) \<and> number c x (mBasisBit self) \<le> n2)"
proof -
  let ?len = "length (mBasisBit self)"
  define d where "d = diff_count (n1 XOR n2)"
  have mask: "mEncodingMask self = 2 ^ ?len - 1" "mEncodingBits self = ?len" using compiler_okD(1,2)[OF assms(1)] by simp_all
  have small: "n1 < 2 ^ ?len" using assms(2,3) by simp
  have "d \<le> ?len" using diff_count_le[OF small assms(3)] by (simp add: d_def)
  define common where "common = bit_pattern_expr B self (clear_bits n1 (push_bit d 1 - 1)) (mEncodingMask self XOR (push_bit d 1 - 1))"
  have common: "good common" "bits c common x \<longleftrightarrow> drop_bit d (number c x (mBasisBit self)) = drop_bit d n1" for c x
  proof -
    show "good common" using bit_pattern_sound(1)[OF assms(1)] by (simp add: common_def)
    have "bits c common x \<longleftrightarrow> (\<forall>j. d \<le> j \<and> j < ?len \<longrightarrow> bit (number c x (mBasisBit self)) j = bit n1 j)"
      using bit_pattern_sound(2)[OF assms(1)] \<open>d \<le> ?len\<close>
      by (auto simp: common_def mask clear_bits_def push_bit_eq_mult bit_xor_iff bit_and_iff bit_2_exp_1)
    also have "\<dots> \<longleftrightarrow> (\<forall>j\<ge>d. bit (number c x (mBasisBit self)) j = bit n1 j)"
      using small by (metis bit_take_bit_iff not_le take_bit_nat_eq_self number_less)
    finally show "bits c common x \<longleftrightarrow> drop_bit d (number c x (mBasisBit self)) = drop_bit d n1" by (simp add: drop_eq_bits)
  qed
  note bounds = interval_bounds[OF assms(2), folded d_def]
  show ?thesis
  proof (cases "d = 0")
    case True
    then have "make_range B self n1 n2 = Some common"
      using assms(2) by (simp add: make_range_def d_def[symmetric] common_def Let_def)
    moreover have "n1 = n2" using bounds(2) True by simp
    ultimately show ?thesis using common True by auto
  next
    case False
    define lo_test where "lo_test = GE_Range B self (d - 1) (n1 AND (push_bit (d - 1) 1 - 1))"
    define hi_test where "hi_test = LE_Range B self (d - 1) (n2 AND (push_bit (d - 1) 1 - 1))"
    have low: "n AND (push_bit (d - 1) 1 - 1) = take_bit (d - 1) n" for n :: nat
      by (simp add: push_bit_eq_mult take_bit_eq_mask mask_eq_exp_minus_1)
    have lo: "good lo_test" "bits c lo_test x \<longleftrightarrow> take_bit (d - 1) n1 \<le> take_bit (d - 1) (number c x (mBasisBit self))" for c x
      using GE_Range_sound[OF assms(1), of "take_bit (d - 1) n1" "d - 1"] unfolding lo_test_def low by simp_all
    have hi: "good hi_test" "bits c hi_test x \<longleftrightarrow> take_bit (d - 1) (number c x (mBasisBit self)) \<le> take_bit (d - 1) n2" for c x
      using LE_Range_sound[OF assms(1), of "take_bit (d - 1) n2" "d - 1"] unfolding hi_test_def low by simp_all
    have "plain lo_test" using GE_Range_plain[OF assms(1)] \<open>d \<le> ?len\<close> by (simp add: lo_test_def)
    then have guard: "sel_guard hi_test lo_test" using plain_negation by (simp add: sel_guard_def)
    have eq: "make_range B self n1 n2 = Some (mkAnd B common (mkSel B (getBasisVar self (d - 1)) hi_test lo_test))"
      using False assms(2) \<open>d \<le> ?len\<close> mask(2)
      by (simp add: make_range_def d_def[symmetric] Let_def common_def lo_test_def hi_test_def)
    show ?thesis
      unfolding eq using False guard common lo hi basis[OF assms(1)] bounds(3)
      by (auto simp: goods meanings)
  qed
qed

section \<open>Character classes\<close>

lemma char_or_range_sound:
  assumes "compiler_ok self" "lo \<le> hi" "hi < 2 ^ length (mBasisBit self)"
  shows "\<exists>e. char_or_range_expr B self lo hi = Some e \<and> good e \<and>
    (\<forall>c x. bits c e x \<longleftrightarrow> lo \<le> number c x (mBasisBit self) \<and> number c x (mBasisBit self) \<le> hi)"
proof (cases "lo = hi")
  case True
  then show ?thesis using char_test_sound[OF assms(1,3)] by (auto simp: char_or_range_expr_def)
next
  case False
  then show ?thesis using make_range_sound[OF assms] assms(2) by (simp add: char_or_range_expr_def)
qed

lemma or_intervals_sound:
  assumes "compiler_ok self" "\<forall>i \<in> set ivs. fst i \<le> snd i \<and> snd i < 2 ^ length (mBasisBit self)"
  shows "(e \<noteq> None \<longrightarrow> good (the e)) \<Longrightarrow> (e = None \<longrightarrow> ivs \<noteq> []) \<Longrightarrow>
    \<exists>e'. or_intervals B self e ivs = Some e' \<and> good e' \<and>
    (\<forall>c x. bits c e' x \<longleftrightarrow> (e \<noteq> None \<and> bits c (the e) x) \<or> number c x (mBasisBit self) \<in> interval_members ivs)"
  using assms(2)
proof (induction ivs arbitrary: e)
  case (Cons i ivs)
  have i: "fst i \<le> snd i" "snd i < 2 ^ length (mBasisBit self)" using Cons.prems(3) by simp_all
  obtain t where t: "char_or_range_expr B self (fst i) (snd i) = Some t" "good t"
    "\<And>c x. bits c t x \<longleftrightarrow> fst i \<le> number c x (mBasisBit self) \<and> number c x (mBasisBit self) \<le> snd i"
    using char_or_range_sound[OF assms(1) i] by blast
  define e2 where "e2 = (case e of None \<Rightarrow> t | Some e1 \<Rightarrow> mkOr B e1 t)"
  have e2: "good e2" "\<And>c x. bits c e2 x \<longleftrightarrow> (e \<noteq> None \<and> bits c (the e) x) \<or> bits c t x"
    using t(2) Cons.prems(1) by (cases e; simp add: e2_def goods meanings)+
  have "\<exists>e'. or_intervals B self (Some e2) ivs = Some e' \<and> good e' \<and>
    (\<forall>c x. bits c e' x \<longleftrightarrow> (Some e2 \<noteq> None \<and> bits c (the (Some e2)) x) \<or> number c x (mBasisBit self) \<in> interval_members ivs)"
    using Cons.prems e2 by (intro Cons.IH) auto
  then obtain e' where e': "or_intervals B self (Some e2) ivs = Some e'" "good e'"
    "\<And>c x. bits c e' x \<longleftrightarrow> bits c e2 x \<or> number c x (mBasisBit self) \<in> interval_members ivs" by auto
  then show ?case using t e2 by (cases i) (auto simp: e2_def[symmetric] interval_members_def)
qed (auto simp: interval_members_def)

end

lemma same_parity_between:
  assumes "lo mod 2 = hi mod (2 :: nat)"
  shows "2 * (lo div 2) \<le> u \<and> u \<le> 2 * (hi div 2) + 1 \<and> u mod 2 = lo mod 2 \<longleftrightarrow> lo \<le> u \<and> u \<le> hi \<and> u mod 2 = lo mod 2"
proof (cases "u mod 2 = lo mod 2")
  case True
  obtain l h v r where d: "l = lo div 2" "h = hi div 2" "v = u div 2" "r = lo mod 2" by simp
  then have "lo = 2 * l + r" "hi = 2 * h + r" "u = 2 * v + r" "r < 2"
    using assms True by (metis mult_div_mod_eq, metis mult_div_mod_eq, metis mult_div_mod_eq, simp)
  then have "2 * l \<le> u \<longleftrightarrow> lo \<le> u" "u \<le> 2 * h + 1 \<longleftrightarrow> u \<le> hi" by presburger+
  then show ?thesis by (simp add: d)
qed simp

lemma steps_of_two_last:
  "ivs \<noteq> [] \<Longrightarrow> steps_of_two ivs \<Longrightarrow> fst (hd ivs) \<le> fst (last ivs) \<and> fst (last ivs) mod 2 = fst (hd ivs) mod 2"
  by (induction ivs rule: steps_of_two.induct) auto

lemma steps_of_two_members:
  "ivs \<noteq> [] \<Longrightarrow> \<forall>i \<in> set ivs. fst i = snd i \<Longrightarrow> steps_of_two ivs \<Longrightarrow>
   u \<in> interval_members ivs \<longleftrightarrow> fst (hd ivs) \<le> u \<and> u \<le> fst (last ivs) \<and> u mod 2 = fst (hd ivs) mod 2"
proof (induction ivs rule: steps_of_two.induct)
  case (1 i j rest)
  have IH: "u \<in> interval_members (j # rest) \<longleftrightarrow> fst j \<le> u \<and> u \<le> fst (last (j # rest)) \<and> u mod 2 = fst j mod 2"
    using 1 by simp
  have j: "fst j = fst i + 2" "fst i = snd i" using 1 by simp_all
  have last: "fst j \<le> fst (last (j # rest))" using steps_of_two_last[of "j # rest"] 1(4) by simp
  have "u \<in> interval_members (i # j # rest) \<longleftrightarrow> u = fst i \<or> u \<in> interval_members (j # rest)"
    using j(2) by (cases i) (simp only: interval_members_simps Un_iff, auto)
  also have "\<dots> \<longleftrightarrow> u = fst i \<or> (fst i + 2 \<le> u \<and> u \<le> fst (last (j # rest)) \<and> u mod 2 = fst i mod 2)"
    using IH j(1) by simp
  also have "\<dots> \<longleftrightarrow> fst i \<le> u \<and> u \<le> fst (last (j # rest)) \<and> u mod 2 = fst i mod 2"
  proof -
    have "u = fst i \<or> fst i + 2 \<le> u" if "fst i \<le> u" "u mod 2 = fst i mod 2" using that by presburger
    then show ?thesis using last j(1) by auto
  qed
  finally show ?case by simp
qed (auto simp: interval_members_def)

lemma interval_ends:
  assumes "uset_ok cc"
  shows "\<forall>i \<in> set (intervals cc). fst i \<le> snd i \<and> snd i \<in> codepoints cc"
proof -
  have "\<forall>i \<in> set l. fst i \<le> snd i \<and> snd i \<in> interval_members l" if "separated b l" for b l
    using that by (induction b l rule: separated.induct) auto
  then show ?thesis using intervals_spec[OF assms] by auto
qed

context sound_ops
begin

lemma even_odd_sound:
  assumes "compiler_ok self" "lo \<le> hi" "hi < 2 ^ length (mBasisBit self)" "lo mod 2 = hi mod 2" "mBasisBit self \<noteq> []"
  shows "\<exists>e. even_odd_expr B self lo hi = Some e \<and> good e \<and>
    (\<forall>c x. bits c e x \<longleftrightarrow> lo \<le> number c x (mBasisBit self) \<and> number c x (mBasisBit self) \<le> hi \<and>
      number c x (mBasisBit self) mod 2 = lo mod 2)"
proof -
  let ?len = "length (mBasisBit self)"
  obtain k where len: "?len = Suc k" using assms(5) by (cases "mBasisBit self") auto
  have mask: "mEncodingMask self = 2 ^ ?len - 1" by (rule compiler_okD(2)[OF assms(1)])
  have bits_mask: "bit (mEncodingMask self) j \<longleftrightarrow> j < ?len" "bit (mEncodingMask self - 1) j \<longleftrightarrow> 0 < j \<and> j < ?len" for j
  proof -
    show "bit (mEncodingMask self) j \<longleftrightarrow> j < ?len" unfolding mask by (rule bit_2_exp_1)
    have "mEncodingMask self - 1 = 2 * (2 ^ k - 1)" unfolding mask len by simp
    then show "bit (mEncodingMask self - 1) j \<longleftrightarrow> 0 < j \<and> j < ?len"
      using len by (cases j) (simp_all add: bit_0 bit_double_iff bit_2_exp_1)
  qed
  have n1: "lo AND (mEncodingMask self - 1) = 2 * (lo div 2)"
  proof (rule bit_eqI)
    fix j
    have "lo < 2 ^ ?len" using assms(2,3) by simp
    then have "bit lo j \<longrightarrow> j < ?len" by (metis bit_take_bit_iff take_bit_nat_eq_self)
    then show "bit (lo AND (mEncodingMask self - 1)) j = bit (2 * (lo div 2)) j"
      unfolding bit_and_iff bits_mask by (cases j) (auto simp: bit_0 bit_Suc)
  qed
  have n2: "hi OR (mEncodingMask self XOR (mEncodingMask self - 1)) = 2 * (hi div 2) + 1"
  proof (rule bit_eqI)
    fix j
    show "bit (hi OR (mEncodingMask self XOR (mEncodingMask self - 1))) j = bit (2 * (hi div 2) + 1) j"
      unfolding bit_or_iff bit_xor_iff bits_mask using len by (cases j) (auto simp: bit_0 bit_Suc)
  qed
  have "2 * (hi div 2) + 1 < 2 ^ ?len" using assms(3) unfolding len power_Suc by presburger
  moreover have "2 * (lo div 2) \<le> 2 * (hi div 2) + 1" using div_le_mono[OF assms(2), of 2] by simp
  ultimately obtain e where e: "make_range B self (2 * (lo div 2)) (2 * (hi div 2) + 1) = Some e" "good e"
    "\<And>c x. bits c e x \<longleftrightarrow> 2 * (lo div 2) \<le> number c x (mBasisBit self) \<and> number c x (mBasisBit self) \<le> 2 * (hi div 2) + 1"
    using make_range_sound[OF assms(1), of "2 * (lo div 2)" "2 * (hi div 2) + 1"] by blast
  define even_odd where "even_odd = (if lo AND 1 = 0 then mkNot B (getBasisVar self 0) else getBasisVar self 0)"
  have eo: "good even_odd" "bits c even_odd x \<longleftrightarrow> number c x (mBasisBit self) mod 2 = lo mod 2" for c x
    using basis[OF assms(1)]
    by (auto simp: even_odd_def goods meanings bit_0 and_one_eq odd_iff_mod_2_eq_one)
  have "even_odd_expr B self lo hi = Some (mkAnd B e even_odd)"
    unfolding even_odd_expr_def Let_def n1 n2 e(1) by (simp add: even_odd_def)
  moreover have "2 * (lo div 2) \<le> u \<and> u \<le> 2 * (hi div 2) + 1 \<and> u mod 2 = lo mod 2 \<longleftrightarrow> lo \<le> u \<and> u \<le> hi \<and> u mod 2 = lo mod 2" for u
    using same_parity_between[of lo hi u] assms(4) by blast
  ultimately show ?thesis using e eo by (simp add: goods meanings)
qed

lemma charset_sound:
  assumes "compiler_ok self" "canonical cc" "\<forall>u \<in> codepoints cc. u < 2 ^ length (mBasisBit self)" "mBasisBit self \<noteq> []"
  shows "\<exists>e. charset_expr B self cc = Some e \<and> good e \<and>
    (\<forall>c x. x < EOF c \<longrightarrow> (bits c e x \<longleftrightarrow> number c x (mBasisBit self) \<in> codepoints cc))"
proof -
  define ivs where "ivs = intervals cc"
  have ok: "uset_ok cc" using assms(2) by (rule canonical_uset_ok)
  have sep: "separated 0 ivs" and mem: "interval_members ivs = codepoints cc" using intervals_spec[OF ok] by (simp_all add: ivs_def)
  have iv: "\<forall>i \<in> set ivs. fst i \<le> snd i \<and> snd i \<in> codepoints cc" using interval_ends[OF ok] by (simp add: ivs_def)
  then have bounds: "\<forall>i \<in> set ivs. fst i \<le> snd i \<and> snd i < 2 ^ length (mBasisBit self)" using assms(3) by blast
  consider "is_empty cc" | "\<not> is_empty cc" "2 < uset_size cc \<and> (\<forall>i \<in> set ivs. fst i = snd i) \<and> steps_of_two ivs"
    | "\<not> is_empty cc" "\<not> (2 < uset_size cc \<and> (\<forall>i \<in> set ivs. fst i = snd i) \<and> steps_of_two ivs)" by blast
  then show ?thesis
  proof cases
    case 1
    then have "codepoints cc = {}" using is_empty_iff[OF assms(2)] by simp
    with 1 show ?thesis using constants by (simp add: charset_expr_def)
  next
    case 2
    then have ne: "ivs \<noteq> []" by (auto simp: uset_size_def ivs_def)
    have last: "fst (hd ivs) \<le> fst (last ivs)" "fst (last ivs) mod 2 = fst (hd ivs) mod 2"
      using steps_of_two_last[OF ne] 2(2) by simp_all
    have "fst (last ivs) < 2 ^ length (mBasisBit self)" using bounds ne by (metis last_in_set le_less_trans)
    from even_odd_sound[OF assms(1) last(1) this last(2)[symmetric] assms(4)] obtain e where
      "even_odd_expr B self (fst (hd ivs)) (fst (last ivs)) = Some e" "good e"
      "\<And>c x. bits c e x \<longleftrightarrow> fst (hd ivs) \<le> number c x (mBasisBit self) \<and> number c x (mBasisBit self) \<le> fst (last ivs) \<and>
        number c x (mBasisBit self) mod 2 = fst (hd ivs) mod 2" by blast
    moreover have "charset_expr B self cc = even_odd_expr B self (fst (hd ivs)) (fst (last ivs))"
      using 2 by (simp add: charset_expr_def ivs_def Let_def)
    ultimately show ?thesis using steps_of_two_members[OF ne] 2(2) mem by metis
  next
    case 3
    then have "ivs \<noteq> []" using mem is_empty_iff[OF assms(2)] by auto
    then obtain e where "or_intervals B self None ivs = Some e" "good e"
      "\<And>c x. bits c e x \<longleftrightarrow> number c x (mBasisBit self) \<in> codepoints cc"
      using or_intervals_sound[OF assms(1) bounds, of None] mem by auto
    moreover have "charset_expr B self cc = (case or_intervals B self None ivs of None \<Rightarrow> None | Some e \<Rightarrow> Some (mkInFile B e))"
      unfolding charset_expr_def Let_def ivs_def[symmetric] if_not_P[OF 3(1)] if_not_P[OF 3(2)] ..
    ultimately show ?thesis by (simp add: goods meanings)
  qed
qed

end

end
