(* ===== verification/CC_Direct.thy ===== *)
theory CC_Direct imports CC_Sound USet_Ops RE_Base begin

text \<open>
  \<open>compileCCfromCodeUnitStream\<close> of \<open>lib/re/cc/cc_compiler.cpp\<close>, the direct compiler: tests on the
  stream of code units as numbers. Code points not in the class whose two neighbours are in it are
  first added to the class and taken out again at the end.
\<close>

definition unit_constant :: "nat \<Rightarrow> nat \<Rightarrow> pablo" where
  "unit_constant width n = createRepeat width (Integer n)"

definition interval_test :: "addresses \<Rightarrow> pablo \<Rightarrow> nat \<Rightarrow> interval \<Rightarrow> pablo \<Rightarrow> pablo" where
  "interval_test p s width iv ccStrm =
     (let lo = fst iv; hi = snd iv; topBit = push_bit (width - 1) 1; maxCodeVal = (topBit - 1) OR topBit in
      if lo = hi then createOr p ccStrm (createEquals s (unit_constant width lo))
      else if lo = 0 then
        (if hi = maxCodeVal then Ones
         else createOr p ccStrm (createLessThan s (unit_constant width (hi + 1))))
      else if hi = maxCodeVal then createOr p ccStrm (createNot (createLessThan s (unit_constant width lo)))
      else createOr p ccStrm
             (createAnd p (createNot (createLessThan s (unit_constant width lo)))
                          (createLessThan s (unit_constant width (hi + 1)))))"

definition exclusion :: "addresses \<Rightarrow> pablo \<Rightarrow> nat \<Rightarrow> interval list \<Rightarrow> pablo" where
  "exclusion p s width ivs = fold (\<lambda>iv e. createOr p e (createEquals s (unit_constant width (fst iv)))) ivs Zeroes"

definition compileCCfromCodeUnitStream :: "addresses \<Rightarrow> alphabet \<Rightarrow> unicode_set \<Rightarrow> pablo \<Rightarrow> pablo option" where
  "compileCCfromCodeUnitStream p a cc s =
     (case a of
        CodeUnitAlphabet nm code width \<Rightarrow>
          (case isolates (operator_not cc) of
             Inl e \<Rightarrow> None
           | Inr negatedIsolates \<Rightarrow>
               let withNegatedIsolates = operator_plus cc negatedIsolates;
                   ccStrm = fold (interval_test p s width) (intervals withNegatedIsolates) Zeroes
               in Some (createInFile
                    (if is_empty negatedIsolates then ccStrm
                     else createAnd p ccStrm (createNot (exclusion p s width (intervals negatedIsolates))))))
      | _ \<Rightarrow> None)"

section \<open>Correctness\<close>

lemma unit_tests:
  assumes "as_Integer s = None" "n < 2 ^ width"
  shows "bits c (createEquals s (unit_constant width n)) x \<longleftrightarrow> units c s x = n"
    and "bits c (createLessThan s (unit_constant width n)) x \<longleftrightarrow> units c s x < n"
    and "one_kind k s \<Longrightarrow> one_kind k (createEquals s (unit_constant width n))"
    and "one_kind k s \<Longrightarrow> one_kind k (createLessThan s (unit_constant width n))"
  using assms by (simp_all add: createEquals_def createLessThan_def unit_constant_def createRepeat_def)

lemma maxCodeVal: "0 < width \<Longrightarrow> (push_bit (width - 1) 1 - 1) OR push_bit (width - 1) 1 = (2 ^ width - 1 :: nat)"
proof (rule bit_eqI)
  fix j
  assume "0 < width"
  then show "bit ((push_bit (width - 1) 1 - 1) OR push_bit (width - 1) 1 :: nat) j = bit (2 ^ width - 1 :: nat) j"
    by (auto simp: push_bit_eq_mult bit_or_iff bit_exp_iff bit_2_exp_1)
qed

lemma interval_test_sound:
  assumes "as_Integer s = None" "one_kind k s" "one_kind k e" "0 < width" "lo \<le> hi" "hi < 2 ^ width" "units c s x < 2 ^ width"
  shows "one_kind k (interval_test p s width (lo, hi) e) \<and>
    (bits c (interval_test p s width (lo, hi) e) x \<longleftrightarrow> bits c e x \<or> lo \<le> units c s x \<and> units c s x \<le> hi)"
proof -
  have lo: "lo < 2 ^ width" using assms(5,6) by simp
  note tl = unit_tests(1,2)[OF assms(1) lo, of c x] unit_tests(3,4)[OF assms(1) lo assms(2)]
  have hi: "hi \<noteq> 2 ^ width - 1 \<Longrightarrow> hi + 1 < 2 ^ width" using assms(6) by linarith
  note th = unit_tests(1,2)[OF assms(1) hi, of c x] unit_tests(3,4)[OF assms(1) hi assms(2)]
  show ?thesis
    unfolding interval_test_def Let_def maxCodeVal[OF assms(4)] fst_conv snd_conv
    using tl th assms by (auto simp: sound_facts(1-8)[where k = k])
qed

lemma interval_tests_sound:
  assumes "as_Integer s = None" "one_kind k s" "0 < width" "units c s x < 2 ^ width"
  shows "\<forall>iv \<in> set ivs. fst iv \<le> snd iv \<and> snd iv < 2 ^ width \<Longrightarrow> one_kind k e \<Longrightarrow>
    one_kind k (fold (interval_test p s width) ivs e) \<and>
    (bits c (fold (interval_test p s width) ivs e) x \<longleftrightarrow> bits c e x \<or> units c s x \<in> interval_members ivs)"
proof (induction ivs arbitrary: e)
  case (Cons iv ivs)
  obtain lo hi where iv: "iv = (lo, hi)" by (cases iv)
  then have "lo \<le> hi" "hi < 2 ^ width" using Cons.prems(1) by simp_all
  note step = interval_test_sound[OF assms(1,2) Cons.prems(2) assms(3) this assms(4), of p]
  then show ?case using Cons.IH[of "interval_test p s width iv e"] Cons.prems(1) iv by auto
qed simp

lemma interval_tests_kind:
  assumes "as_Integer s = None" "one_kind k s" "one_kind k e"
  shows "one_kind k (fold (interval_test p s width) ivs e)"
proof -
  have "one_kind k (createEquals s (unit_constant width n))" "one_kind k (createLessThan s (unit_constant width n))" for n
    using assms by (simp_all add: createEquals_def createLessThan_def unit_constant_def createRepeat_def)
  then have "one_kind k (interval_test p s width iv e)" if "one_kind k e" for iv e
    using that by (simp add: interval_test_def Let_def sound_facts(1,3,5)[where k = k])
  then show ?thesis using assms(3) by (induction ivs arbitrary: e) simp_all
qed

lemma exclusion_sound:
  assumes "as_Integer s = None" "one_kind k s" "\<forall>iv \<in> set ivs. fst iv < 2 ^ width"
  shows "one_kind k (exclusion p s width ivs) \<and>
    (bits c (exclusion p s width ivs) x \<longleftrightarrow> (\<exists>iv \<in> set ivs. units c s x = fst iv))"
proof -
  have "one_kind k (fold (\<lambda>iv e. createOr p e (createEquals s (unit_constant width (fst iv)))) l e) \<and>
    (bits c (fold (\<lambda>iv e. createOr p e (createEquals s (unit_constant width (fst iv)))) l e) x
     \<longleftrightarrow> bits c e x \<or> (\<exists>iv \<in> set l. units c s x = fst iv))"
    if "one_kind k e" "\<forall>iv \<in> set l. fst iv < 2 ^ width" for l e
    using that
  proof (induction l arbitrary: e)
    case (Cons iv l)
    have n: "fst iv < 2 ^ width" using Cons.prems(2) by simp
    note t = unit_tests(1)[OF assms(1) n, of c x] unit_tests(3)[OF assms(1) n assms(2)]
    show ?case
      using Cons.IH[of "createOr p e (createEquals s (unit_constant width (fst iv)))"] Cons.prems t
      by (auto simp: sound_facts(5,6)[where k = k])
  qed simp
  from this[of Zeroes ivs] assms(3) show ?thesis by (simp add: exclusion_def)
qed

lemma interval_facts:
  assumes "uset_ok s" "iv \<in> set (intervals s)"
  shows "fst iv \<le> snd iv" "{fst iv..snd iv} \<subseteq> codepoints s"
proof -
  have "fst i \<le> snd i \<and> {fst i..snd i} \<subseteq> interval_members l" if "separated b l" "i \<in> set l" for b l i
    using that by (induction b l rule: separated.induct) auto
  from this[OF intervals_spec(1)[OF assms(1)] assms(2)] show "fst iv \<le> snd iv" "{fst iv..snd iv} \<subseteq> codepoints s"
    by (simp_all add: intervals_spec(2)[OF assms(1)])
qed

lemma empty_has_no_codepoints: "uset_ok s \<Longrightarrow> is_empty s \<Longrightarrow> codepoints s = {}"
proof -
  assume s: "uset_ok s" "is_empty s"
  then obtain r where "mRuns s = [r]" by (auto simp: is_empty_def length_Suc_conv)
  then have "canonical s" using s(1) by (simp add: canonical_def canonical_runs_def)
  then show "codepoints s = {}" using s(2) by (simp add: is_empty_iff)
qed

lemma direct_sound:
  assumes "uset_ok cc" "0 < width" "\<forall>u \<in> codepoints cc. u < 2 ^ width" "as_Integer s = None" "one_kind k s"
  shows "\<exists>e. compileCCfromCodeUnitStream p (CodeUnitAlphabet nm code width) cc s = Some e \<and>
    (\<forall>c x. units c s x < 2 ^ width \<longrightarrow> (bits c e x \<longleftrightarrow> x < EOF c \<and> units c s x \<in> codepoints cc))"
proof -
  have not_ok: "uset_ok (operator_not cc)" using assms(1) by (rule uset_ok_not)
  have comp: "codepoints (operator_not cc) = {..UNICODE_MAX} - codepoints cc" using assms(1) by (simp add: uset_simps)
  obtain iso where iso: "isolates (operator_not cc) = Inr iso" "uset_ok iso"
    "codepoints iso = {x \<in> codepoints (operator_not cc). x + 1 \<notin> codepoints (operator_not cc) \<and> (x = 0 \<or> x - 1 \<notin> codepoints (operator_not cc))}"
    using isolates_spec[OF not_ok] by blast
  have disj: "codepoints iso \<inter> codepoints cc = {}" using iso(3) comp by auto
  have iso_small: "u < 2 ^ width" if "u \<in> codepoints iso" for u
  proof -
    have u: "u \<le> UNICODE_MAX" "u + 1 \<in> codepoints cc \<or> u = UNICODE_MAX" "u = 0 \<or> u - 1 \<in> codepoints cc"
      using that unfolding iso(3) comp by (auto simp: not_le)
    show ?thesis
    proof (cases "u + 1 \<in> codepoints cc")
      case True
      then have "u + 1 < 2 ^ width" using assms(3) by blast
      then show ?thesis by simp
    next
      case False
      then have "(1114110 :: nat) < 2 ^ width" "u = 1114111" using u assms(3) by auto
      have "\<not> width \<le> 20"
      proof
        assume "width \<le> 20"
        then have "(2 :: nat) ^ width \<le> 2 ^ 20" by (rule power_increasing) simp
        with \<open>1114110 < 2 ^ width\<close> show False by simp
      qed
      then have "(2 :: nat) ^ 21 \<le> 2 ^ width" by (intro power_increasing) simp_all
      then show ?thesis using \<open>u = 1114111\<close> by simp
    qed
  qed
  define both where "both = operator_plus cc iso"
  have both: "uset_ok both" "codepoints both = codepoints cc \<union> codepoints iso"
    using assms(1) iso(2) canonical_uset_ok by (simp_all add: both_def uset_simps uset_intros)
  have both_ivs: "\<forall>iv \<in> set (intervals both). fst iv \<le> snd iv \<and> snd iv < 2 ^ width"
    using interval_facts[OF both(1)] both(2) assms(3) iso_small by fastforce
  have iso_ivs: "fst iv = snd iv" "snd iv < 2 ^ width" if "iv \<in> set (intervals iso)" for iv
  proof -
    note f = interval_facts[OF iso(2) that]
    then show "snd iv < 2 ^ width" using iso_small by auto
    have "fst iv \<in> codepoints iso" using f by auto
    then have "fst iv + 1 \<notin> codepoints iso" unfolding iso(3) by blast
    moreover have "fst iv + 1 \<in> {fst iv..snd iv}" if "fst iv < snd iv" using that by simp
    ultimately have "\<not> fst iv < snd iv" using f(2) by blast
    then show "fst iv = snd iv" using f(1) by simp
  qed
  have iso_mem: "(\<exists>iv \<in> set (intervals iso). u = fst iv) \<longleftrightarrow> u \<in> codepoints iso" for u
  proof -
    have "u \<in> interval_members (intervals iso) \<longleftrightarrow> (\<exists>iv \<in> set (intervals iso). fst iv \<le> u \<and> u \<le> snd iv)"
      by (simp add: interval_members_def case_prod_beta)
    then show ?thesis using iso_ivs(1) intervals_spec(2)[OF iso(2)] by (metis order_antisym order_refl)
  qed
  define t where "t = fold (interval_test p s width) (intervals both) Zeroes"
  define ex where "ex = exclusion p s width (intervals iso)"
  have iso_fst: "\<forall>iv \<in> set (intervals iso). fst iv < 2 ^ width" using iso_ivs by metis
  have t: "one_kind k t" "units c s x < 2 ^ width \<Longrightarrow> bits c t x \<longleftrightarrow> units c s x \<in> codepoints both" for c x
  proof -
    show "one_kind k t" using interval_tests_kind[OF assms(4,5)] by (simp add: t_def)
    show "units c s x < 2 ^ width \<Longrightarrow> bits c t x \<longleftrightarrow> units c s x \<in> codepoints both"
      using interval_tests_sound[OF assms(4,5,2) _ both_ivs, of c x Zeroes p] intervals_spec(2)[OF both(1)] by (simp add: t_def)
  qed
  have ex: "one_kind k ex" "bits c ex x \<longleftrightarrow> units c s x \<in> codepoints iso" for c x
    using exclusion_sound[OF assms(4,5) iso_fst, of p c x] iso_mem by (simp_all add: ex_def)
  define e where "e = createInFile (if is_empty iso then t else createAnd p t (createNot ex))"
  have eq: "compileCCfromCodeUnitStream p (CodeUnitAlphabet nm code width) cc s = Some e"
    by (simp add: compileCCfromCodeUnitStream_def iso(1) e_def t_def ex_def both_def Let_def)
  have "bits c e x \<longleftrightarrow> x < EOF c \<and> units c s x \<in> codepoints cc" if "units c s x < 2 ^ width" for c x
  proof (cases "is_empty iso")
    case True
    then have "codepoints iso = {}" using empty_has_no_codepoints[OF iso(2)] by simp
    then show ?thesis
      using True in_file_sound[OF t(1), of c] t(2)[OF that] both(2) by (auto simp: e_def means_def)
  next
    case False
    have "one_kind k (createAnd p t (createNot ex))" using t(1) ex(1) by (simp add: sound_facts(1,3)[where k = k])
    from in_file_sound[OF this, of c] show ?thesis
      using False t(1) t(2)[OF that] ex both(2) disj
      by (auto simp: e_def means_def sound_facts(1-4)[where k = k])
  qed
  with eq show ?thesis by blast
qed

end
