(* ===== verification/CC_Ternary.thy ===== *)
theory CC_Ternary imports CC_Sound begin

text \<open>
  \<open>Parabix_Ternary_CC_Compiler\<close> of \<open>lib/re/cc/cc_compiler.cpp\<close>: the compiler for targets with
  an instruction for any function of three bits. Members of one octet of code points become one term;
  intervals that cross an octet are compiled by ranges. Its record and constructor are those of
  \<open>Parabix_CC_Compiler\<close>.
\<close>

section \<open>Joining terms\<close>

datatype join_type = JoinAnd | JoinOr

definition join3 :: "pablo_ops \<Rightarrow> join_type \<Rightarrow> pablo \<Rightarrow> pablo \<Rightarrow> pablo \<Rightarrow> pablo" where
  "join3 B ty a b d = (if ty = JoinOr then mkOr3 B a b d else mkAnd3 B a b d)"

text \<open>The terms left over are taken from the end.\<close>

fun join_triples :: "pablo_ops \<Rightarrow> join_type \<Rightarrow> pablo list \<Rightarrow> pablo list" where
  "join_triples B ty (a # b # d # terms) = join3 B ty a b d # join_triples B ty terms"
| "join_triples B ty terms = rev terms"

lemma length_join_triples: "length (join_triples B ty terms) = length terms div 3 + length terms mod 3"
  by (induction B ty terms rule: join_triples.induct) auto

function join_loop :: "pablo_ops \<Rightarrow> join_type \<Rightarrow> pablo list \<Rightarrow> pablo list" where
  "join_loop B ty terms =
     (let temp = join_triples B ty terms in if 3 \<le> length temp then join_loop B ty temp else temp)"
  by pat_completeness auto

termination
proof (relation "measure (\<lambda>(B, ty, terms). length terms)")
  show "((B, ty, x), B, ty, terms) \<in> measure (\<lambda>(B, ty, terms). length terms)"
    if "x = join_triples B ty terms" "3 \<le> length x" for B ty and terms x :: "pablo list"
  proof -
    have "3 \<le> length terms div 3 + length terms mod 3" using that by (simp add: length_join_triples)
    then have "length terms div 3 + length terms mod 3 < length terms" by presburger
    then show ?thesis using that by (simp add: length_join_triples)
  qed
qed simp

declare join_loop.simps [simp del]

definition joinTerms :: "pablo_ops \<Rightarrow> join_type \<Rightarrow> pablo list \<Rightarrow> pablo" where
  "joinTerms B ty terms =
     (if terms = [] then Zeroes
      else let ts = join_loop B ty terms in
        if length ts = 2 then (if ty = JoinOr then mkOr B (hd ts) (last ts) else mkAnd B (hd ts) (last ts))
        else hd ts)"

section \<open>Patterns and ranges\<close>

text \<open>The terms of the selected bits from \<open>basis_idx\<close> on.\<close>

definition ternary_bit_pattern_expr :: "pablo_ops \<Rightarrow> cc_compiler \<Rightarrow> nat \<Rightarrow> nat \<Rightarrow> nat \<Rightarrow> pablo" where
  "ternary_bit_pattern_expr B self pattern basis_idx selected =
     (if selected = 0 then Ones
      else joinTerms B JoinAnd
        (map (\<lambda>i. if \<not> bit pattern i then mkNot B (getBasisVar self i) else getBasisVar self i)
           (filter (bit selected) [basis_idx..<mEncodingBits self])))"

function ternary_GE_Range :: "pablo_ops \<Rightarrow> cc_compiler \<Rightarrow> nat \<Rightarrow> nat \<Rightarrow> pablo" where
  "ternary_GE_Range B self N n =
     (if N = 0 then Ones
      else if N mod 2 = 0 \<and> drop_bit (N - 2) n = 0 then
        mkOr3 B (getBasisVar self (N - 1)) (getBasisVar self (N - 2)) (ternary_GE_Range B self (N - 2) n)
      else if N mod 2 = 0 \<and> drop_bit (N - 2) n = 3 then
        mkAnd3 B (getBasisVar self (N - 1)) (getBasisVar self (N - 2)) (ternary_GE_Range B self (N - 2) (n - push_bit (N - 2) 3))
      else let hi_bit = n AND push_bit (N - 1) 1; lo_bits = n - hi_bit; lo_range = ternary_GE_Range B self (N - 1) lo_bits in
        if hi_bit = 0 then
          (case as_Or lo_range of
             Some (a, b) \<Rightarrow> mkOr3 B (getBasisVar self (N - 1)) a b
           | None \<Rightarrow> (case as_And lo_range of
                 Some (a, b) \<Rightarrow> mkOrAnd B (getBasisVar self (N - 1)) a b
               | None \<Rightarrow> mkOr B (getBasisVar self (N - 1)) lo_range))
        else
          (case as_And lo_range of
             Some (a, b) \<Rightarrow> mkAnd3 B (getBasisVar self (N - 1)) a b
           | None \<Rightarrow> (case as_Or lo_range of
                 Some (a, b) \<Rightarrow> mkAndOr B (getBasisVar self (N - 1)) a b
               | None \<Rightarrow> mkAnd B (getBasisVar self (N - 1)) lo_range)))"
  by pat_completeness auto

termination
  by (relation "measure (\<lambda>(B, self, N, n). N)") auto

declare ternary_GE_Range.simps [simp del]

definition ternary_LE_Range :: "pablo_ops \<Rightarrow> cc_compiler \<Rightarrow> nat \<Rightarrow> nat \<Rightarrow> pablo" where
  "ternary_LE_Range B self N n = (if n + 1 = push_bit N 1 then Ones else mkNot B (ternary_GE_Range B self N (n + 1)))"

text \<open>\<open>__builtin_ctzll(lo | ~hi)\<close>: the low bits that are 0 in \<open>lo\<close> and 1 in \<open>hi\<close>. The scans start at
  bit \<open>i\<close>; code points have fewer than 32 bits.\<close>

fun trailing :: "(nat \<Rightarrow> bool) \<Rightarrow> nat \<Rightarrow> nat \<Rightarrow> nat" where
  "trailing stop 0 i = i"
| "trailing stop (Suc fuel) i = (if stop i then i else trailing stop fuel (i + 1))"

definition irrelevant_bits :: "codepoint \<Rightarrow> codepoint \<Rightarrow> nat" where
  "irrelevant_bits lo hi = trailing (\<lambda>i. bit lo i \<or> \<not> bit hi i) 32 0"

definition ternary_make_range :: "pablo_ops \<Rightarrow> cc_compiler \<Rightarrow> codepoint \<Rightarrow> codepoint \<Rightarrow> pablo" where
  "ternary_make_range B self lo hi =
     (let irr_bits = irrelevant_bits lo hi;
          diff = diff_count (lo XOR hi);
          mask0 = push_bit diff 1 - 1;
          common = ternary_bit_pattern_expr B self (clear_bits lo mask0) irr_bits (mEncodingMask self XOR mask0)
      in if diff = 0 \<or> diff = irr_bits then common
      else let mask1 = push_bit (diff - 1) 1 - 1; mask2 = push_bit irr_bits (drop_bit irr_bits mask1); top = getBasisVar self (diff - 1)
      in if drop_bit irr_bits (hi AND mask2) + 1 = drop_bit irr_bits (lo AND mask2) then
           (let lo_test = ternary_GE_Range B self (diff - 1) (lo AND mask2) in
            if common = Ones then mkXor B top lo_test else mkAndXor B common top lo_test)
      else if mask2 AND hi = mask2 then
           (let lo_test = ternary_GE_Range B self (diff - 1) (lo AND mask2) in
            if common = Ones then mkOr B top lo_test else mkAndOr B common top lo_test)
      else if mask2 XOR (mask2 AND lo) = mask2 then
           (let hi_test = ternary_LE_Range B self (diff - 1) (hi AND mask1) in
            if common = Ones then mkOr B (mkNot B top) hi_test else mkAndOr B common (mkNot B top) hi_test)
      else let lo_test = ternary_GE_Range B self (diff - 1) (lo AND mask1);
               hi_test = ternary_LE_Range B self (diff - 1) (hi AND mask1);
               lo_zeroes = trailing (bit (drop_bit irr_bits lo)) 64 0;
               hi_ones = trailing (\<lambda>i. \<not> bit hi (irr_bits + i)) 64 0;
               sel = (if drop_bit lo_zeroes (drop_bit irr_bits mask2) = 1 then mkSel B top hi_test (getBasisVar self (diff - 2))
                      else if drop_bit hi_ones (drop_bit irr_bits mask2) = 1 then
                        mkSel B top (mkNot B (getBasisVar self (diff - 2))) lo_test
                      else mkSel B top hi_test lo_test)
           in mkAnd B common sel)"

definition ternary_char_or_range_expr :: "pablo_ops \<Rightarrow> cc_compiler \<Rightarrow> codepoint \<Rightarrow> codepoint \<Rightarrow> pablo option" where
  "ternary_char_or_range_expr B self lo hi =
     (if lo = hi then Some (char_test_expr B self lo) else if lo < hi then Some (ternary_make_range B self lo hi) else None)"

fun intervals_loop :: "pablo_ops \<Rightarrow> cc_compiler \<Rightarrow> pablo option \<Rightarrow> interval list \<Rightarrow> pablo option option" where
  "intervals_loop B self e [] = Some e"
| "intervals_loop B self e (i # rest) =
     (case ternary_char_or_range_expr B self (fst i) (snd i) of
        None \<Rightarrow> None
      | Some temp \<Rightarrow> intervals_loop B self (Some (case e of None \<Rightarrow> temp | Some e1 \<Rightarrow> mkOr B e1 temp)) rest)"

definition make_intervals_expr :: "pablo_ops \<Rightarrow> cc_compiler \<Rightarrow> interval list \<Rightarrow> pablo option" where
  "make_intervals_expr B self ivs =
     (case intervals_loop B self None ivs of None \<Rightarrow> None | Some None \<Rightarrow> Some Zeroes | Some (Some e) \<Rightarrow> Some e)"

section \<open>Octets\<close>

text \<open>An octet is the code point it starts with and the mask of its members.\<close>

type_synonym octet_pair = "codepoint \<times> nat"

definition octet_start :: "codepoint \<Rightarrow> codepoint" where
  "octet_start cp = cp AND 0xFFFFFFF8"

definition octet_bits :: "nat \<Rightarrow> nat \<Rightarrow> nat" where
  "octet_bits lo_bit hi_bit = fold (\<lambda>j m. m OR push_bit j 1) [lo_bit..<hi_bit + 1] 0"

text \<open>An interval within one octet: the inner loop of the program runs once, and of its four cases only
  the last applies. A mask for the octet at the end of the list is joined to it.\<close>

definition add_octet :: "codepoint \<Rightarrow> codepoint \<Rightarrow> octet_pair list \<Rightarrow> octet_pair list" where
  "add_octet lo hi octets =
     (let base = octet_start lo; m = octet_bits (lo - base) (hi - base) in
      if octets \<noteq> [] \<and> base = fst (last octets) then butlast octets @ [(base, m OR snd (last octets))]
      else octets @ [(base, m)])"

fun octets_loop :: "interval list \<Rightarrow> octet_pair list \<times> interval list \<Rightarrow> octet_pair list \<times> interval list" where
  "octets_loop [] (octets, ivs) = (octets, ivs)"
| "octets_loop (i # rest) (octets, ivs) =
     (if octet_start (fst i) \<noteq> octet_start (snd i) then octets_loop rest (octets, ivs @ [i])
      else octets_loop rest (add_octet (fst i) (snd i) octets, ivs))"

definition make_octets_intervals_union :: "unicode_set \<Rightarrow> octet_pair list \<times> interval list" where
  "make_octets_intervals_union cc = octets_loop (intervals cc) ([], [])"

text \<open>Not called by the rest of the compiler; the assertion is the failure.\<close>

definition make_octet_range :: "pablo_ops \<Rightarrow> cc_compiler \<Rightarrow> nat \<Rightarrow> nat \<Rightarrow> pablo option" where
  "make_octet_range B self m basis_idx =
     (if m = 0xFF then Some Ones
      else if mEncodingBits self \<le> basis_idx + 2 then None
      else Some (mkTernary B m (getBasisVar self (basis_idx + 2)) (getBasisVar self (basis_idx + 1)) (getBasisVar self basis_idx)))"

definition octet_term :: "pablo_ops \<Rightarrow> cc_compiler \<Rightarrow> octet_pair \<Rightarrow> pablo list \<Rightarrow> pablo list" where
  "octet_term B self octet terms =
     (let m = snd octet;
          mid3_mask = push_bit (drop_bit 3 (fst octet AND 0x38)) 1;
          hi2_mask = push_bit (drop_bit 6 (fst octet AND 0xC0)) 1;
          mid3 = mkTernary B mid3_mask (getBasisVar self 5) (getBasisVar self 4) (getBasisVar self 3);
          hi5 = mkTernary B (push_bit 4 hi2_mask) mid3 (getBasisVar self 7) (getBasisVar self 6)
      in if m \<noteq> 0xFF then
           terms @ [mkAnd B hi5 (mkTernary B m (getBasisVar self 2) (getBasisVar self 1) (getBasisVar self 0))]
         else if terms = [] then [hi5]
         else butlast terms @ [mkOr B (last terms) hi5])"

definition make_octets_expr :: "pablo_ops \<Rightarrow> cc_compiler \<Rightarrow> octet_pair list \<Rightarrow> pablo" where
  "make_octets_expr B self octets = joinTerms B JoinOr (fold (octet_term B self) octets [])"

definition ternary_charset_expr :: "pablo_ops \<Rightarrow> cc_compiler \<Rightarrow> unicode_set \<Rightarrow> pablo option" where
  "ternary_charset_expr B self cc =
     (if is_empty cc then Some Zeroes
      else let (octets, ivs) = make_octets_intervals_union cc; expr1 = make_octets_expr B self octets
        in case make_intervals_expr B self ivs of
             None \<Rightarrow> None
           | Some expr2 \<Rightarrow> Some (mkInFile B (mkOr B expr1 expr2)))"

section \<open>Choice of the compiler\<close>

text \<open>\<open>Parabix_CC_Compiler_Builder\<close> of \<open>cc_compiler_target.cpp\<close> holds one of the two compilers;
  \<open>CCCOption\<close> is the command line option. The name of the statement is not set.\<close>

datatype any_cc_compiler = Parabix cc_compiler | Parabix_Ternary cc_compiler

definition Parabix_CC_Compiler_Builder :: "string \<Rightarrow> pablo list \<Rightarrow> any_cc_compiler" where
  "Parabix_CC_Compiler_Builder CCCOption basis =
     (if CCCOption = ''binary'' \<or> length basis \<noteq> 8 then Parabix (Parabix_CC_Compiler basis)
      else Parabix_Ternary (Parabix_CC_Compiler basis))"

fun compileCC :: "pablo_ops \<Rightarrow> any_cc_compiler \<Rightarrow> unicode_set \<Rightarrow> pablo option" where
  "compileCC B (Parabix self) cc = charset_expr B self cc"
| "compileCC B (Parabix_Ternary self) cc = ternary_charset_expr B self cc"

end
