(* ===== verification/CC_Ternary_Sound.thy ===== *)
theory CC_Ternary_Sound imports CC_Ternary begin

text \<open>
  The circuit of the ternary compiler is set exactly at the positions, before the end of the file,
  whose code unit is a member of the class, for code units of at most 8 bits.
\<close>

section \<open>Joining terms\<close>

definition joined :: "join_type \<Rightarrow> ('a \<Rightarrow> bool) \<Rightarrow> 'a list \<Rightarrow> bool" where
  "joined ty P xs = (if ty = JoinOr then list_ex P xs else list_all P xs)"

lemma joined_simps [simp]:
  "joined ty P [] \<longleftrightarrow> ty \<noteq> JoinOr"
  "joined ty P (x # xs) \<longleftrightarrow> (if ty = JoinOr then P x \<or> joined ty P xs else P x \<and> joined ty P xs)"
  "joined ty P (rev xs) \<longleftrightarrow> joined ty P xs"
  by (cases ty; auto simp: joined_def list_ex_iff list_all_iff)+

lemma joined_append: "joined ty P (xs @ ys) \<longleftrightarrow> (if ty = JoinOr then joined ty P xs \<or> joined ty P ys else joined ty P xs \<and> joined ty P ys)"
  by (simp add: joined_def)

fun chunk3 :: "'a list \<Rightarrow> nat" where
  "chunk3 (a # b # d # xs) = Suc (chunk3 xs)"
| "chunk3 xs = 0"

lemma trailing:
  "i \<le> trailing stop fuel i \<and> (\<forall>j. i \<le> j \<and> j < trailing stop fuel i \<longrightarrow> \<not> stop j)"
proof (induction fuel arbitrary: i)
  case (Suc fuel)
  have IH: "Suc i \<le> trailing stop fuel (Suc i)" "\<And>j. Suc i \<le> j \<Longrightarrow> j < trailing stop fuel (Suc i) \<Longrightarrow> \<not> stop j"
    using Suc[of "Suc i"] by blast+
  have "\<not> stop j" if "\<not> stop i" "i \<le> j" "j < trailing stop fuel (Suc i)" for j
    using IH(2)[of j] that by (cases "j = i") auto
  then show ?case using IH(1) by auto
qed auto

lemma low_zeros_take:
  assumes "\<forall>j < r. \<not> bit n j" "r \<le> k"
  shows "take_bit k n = 2 ^ r * drop_bit r (take_bit k (n :: nat))"
proof -
  have "take_bit r (take_bit k n) = 0" by (rule bit_eqI) (use assms in \<open>auto simp: bit_take_bit_iff\<close>)
  then show ?thesis using drop_take[of r "take_bit k n"] by simp
qed

lemma low_ones_take:
  assumes "\<forall>j < r. bit n j" "r \<le> k"
  shows "take_bit k n + 1 = 2 ^ r * (drop_bit r (take_bit k (n :: nat)) + 1)"
proof -
  have t: "take_bit r (take_bit k n) = 2 ^ r - 1" by (rule bit_eqI) (use assms in \<open>auto simp: bit_take_bit_iff bit_2_exp_1\<close>)
  have "take_bit k n = 2 ^ r * drop_bit r (take_bit k n) + (2 ^ r - 1)" using drop_take[of r "take_bit k n"] unfolding t by (rule sym)
  moreover have "0 < (2 :: nat) ^ r" by simp
  ultimately show ?thesis unfolding distrib_left mult_1_right by linarith
qed

text \<open>The forms of the ends that the compiler tells apart, below bit \<open>k\<close>; \<open>r\<close> low bits are 0 in the
  lower end and 1 in the upper end.\<close>

lemma range_forms:
  fixes lo hi u :: nat
  assumes low: "\<forall>j < r. \<not> bit lo j \<and> bit hi j" "r \<le> k"
  defines "m \<equiv> push_bit r (drop_bit r (2 ^ k - 1))"
  shows "drop_bit r (hi AND m) + 1 = drop_bit r (lo AND m) \<Longrightarrow> take_bit k u \<le> take_bit k hi \<longleftrightarrow> \<not> take_bit k lo \<le> take_bit k u"
    and "m AND hi = m \<Longrightarrow> take_bit k u \<le> take_bit k hi"
    and "m XOR (m AND lo) = m \<Longrightarrow> take_bit k lo \<le> take_bit k u"
    and "lo AND m = take_bit k lo"
    and "\<not> m XOR (m AND lo) = m \<Longrightarrow> drop_bit (trailing (bit (drop_bit r lo)) 64 0) (drop_bit r m) = 1 \<Longrightarrow>
      0 < k \<and> (take_bit k lo \<le> take_bit k u \<longleftrightarrow> bit u (k - 1))"
    and "\<not> m AND hi = m \<Longrightarrow> drop_bit (trailing (\<lambda>i. \<not> bit hi (r + i)) 64 0) (drop_bit r m) = 1 \<Longrightarrow>
      0 < k \<and> (take_bit k u \<le> take_bit k hi \<longleftrightarrow> \<not> bit u (k - 1))"
proof -
  have m: "bit m j \<longleftrightarrow> r \<le> j \<and> j < k" for j using low(2) by (auto simp: m_def bit_push_bit_iff bit_drop_bit_eq bit_2_exp_1)
  have lom: "lo AND m = take_bit k lo" by (rule bit_eqI) (use low in \<open>auto simp: bit_and_iff m bit_take_bit_iff intro: leI\<close>)
  then show "lo AND m = take_bit k lo" .
  have him: "drop_bit r (hi AND m) = drop_bit r (take_bit k hi)"
    by (rule bit_eqI) (auto simp: bit_and_iff m bit_take_bit_iff bit_drop_bit_eq)
  have L: "take_bit k lo = 2 ^ r * drop_bit r (take_bit k lo)" by (rule low_zeros_take) (use low in auto)
  have H: "take_bit k hi + 1 = 2 ^ r * (drop_bit r (take_bit k hi) + 1)" by (rule low_ones_take) (use low in auto)
  show "take_bit k u \<le> take_bit k hi \<longleftrightarrow> \<not> take_bit k lo \<le> take_bit k u" if "drop_bit r (hi AND m) + 1 = drop_bit r (lo AND m)"
  proof -
    have "drop_bit r (take_bit k hi) + 1 = drop_bit r (take_bit k lo)" using that unfolding lom him .
    then have "take_bit k hi + 1 = take_bit k lo" using L H by presburger
    then show ?thesis by linarith
  qed
  have full: "take_bit k hi = 2 ^ k - 1" if "\<And>j. j < k \<Longrightarrow> bit hi j" by (rule bit_eqI) (use that in \<open>auto simp: bit_take_bit_iff bit_2_exp_1\<close>)
  have H1: "bit hi j" if "j < k" "m AND hi = m" for j
    using that low(1) m by (metis bit_and_iff not_le)
  show "take_bit k u \<le> take_bit k hi" if "m AND hi = m"
  proof -
    have "take_bit k u < 2 ^ k" by simp
    then show ?thesis using full[OF H1[OF _ that]] by linarith
  qed
  have L0: "\<not> bit lo j" if "j < k" "m XOR (m AND lo) = m" for j
    using that low(1) m by (metis bit_and_iff bit_xor_iff not_le)
  show "take_bit k lo \<le> take_bit k u" if "m XOR (m AND lo) = m"
  proof -
    have "take_bit k lo = 0" by (rule bit_eqI) (use L0 that in \<open>auto simp: bit_take_bit_iff\<close>)
    then show ?thesis by simp
  qed
  have one: "0 < k \<and> r + z = k - 1" if "drop_bit z (drop_bit r m) = 1" for z
  proof -
    have b: "r \<le> r + z + j \<and> r + z + j < k \<longleftrightarrow> j = 0" for j
      using m[of "r + z + j"] arg_cong[OF that, of "\<lambda>n. bit n j"] by (simp add: bit_drop_bit_eq bit_1_iff add.assoc add.left_commute del: One_nat_def)
    show ?thesis using b[of 0] b[of 1] by linarith
  qed
  have top: "take_bit k u = take_bit (k - 1) u + (if bit u (k - 1) then 2 ^ (k - 1) else 0)" "take_bit (k - 1) u < 2 ^ (k - 1)" if "0 < k" for u :: nat
    using take_Suc[of "k - 1" u] that by simp_all
  show "0 < k \<and> (take_bit k lo \<le> take_bit k u \<longleftrightarrow> bit u (k - 1))"
    if ne: "\<not> m XOR (m AND lo) = m" and z: "drop_bit (trailing (bit (drop_bit r lo)) 64 0) (drop_bit r m) = 1"
  proof -
    note k = one[OF z]
    have zero: "\<not> bit lo j" if "j < k - 1" for j
      using trailing[of 0 "bit (drop_bit r lo)" 64] low(1) that k by (cases "j < r") (auto simp: bit_drop_bit_eq dest: spec[of _ "j - r"])
    then have "take_bit (k - 1) lo = 0" by (intro bit_eqI) (auto simp: bit_take_bit_iff)
    moreover have "bit lo (k - 1)"
    proof (rule ccontr)
      assume "\<not> bit lo (k - 1)"
      then have "\<not> bit lo j" if "j < k" for j using zero that by (cases "j = k - 1") auto
      then have "m XOR (m AND lo) = m" by (intro bit_eqI) (auto simp: bit_xor_iff bit_and_iff m)
      then show False using ne by simp
    qed
    ultimately show ?thesis using top(1)[of lo] top(1)[of u] top(2)[of u] k
      by (cases "bit u (k - 1)") (simp_all del: take_bit_nat_less_exp)
  qed
  show "0 < k \<and> (take_bit k u \<le> take_bit k hi \<longleftrightarrow> \<not> bit u (k - 1))"
    if ne: "\<not> m AND hi = m" and z: "drop_bit (trailing (\<lambda>i. \<not> bit hi (r + i)) 64 0) (drop_bit r m) = 1"
  proof -
    note k = one[OF z]
    have ones: "bit hi j" if "j < k - 1" for j
      using trailing[of 0 "\<lambda>i. \<not> bit hi (r + i)" 64] low(1) that k by (cases "j < r") (auto dest: spec[of _ "j - r"])
    then have "take_bit (k - 1) hi = 2 ^ (k - 1) - 1" by (intro bit_eqI) (auto simp: bit_take_bit_iff bit_2_exp_1)
    moreover have "\<not> bit hi (k - 1)"
    proof
      assume "bit hi (k - 1)"
      then have "bit hi j" if "j < k" for j using ones that by (cases "j = k - 1") auto
      then have "m AND hi = m" by (intro bit_eqI) (auto simp: bit_and_iff m)
      then show False using ne by simp
    qed
    ultimately show ?thesis using top(1)[of hi] top(1)[of u] top(2)[of u] k
      by (cases "bit u (k - 1)") (simp_all del: take_bit_nat_less_exp, linarith+)
  qed
qed

context sound_ops
begin

lemma join_triples_sound:
  "list_all good terms \<Longrightarrow> list_all good (join_triples B ty terms) \<and>
   (joined ty (\<lambda>t. bits c t x) (join_triples B ty terms) \<longleftrightarrow> joined ty (\<lambda>t. bits c t x) terms)"
proof (induction terms rule: chunk3.induct)
  case (1 a b d terms)
  then show ?case by (cases ty) (auto simp: join3_def goods meanings)
qed auto

lemma join_loop_sound:
  "list_all good terms \<Longrightarrow> list_all good (join_loop B ty terms) \<and> length (join_loop B ty terms) < 3 \<and>
   (terms \<noteq> [] \<longrightarrow> join_loop B ty terms \<noteq> []) \<and>
   (joined ty (\<lambda>t. bits c t x) (join_loop B ty terms) \<longleftrightarrow> joined ty (\<lambda>t. bits c t x) terms)"
proof (induction "length terms" arbitrary: terms rule: less_induct)
  case less
  note j = join_loop.simps[of B ty terms] and t = join_triples_sound[OF less.prems, of ty c x] length_join_triples[of B ty terms]
  show ?case
  proof (cases "3 \<le> length (join_triples B ty terms)")
    case True
    then have "3 \<le> length terms div 3 + length terms mod 3" using t by simp
    then have "length terms div 3 + length terms mod 3 < length terms" by presburger
    then have "length (join_triples B ty terms) < length terms" using t by simp
    from less.hyps[OF this] t True show ?thesis by (auto simp: j Let_def)
  next
    case False
    have "join_triples B ty terms \<noteq> []" if "terms \<noteq> []"
    proof
      assume "join_triples B ty terms = []"
      then have "length terms div 3 + length terms mod 3 = 0" using t by simp
      then have "length terms = 0" by presburger
      then show False using that by simp
    qed
    then show ?thesis using False t by (auto simp: j Let_def)
  qed
qed

lemma joinTerms_sound:
  assumes "list_all good terms" "ty = JoinAnd \<Longrightarrow> terms \<noteq> []"
  shows "good (joinTerms B ty terms) \<and> (bits c (joinTerms B ty terms) x \<longleftrightarrow> joined ty (\<lambda>t. bits c t x) terms)"
proof (cases "terms = []")
  case True
  then show ?thesis using assms(2) constants by (cases ty) (auto simp: joinTerms_def)
next
  case False
  note l = join_loop_sound[OF assms(1), of ty c x]
  obtain a where "join_loop B ty terms = [a] \<or> (\<exists>b. join_loop B ty terms = [a, b])"
    using l False by (cases "join_loop B ty terms"; cases "tl (join_loop B ty terms)") (auto simp: less_Suc_eq)
  then show ?thesis using l False by (cases ty) (auto simp: joinTerms_def goods meanings Let_def)
qed

section \<open>Patterns and comparisons\<close>

lemma ternary_pattern_sound:
  assumes "compiler_ok self" "selected \<noteq> 0" "\<forall>j. bit selected j \<longrightarrow> basis_idx \<le> j \<and> j < length (mBasisBit self)"
  shows "good (ternary_bit_pattern_expr B self pattern basis_idx selected)"
    and "bits c (ternary_bit_pattern_expr B self pattern basis_idx selected) x \<longleftrightarrow>
         (\<forall>j. bit selected j \<longrightarrow> bit (number c x (mBasisBit self)) j = bit pattern j)"
proof -
  define js where "js = filter (bit selected) [basis_idx..<mEncodingBits self]"
  have set: "set js = {j. bit selected j}" using assms(3) compiler_okD(1)[OF assms(1)] by (auto simp: js_def)
  obtain j where "bit selected j" using assms(2) by (metis bit_eq_iff bit_0_eq bot_apply bot_bool_def)
  then have "js \<noteq> []" using set by auto
  define f where "f = (\<lambda>i. if \<not> bit pattern i then mkNot B (getBasisVar self i) else getBasisVar self i)"
  have f: "good (f i)" "bits c (f i) x \<longleftrightarrow> bit (number c x (mBasisBit self)) i = bit pattern i" for i
    using basis[OF assms(1)] by (auto simp: f_def goods meanings)
  have g: "list_all good (map f js)" using f(1) by (simp add: list_all_iff)
  have b: "joined JoinAnd (\<lambda>t. bits c t x) (map f js) \<longleftrightarrow> (\<forall>j. bit selected j \<longrightarrow> bit (number c x (mBasisBit self)) j = bit pattern j)"
    using f(2) set by (simp add: joined_def list_all_iff)
  have "good (joinTerms B JoinAnd (map f js))" "bits c (joinTerms B JoinAnd (map f js)) x \<longleftrightarrow> joined JoinAnd (\<lambda>t. bits c t x) (map f js)"
    using joinTerms_sound[OF g, of JoinAnd c x] \<open>js \<noteq> []\<close> by simp_all
  with b assms(2) show "good (ternary_bit_pattern_expr B self pattern basis_idx selected)"
    "bits c (ternary_bit_pattern_expr B self pattern basis_idx selected) x \<longleftrightarrow>
     (\<forall>j. bit selected j \<longrightarrow> bit (number c x (mBasisBit self)) j = bit pattern j)"
    by (simp_all add: ternary_bit_pattern_expr_def js_def f_def)
qed

text \<open>The step of the ternary comparison has the meaning of the plain one.\<close>

lemma or_step:
  assumes "good b" "good l"
  shows "good (case as_Or l of Some (a, d) \<Rightarrow> mkOr3 B b a d
      | None \<Rightarrow> (case as_And l of Some (a, d) \<Rightarrow> mkOrAnd B b a d | None \<Rightarrow> mkOr B b l)) \<and>
    (bits c (case as_Or l of Some (a, d) \<Rightarrow> mkOr3 B b a d
      | None \<Rightarrow> (case as_And l of Some (a, d) \<Rightarrow> mkOrAnd B b a d | None \<Rightarrow> mkOr B b l)) x \<longleftrightarrow> bits c b x \<or> bits c l x)"
proof -
  consider a d where "l = Or a d" | a d where "l = And a d" | "as_Or l = None" "as_And l = None" by (cases l) auto
  then show ?thesis
  proof cases
    case (1 a d)
    then have "good a" "good d" using assms(2) operands_good(2) by blast+
    then show ?thesis using 1 assms by (simp add: goods meanings)
  next
    case (2 a d)
    then have "good a" "good d" using assms(2) operands_good(1) by blast+
    then show ?thesis using 2 assms by (simp add: goods meanings)
  next
    case 3
    then show ?thesis using assms by (simp add: goods meanings)
  qed
qed

lemma and_step:
  assumes "good b" "good l"
  shows "good (case as_And l of Some (a, d) \<Rightarrow> mkAnd3 B b a d
      | None \<Rightarrow> (case as_Or l of Some (a, d) \<Rightarrow> mkAndOr B b a d | None \<Rightarrow> mkAnd B b l)) \<and>
    (bits c (case as_And l of Some (a, d) \<Rightarrow> mkAnd3 B b a d
      | None \<Rightarrow> (case as_Or l of Some (a, d) \<Rightarrow> mkAndOr B b a d | None \<Rightarrow> mkAnd B b l)) x \<longleftrightarrow> bits c b x \<and> bits c l x)"
proof -
  consider a d where "l = Or a d" | a d where "l = And a d" | "as_Or l = None" "as_And l = None" by (cases l) auto
  then show ?thesis
  proof cases
    case (1 a d)
    then have "good a" "good d" using assms(2) operands_good(2) by blast+
    then show ?thesis using 1 assms by (simp add: goods meanings)
  next
    case (2 a d)
    then have "good a" "good d" using assms(2) operands_good(1) by blast+
    then show ?thesis using 2 assms by (simp add: goods meanings)
  next
    case 3
    then show ?thesis using assms by (simp add: goods meanings)
  qed
qed

lemma steps_plain:
  assumes "leaf b" "plain l"
  shows "plain (case as_Or l of Some (a, d) \<Rightarrow> mkOr3 B b a d
      | None \<Rightarrow> (case as_And l of Some (a, d) \<Rightarrow> mkOrAnd B b a d | None \<Rightarrow> mkOr B b l))"
    "plain (case as_And l of Some (a, d) \<Rightarrow> mkAnd3 B b a d
      | None \<Rightarrow> (case as_Or l of Some (a, d) \<Rightarrow> mkAndOr B b a d | None \<Rightarrow> mkAnd B b l))"
proof -
  have "\<not> negation l" using assms(2) by (rule plain_negation)
  consider a d where "l = Or a d" | a d where "l = And a d" | "as_Or l = None" "as_And l = None" by (cases l) auto
  then have "plain (case as_Or l of Some (a, d) \<Rightarrow> mkOr3 B b a d
      | None \<Rightarrow> (case as_And l of Some (a, d) \<Rightarrow> mkOrAnd B b a d | None \<Rightarrow> mkOr B b l)) \<and>
    plain (case as_And l of Some (a, d) \<Rightarrow> mkAnd3 B b a d
      | None \<Rightarrow> (case as_Or l of Some (a, d) \<Rightarrow> mkAndOr B b a d | None \<Rightarrow> mkAnd B b l))"
    by cases (use assms \<open>\<not> negation l\<close> in \<open>simp_all add: plain_law plain3_law\<close>)
  then show "plain (case as_Or l of Some (a, d) \<Rightarrow> mkOr3 B b a d
      | None \<Rightarrow> (case as_And l of Some (a, d) \<Rightarrow> mkOrAnd B b a d | None \<Rightarrow> mkOr B b l))"
    "plain (case as_And l of Some (a, d) \<Rightarrow> mkAnd3 B b a d
      | None \<Rightarrow> (case as_Or l of Some (a, d) \<Rightarrow> mkAndOr B b a d | None \<Rightarrow> mkAnd B b l))"
    by blast+
qed

lemma GE_Range_good:
  assumes "compiler_ok self"
  shows "good (GE_Range B self N n)"
proof (induction N arbitrary: n rule: less_induct)
  case (less N)
  show ?case
    unfolding GE_Range.simps[of B self N n] using less basis_good[OF assms] by (simp add: Let_def goods)
qed

lemma ternary_GE_same:
  assumes "compiler_ok self"
  shows "good (ternary_GE_Range B self N n) \<and> (bits c (ternary_GE_Range B self N n) x \<longleftrightarrow> bits c (GE_Range B self N n) x)"
proof (induction N arbitrary: n rule: less_induct)
  case (less N)
  let ?b = "getBasisVar self (N - 1)"
  have b: "good ?b" "good (getBasisVar self (N - 2))" using basis_good[OF assms] by simp_all
  show ?case
  proof (cases "N = 0")
    case False
    have IH: "good (ternary_GE_Range B self M m)" "bits c (ternary_GE_Range B self M m) x \<longleftrightarrow> bits c (GE_Range B self M m) x"
      "good (GE_Range B self M m)" if "M < N" for M m
      using less[OF that] GE_Range_good[OF assms] by simp_all
    have lt: "N - 1 < N" "N - 2 < N" using False by simp_all
    note or = or_step[OF b(1) IH(1)[OF lt(1)], where c = c and x = x] and "and" = and_step[OF b(1) IH(1)[OF lt(1)], where c = c and x = x]
    show ?thesis
    proof (cases "N mod 2 = 0 \<and> drop_bit (N - 2) n = 0")
      case True
      then show ?thesis
        unfolding ternary_GE_Range.simps[of B self N n] GE_Range.simps[of B self N n] if_P[OF True] if_not_P[OF False]
        using b IH[OF lt(2)] by (simp add: goods meanings)
    next
      case F1: False
      show ?thesis
      proof (cases "N mod 2 = 0 \<and> drop_bit (N - 2) n = 3")
        case True
        then show ?thesis
          unfolding ternary_GE_Range.simps[of B self N n] GE_Range.simps[of B self N n] if_P[OF True] if_not_P[OF False] if_not_P[OF F1]
          using b IH[OF lt(2)] by (simp add: goods meanings)
      next
        case F2: False
        show ?thesis
          unfolding ternary_GE_Range.simps[of B self N n] GE_Range.simps[of B self N n] if_not_P[OF False] if_not_P[OF F1] if_not_P[OF F2] Let_def
          using b IH[OF lt(1)] or "and" by (cases "n AND push_bit (N - 1) 1 = 0") (simp_all only: if_True if_False simp_thms or_law and_law)
      qed
    qed
  next
    case True
    then show ?thesis unfolding ternary_GE_Range.simps[of B self N n] GE_Range.simps[of B self N n] using constants by simp
  qed
qed

lemma ternary_GE_sound:
  assumes "compiler_ok self" "n < 2 ^ N"
  shows "good (ternary_GE_Range B self N n)"
    "bits c (ternary_GE_Range B self N n) x \<longleftrightarrow> n \<le> take_bit N (number c x (mBasisBit self))"
  using ternary_GE_same[OF assms(1)] GE_Range_sound[OF assms] by blast+

lemma ternary_GE_plain:
  assumes "compiler_ok self"
  shows "N \<le> length (mBasisBit self) \<Longrightarrow> plain (ternary_GE_Range B self N n)"
proof (induction N arbitrary: n rule: less_induct)
  case (less N)
  note ge = ternary_GE_Range.simps[of B self N n]
  show ?case
  proof (cases "N = 0")
    case False
    then have leaf: "leaf (getBasisVar self (N - 1))" using compiler_okD(3)[OF assms] less.prems by simp
    have IH1: "plain (ternary_GE_Range B self (N - 1) m)" for m using less.IH[of "N - 1" m] less.prems False by simp
    have even: "\<not> negation (ternary_GE_Range B self (N - 2) m) \<and> \<not> negation (getBasisVar self (N - 2))" if "N mod 2 = 0" for m
      using less.IH[of "N - 2" m] less.prems False that plain_negation leaf_plain compiler_okD(3)[OF assms, of "N - 2"] by simp
    show ?thesis
    proof (cases "N mod 2 = 0 \<and> drop_bit (N - 2) n = 0")
      case True
      then show ?thesis unfolding ge if_not_P[OF False] if_P[OF True]
        using even[of n] plain3_law[OF leaf, of "getBasisVar self (N - 2)" "ternary_GE_Range B self (N - 2) n"] True by simp
    next
      case F1: False
      show ?thesis
      proof (cases "N mod 2 = 0 \<and> drop_bit (N - 2) n = 3")
        case True
        then show ?thesis unfolding ge if_not_P[OF False] if_not_P[OF F1] if_P[OF True]
          using even[of "n - push_bit (N - 2) 3"] True
            plain3_law[OF leaf, of "getBasisVar self (N - 2)" "ternary_GE_Range B self (N - 2) (n - push_bit (N - 2) 3)"] by simp
      next
        case F2: False
        show ?thesis
          unfolding ge if_not_P[OF False] if_not_P[OF F1] if_not_P[OF F2] Let_def by (split if_split) (intro conjI impI steps_plain[OF leaf IH1])
      qed
    qed
  next
    case True
    then show ?thesis unfolding ge by simp
  qed
qed

lemma ternary_LE_sound:
  assumes "compiler_ok self" "n < 2 ^ N"
  shows "good (ternary_LE_Range B self N n)" "bits c (ternary_LE_Range B self N n) x \<longleftrightarrow> take_bit N (number c x (mBasisBit self)) \<le> n"
proof -
  have "n + 1 \<noteq> push_bit N 1 \<Longrightarrow> n + 1 < 2 ^ N" using assms(2) by (simp add: push_bit_eq_mult)
  note ge = ternary_GE_sound(1)[OF assms(1) this] ternary_GE_sound(2)[OF assms(1) this, of c x]
  have "take_bit N (number c x (mBasisBit self)) < 2 ^ N" by simp
  with ge show "good (ternary_LE_Range B self N n)" "bits c (ternary_LE_Range B self N n) x \<longleftrightarrow> take_bit N (number c x (mBasisBit self)) \<le> n"
    using constants by (auto simp: ternary_LE_Range_def goods meanings push_bit_eq_mult simp del: take_bit_nat_less_exp)
qed

section \<open>Ranges\<close>

text \<open>The part of the two ends below the highest bit in which they differ: \<open>irr\<close> low bits need no test.\<close>

lemma under_common:
  assumes "good e" "good a" "good b"
  shows "good (if e = Ones then mkXor B a b else mkAndXor B e a b) \<and>
      (bits c (if e = Ones then mkXor B a b else mkAndXor B e a b) x \<longleftrightarrow> bits c e x \<and> bits c a x \<noteq> bits c b x)"
    and "good (if e = Ones then mkOr B a b else mkAndOr B e a b) \<and>
      (bits c (if e = Ones then mkOr B a b else mkAndOr B e a b) x \<longleftrightarrow> bits c e x \<and> (bits c a x \<or> bits c b x))"
  using assms and_xor_law[OF assms] by (auto simp: goods meanings)

lemma ternary_make_range_sound:
  assumes "compiler_ok self" "lo < hi" "hi < 2 ^ length (mBasisBit self)"
  shows "good (ternary_make_range B self lo hi) \<and>
    (bits c (ternary_make_range B self lo hi) x \<longleftrightarrow> lo \<le> number c x (mBasisBit self) \<and> number c x (mBasisBit self) \<le> hi)"
proof -
  let ?u = "number c x (mBasisBit self)" and ?len = "length (mBasisBit self)"
  define d where "d = diff_count (lo XOR hi)"
  define irr where "irr = irrelevant_bits lo hi"
  define k where "k = d - 1"
  define m where "m = push_bit irr (drop_bit irr (2 ^ k - 1 :: nat))"
  define top where "top = getBasisVar self k"
  define common where "common = ternary_bit_pattern_expr B self (clear_bits lo (push_bit d 1 - 1)) irr (mEncodingMask self XOR (push_bit d 1 - 1))"
  have le: "lo \<le> hi" "lo < 2 ^ ?len" using assms(2,3) by simp_all
  note bounds = interval_bounds[OF le(1), folded d_def]
  have "d \<le> ?len" using diff_count_le[OF le(2) assms(3)] by (simp add: d_def)
  have "d \<noteq> 0" using bounds(2) assms(2) by (metis less_irrefl)
  then have d: "d = Suc k" by (simp add: k_def)
  have irr: "\<forall>j < irr. \<not> bit lo j \<and> bit hi j"
    using trailing[of 0 "\<lambda>i. bit lo i \<or> \<not> bit hi i" 32] unfolding irr_def irrelevant_bits_def by blast
  have "irr \<le> d"
  proof (rule ccontr)
    assume "\<not> irr \<le> d"
    then show False using irr bounds(1) drop_eq_bits by (metis not_le order_refl)
  qed
  have sel: "bit (mEncodingMask self XOR (push_bit d 1 - 1)) j \<longleftrightarrow> d \<le> j \<and> j < ?len" for j
    using \<open>d \<le> ?len\<close> compiler_okD(2)[OF assms(1)] by (auto simp: bit_xor_iff push_bit_eq_mult bit_2_exp_1)
  have common: "good common" "bits c common x \<longleftrightarrow> drop_bit d ?u = drop_bit d lo"
  proof -
    have "good common \<and> (bits c common x \<longleftrightarrow> (\<forall>j. d \<le> j \<and> j < ?len \<longrightarrow> bit ?u j = bit lo j))"
    proof (cases "mEncodingMask self XOR (push_bit d 1 - 1) = 0")
      case True
      then show ?thesis using sel constants by (auto simp: common_def ternary_bit_pattern_expr_def)
    next
      case False
      have "\<forall>j. bit (mEncodingMask self XOR (push_bit d 1 - 1)) j \<longrightarrow> irr \<le> j \<and> j < ?len" using sel \<open>irr \<le> d\<close> by auto
      note pattern = ternary_pattern_sound(1)[OF assms(1) False this, of "clear_bits lo (push_bit d 1 - 1)"]
        ternary_pattern_sound(2)[OF assms(1) False this, of c "clear_bits lo (push_bit d 1 - 1)" x, folded common_def]
      have "bit (clear_bits lo (push_bit d 1 - 1)) j = bit lo j" if "d \<le> j" for j
        using that by (simp add: clear_bits_def push_bit_eq_mult bit_xor_iff bit_and_iff bit_2_exp_1)
      then show ?thesis using pattern unfolding sel common_def by auto
    qed
    moreover have "(\<forall>j. d \<le> j \<and> j < ?len \<longrightarrow> bit ?u j = bit lo j) \<longleftrightarrow> (\<forall>j\<ge>d. bit ?u j = bit lo j)"
      using le(2) by (metis bit_take_bit_iff not_le take_bit_nat_eq_self number_less)
    ultimately show "good common" "bits c common x \<longleftrightarrow> drop_bit d ?u = drop_bit d lo" by (simp_all add: drop_eq_bits)
  qed
  let ?in = "if bit ?u k then take_bit k ?u \<le> take_bit k hi else take_bit k lo \<le> take_bit k ?u"
  have goal: "lo \<le> ?u \<and> ?u \<le> hi \<longleftrightarrow> drop_bit d ?u = drop_bit d lo \<and> ?in" using bounds(3)[of ?u] d by simp
  show ?thesis
  proof (cases "d = irr")
    case True
    have "take_bit k hi = 2 ^ k - 1" by (rule bit_eqI) (use irr True d in \<open>auto simp: bit_take_bit_iff bit_2_exp_1\<close>)
    moreover have "take_bit k lo = 0" by (rule bit_eqI) (use irr True d in \<open>auto simp: bit_take_bit_iff\<close>)
    moreover have "take_bit k ?u < 2 ^ k" by simp
    ultimately have "take_bit k ?u \<le> take_bit k hi" "take_bit k lo \<le> take_bit k ?u" by linarith+
    then have "lo \<le> ?u \<and> ?u \<le> hi \<longleftrightarrow> drop_bit d ?u = drop_bit d lo" using goal by simp
    moreover have "ternary_make_range B self lo hi = common"
      using True unfolding ternary_make_range_def Let_def d_def[symmetric] irr_def[symmetric] common_def[symmetric] by simp
    ultimately show ?thesis using common by simp
  next
    case False
    then have "irr \<le> k" using \<open>irr \<le> d\<close> d by simp
    note forms = range_forms[OF irr this, folded m_def]
    have top: "good top" "bits c top x \<longleftrightarrow> bit ?u k" "good (getBasisVar self (d - 2))" "bits c (getBasisVar self (d - 2)) x \<longleftrightarrow> bit ?u (k - 1)"
      using basis[OF assms(1)] by (simp_all add: top_def d numeral_2_eq_2)
    define lo_test where "lo_test = ternary_GE_Range B self k (take_bit k lo)"
    define hi_test where "hi_test = ternary_LE_Range B self k (take_bit k hi)"
    have low: "n AND (2 ^ k - 1) = take_bit k n" for n :: nat by (simp add: take_bit_eq_mask mask_eq_exp_minus_1)
    have lo: "good lo_test" "bits c lo_test x \<longleftrightarrow> take_bit k lo \<le> take_bit k ?u"
      using ternary_GE_sound[OF assms(1), of "take_bit k lo" k] by (simp_all add: lo_test_def)
    have hi: "good hi_test" "bits c hi_test x \<longleftrightarrow> take_bit k ?u \<le> take_bit k hi"
      using ternary_LE_sound[OF assms(1), of "take_bit k hi" k] by (simp_all add: hi_test_def)
    define t where "t = (if drop_bit irr (hi AND m) + 1 = drop_bit irr (lo AND m) then (if common = Ones then mkXor B top lo_test else mkAndXor B common top lo_test)
      else if m AND hi = m then (if common = Ones then mkOr B top lo_test else mkAndOr B common top lo_test)
      else if m XOR (m AND lo) = m then (if common = Ones then mkOr B (mkNot B top) hi_test else mkAndOr B common (mkNot B top) hi_test)
      else mkAnd B common
        (if drop_bit (trailing (bit (drop_bit irr lo)) 64 0) (drop_bit irr m) = 1 then mkSel B top hi_test (getBasisVar self (d - 2))
         else if drop_bit (trailing (\<lambda>i. \<not> bit hi (irr + i)) 64 0) (drop_bit irr m) = 1 then mkSel B top (mkNot B (getBasisVar self (d - 2))) lo_test
         else mkSel B top hi_test lo_test))"
    have k1: "push_bit k 1 - 1 = (2 ^ k - 1 :: nat)" by (simp add: push_bit_eq_mult)
    have "ternary_make_range B self lo hi = t"
      using False \<open>d \<noteq> 0\<close>
      unfolding ternary_make_range_def Let_def d_def[symmetric] irr_def[symmetric] common_def[symmetric] k_def[symmetric] k1
        low m_def[symmetric] forms(4) lo_test_def[symmetric] hi_test_def[symmetric] top_def[symmetric]
      by (simp add: t_def forms(4))
    moreover have guards: "sel_guard hi_test (getBasisVar self (d - 2))" "sel_guard (mkNot B (getBasisVar self (d - 2))) lo_test" "sel_guard hi_test lo_test"
    proof -
      have "plain lo_test" unfolding lo_test_def by (rule ternary_GE_plain[OF assms(1)]) (use \<open>d \<le> ?len\<close> d in simp)
      moreover have "leaf (getBasisVar self (d - 2))" using compiler_okD(3)[OF assms(1), of "d - 2"] \<open>d \<le> ?len\<close> d by simp
      ultimately show "sel_guard hi_test (getBasisVar self (d - 2))" "sel_guard (mkNot B (getBasisVar self (d - 2))) lo_test" "sel_guard hi_test lo_test"
        using plain_negation leaf_plain by (auto simp: sel_guard_def)
    qed
    moreover have "good t \<and> (bits c t x \<longleftrightarrow> drop_bit d ?u = drop_bit d lo \<and> ?in)"
    proof (cases "drop_bit irr (hi AND m) + 1 = drop_bit irr (lo AND m)")
      case True
      show ?thesis unfolding t_def if_P[OF True] using under_common(1)[OF common(1) top(1) lo(1), of c x] forms(1)[OF True, of ?u] common top lo by auto
    next
      case A: False
      show ?thesis
      proof (cases "m AND hi = m")
        case True
        show ?thesis unfolding t_def if_not_P[OF A] if_P[OF True]
          using under_common(2)[OF common(1) top(1) lo(1), of c x] forms(2)[OF True, of ?u] common top lo by auto
      next
        case B: False
        show ?thesis
        proof (cases "m XOR (m AND lo) = m")
          case True
          have n: "good (mkNot B top)" "bits c (mkNot B top) x \<longleftrightarrow> \<not> bit ?u k" using top by (simp_all add: goods meanings)
          show ?thesis unfolding t_def if_not_P[OF A] if_not_P[OF B] if_P[OF True]
            using under_common(2)[OF common(1) n(1) hi(1), of c x] forms(3)[OF True, of ?u] common n hi by auto
        next
          case C: False
          define s where "s = (if drop_bit (trailing (bit (drop_bit irr lo)) 64 0) (drop_bit irr m) = 1 then mkSel B top hi_test (getBasisVar self (d - 2))
            else if drop_bit (trailing (\<lambda>i. \<not> bit hi (irr + i)) 64 0) (drop_bit irr m) = 1 then mkSel B top (mkNot B (getBasisVar self (d - 2))) lo_test
            else mkSel B top hi_test lo_test)"
          have "good s \<and> (bits c s x \<longleftrightarrow> ?in)"
          proof (cases "drop_bit (trailing (bit (drop_bit irr lo)) 64 0) (drop_bit irr m) = 1")
            case True
            show ?thesis unfolding s_def if_P[OF True] using forms(5)[OF C True, of ?u] top hi guards(1) by (simp add: goods meanings)
          next
            case D: False
            show ?thesis
            proof (cases "drop_bit (trailing (\<lambda>i. \<not> bit hi (irr + i)) 64 0) (drop_bit irr m) = 1")
              case True
              show ?thesis unfolding s_def if_not_P[OF D] if_P[OF True] using forms(6)[OF B True, of ?u] top lo guards(2) by (simp add: goods meanings)
            next
              case False
              show ?thesis unfolding s_def if_not_P[OF D] if_not_P[OF False] using top lo hi guards(3) by (simp add: goods meanings)
            qed
          qed
          then show ?thesis unfolding t_def s_def[symmetric] if_not_P[OF A] if_not_P[OF B] if_not_P[OF C]
            using common by (simp add: goods meanings)
        qed
      qed
    qed
    ultimately show ?thesis using goal by simp
  qed
qed

lemma ternary_char_or_range_sound:
  assumes "compiler_ok self" "lo \<le> hi" "hi < 2 ^ length (mBasisBit self)"
  shows "\<exists>e. ternary_char_or_range_expr B self lo hi = Some e \<and> good e \<and>
    (\<forall>c x. bits c e x \<longleftrightarrow> lo \<le> number c x (mBasisBit self) \<and> number c x (mBasisBit self) \<le> hi)"
proof (cases "lo = hi")
  case True
  then show ?thesis using char_test_sound[OF assms(1,3)] by (auto simp: ternary_char_or_range_expr_def)
next
  case False
  then show ?thesis using ternary_make_range_sound[OF assms(1) _ assms(3)] assms(2) by (simp add: ternary_char_or_range_expr_def)
qed

lemma intervals_loop_sound:
  assumes "compiler_ok self" "\<forall>i \<in> set ivs. fst i \<le> snd i \<and> snd i < 2 ^ length (mBasisBit self)"
  shows "(e \<noteq> None \<longrightarrow> good (the e)) \<Longrightarrow>
    \<exists>e'. intervals_loop B self e ivs = Some e' \<and> (e' \<noteq> None \<longrightarrow> good (the e')) \<and>
    (\<forall>c x. (e' \<noteq> None \<and> bits c (the e') x) \<longleftrightarrow> (e \<noteq> None \<and> bits c (the e) x) \<or> number c x (mBasisBit self) \<in> interval_members ivs)"
  using assms(2)
proof (induction ivs arbitrary: e)
  case (Cons i ivs)
  have i: "fst i \<le> snd i" "snd i < 2 ^ length (mBasisBit self)" using Cons.prems(2) by simp_all
  obtain t where t: "ternary_char_or_range_expr B self (fst i) (snd i) = Some t" "good t"
    "\<And>c x. bits c t x \<longleftrightarrow> fst i \<le> number c x (mBasisBit self) \<and> number c x (mBasisBit self) \<le> snd i"
    using ternary_char_or_range_sound[OF assms(1) i] by blast
  define e2 where "e2 = (case e of None \<Rightarrow> t | Some e1 \<Rightarrow> mkOr B e1 t)"
  have e2: "good e2" "\<And>c x. bits c e2 x \<longleftrightarrow> (e \<noteq> None \<and> bits c (the e) x) \<or> bits c t x"
    using t(2) Cons.prems(1) by (cases e; simp add: e2_def goods meanings)+
  have "intervals_loop B self e (i # ivs) = intervals_loop B self (Some e2) ivs" using t(1) by (simp add: e2_def)
  moreover have "number c x (mBasisBit self) \<in> interval_members (i # ivs) \<longleftrightarrow> bits c t x \<or> number c x (mBasisBit self) \<in> interval_members ivs" for c x
    using t(3) by (cases i) (auto simp: interval_members_def)
  moreover obtain e' where "intervals_loop B self (Some e2) ivs = Some e'" "e' \<noteq> None \<longrightarrow> good (the e')"
    "\<And>c x. (e' \<noteq> None \<and> bits c (the e') x) \<longleftrightarrow> bits c e2 x \<or> number c x (mBasisBit self) \<in> interval_members ivs"
    using Cons.IH[of "Some e2"] Cons.prems(2) e2(1) by auto
  ultimately show ?case using e2(2) by (intro exI[of _ e']) simp
qed (auto simp: interval_members_def)

lemma make_intervals_sound:
  assumes "compiler_ok self" "\<forall>i \<in> set ivs. fst i \<le> snd i \<and> snd i < 2 ^ length (mBasisBit self)"
  shows "\<exists>e. make_intervals_expr B self ivs = Some e \<and> good e \<and>
    (\<forall>c x. bits c e x \<longleftrightarrow> number c x (mBasisBit self) \<in> interval_members ivs)"
proof -
  obtain e' where e': "intervals_loop B self None ivs = Some e'" "e' \<noteq> None \<longrightarrow> good (the e')"
    "\<And>c x. (e' \<noteq> None \<and> bits c (the e') x) \<longleftrightarrow> number c x (mBasisBit self) \<in> interval_members ivs"
    using intervals_loop_sound[OF assms, of None] by auto
  then show ?thesis using constants by (cases e') (simp_all add: make_intervals_expr_def)
qed

section \<open>Octets\<close>

end

definition octet_members :: "octet_pair list \<Rightarrow> nat set" where
  "octet_members octets = {u. \<exists>octet \<in> set octets. drop_bit 3 u = drop_bit 3 (fst octet) \<and> bit (snd octet) (take_bit 3 u)}"

lemma octet_members_simps [simp]:
  "octet_members [] = {}" "octet_members (os1 @ os2) = octet_members os1 \<union> octet_members os2"
  by (auto simp: octet_members_def)

lemma fold_or_bits: "bit (fold (\<lambda>j m. m OR push_bit j 1) js (m :: nat)) j \<longleftrightarrow> bit m j \<or> j \<in> set js"
proof (induction js arbitrary: m)
  case (Cons i js)
  have "bit (m OR push_bit i 1) j \<longleftrightarrow> bit m j \<or> i = j" by (auto simp: bit_or_iff push_bit_of_1 bit_exp_iff)
  then show ?case using Cons by auto
qed simp

lemma octet_bits: "bit (octet_bits lo hi) j \<longleftrightarrow> lo \<le> j \<and> j \<le> hi"
  using fold_or_bits[of "[lo..<hi + 1]" 0 j] by (simp add: octet_bits_def less_Suc_eq_le del: upt_Suc)

lemma octet_start: "cp < 2 ^ 32 \<Longrightarrow> octet_start cp = 8 * drop_bit 3 cp"
proof -
  assume "cp < 2 ^ 32"
  then have "take_bit 32 cp = cp" by (rule take_bit_nat_eq_self)
  then have "bit cp j \<Longrightarrow> j < 32" for j by (metis bit_take_bit_iff)
  moreover have "bit (0xFFFFFFF8 :: nat) j \<longleftrightarrow> 3 \<le> j \<and> j < 32" for j
  proof -
    have eq: "0xFFFFFFF8 = push_bit 3 (2 ^ 29 - 1 :: nat)" by (simp add: push_bit_eq_mult)
    show ?thesis unfolding eq bit_push_bit_iff_nat bit_2_exp_1 by auto
  qed
  ultimately have "octet_start cp = push_bit 3 (drop_bit 3 cp)"
    unfolding octet_start_def by (intro bit_eqI) (auto simp: bit_and_iff bit_push_bit_iff bit_drop_bit_eq)
  then show ?thesis by (simp add: push_bit_eq_mult)
qed

lemma octet_interval:
  assumes "lo \<le> hi" "drop_bit 3 lo = drop_bit 3 (hi :: nat)"
  defines "base \<equiv> 8 * drop_bit 3 lo"
  shows "octet_members [(base, octet_bits (lo - base) (hi - base))] = {u. lo \<le> u \<and> u \<le> hi}"
proof -
  have split: "n = 8 * drop_bit 3 n + take_bit 3 n" for n :: nat using drop_take[of 3 n] by simp
  have small: "take_bit 3 n < 8" for n :: nat using take_bit_nat_less_exp[of 3 n] by simp
  have base: "drop_bit 3 base = drop_bit 3 lo" by (simp add: base_def drop_bit_eq_div)
  have "drop_bit 3 u = drop_bit 3 lo \<and> lo - base \<le> take_bit 3 u \<and> take_bit 3 u \<le> hi - base \<longleftrightarrow> lo \<le> u \<and> u \<le> hi" for u
  proof -
    have "lo = base + take_bit 3 lo" "hi = base + take_bit 3 hi" using split[of lo] split[of hi] assms(2) by (simp_all add: base_def)
    moreover have "drop_bit 3 u = drop_bit 3 lo" if "lo \<le> u" "u \<le> hi"
      using div_le_mono[OF that(1), of 8] div_le_mono[OF that(2), of 8] assms(2) by (simp add: drop_bit_eq_div)
    moreover have "drop_bit 3 u = drop_bit 3 lo \<Longrightarrow> u = base + take_bit 3 u" using split[of u] by (simp add: base_def)
    ultimately show ?thesis using small by auto
  qed
  then show ?thesis by (auto simp: octet_members_def octet_bits base)
qed

lemma octet_members_or: "octet_members [(base, m OR n)] = octet_members [(base, m)] \<union> octet_members [(base, n)]"
  by (auto simp: octet_members_def bit_or_iff)

lemma add_octet_members:
  assumes "lo \<le> hi" "hi < 2 ^ 32" "octet_start lo = octet_start hi"
  shows "octet_members (add_octet lo hi octets) = octet_members octets \<union> {u. lo \<le> u \<and> u \<le> hi}"
proof -
  define base where "base = 8 * drop_bit 3 lo"
  define m where "m = octet_bits (lo - base) (hi - base)"
  have "octet_start lo = base" "drop_bit 3 lo = drop_bit 3 hi" using assms octet_start[of lo] octet_start[of hi] by (simp_all add: base_def)
  then have iv: "octet_members [(base, m)] = {u. lo \<le> u \<and> u \<le> hi}" using octet_interval[OF assms(1)] unfolding base_def m_def by blast
  have add: "add_octet lo hi octets = (if octets \<noteq> [] \<and> base = fst (last octets) then butlast octets @ [(base, m OR snd (last octets))] else octets @ [(base, m)])"
    using \<open>octet_start lo = base\<close> by (simp add: add_octet_def m_def Let_def)
  show ?thesis
  proof (cases "octets \<noteq> [] \<and> base = fst (last octets)")
    case True
    then have "octet_members octets = octet_members (butlast octets) \<union> octet_members [(base, snd (last octets))]"
      using octet_members_simps(2)[of "butlast octets" "[last octets]"] by simp
    then show ?thesis unfolding add if_P[OF True] by (simp add: octet_members_or iv) blast
  next
    case False
    then show ?thesis unfolding add if_not_P[OF False] by (simp add: iv)
  qed
qed

lemma add_octet_bound:
  assumes "lo < n" "n \<le> 2 ^ 32" "list_all (\<lambda>octet. fst octet < n) octets"
  shows "list_all (\<lambda>octet. fst octet < n) (add_octet lo hi octets)"
proof -
  have "octet_start lo \<le> lo" using octet_start[of lo] assms(1,2) drop_take[of 3 lo] by simp
  then show ?thesis using assms by (auto simp: add_octet_def Let_def list_all_iff dest: in_set_butlastD)
qed

lemma octets_loop_spec:
  assumes "n \<le> 2 ^ 32" "\<forall>i \<in> set ivs. fst i \<le> snd i \<and> snd i < n" "octets_loop ivs (octets, out) = (octets', out')"
    and "list_all (\<lambda>octet. fst octet < n) octets" "\<forall>i \<in> set out. fst i \<le> snd i \<and> snd i < n"
  shows "list_all (\<lambda>octet. fst octet < n) octets' \<and> (\<forall>i \<in> set out'. fst i \<le> snd i \<and> snd i < n) \<and>
    octet_members octets' \<union> interval_members out' = octet_members octets \<union> interval_members out \<union> interval_members ivs"
  using assms(2-)
proof (induction ivs "(octets, out)" arbitrary: octets out rule: octets_loop.induct)
  case (2 i rest octets out)
  have i: "fst i \<le> snd i" "snd i < n" using 2 by auto
  have one: "interval_members (i # rest) = {u. fst i \<le> u \<and> u \<le> snd i} \<union> interval_members rest" by (cases i) (auto simp: interval_members_def)
  show ?case
  proof (cases "octet_start (fst i) \<noteq> octet_start (snd i)")
    case True
    have "interval_members (out @ [i]) = interval_members out \<union> {u. fst i \<le> u \<and> u \<le> snd i}" by (cases i) (auto simp: interval_members_def)
    then show ?thesis using 2(1)[OF True] 2(3-) True i one by auto
  next
    case False
    have "octet_members (add_octet (fst i) (snd i) octets) = octet_members octets \<union> {u. fst i \<le> u \<and> u \<le> snd i}"
      using add_octet_members[of "fst i" "snd i" octets] i False assms(1) by simp
    moreover have "list_all (\<lambda>octet. fst octet < n) (add_octet (fst i) (snd i) octets)"
      by (rule add_octet_bound) (use i 2 assms(1) in auto)
    ultimately show ?thesis using 2(2)[OF False] 2(3-) False one by auto
  qed
qed (auto simp: interval_members_def)

lemma three_bits: "(if bit n (i + 2) then 4 else 0) + (if bit n (i + 1) then 2 else 0) + (if bit n i then 1 else 0) = take_bit 3 (drop_bit i (n :: nat))"
  by (simp add: numeral_3_eq_3 take_Suc bit_drop_bit_eq add.commute)

lemma octet_high:
  assumes "n < (2 :: nat) ^ 8"
  shows "drop_bit 6 n AND 3 = drop_bit 6 n" "(if bit n 7 then 2 else 0) + (if bit n 6 then 1 else 0) = drop_bit 6 n" "drop_bit 6 n < 4"
proof -
  show l: "drop_bit 6 n < (4 :: nat)" using assms by (simp add: drop_bit_eq_div)
  then have t: "take_bit 2 (drop_bit 6 n) = drop_bit 6 n" by (simp add: take_bit_nat_eq_self)
  then show "drop_bit 6 n AND 3 = drop_bit 6 n" by (simp add: take_bit_eq_mask mask_eq_exp_minus_1)
  have "take_bit 2 (drop_bit 6 n) = (if bit n 7 then 2 else 0) + (if bit n 6 then 1 else 0)"
    by (simp add: numeral_2_eq_2 take_Suc bit_drop_bit_eq)
  then show "(if bit n 7 then 2 else 0) + (if bit n 6 then 1 else 0) = drop_bit 6 n" using t by simp
qed

lemma same_octet: "drop_bit 3 m = drop_bit 3 n \<longleftrightarrow> take_bit 3 (drop_bit 3 n) = take_bit 3 (drop_bit 3 m) \<and> drop_bit 6 n = drop_bit 6 (m :: nat)"
proof -
  have "drop_bit 6 k = drop_bit 3 (drop_bit 3 k)" for k :: nat by simp
  then show ?thesis by (metis drop_take)
qed

lemma ternary_one: "ternary_bit (2 ^ k) a b d \<longleftrightarrow> k = (if a then 4 else 0) + (if b then 2 else 0) + (if d then 1 else 0)"
  by (auto simp: ternary_bit_def bit_exp_iff)

context sound_ops
begin

lemma octet_term_sound:
  assumes "compiler_ok self" "length (mBasisBit self) \<le> 8" "fst octet < 0x100" "list_all good terms"
  shows "list_all good (octet_term B self octet terms) \<and>
    (list_ex (\<lambda>t. bits c t x) (octet_term B self octet terms) \<longleftrightarrow>
     list_ex (\<lambda>t. bits c t x) terms \<or> number c x (mBasisBit self) \<in> octet_members [octet])"
proof -
  let ?u = "number c x (mBasisBit self)"
  define mid3 where "mid3 = mkTernary B (push_bit (drop_bit 3 (fst octet AND 0x38)) 1) (getBasisVar self 5) (getBasisVar self 4) (getBasisVar self 3)"
  define hi5 where "hi5 = mkTernary B (push_bit 4 (push_bit (drop_bit 6 (fst octet AND 0xC0)) 1)) mid3 (getBasisVar self 7) (getBasisVar self 6)"
  define lo3 where "lo3 = mkTernary B (snd octet) (getBasisVar self 2) (getBasisVar self 1) (getBasisVar self 0)"
  note ternary = ternary_law[rule_format, THEN conjunct1] ternary_law[THEN conjunct2, rule_format]
  have u: "?u < 2 ^ 8" using number_less[of c x "mBasisBit self"] power_increasing[OF assms(2), of "2 :: nat"] by simp
  have b: "fst octet < 2 ^ 8" using assms(3) by simp
  have mid: "drop_bit 3 (fst octet AND 0x38) = take_bit 3 (drop_bit 3 (fst octet))"
    by (simp add: take_bit_eq_mask mask_eq_exp_minus_1)
  have hi2: "drop_bit 6 (fst octet AND 0xC0) = drop_bit 6 (fst octet)" using octet_high[OF b] by simp
  have mid3: "good mid3" "bits c mid3 x \<longleftrightarrow> take_bit 3 (drop_bit 3 (fst octet)) = take_bit 3 (drop_bit 3 ?u)"
    unfolding mid3_def mid push_bit_of_1 using ternary basis[OF assms(1)] three_bits[of ?u 3, symmetric] by (simp_all add: ternary_one)
  have two: "push_bit 4 (push_bit k 1) = (2 :: nat) ^ (4 + k)" for k by (simp add: push_bit_eq_mult power_add)
  have "bits c hi5 x \<longleftrightarrow> bits c mid3 x \<and> drop_bit 6 (fst octet) = drop_bit 6 ?u"
    unfolding hi5_def hi2 two using ternary(2)[OF mid3(1)] basis[OF assms(1)] octet_high[OF u] octet_high[OF b]
    by (auto simp: ternary_one)
  then have hi5: "good hi5" "bits c hi5 x \<longleftrightarrow> drop_bit 3 ?u = drop_bit 3 (fst octet)"
    using ternary(1)[OF mid3(1)] basis_good[OF assms(1)] same_octet[of ?u "fst octet"] mid3(2) unfolding hi5_def by blast+
  have lo3: "good lo3" "bits c lo3 x \<longleftrightarrow> bit (snd octet) (take_bit 3 ?u)"
    using basis[OF assms(1)] ternary three_bits[of ?u 0] unfolding lo3_def
    by (simp_all only: ternary_bit_def drop_bit_0 id_apply add_0 simp_thms)
  have members: "?u \<in> octet_members [octet] \<longleftrightarrow> bits c hi5 x \<and> bits c lo3 x" using hi5 lo3 by (simp add: octet_members_def)
  have t: "octet_term B self octet terms = (if snd octet \<noteq> 0xFF then terms @ [mkAnd B hi5 lo3]
      else if terms = [] then [hi5] else butlast terms @ [mkOr B (last terms) hi5])"
    unfolding octet_term_def Let_def mid3_def[symmetric] hi5_def[symmetric] lo3_def[symmetric] ..
  show ?thesis
  proof (cases "snd octet = 0xFF")
    case True
    have "take_bit 3 ?u < 8" using take_bit_nat_less_exp[of 3 ?u] by simp
    then have "bit (0xFF :: nat) (take_bit 3 ?u)" using bit_2_exp_1(1)[of 8 "take_bit 3 ?u"] by simp
    then have m: "?u \<in> octet_members [octet] \<longleftrightarrow> bits c hi5 x" using members lo3 True by simp
    show ?thesis
    proof (cases "terms = []")
      case False
      then have e: "list_ex (\<lambda>t. bits c t x) terms \<longleftrightarrow> list_ex (\<lambda>t. bits c t x) (butlast terms) \<or> bits c (last terms) x"
        "list_all good (butlast terms)" "good (last terms)"
        using list_ex_append[of "\<lambda>t. bits c t x" "butlast terms" "[last terms]"]
          list_all_append[of good "butlast terms" "[last terms]"] assms(4) by simp_all
      show ?thesis using False True hi5(1) e m by (simp add: t goods meanings)
    next
      case True
      then show ?thesis unfolding t using \<open>snd octet = 0xFF\<close> hi5(1) m by simp
    qed
  next
    case False
    then show ?thesis using hi5(1) lo3(1) members assms(4) by (auto simp: t goods meanings)
  qed
qed

lemma make_octets_sound:
  assumes "compiler_ok self" "length (mBasisBit self) \<le> 8" "list_all (\<lambda>octet. fst octet < 0x100) octets"
  shows "good (make_octets_expr B self octets) \<and>
    (bits c (make_octets_expr B self octets) x \<longleftrightarrow> number c x (mBasisBit self) \<in> octet_members octets)"
proof -
  have "list_all good (fold (octet_term B self) octets terms) \<and>
    (list_ex (\<lambda>t. bits c t x) (fold (octet_term B self) octets terms) \<longleftrightarrow>
     list_ex (\<lambda>t. bits c t x) terms \<or> number c x (mBasisBit self) \<in> octet_members octets)" if "list_all good terms" for terms
    using that assms(3)
  proof (induction octets arbitrary: terms)
    case (Cons octet octets)
    have "octet_members (octet # octets) = octet_members [octet] \<union> octet_members octets"
      using octet_members_simps(2)[of "[octet]" octets] by simp
    moreover note octet_term_sound[OF assms(1,2) _ Cons.prems(1), of octet c x] Cons.IH[of "octet_term B self octet terms"]
    ultimately show ?case using Cons.prems(2) by auto
  qed simp
  from this[of "[]"] show ?thesis
    using joinTerms_sound[of "fold (octet_term B self) octets []" JoinOr c x] by (simp add: make_octets_expr_def joined_def)
qed

lemma ternary_charset_sound:
  assumes "compiler_ok self" "canonical cc" "\<forall>u \<in> codepoints cc. u < 2 ^ length (mBasisBit self)" "length (mBasisBit self) \<le> 8"
  shows "\<exists>e. ternary_charset_expr B self cc = Some e \<and> good e \<and>
    (\<forall>c x. x < EOF c \<longrightarrow> (bits c e x \<longleftrightarrow> number c x (mBasisBit self) \<in> codepoints cc))"
proof (cases "is_empty cc")
  case True
  then have "codepoints cc = {}" using is_empty_iff[OF assms(2)] by simp
  with True show ?thesis using constants by (simp add: ternary_charset_expr_def)
next
  case False
  obtain octets ivs where o: "octets_loop (intervals cc) ([], []) = (octets, ivs)" by (cases "octets_loop (intervals cc) ([], [])")
  have small: "(2 :: nat) ^ length (mBasisBit self) \<le> 0x100" using power_increasing[OF assms(4), of "2 :: nat"] by simp
  have bounds: "\<forall>i \<in> set (intervals cc). fst i \<le> snd i \<and> snd i < 2 ^ length (mBasisBit self)"
    using interval_ends[OF canonical_uset_ok[OF assms(2)]] assms(3) by blast
  note o2 = octets_loop_spec[of "2 ^ length (mBasisBit self)", OF _ bounds o]
  have oct: "list_all (\<lambda>octet. fst octet < 0x100) octets" "\<forall>i \<in> set ivs. fst i \<le> snd i \<and> snd i < 2 ^ length (mBasisBit self)"
    "octet_members octets \<union> interval_members ivs = codepoints cc"
    using o2 small intervals_spec(2)[OF canonical_uset_ok[OF assms(2)]] by (auto simp: list_all_iff interval_members_def)
  obtain e where "make_intervals_expr B self ivs = Some e" "good e"
    "\<And>c x. bits c e x \<longleftrightarrow> number c x (mBasisBit self) \<in> interval_members ivs"
    using make_intervals_sound[OF assms(1) oct(2)] by blast
  then show ?thesis using False o make_octets_sound[OF assms(1,4) oct(1)] oct(3)
    by (auto simp: ternary_charset_expr_def make_octets_intervals_union_def goods meanings)
qed

lemma compileCC_sound:
  assumes "list_all leaf basis" "canonical cc" "\<forall>u \<in> codepoints cc. u < 2 ^ length basis" "basis \<noteq> []"
  shows "\<exists>e. compileCC B (Parabix_CC_Compiler_Builder option basis) cc = Some e \<and> good e \<and>
    (\<forall>c x. x < EOF c \<longrightarrow> (bits c e x \<longleftrightarrow> number c x basis \<in> codepoints cc))"
proof -
  have basis: "mBasisBit (Parabix_CC_Compiler basis) = basis" by (simp add: Parabix_CC_Compiler_def)
  have ok: "compiler_ok (Parabix_CC_Compiler basis)" using assms(1) by (simp add: compiler_ok_def basis)
  show ?thesis
    using charset_sound[OF ok assms(2), unfolded basis, OF assms(3,4)]
      ternary_charset_sound[OF ok assms(2), unfolded basis, OF assms(3)] by (simp add: Parabix_CC_Compiler_Builder_def)
qed

end

end
