(* ===== verification/Pablo_Props.thy ===== *)
theory Pablo_Props imports Pablo_Stream BixNum_Mul CC_Direct CC_Ternary_Sound USet_Build begin

text \<open>
  The properties of the Pablo expressions, the builder, the bit-parallel arithmetic and the compilers of
  character classes.
\<close>

text \<open>A kernel for the examples: the streams of the variables, the values of the unit stream, the end
  of the file.\<close>

definition kernel :: "(string \<Rightarrow> stream) \<Rightarrow> (nat \<Rightarrow> nat) \<Rightarrow> nat \<Rightarrow> kernel_state" where
  "kernel v u n = \<lparr>var_bits = v, var_units = (\<lambda>_. u), extract_bits = (\<lambda>_ _ _. False), EOF = n, other_bits = (\<lambda>_ _ s. s)\<rparr>"

lemma kernel_simps [simp]:
  "var_bits (kernel v u n) = v" "var_units (kernel v u n) w = u" "EOF (kernel v u n) = n"
  by (simp_all add: kernel_def)

definition one_address :: addresses where
  "one_address = \<lparr>same = (\<lambda>_ _. True), before = (\<lambda>_ _. False)\<rparr>"

lemma identical_one_address [simp]: "identical one_address a b \<longleftrightarrow> a = b" "\<not> before one_address a b"
  by (simp_all add: identical_def one_address_def)

lemma equals_self: "equals one_address a a"
  by (simp add: equals.simps)

text \<open>C34: the statement that the builder creates has the stream of the operation applied to the
  streams of the operands, in every kernel and at every position, whatever the addresses of the nodes
  are, when the calls of intrinsics in the operands are of one kind. For \<open>createSel\<close> the second
  alternative must not be the negation of the first. The operations on numbers below \<open>2 ^ 64\<close> have the
  values of the operation modulo \<open>2 ^ 64\<close>; a constant zero is not subtracted from.\<close>

theorem builder_keeps_meaning:
  assumes "one_kind k a" "one_kind k b" "one_kind k d"
  shows "bits c (createNot a) i = (\<not> bits c a i)
    \<and> bits c (createAnd p a b) i = (bits c a i \<and> bits c b i)
    \<and> bits c (createOr p a b) i = (bits c a i \<or> bits c b i)
    \<and> bits c (createXor p a b) i = (bits c a i \<noteq> bits c b i)
    \<and> (sel_guard b d \<longrightarrow> bits c (createSel p a b d) i = (if bits c a i then bits c b i else bits c d i))
    \<and> bits c (createAnd3 p a b d) i = (bits c a i \<and> bits c b i \<and> bits c d i)
    \<and> bits c (createOr3 p a b d) i = (bits c a i \<or> bits c b i \<or> bits c d i)
    \<and> bits c (createXor3 p a b d) i = ((bits c a i \<noteq> bits c b i) \<noteq> bits c d i)
    \<and> bits c (createMajority3 a b d) i = (bits c a i \<and> bits c b i \<or> bits c a i \<and> bits c d i \<or> bits c b i \<and> bits c d i)
    \<and> bits c (createAndOr p a b d) i = (bits c a i \<and> (bits c b i \<or> bits c d i))
    \<and> bits c (createAndXor p a b d) i = (bits c a i \<and> (bits c b i \<noteq> bits c d i))
    \<and> bits c (createOrAnd p a b d) i = (bits c a i \<or> bits c b i \<and> bits c d i)
    \<and> bits c (createOrXor p a b d) i = (bits c a i \<or> (bits c b i \<noteq> bits c d i))
    \<and> bits c (createXorAnd p a b d) i = (bits c a i \<noteq> (bits c b i \<and> bits c d i))
    \<and> bits c (createInFile a) i = (bits c a i \<and> i < EOF c)
    \<and> (equals p a b \<longrightarrow> bits c a = bits c b)
    \<and> (units c a i < 2 ^ 64 \<and> units c b i < 2 ^ 64 \<longrightarrow>
        units c (createAdd a b) i = (units c a i + units c b i) mod 2 ^ 64
        \<and> (a \<noteq> Integer 0 \<or> as_Integer b \<noteq> None \<longrightarrow>
             units c (createSubtract a b) i = (units c a i + 2 ^ 64 - units c b i) mod 2 ^ 64)
        \<and> units c (createLessThan a b) i = (if units c a i < units c b i then 1 else 0)
        \<and> units c (createEquals a b) i = (if units c a i = units c b i then 1 else 0))"
  using integer_sound[of c a i b] not_sound[OF assms(1), of c] and_or_sound[OF assms(1,2), of c p] xor_sound[OF assms(1,2), of c p]
    sel_sound(2)[OF assms, of c p i] and3_sound[OF assms, of c p] or3_sound[OF assms, of c p] xor3_sound[OF assms, of c p]
    majority3_sound[OF assms, of c] and_or3_sound[OF assms, of c p] and_xor_sound[OF assms, of c p] or_and_sound[OF assms, of c p]
    or_xor_sound[OF assms, of c p] xor_and_sound[OF assms, of c p] in_file_sound[OF assms(1), of c] equals_bits[OF _ assms(1,2), of p c]
  by (simp add: means_def del: units.simps)

theorem builder_keeps_meaning_witness:
  "bits (kernel (\<lambda>v. (=) (if v = ''a'' then 2 else 3)) (\<lambda>_. 0) 9)
     (createOr one_address (And (Var ''a'') (Var ''b'')) (And (Var ''b'') (Not (Var ''a'')))) 3"
proof -
  let ?c = "kernel (\<lambda>v. (=) (if v = ''a'' then 2 else 3)) (\<lambda>_. 0) 9"
  have "bits ?c (createOr one_address (And (Var ''a'') (Var ''b'')) (And (Var ''b'') (Not (Var ''a'')))) 3 =
    (bits ?c (And (Var ''a'') (Var ''b'')) 3 \<or> bits ?c (And (Var ''b'') (Not (Var ''a''))) 3)"
    using builder_keeps_meaning[of SpanUpTo "And (Var ''a'') (Var ''b'')" "And (Var ''b'') (Not (Var ''a''))" Zeroes ?c 3 one_address]
    by simp
  then show ?thesis by simp
qed



text \<open>Markers at the odd positions, index positions 3 and 5, and the end of the file at 6.\<close>

definition markers :: kernel_state where
  "markers = kernel (\<lambda>v i. if v = ''t'' then odd i else i \<in> {3, 5}) (\<lambda>_. 5) 6"

text \<open>C36: statements of the builder with another stream than the operation has. A selection between
  an expression and its negation is the complement of the selection; the second operand of an exclusive
  or with a disjunction is dropped; zero minus a number is the number; the test for equal expressions
  takes calls of different intrinsics for one; the advance to the next index position with a name does
  not ask for the marker to be at an index position; and it stops at the end of the file where there is
  no index position.\<close>

theorem builder_defects:
  "createSel one_address (Var ''s'') (Var ''t'') (Not (Var ''t'')) = Xor (Var ''s'') (Var ''t'')
    \<and> bits c (Xor (Var ''s'') (Var ''t'')) i = (\<not> bits c (Sel (Var ''s'') (Var ''t'') (Not (Var ''t''))) i)
    \<and> createXorOr one_address (Var v) a b = (if a = Ones \<or> b = Ones then createNot (Var v) else Var v)
    \<and> createSubtract (Integer 0) (Var v) = Var v
    \<and> units (kernel s (\<lambda>_. 5) n) (Subtract (Integer 0) (Var v)) i = 2 ^ 64 - 5
    \<and> units (kernel s (\<lambda>_. 5) n) (Var v) i = 5
    \<and> createAnd one_address (IntrinsicCall SpanUpTo [Var v]) (IntrinsicCall PrintRegister [Var v]) = IntrinsicCall SpanUpTo [Var v]
    \<and> bits markers (createIndexedAdvance_named (Var ''t'') (Some (Var ''s'')) 1) 3
    \<and> \<not> indexed_advance 1 (bits markers (Var ''s'')) (bits markers (Var ''t'')) 3
    \<and> bits markers (createIndexedAdvance one_address (Var ''t'') (Some (Var ''s'')) 1) 6
    \<and> \<not> indexed_advance 1 (bits markers (Var ''s'')) (bits markers (Var ''t'')) 6"
proof -
  have m: "var_bits markers ''t'' = odd" "var_bits markers ''s'' = (\<lambda>i. i \<in> {3, 5})" "EOF markers = 6"
    by (simp_all add: markers_def)
  have eq: "equals one_address (IntrinsicCall SpanUpTo [Var v]) (IntrinsicCall PrintRegister [Var v])"
    by (simp add: equals.simps[of _ "IntrinsicCall _ _"] binary_operands.simps is_statement_def equals_self)
  have and_st: "createAnd one_address (Var ''t'') (Var ''s'') = And (Var ''t'') (Var ''s'')"
    by (simp add: createAnd.simps equals.simps in_order_def is_statement_def)
  have "bits markers (createIndexedAdvance_named (Var ''t'') (Some (Var ''s'')) 1) 3"
    using advance_then_scan_to_sound[of markers "Var ''t''" "Var ''s''" 3] m
    by (auto simp: createIndexedAdvance_named_def carried_def intro!: exI[of _ 1])
  moreover have "bits markers (createIndexedAdvance one_address (Var ''t'') (Some (Var ''s'')) 1) 6"
    using advance_then_scan_to_sound[of markers "And (Var ''t'') (Var ''s'')" "Var ''s''" 6] m
    by (auto simp: createIndexedAdvance_def and_st carried_def intro!: exI[of _ 5])
  moreover have "\<not> indexed_advance 1 (bits markers (Var ''s'')) (bits markers (Var ''t'')) 3"
    unfolding indexed_one carried_def using m by auto
  moreover have "\<not> indexed_advance 1 (bits markers (Var ''s'')) (bits markers (Var ''t'')) 6"
    unfolding indexed_one using m by simp
  ultimately show ?thesis
    using eq by (auto simp: createSel_def equals_self createXor.simps createXorOr_def createSubtract_def createAnd.simps
        equals.simps[of _ "Var ''t''" "Not (Var ''t'')"] in_order_def)
qed




lemma division_example: "plain_division (builder one_address) [Var ''a'', Var ''b''] 3"
proof -
  let ?B = "builder one_address"
  have q: "UGE_const ?B [Var ''b'', Zeroes, Zeroes] 3 = Zeroes"
    by (simp add: UGE_const_def UGT_const_def drop_bit_eq_div upt_rec bit_iff_odd builder_def createAnd.simps createOr.simps)
  have r: "length (SubModular_const ?B [Var ''b'', Zeroes, Zeroes] 3) = 3"
    using builder.SubModular_const_sound(2)[of SpanUpTo "[Var ''b'', Zeroes, Zeroes]" 3 one_address] by simp
  have sel: "mkSel ?B Zeroes a b = b" for a b by (simp add: builder_def createSel_def)
  have s: "Select ?B Zeroes w [Var ''b'', Zeroes, Zeroes] = [Var ''b'', Zeroes, Zeroes]" if "length w = 3" for w
    using that by (simp add: Select_def Select_body_def sel upt_rec numeral_3_eq_3)
  have one: "plain_loop ?B [Var ''a'', Var ''b''] 3 (Suc 0) [Var ''b'', Zeroes, Zeroes]"
    unfolding plain_loop.simps Let_def by (simp add: negation_def)
  have "plain_loop ?B [Var ''a'', Var ''b''] 3 (Suc (Suc 0)) [Zeroes, Zeroes]"
    unfolding plain_loop.simps(2)[of ?B _ 3 "Suc 0"] Let_def nth_Cons_Suc nth_Cons_0 q s[OF r] using one by (simp add: negation_def)
  then show ?thesis
    unfolding plain_division.simps[of ?B "[Var ''a'', Var ''b'']" 3] by (simp add: floor_log2.simps del: plain_loop.simps)
qed


text \<open>C39: the circuits of a character class. The one that the compiler chosen by the option and the
  number of basis bits, with plain or ternary statements, makes from the basis bits, by the builder or
  directly into a block, is set at a position below the end of the file exactly where the bits make a
  member; the one compiled from the stream of code units is set exactly at the positions below the end
  of the file whose unit is a member.\<close>

theorem character_classes_compile:
  assumes "canonical cc" "list_all leaf basis" "basis \<noteq> []" "\<forall>u \<in> codepoints cc. u < 2 ^ length basis"
    and "0 < width" "\<forall>u \<in> codepoints cc. u < 2 ^ width" "as_Integer s = None" "one_kind k s"
  shows "(\<exists>e. compileCC (builder p) (Parabix_CC_Compiler_Builder option basis) cc = Some e \<and>
      (\<forall>c x. x < EOF c \<longrightarrow> (bits c e x \<longleftrightarrow> number c x basis \<in> codepoints cc)))
    \<and> (\<exists>e. compileCC block (Parabix_CC_Compiler_Builder option basis) cc = Some e \<and>
      (\<forall>c x. x < EOF c \<longrightarrow> (bits c e x \<longleftrightarrow> number c x basis \<in> codepoints cc)))
    \<and> (\<exists>e. charset_expr (builder p) (Parabix_CC_Compiler basis) cc = Some e \<and>
      (\<forall>c x. x < EOF c \<longrightarrow> (bits c e x \<longleftrightarrow> number c x basis \<in> codepoints cc)))
    \<and> (\<exists>e. compileCCfromCodeUnitStream p (CodeUnitAlphabet nm code width) cc s = Some e \<and>
      (\<forall>c x. units c s x < 2 ^ width \<longrightarrow> (bits c e x \<longleftrightarrow> x < EOF c \<and> units c s x \<in> codepoints cc)))"
proof (intro conjI)
  have binary: "charset_expr (builder p) (Parabix_CC_Compiler basis) cc = compileCC (builder p) (Parabix_CC_Compiler_Builder ''binary'' basis) cc"
    by (simp add: Parabix_CC_Compiler_Builder_def)
  show "\<exists>e. compileCC (builder p) (Parabix_CC_Compiler_Builder option basis) cc = Some e \<and>
      (\<forall>c x. x < EOF c \<longrightarrow> (bits c e x \<longleftrightarrow> number c x basis \<in> codepoints cc))"
    using builder.compileCC_sound[OF assms(2,1,4,3), of p option] by blast
  show "\<exists>e. compileCC block (Parabix_CC_Compiler_Builder option basis) cc = Some e \<and>
      (\<forall>c x. x < EOF c \<longrightarrow> (bits c e x \<longleftrightarrow> number c x basis \<in> codepoints cc))"
    using block.compileCC_sound[OF assms(2,1,4,3), of option] by blast
  show "\<exists>e. charset_expr (builder p) (Parabix_CC_Compiler basis) cc = Some e \<and>
      (\<forall>c x. x < EOF c \<longrightarrow> (bits c e x \<longleftrightarrow> number c x basis \<in> codepoints cc))"
    unfolding binary using builder.compileCC_sound[OF assms(2,1,4,3), of p "''binary''"] by blast
  show "\<exists>e. compileCCfromCodeUnitStream p (CodeUnitAlphabet nm code width) cc s = Some e \<and>
      (\<forall>c x. units c s x < 2 ^ width \<longrightarrow> (bits c e x \<longleftrightarrow> x < EOF c \<and> units c s x \<in> codepoints cc))"
    using direct_sound[OF canonical_uset_ok[OF assms(1)] assms(5-8), of p nm code] by blast
qed

theorem character_classes_compile_witness:
  "\<exists>e. compileCC (builder one_address) (Parabix_CC_Compiler_Builder [] (replicate 8 (Var ''b''))) (UnicodeSet_singleton 255) = Some e \<and>
     bits (kernel (\<lambda>v i. v = ''b'') (\<lambda>_. 0) 9) e 4"
proof -
  let ?c = "kernel (\<lambda>v i. v = ''b'') (\<lambda>_. 0) 9" and ?b = "replicate 8 (Var ''b'')"
  have cc: "canonical (UnicodeSet_singleton 255)" "codepoints (UnicodeSet_singleton 255) = {255}" by (simp_all add: UnicodeSet_singleton_spec)
  have basis: "list_all leaf ?b" by (simp add: list_all_iff)
  have "\<exists>e. compileCC (builder one_address) (Parabix_CC_Compiler_Builder [] ?b) (UnicodeSet_singleton 255) = Some e \<and>
      (\<forall>c x. x < EOF c \<longrightarrow> (bits c e x \<longleftrightarrow> number c x ?b \<in> codepoints (UnicodeSet_singleton 255)))"
    using character_classes_compile[of "UnicodeSet_singleton 255" ?b 8 "Var ''u''" SpanUpTo one_address "[]"] cc basis by auto
  moreover have "number ?c 4 ?b = 255" by (simp add: number_def low_def numeral_nat)
  moreover have "4 < EOF ?c" by simp
  ultimately show ?thesis using cc(2) by (metis insertI1)
qed

end
