(* ===== verification/Spec2Isabelle.thy ===== *)
theory Spec2Isabelle imports USet_Props UTF_Props RE_Pass_Props Pablo_Props begin

text \<open>
  A verification development for the core of Parabix: sets of Unicode code points, the encodings of
  code points, regular expressions with their constructors, analyses and transformations, the bit
  stream language Pablo with its simplifying builder, arithmetic on parallel bit streams, and the
  compilers of character classes to circuits.

  \<^bold>\<open>The program.\<close> A regular expression is parsed to a tree of \<open>include/re/adt\<close>, whose leaves are
  character classes, that is, sets of code points of \<open>lib/ucd/core/unicode_set.cpp\<close> with an alphabet.
  Analyses (\<open>lib/re/analysis\<close>) and transformations (\<open>lib/re/transforms\<close>) prepare the tree; one of them,
  \<open>toUTF8\<close>, replaces classes of code points by sequences of classes of bytes, with the encoder of
  \<open>lib/ucd/utf/utf_encoder.cpp\<close>. The classes are then compiled (\<open>lib/re/cc/cc_compiler.cpp\<close>) to boolean
  circuits over the basis bits of the input, in the language Pablo (\<open>lib/pablo\<close>), whose statements are
  simplified as they are created (\<open>builder.cpp\<close>). Circuits on numbers, one bit stream for each digit, are
  made by \<open>bixnum/bixnum.cpp\<close>. The LLVM code generated from Pablo runs over blocks of the input.

  \<^bold>\<open>The theories.\<close>
  \<^item> \<open>Prelude\<close>: lemmas on lists, numbers and words that several theories use.
  \<^item> \<open>USet_Core\<close>, \<open>USet_Iter\<close>, \<open>USet_Ops\<close>, \<open>USet_Compare\<close>, \<open>USet_Query\<close>, \<open>USet_Build\<close>, \<open>USet_Insert\<close>,
    \<open>USet_Range\<close>, \<open>USet_Intervals\<close>: the class \<open>UnicodeSet\<close>. A set is a record of runs (empty, full, mixed,
    with a length in quads of 32 code points) and the list of the mixed quads, which are words of 32 bits;
    \<open>codepoints\<close> is the abstraction, \<open>uset_ok\<close> what the sanity check \<open>verify\<close> asks, \<open>canonical\<close> the form
    in which equal sets have equal arrays. Every operation of the class is shown to preserve the invariant
    and to compute the operation on the abstraction; \<open>USet_Props\<close> holds the properties.
  \<^item> \<open>UTF\<close>, \<open>Transchar\<close>: the encoder (\<open>UTF_Encoder\<close>) and the translation sets of
    \<open>lib/ucd/utf/transchar.cpp\<close>; properties in \<open>UTF_Props\<close>.
  \<^item> \<open>RE_Base\<close>, \<open>RE_Make\<close>, \<open>RE_Rep\<close>, \<open>RE_Lang\<close>, \<open>RE_Plain\<close>: alphabets, the datatype of expressions, the
    \<open>make\<close> functions, and the meaning \<open>den\<close> of an expression as the set of spans of positions it matches in
    a text, in a context \<open>sem\<close> that gives the text, the line ends and what external names match. \<open>plain\<close> is
    the class of expressions on which no constructor fails or loses a span.
  \<^item> \<open>RE_Transform\<close>, \<open>RE_Sound\<close>: the class \<open>RE_Transformer\<close> as a record of its virtual methods. The locale
    \<open>span_relation\<close> is a relation between spans that the operations of expressions respect,
    \<open>sound_methods\<close> the contract of the methods over it, under which the traversal is right; a
    transformation is an interpretation. \<open>RE_UTF8\<close> and \<open>RE_Text\<close> do so for \<open>toUTF8\<close>.
  \<^item> \<open>RE_Order\<close> (\<open>memoization.cpp\<close>), \<open>RE_Validate\<close> (\<open>validation.cpp\<close>, \<open>nullable.cpp\<close>), \<open>RE_Length\<close>,
    \<open>RE_Anchor\<close> (\<open>re_analysis.cpp\<close>): the order of the memoization tables, the validators as records of
    methods, the ranges of match lengths in the arithmetic of \<open>int\<close>, the anchors and offsets of matches;
    properties of expressions in \<open>RE_Props\<close>.
  \<^item> \<open>RE_Pass\<close>, \<open>RE_Pass_Sound\<close>, \<open>RE_Pass_Safe\<close>, \<open>RE_Pass_Ends\<close>, \<open>RE_Pass_Exclude\<close>, \<open>RE_Pass_Empty\<close>: passes
    of \<open>lib/re/transforms\<close> as updates of the table of methods. The locale \<open>pass\<close> says that a pass is right
    when each method is right on the results for the operands; it is interpreted for each pass, with
    equality of spans, equality of one end of the spans (\<open>span_union\<close>, a relation that only unions
    respect), the spans of a text without excluded symbols (\<open>without\<close>) or the spans that are not empty
    (\<open>nonempty_part\<close>); properties in \<open>RE_Pass_Props\<close>.
  \<^item> \<open>Pablo_Base\<close>, \<open>Pablo_Build\<close>, \<open>Pablo_Sound\<close>, \<open>Pablo_Stream\<close>: the expressions of Pablo with their streams
    \<open>bits\<close>, functions from positions to booleans, \<open>equals\<close>, every function of the builder, and that it
    keeps the streams. The locale \<open>sound_ops\<close> is the contract of the operations that the other
    compilers call (\<open>PabloBlockOrBuilder\<close> in the program); it is interpreted on the builder and on the block.
  \<^item> \<open>BixNum\<close>, \<open>BixNum_Sound\<close>, \<open>BixNum_Arith\<close>, \<open>BixNum_Mul\<close>: \<open>BixNumCompiler\<close>, proved inside \<open>sound_ops\<close>;
    \<open>number c x v\<close> is the number that the streams \<open>v\<close> make at position \<open>x\<close>.
  \<^item> \<open>CC_Compile\<close>, \<open>CC_Sound\<close>, \<open>CC_Ternary\<close>, \<open>CC_Ternary_Sound\<close>, \<open>CC_Direct\<close>: the three compilers of character
    classes and the choice between them, inside \<open>sound_ops\<close>; the properties of Pablo, numbers and classes
    are in \<open>Pablo_Props\<close>.

  \<^bold>\<open>Conventions.\<close> A fatal error, an exception or a failed assertion is \<open>None\<close> or \<open>Inl\<close>. Shared nodes are
  trees; where the program compares addresses, the comparison is a parameter (\<open>same\<close>, \<open>addresses\<close>) of which
  only that one address has one content is assumed. Objects reused by a transformation are told from new
  ones by a flag of the result. Code points and sizes are natural numbers where the program cannot
  overflow, words of 32 bits in quads, and \<open>int\<close> with \<open>int32\<close> in the lengths of matches; the products
  of bounds in \<open>makeRep\<close> are exact. Loops are recursion with a measure; the only fuel is in the bit scans
  of words and of code points, of 32 or 64 steps, the width of the type. Streams are unbounded: a block of
  the generated code with the carries of the blocks before is a part of the stream.

  \<^bold>\<open>Defects.\<close> Where the code misses its aim, the property is stated with the condition under which it
  holds, and a theorem exhibits the inputs where it does not.

  \<^bold>\<open>Not modelled.\<close> The generated tables of the Unicode character database, which are most lines of the
  repository; the LLVM code generation (\<open>lib/idisa\<close>, \<open>lib/kernel\<close>, \<open>lib/codegen\<close>) whose meaning is outside
  the repository; the pipelines, tools and input and output; the parsers; of Pablo the statement lists with
  \<open>if\<close>, \<open>while\<close> and assignments, hence the passes over them and the compiler of regular
  expressions \<open>re_compiler.cpp\<close>; allocators, reference counts and names of statements.
\<close>

end
